(* ===== verification/Prelude.thy ===== *)
theory Prelude
  imports Complex_Main "HOL-Library.Word"
begin

text \<open>
  Shared vocabulary of the NetCoreNOC development: the Python values the components exchange
  (byte strings, text, seconds), Python's little- and big-endian integer conversions, slices of
  byte strings, and the generic list facts the component proofs share.

  Conventions. A \<open>bytes\<close> value is a list of 8-bit words. A sequence number, a length or an
  offset is a \<open>nat\<close>. A time stamp (a Python \<open>float\<close> of seconds) that is only
  compared, added and subtracted is a \<open>real\<close>. An exception is the left injection of a sum.
\<close>

unbundle bit_operations_syntax

type_synonym byte = "8 word"
type_synonym bytes = "byte list"
type_synonym seconds = real

named_theorems bytes_simps \<open>lengths and values of fixed-width integer encodings\<close>
named_theorems slice_simps \<open>slices of concatenated byte strings\<close>

section \<open>Integers as bytes\<close>

text \<open>\<open>int.to_bytes(n, "little")\<close> and the \<open>struct\<close> codes with the prefix
  \<open><\<close>: the low byte first. The reader's inverse is \<open>int.from_bytes(_, "little")\<close>.\<close>

fun le_bytes :: "nat \<Rightarrow> nat \<Rightarrow> bytes" where
  "le_bytes 0 x = []"
| "le_bytes (Suc n) x = word_of_nat (x mod 256) # le_bytes n (x div 256)"

fun le_val :: "bytes \<Rightarrow> nat" where
  "le_val [] = 0"
| "le_val (b # bs) = unat b + 256 * le_val bs"

text \<open>\<open>int.from_bytes(_, "big")\<close>, unsigned and two's complement.\<close>

definition be_val :: "bytes \<Rightarrow> nat" where
  "be_val bs = foldl (\<lambda>acc b. 256 * acc + unat b) 0 bs"

definition be_signed :: "bytes \<Rightarrow> int" where
  "be_signed bs =
     (let u = int (be_val bs); m = 2 ^ (8 * length bs)
      in if bs \<noteq> [] \<and> 128 \<le> unat (hd bs) then u - m else u)"

text \<open>A Python slice \<open>data[i:j]\<close> with \<open>0 \<le> i\<close> and \<open>0 \<le> j\<close>: out of range
  is clipped, never an error.\<close>

definition bslice :: "'a list \<Rightarrow> nat \<Rightarrow> nat \<Rightarrow> 'a list" where
  "bslice xs i j = take (j - i) (drop i xs)"

text \<open>Statements in sequence where each may raise: the first exception is the result.\<close>

fun and_then :: "'e + 'a \<Rightarrow> ('a \<Rightarrow> 'e + 'b) \<Rightarrow> 'e + 'b" where
  "and_then (Inl e) f = Inl e"
| "and_then (Inr x) f = f x"

fun for_each :: "('a \<Rightarrow> 'e + 'b) \<Rightarrow> 'a list \<Rightarrow> 'e + 'b list" where
  "for_each f [] = Inr []"
| "for_each f (x # xs) = and_then (f x) (\<lambda>y. and_then (for_each f xs) (\<lambda>ys. Inr (y # ys)))"

section \<open>Generic facts\<close>

lemma and_then_Inr: "and_then r f = Inr y \<longleftrightarrow> (\<exists>x. r = Inr x \<and> f x = Inr y)"
  by (cases r) auto

lemma and_then_Inl: "and_then r f = Inl e \<longleftrightarrow> r = Inl e \<or> (\<exists>x. r = Inr x \<and> f x = Inl e)"
  by (cases r) auto

lemma for_each_Inr: "for_each f xs = Inr ys \<longleftrightarrow> list_all2 (\<lambda>x y. f x = Inr y) xs ys"
  by (induction xs arbitrary: ys) (auto simp: and_then_Inr list_all2_Cons1)

lemma for_each_map: "\<forall>x \<in> set xs. f (g x) = Inr (h x) \<Longrightarrow> for_each f (map g xs) = Inr (map h xs)"
  by (induction xs) auto


lemma length_le_bytes [simp, bytes_simps]: "length (le_bytes n x) = n"
  by (induction n arbitrary: x) auto

lemma unat_byte_of_mod [simp, bytes_simps]: "unat (word_of_nat (x mod 256) :: byte) = x mod 256"
  by (simp add: unat_of_nat)

lemma le_val_le_bytes [bytes_simps]: "x < 256 ^ n \<Longrightarrow> le_val (le_bytes n x) = x"
proof (induction n arbitrary: x)
  case 0
  then show ?case by simp
next
  case (Suc n)
  then have "x div 256 < 256 ^ n"
    by (simp add: less_mult_imp_div_less mult.commute)
  then have "le_val (le_bytes n (x div 256)) = x div 256"
    by (rule Suc.IH)
  then show ?case
    by (simp only: le_bytes.simps le_val.simps unat_byte_of_mod) simp
qed

lemma le_val_bound: "le_val bs < 256 ^ length bs"
proof (induction bs)
  case Nil
  then show ?case by simp
next
  case (Cons b bs)
  have "unat b < 256"
    using unsigned_less [of b] by simp
  with Cons.IH show ?case
    by simp
qed

lemma le_val_inj: "length as = length bs \<Longrightarrow> le_val as = le_val bs \<Longrightarrow> as = bs"
proof (induction as bs rule: list_induct2)
  case Nil
  then show ?case by simp
next
  case (Cons a as b bs)
  have bounds: "unat a < 256" "unat b < 256"
    using unsigned_less [of a] unsigned_less [of b] by simp_all
  have eq: "unat a + 256 * le_val as = unat b + 256 * le_val bs"
    using Cons.prems by simp
  then have "(unat a + 256 * le_val as) mod 256 = (unat b + 256 * le_val bs) mod 256"
    by (rule arg_cong)
  then have "unat a = unat b"
    using bounds by simp
  with eq have "le_val as = le_val bs"
    by simp
  with \<open>unat a = unat b\<close> show ?case
    using Cons.IH by (simp add: word_unat_eq_iff)
qed

lemma le_bytes_le_val [bytes_simps]: "n = length bs \<Longrightarrow> le_bytes n (le_val bs) = bs"
  by (rule le_val_inj) (use le_val_bound [of bs] in \<open>simp_all add: le_val_le_bytes\<close>)

lemma xor_right_cancel [simp]: "a XOR c = b XOR c \<longleftrightarrow> a = b" for a b c :: "'a::len word"
  by (auto simp: bit_eq_iff bit_xor_iff)

lemma xor_left_cancel [simp]: "c XOR a = c XOR b \<longleftrightarrow> a = b" for a b c :: "'a::len word"
  by (auto simp: bit_eq_iff bit_xor_iff)

lemma not_cancel_word [simp]: "NOT a = NOT b \<longleftrightarrow> a = b" for a b :: "'a::len word"
  by (metis bit.double_compl)

lemma be_val_snoc: "be_val (bs @ [b]) = 256 * be_val bs + unat b"
  by (simp add: be_val_def)

lemma be_val_bound: "be_val bs < 256 ^ length bs"
proof (induction bs rule: rev_induct)
  case Nil
  then show ?case by (simp add: be_val_def)
next
  case (snoc b bs)
  have "unat b < 256"
    using unsigned_less [of b] by simp
  with snoc.IH show ?case
    by (simp add: be_val_snoc)
qed

lemma slice_length: "length (bslice xs i j) = min (j - i) (length xs - i)"
  by (simp add: bslice_def min.commute)

lemma slice_append_right [slice_simps]:
  "length xs \<le> i \<Longrightarrow> bslice (xs @ ys) i j = bslice ys (i - length xs) (j - length xs)"
  by (simp add: bslice_def)

lemma slice_prefix [slice_simps]: "j = length xs \<Longrightarrow> bslice (xs @ ys) 0 j = xs"
  by (simp add: bslice_def)

lemma slice_append_left [slice_simps]:
  "j \<le> length xs \<Longrightarrow> bslice (xs @ ys) i j = bslice xs i j"
  by (cases "i \<le> j") (auto simp: bslice_def take_drop)

lemma bslice_split: "i \<le> j \<Longrightarrow> j \<le> k \<Longrightarrow> bslice xs i k = bslice xs i j @ bslice xs j k"
proof -
  assume "i \<le> j" "j \<le> k"
  then have "k - i = (j - i) + (k - j)" and "drop j xs = drop (j - i) (drop i xs)"
    by simp_all
  then show ?thesis
    by (simp only: bslice_def take_add)
qed

lemma bslice_self [simp]: "bslice xs i i = []"
  by (simp add: bslice_def)

end
