(* ===== verification/Ber.thy ===== *)
theory Ber
  imports Prelude
begin

text \<open>
  \<open>ingest/ber.py\<close>: the BER primitives the receiver walks by hand. A length, a
  tag-length-value, an integer, each read at an offset of the datagram. A failure is a
  \<open>BerError\<close>; the model makes it the left injection, with one constructor per message.
\<close>

section \<open>Reading\<close>

datatype ber_error = Truncated | Unexpected_Tag nat nat | Bad_Length | Bad_Integer

record Tlv =
  tlv_tag :: nat
  tlv_offset :: nat
  tlv_start :: nat
  tlv_end :: nat

definition read_length :: "bytes \<Rightarrow> nat \<Rightarrow> (nat \<times> nat) option" where
  "read_length data i =
     (if length data \<le> i then None
      else
        let first = unat (data ! i); i = i + 1
        in if first < 0x80 then Some (first, i)
           else
             let count = unat (word_of_nat first AND 0x7F :: byte)
             in if count = 0 \<or> 4 < count \<or> length data < i + count then None
                else Some (be_val (bslice data i (i + count)), i + count))"

definition tlv :: "bytes \<Rightarrow> nat \<Rightarrow> nat option \<Rightarrow> ber_error + Tlv" where
  "tlv data i tag =
     (if length data \<le> i then Inl Truncated
      else
        let found = unat (data ! i)
        in case tag of
             Some t \<Rightarrow>
               if found \<noteq> t then Inl (Unexpected_Tag t found)
               else (case read_length data (i + 1) of
                   None \<Rightarrow> Inl Bad_Length
                 | Some (len, start) \<Rightarrow>
                     if length data < start + len then Inl Bad_Length
                     else Inr \<lparr>tlv_tag = found, tlv_offset = i, tlv_start = start, tlv_end = start + len\<rparr>)
           | None \<Rightarrow>
               (case read_length data (i + 1) of
                   None \<Rightarrow> Inl Bad_Length
                 | Some (len, start) \<Rightarrow>
                     if length data < start + len then Inl Bad_Length
                     else Inr \<lparr>tlv_tag = found, tlv_offset = i, tlv_start = start, tlv_end = start + len\<rparr>))"

definition integer :: "bytes \<Rightarrow> Tlv \<Rightarrow> ber_error + int" where
  "integer data element =
     (let content = bslice data (tlv_start element) (tlv_end element)
      in if \<not> (1 \<le> length content \<and> length content \<le> 8) then Inl Bad_Integer
         else Inr (be_signed content))"

section \<open>Bounds\<close>

lemma read_length_bounds:
  "read_length data i = Some (len, start) \<Longrightarrow> i < start \<and> start \<le> i + 5 \<and> start \<le> length data \<and> len < 256 ^ 4"
proof -
  have be4: "be_val (bslice data j (j + c)) < 256 ^ 4" if "c \<le> 4" for j c
  proof -
    have "be_val (bslice data j (j + c)) < 256 ^ length (bslice data j (j + c))"
      by (rule be_val_bound)
    also have "\<dots> \<le> 256 ^ 4"
      using that by (intro power_increasing) (auto simp: slice_length)
    finally show ?thesis .
  qed
  assume "read_length data i = Some (len, start)"
  then show ?thesis
    using be4 [of _ "Suc i"]
    by (auto simp: read_length_def Let_def split: if_splits)
qed

lemma tlv_Inr:
  assumes "tlv data i tag = Inr e"
  shows "tlv_offset e = i \<and> i < length data \<and> tlv_tag e = unat (data ! i)
    \<and> (case tag of None \<Rightarrow> True | Some t \<Rightarrow> tlv_tag e = t)
    \<and> read_length data (i + 1) = Some (tlv_end e - tlv_start e, tlv_start e)
    \<and> tlv_start e \<le> tlv_end e \<and> tlv_end e \<le> length data"
  using assms by (auto simp: tlv_def Let_def split: if_splits option.splits)

text \<open>Every element \<open>tlv\<close> returns lies inside the datagram it was read from: its content
  begins after its tag and at most five length octets, ends at or before the end of the data, and
  carries the tag that was asked for. So blanking or zeroing the content never touches a byte
  outside the message, whatever the bytes are.\<close>

theorem tlv_inside:
  assumes "tlv data i tag = Inr e"
  shows "i = tlv_offset e \<and> tlv_offset e + 2 \<le> tlv_start e \<and> tlv_start e \<le> tlv_offset e + 6
    \<and> tlv_start e \<le> tlv_end e \<and> tlv_end e \<le> length data
    \<and> (\<forall>t. tag = Some t \<longrightarrow> tlv_tag e = t)"
  using tlv_Inr [OF assms] read_length_bounds [of data "i + 1"]
  by (auto split: option.splits)

theorem tlv_inside_witness:
  "tlv [0x30, 0x03, 0x02, 0x01, 0x05] 2 (Some 0x02)
     = Inr \<lparr>tlv_tag = 2, tlv_offset = 2, tlv_start = 4, tlv_end = 5\<rparr>
   \<and> (4::nat) \<le> 2 + 6"
proof -
  have h: "tlv [0x30, 0x03, 0x02, 0x01, 0x05] 2 (Some 0x02)
     = Inr \<lparr>tlv_tag = 2, tlv_offset = 2, tlv_start = 4, tlv_end = 5\<rparr>"
    by (simp add: tlv_def read_length_def Let_def)
  show ?thesis
    using h tlv_inside [OF h] by simp
qed

end
