(* ===== verification/Spool_Frame.thy ===== *)
theory Spool_Frame
  imports Prelude
begin

text \<open>
  \<open>ingest/spool.py\<close>, the record format: \<open>frame\<close> writes one record (length, CRC-32,
  sequence number, payload) and \<open>parse\<close> reads the whole, intact records of a buffer and
  stops at the first one that is incomplete or damaged. The CRC is Python's \<open>zlib.crc32\<close>:
  the reflected polynomial 0xEDB88320 on 32-bit words, inverted before and after.
\<close>

section \<open>CRC-32\<close>

type_synonym u32 = "32 word"

definition crc_step :: "u32 \<Rightarrow> u32" where
  "crc_step c = (if bit c 0 then drop_bit 1 c XOR 0xEDB88320 else drop_bit 1 c)"

definition crc_byte :: "u32 \<Rightarrow> byte \<Rightarrow> u32" where
  "crc_byte c b = (crc_step ^^ 8) (c XOR ucast b)"

definition crc32 :: "bytes \<Rightarrow> u32 \<Rightarrow> u32" where
  "crc32 data value = NOT (foldl crc_byte (NOT value) data)"

section \<open>Records\<close>

datatype frame_error = Overflow_Error | Struct_Error

definition HEADER_SIZE :: nat where
  "HEADER_SIZE = 16"

definition MAX_PAYLOAD :: nat where
  "MAX_PAYLOAD = 256 * 1024"

definition record_crc :: "nat \<Rightarrow> bytes \<Rightarrow> u32" where
  "record_crc seq payload = crc32 payload (crc32 (le_bytes 8 seq) 0)"

text \<open>The bytes of a record whose fields fit their widths, and \<open>frame\<close> itself, which
  raises where they do not: \<open>seq.to_bytes(8)\<close> is evaluated before the header is packed.\<close>

definition frame_bytes :: "nat \<Rightarrow> bytes \<Rightarrow> bytes" where
  "frame_bytes seq payload =
     le_bytes 4 (length payload) @ le_bytes 4 (unat (record_crc seq payload)) @ le_bytes 8 seq @ payload"

definition frame :: "nat \<Rightarrow> bytes \<Rightarrow> frame_error + bytes" where
  "frame seq payload =
     (if 2 ^ 64 \<le> seq then Inl Overflow_Error
      else if 2 ^ 32 \<le> length payload then Inl Struct_Error
      else Inr (frame_bytes seq payload))"

function parse :: "bytes \<Rightarrow> nat \<Rightarrow> (nat \<times> bytes) list \<times> nat \<times> bool" where
  "parse buffer offset =
     (if offset + HEADER_SIZE \<le> length buffer then
        let len = le_val (bslice buffer offset (offset + 4));
            crc = le_val (bslice buffer (offset + 4) (offset + 8));
            seq = le_val (bslice buffer (offset + 8) (offset + 16))
        in if MAX_PAYLOAD < len then ([], offset, True)
           else
             let end = offset + HEADER_SIZE + len
             in if length buffer < end then ([], offset, False)
                else
                  let payload = bslice buffer (offset + HEADER_SIZE) end
                  in if unat (record_crc seq payload) \<noteq> crc then ([], offset, True)
                     else let (out, stop, corrupt) = parse buffer end
                          in ((seq, payload) # out, stop, corrupt)
      else ([], offset, False))"
  by pat_completeness auto
termination
  by (relation "measure (\<lambda>(buffer, offset). length buffer - offset)") (auto simp: HEADER_SIZE_def)

declare parse.simps [simp del]

text \<open>A record the format can carry and the reader accepts.\<close>

definition record_ok :: "nat \<times> bytes \<Rightarrow> bool" where
  "record_ok r \<longleftrightarrow> fst r < 2 ^ 64 \<and> length (snd r) \<le> MAX_PAYLOAD"

definition frames :: "(nat \<times> bytes) list \<Rightarrow> bytes" where
  "frames rs = concat (map (\<lambda>r. frame_bytes (fst r) (snd r)) rs)"

section \<open>The CRC is a bijection of its state\<close>

lemma crc_step_top: "bit (crc_step c) 31 = bit c 0"
  by (auto simp: crc_step_def bit_simps dest: bit_imp_le_length)

lemma crc_step_even: "even c \<Longrightarrow> crc_step c = drop_bit 1 c"
  and crc_step_odd: "odd c \<Longrightarrow> crc_step c = drop_bit 1 c XOR 0xEDB88320"
  by (simp_all add: crc_step_def bit_0)

lemma crc_step_inj: "crc_step a = crc_step b \<Longrightarrow> a = b"
proof -
  assume eq: "crc_step a = crc_step b"
  have low: "bit a 0 = bit b 0"
    using crc_step_top [of a] crc_step_top [of b] eq by simp
  have drop: "drop_bit 1 a = drop_bit 1 b"
    using eq low by (auto simp: crc_step_def split: if_splits)
  have "bit a n = bit b n" for n
  proof (cases n)
    case 0
    with low show ?thesis by simp
  next
    case (Suc m)
    have "bit (drop_bit 1 a) m = bit (drop_bit 1 b) m"
      using drop by simp
    with Suc show ?thesis by (simp add: bit_drop_bit_eq)
  qed
  then show "a = b"
    by (simp add: bit_eq_iff)
qed

lemma inj_crc_step: "inj crc_step"
  by (rule injI) (rule crc_step_inj)

lemma crc_byte_eq_iff [simp]: "crc_byte c b = crc_byte d b \<longleftrightarrow> c = d"
proof -
  have "inj (crc_step ^^ 8)"
    by (rule inj_fn) (rule inj_crc_step)
  then show ?thesis
    by (simp add: crc_byte_def inj_eq)
qed

lemma ucast_u32_eq_iff: "(ucast b :: u32) = ucast d \<longleftrightarrow> b = d" for b d :: byte
proof
  assume eq: "(ucast b :: u32) = ucast d"
  have "bit b n = bit d n" if "n < 8" for n
    using eq [THEN arg_cong, of "\<lambda>w. bit w n"] that by (simp add: bit_ucast_iff)
  then show "b = d"
    by (simp add: bit_eq_iff)
qed simp

lemma crc_byte_eq_iff_byte [simp]: "crc_byte c b = crc_byte c d \<longleftrightarrow> b = d"
proof -
  have "inj (crc_step ^^ 8)"
    by (rule inj_fn) (rule inj_crc_step)
  then show ?thesis
    by (simp add: crc_byte_def inj_eq ucast_u32_eq_iff)
qed

lemma foldl_crc_eq_iff [simp]: "foldl crc_byte c data = foldl crc_byte d data \<longleftrightarrow> c = d"
  by (induction data arbitrary: c d) auto

lemma crc32_append: "crc32 (xs @ ys) v = crc32 ys (crc32 xs v)"
  by (simp add: crc32_def)

lemma crc32_one_byte:
  assumes "i < length data" and "b \<noteq> data ! i"
  shows "crc32 (data[i := b]) v \<noteq> crc32 data v"
proof -
  obtain xs y ys where data: "data = xs @ y # ys" and i: "i = length xs"
    using id_take_nth_drop [OF assms(1)] assms(1) by (metis length_take min.absorb4)
  with assms(2) show ?thesis
    by (simp add: crc32_def)
qed


section \<open>Reading back what was written\<close>

lemma length_frame_bytes [simp]: "length (frame_bytes seq payload) = HEADER_SIZE + length payload"
  by (simp add: frame_bytes_def HEADER_SIZE_def)

lemma frames_simps [simp]:
  "frames [] = []" "frames (r # rs) = frame_bytes (fst r) (snd r) @ frames rs"
  "frames (rs @ ss) = frames rs @ frames ss"
  by (simp_all add: frames_def)

lemma unat_record_crc_bound: "unat (record_crc seq payload) < 256 ^ 4"
  using unsigned_less [of "record_crc seq payload"] by simp

lemma MAX_PAYLOAD_bound: "n \<le> MAX_PAYLOAD \<Longrightarrow> n < 256 ^ 4"
  by (simp add: MAX_PAYLOAD_def)

lemma header_fields:
  fixes pre rest :: bytes
  assumes "length payload \<le> MAX_PAYLOAD" and "seq < 2 ^ 64"
  defines "buffer \<equiv> pre @ frame_bytes seq payload @ rest"
  shows "le_val (bslice buffer (length pre) (length pre + 4)) = length payload"
    and "le_val (bslice buffer (length pre + 4) (length pre + 8)) = unat (record_crc seq payload)"
    and "le_val (bslice buffer (length pre + 8) (length pre + 16)) = seq"
    and "bslice buffer (length pre + 16) (length pre + 16 + length payload) = payload"
proof -
  have "le_val (le_bytes 4 (length payload)) = length payload"
    using MAX_PAYLOAD_bound [OF assms(1)] by (rule le_val_le_bytes)
  then show "le_val (bslice buffer (length pre) (length pre + 4)) = length payload"
    by (simp add: buffer_def frame_bytes_def bslice_def)
  have "le_val (le_bytes 4 (unat (record_crc seq payload))) = unat (record_crc seq payload)"
    using unat_record_crc_bound by (rule le_val_le_bytes)
  then show "le_val (bslice buffer (length pre + 4) (length pre + 8)) = unat (record_crc seq payload)"
    by (simp add: buffer_def frame_bytes_def bslice_def)
  have "le_val (le_bytes 8 seq) = seq"
    using assms(2) by (intro le_val_le_bytes) simp
  then show "le_val (bslice buffer (length pre + 8) (length pre + 16)) = seq"
    by (simp add: buffer_def frame_bytes_def bslice_def)
  show "bslice buffer (length pre + 16) (length pre + 16 + length payload) = payload"
    by (simp add: buffer_def frame_bytes_def bslice_def)
qed

lemma parse_frame:
  assumes "record_ok (seq, payload)"
  shows "parse (pre @ frame_bytes seq payload @ rest) (length pre) =
    (let (out, stop, corrupt) = parse (pre @ frame_bytes seq payload @ rest) (length pre + 16 + length payload)
     in ((seq, payload) # out, stop, corrupt))"
  using assms header_fields [of payload seq pre rest]
  by (subst parse.simps) (simp add: record_ok_def HEADER_SIZE_def Let_def)

lemma parse_frames_append:
  assumes "\<forall>r \<in> set rs. record_ok r"
  shows "parse (pre @ frames rs @ rest) (length pre) =
    (let (out, stop, corrupt) = parse (pre @ frames rs @ rest) (length pre + length (frames rs))
     in (rs @ out, stop, corrupt))"
  using assms
proof (induction rs arbitrary: pre)
  case Nil
  then show ?case by simp
next
  case (Cons r rs)
  obtain seq payload where r: "r = (seq, payload)"
    by fastforce
  let ?f = "frame_bytes seq payload"
  from Cons.prems r have ok: "record_ok (seq, payload)" and rest: "\<forall>r \<in> set rs. record_ok r"
    by auto
  have len: "length (pre @ ?f) = length pre + 16 + length payload"
    by (simp add: HEADER_SIZE_def)
  have "parse (pre @ ?f @ frames rs @ rest) (length pre + 16 + length payload) =
    (let (out, stop, corrupt) = parse (pre @ ?f @ frames rs @ rest)
        (length pre + 16 + length payload + length (frames rs))
     in (rs @ out, stop, corrupt))"
    using Cons.IH [OF rest, of "pre @ ?f"] unfolding len by simp
  with parse_frame [OF ok, of pre "frames rs @ rest"] show ?case
    by (simp add: r HEADER_SIZE_def split_def Let_def ac_simps)
qed

text \<open>A record whose bytes are not all there: nothing is returned for it, and it is not
  called corrupt, because the rest may still come.\<close>

lemma parse_torn:
  assumes ok: "record_ok (seq, payload)" and n: "n < length (frame_bytes seq payload)"
  shows "parse (pre @ take n (frame_bytes seq payload)) (length pre) = ([], length pre, False)"
proof (cases "n < 16")
  case True
  with n show ?thesis
    by (subst parse.simps) (simp add: HEADER_SIZE_def)
next
  case False
  let ?f = "frame_bytes seq payload"
  have "bslice (pre @ take n ?f) (length pre) (length pre + 4) = bslice (pre @ ?f @ []) (length pre) (length pre + 4)"
    using False by (simp add: bslice_def)
  with ok have "le_val (bslice (pre @ take n ?f) (length pre) (length pre + 4)) = length payload"
    using header_fields(1) [of payload seq pre "[]"] by (simp add: record_ok_def)
  with False n ok show ?thesis
    by (subst parse.simps) (simp add: HEADER_SIZE_def Let_def record_ok_def)
qed

lemma funpow_8: "(f ^^ 8) x = f (f (f (f (f (f (f (f x)))))))"
  by (simp add: numeral_eq_Suc)

lemma parse_whole_then_torn:
  assumes "\<forall>r \<in> set rs. record_ok r" and "record_ok torn"
    and "n < length (frame_bytes (fst torn) (snd torn))"
  shows "parse (frames rs @ take n (frame_bytes (fst torn) (snd torn))) 0
    = (rs, length (frames rs), False)"
  using parse_frames_append [OF assms(1), of "[]" "take n (frame_bytes (fst torn) (snd torn))"]
    parse_torn [of "fst torn" "snd torn" n "frames rs"] assms(2,3)
  by simp

text \<open>The check value every CRC-32 implementation publishes: the CRC of the text
  \<open>123456789\<close>.\<close>

lemma crc32_check_value:
  "crc32 [0x31, 0x32, 0x33, 0x34, 0x35, 0x36, 0x37, 0x38, 0x39] 0 = 0xCBF43926"
  by (simp add: crc32_def crc_byte_def crc_step_even crc_step_odd funpow_8)

section \<open>What parse returns is what was in the buffer\<close>

lemma frame_bytes_of_slice:
  fixes buffer offset len
  defines "seq \<equiv> le_val (bslice buffer (offset + 8) (offset + 16))"
    and "payload \<equiv> bslice buffer (offset + 16) (offset + 16 + len)"
  assumes "offset + 16 + len \<le> length buffer"
    and "le_val (bslice buffer offset (offset + 4)) = len"
    and "unat (record_crc seq payload) = le_val (bslice buffer (offset + 4) (offset + 8))"
  shows "frame_bytes seq payload = bslice buffer offset (offset + 16 + len)"
proof -
  have payload: "length payload = len"
    using assms(3) by (simp add: payload_def slice_length)
  have four: "le_bytes n (le_val (bslice buffer i j)) = bslice buffer i j"
    if "j = i + n" "j \<le> length buffer" for i j n
    using that by (intro le_bytes_le_val) (simp add: slice_length)
  have "bslice buffer offset (offset + 16 + len) =
      bslice buffer offset (offset + 4) @ bslice buffer (offset + 4) (offset + 8) @
      bslice buffer (offset + 8) (offset + 16) @ payload"
    unfolding payload_def
    using bslice_split [of offset "offset + 4" "offset + 16 + len" buffer]
      bslice_split [of "offset + 4" "offset + 8" "offset + 16 + len" buffer]
      bslice_split [of "offset + 8" "offset + 16" "offset + 16 + len" buffer]
    by simp
  moreover have "le_bytes 4 len = bslice buffer offset (offset + 4)"
    using four [of "offset + 4" offset 4] assms(3,4) by simp
  moreover have "le_bytes 4 (unat (record_crc seq payload)) = bslice buffer (offset + 4) (offset + 8)"
    using four [of "offset + 8" "offset + 4" 4] assms(3,5) by simp
  moreover have "le_bytes 8 seq = bslice buffer (offset + 8) (offset + 16)"
    using four [of "offset + 16" "offset + 8" 8] assms(3) by (simp add: seq_def)
  ultimately show ?thesis
    by (simp add: frame_bytes_def payload)
qed

lemma parse_sound_lemma:
  "parse buffer offset = (out, stop, corrupt) \<Longrightarrow> offset \<le> length buffer \<Longrightarrow>
   offset \<le> stop \<and> stop \<le> length buffer \<and> bslice buffer offset stop = frames out
   \<and> (\<forall>r \<in> set out. record_ok r)"
proof (induction buffer offset arbitrary: out rule: parse.induct)
  case (1 buffer offset)
  let ?len = "le_val (bslice buffer offset (offset + 4))"
  let ?crc = "le_val (bslice buffer (offset + 4) (offset + 8))"
  let ?seq = "le_val (bslice buffer (offset + 8) (offset + 16))"
  let ?past = "offset + 16 + ?len"
  let ?payload = "bslice buffer (offset + 16) ?past"
  show ?case
  proof (cases "offset + 16 \<le> length buffer \<and> ?len \<le> MAX_PAYLOAD \<and> ?past \<le> length buffer
      \<and> unat (record_crc ?seq ?payload) = ?crc")
    case True
    obtain out' where rec: "parse buffer ?past = (out', stop, corrupt)" and out: "out = (?seq, ?payload) # out'"
      using "1.prems"(1) True
      by (subst (asm) parse.simps) (auto simp: HEADER_SIZE_def Let_def split: prod.splits)
    have IH: "?past \<le> stop \<and> stop \<le> length buffer \<and> bslice buffer ?past stop = frames out'
        \<and> (\<forall>r \<in> set out'. record_ok r)"
      using "1.IH" [of ?len ?crc ?seq ?past ?payload out'] True rec by (simp add: HEADER_SIZE_def)
    have "?seq < 256 ^ length (bslice buffer (offset + 8) (offset + 16))"
      by (rule le_val_bound)
    also have "\<dots> \<le> 256 ^ 8"
      by (intro power_increasing) (simp_all add: slice_length)
    finally have "record_ok (?seq, ?payload)"
      using True by (simp add: record_ok_def slice_length min_le_iff_disj)
    moreover have "bslice buffer offset stop = frames out"
      using IH True frame_bytes_of_slice [of offset ?len buffer]
      by (simp add: out bslice_split [of offset ?past stop])
    ultimately show ?thesis
      using IH by (simp add: out)
  next
    case False
    then have "out = [] \<and> stop = offset"
      using "1.prems"(1) by (subst (asm) parse.simps) (auto simp: HEADER_SIZE_def Let_def split: if_splits)
    then show ?thesis
      using "1.prems"(2) by simp
  qed
qed

section \<open>Properties\<close>

text \<open>Whatever a crash leaves of the last group, reading back a segment returns exactly the
  records written whole, in order, and stops at the end of the last of them without calling the
  torn tail corrupt. So the recovery that truncates the file there loses no whole record and
  leaves no partial one.\<close>

theorem parse_after_crash:
  assumes "\<forall>r \<in> set rs. record_ok r" and "record_ok torn"
    and "n < length (frame_bytes (fst torn) (snd torn))"
  shows "parse (frames rs @ take n (frame_bytes (fst torn) (snd torn))) 0
    = (rs, length (frames rs), False)"
  using assms by (rule parse_whole_then_torn)

theorem parse_after_crash_witness:
  "parse (frames [(7, [1, 2])] @ take 17 (frame_bytes 8 [3, 4, 5])) 0
    = ([(7, [1, 2])], 18, False)"
  using parse_after_crash [of "[(7, [1, 2])]" "(8, [3, 4, 5])" 17]
  by (simp add: record_ok_def MAX_PAYLOAD_def HEADER_SIZE_def)

text \<open>Whatever the bytes of a segment are, \<open>parse\<close> returns only records that are really
  there: the bytes it passed over are exactly the frames of the records it returned, and each of
  them fits the format's bounds. Nothing is returned from a damaged or foreign byte range.\<close>

theorem parse_sound:
  assumes "parse buffer offset = (out, stop, corrupt)" and "offset \<le> length buffer"
  shows "offset \<le> stop \<and> stop \<le> length buffer \<and> bslice buffer offset stop = frames out
    \<and> (\<forall>r \<in> set out. record_ok r)"
  using assms by (rule parse_sound_lemma)

theorem parse_sound_witness:
  "parse [1, 2, 3] 1 = ([], 1, False) \<and> (1::nat) \<le> length [1, 2, 3 :: byte]
    \<and> bslice [1, 2, 3 :: byte] 1 1 = frames []"
proof -
  have h: "parse [1, 2, 3] 1 = ([], 1, False)"
    by (subst parse.simps) (simp add: HEADER_SIZE_def)
  show ?thesis
    using h parse_sound [OF h] by simp
qed

text \<open>C15: damage confined to one byte of a record's payload is always detected, whichever byte it
  is and whatever it became: the record is not returned, and \<open>parse\<close> stops at it and says
  corrupt.\<close>

theorem parse_detects_one_byte:
  assumes "record_ok (seq, payload)" and "i < length payload" and "b \<noteq> payload ! i"
  shows "parse (pre @ (frame_bytes seq payload)[HEADER_SIZE + i := b] @ rest) (length pre)
    = ([], length pre, True)"
proof -
  let ?bad = "payload[i := b]"
  have bad: "(frame_bytes seq payload)[HEADER_SIZE + i := b] =
      le_bytes 4 (length payload) @ le_bytes 4 (unat (record_crc seq payload)) @ le_bytes 8 seq @ ?bad"
    by (simp add: frame_bytes_def HEADER_SIZE_def list_update_append)
  have good: "length payload \<le> MAX_PAYLOAD" "seq < 2 ^ 64"
    using assms(1) by (simp_all add: record_ok_def)
  have len: "le_val (le_bytes 4 (length payload)) = length payload"
    and crc: "le_val (le_bytes 4 (unat (record_crc seq payload))) = unat (record_crc seq payload)"
    and sq: "le_val (le_bytes 8 seq) = seq"
    using good unat_record_crc_bound [of seq payload]
    by (simp_all add: le_val_le_bytes MAX_PAYLOAD_def)
  have "record_crc seq ?bad \<noteq> record_crc seq payload"
    using crc32_one_byte [OF assms(2,3)] by (simp add: record_crc_def)
  then have "unat (record_crc seq ?bad) \<noteq> unat (record_crc seq payload)"
    by (simp add: word_unat_eq_iff)
  then show ?thesis
    using good(1) unfolding bad
    by (subst parse.simps) (simp add: HEADER_SIZE_def Let_def bslice_def len crc sq)
qed

theorem parse_detects_one_byte_witness:
  "parse ([] @ (frame_bytes 1 [10, 20, 30])[HEADER_SIZE + 1 := 21] @ [9]) 0 = ([], 0, True)"
  using parse_detects_one_byte [of 1 "[10, 20, 30]" 1 21 "[]" "[9]"]
  by (simp add: record_ok_def MAX_PAYLOAD_def)

end
