(* ===== verification/Spool_Log.thy ===== *)
theory Spool_Log
  imports Spool_Frame "HOL-Library.AList"
begin

text \<open>
  \<open>ingest/spool.py\<close>, the directory and its one writer: the segment files and their names,
  what they occupy, which of them may be deleted, and \<open>SpoolWriter\<close> (recovery at start,
  group append, the cut-back of a failed write, the rotation to a new segment).

  A disk is the names of the spool directory in the order \<open>os.listdir\<close> gives them, each
  with the inode it names, and the bytes of every inode: a reader that holds a file open keeps its
  inode after the name is gone. File names hold no line feed. What \<open>os.write\<close> does is an
  argument of \<open>append\<close>: all of the group reached the file, or an \<open>OSError\<close> was
  raised after some prefix of it had.
\<close>

section \<open>Segment names\<close>

definition digit_char :: "nat \<Rightarrow> char" where
  "digit_char d = char_of (48 + d)"

definition is_digit :: "char \<Rightarrow> bool" where
  "is_digit c \<longleftrightarrow> (48::nat) \<le> of_char c \<and> of_char c \<le> (57::nat)"

definition digit_val :: "char \<Rightarrow> nat" where
  "digit_val c = of_char c - 48"

fun fixed_dec :: "nat \<Rightarrow> nat \<Rightarrow> string" where
  "fixed_dec 0 n = []"
| "fixed_dec (Suc k) n = fixed_dec k (n div 10) @ [digit_char (n mod 10)]"

fun ndigits :: "nat \<Rightarrow> nat" where
  "ndigits n = (if n < 10 then 1 else Suc (ndigits (n div 10)))"

declare ndigits.simps [simp del]

definition dec_val :: "string \<Rightarrow> nat" where
  "dec_val s = foldl (\<lambda>a c. 10 * a + digit_val c) 0 s"

text \<open>\<open>f"{n:020d}.seg"\<close> and the pattern \<open>^(\d{20})\.seg$\<close> with its group.\<close>

definition segment_name :: "nat \<Rightarrow> string" where
  "segment_name n = fixed_dec (max 20 (ndigits n)) n @ ''.seg''"

definition segment_number :: "string \<Rightarrow> nat option" where
  "segment_number name =
     (if length name = 24 \<and> list_all is_digit (take 20 name) \<and> drop 20 name = ''.seg''
      then Some (dec_val (take 20 name)) else None)"

section \<open>The directory\<close>

record disk =
  names :: "(string \<times> nat) list"
  inodes :: "nat \<Rightarrow> bytes"
  next_ino :: nat

definition file_bytes :: "disk \<Rightarrow> string \<Rightarrow> bytes" where
  "file_bytes d name = (case map_of (names d) name of None \<Rightarrow> [] | Some i \<Rightarrow> inodes d i)"

definition write_file :: "string \<Rightarrow> bytes \<Rightarrow> disk \<Rightarrow> disk" where
  "write_file name data d =
     (case map_of (names d) name of
        None \<Rightarrow> d
      | Some i \<Rightarrow> d\<lparr>inodes := (inodes d)(i := data)\<rparr>)"

definition unlink :: "string \<Rightarrow> disk \<Rightarrow> disk" where
  "unlink name d = d\<lparr>names := AList.delete name (names d)\<rparr>"

text \<open>\<open>os.open\<close> with \<open>O_CREAT\<close> and \<open>O_APPEND\<close>: the file as it is, or a
  new empty one.\<close>

definition open_create :: "string \<Rightarrow> disk \<Rightarrow> disk" where
  "open_create name d =
     (case map_of (names d) name of
        Some i \<Rightarrow> d
      | None \<Rightarrow> d\<lparr>names := (name, next_ino d) # names d,
                  inodes := (inodes d)(next_ino d := []), next_ino := Suc (next_ino d)\<rparr>)"

definition segments :: "disk \<Rightarrow> (nat \<times> string) list" where
  "segments d =
     sort_key fst (List.map_filter (\<lambda>(name, _). map_option (\<lambda>n. (n, name)) (segment_number name)) (names d))"

definition usage :: "disk \<Rightarrow> nat" where
  "usage d = sum_list (map (\<lambda>(_, path). length (file_bytes d path)) (segments d))"

definition prunable :: "disk \<Rightarrow> nat \<Rightarrow> string list" where
  "prunable d cursor =
     (let found = segments d
      in map (\<lambda>((_, path), _). path)
           (filter (\<lambda>((_, _), (after, _)). after \<le> cursor + 1) (zip found (tl found))))"

section \<open>The writer\<close>

definition SEGMENT_BYTES :: nat where
  "SEGMENT_BYTES = 64 * 1024 * 1024"

datatype spool_error = Spool_Full | Already_Locked | Os_Error | Frame_Error frame_error

record writer =
  max_bytes :: nat
  torn_bytes :: nat
  next_seq :: nat
  open_fd :: "string option"
  seg_size :: nat
  used_bytes :: nat

definition head :: "writer \<Rightarrow> int" where
  "head w = int (next_seq w) - 1"

text \<open>\<open>_recover\<close>: the disk, the bytes cut off and the next sequence number.\<close>

definition recover :: "disk \<Rightarrow> disk \<times> nat \<times> nat" where
  "recover d =
     (let found = segments d
      in if found = [] then (d, 0, 1)
         else
           let (first, path) = last found;
               data = file_bytes d path;
               (records, valid, _) = parse data 0;
               torn = (if valid < length data then length data - valid else 0);
               d' = (if valid < length data then write_file path (take valid data) d else d)
           in if records \<noteq> [] then (d', torn, fst (last records) + 1)
              else (unlink path d', torn, first))"

definition open_segment :: "writer \<Rightarrow> disk \<Rightarrow> writer \<times> disk" where
  "open_segment w d =
     (let path = segment_name (next_seq w); d' = open_create path d
      in (w\<lparr>open_fd := Some path, seg_size := length (file_bytes d' path)\<rparr>, d'))"

definition writer_init :: "bool \<Rightarrow> nat \<Rightarrow> disk \<Rightarrow> spool_error + writer \<times> disk" where
  "writer_init locked limit d =
     (if locked then Inl Already_Locked
      else
        let (d1, torn, seq) = recover d;
            w = \<lparr>max_bytes = limit, torn_bytes = torn, next_seq = seq, open_fd = None,
                 seg_size = 0, used_bytes = 0\<rparr>;
            (w', d2) = open_segment w d1
        in Inr (w'\<lparr>used_bytes := usage d2\<rparr>, d2))"

fun frame_all :: "nat \<Rightarrow> bytes list \<Rightarrow> frame_error + bytes" where
  "frame_all seq [] = Inr []"
| "frame_all seq (p # ps) =
     (case frame seq p of Inl e \<Rightarrow> Inl e
      | Inr f \<Rightarrow> (case frame_all (seq + 1) ps of Inl e \<Rightarrow> Inl e | Inr fs \<Rightarrow> Inr (f @ fs)))"

text \<open>\<open>append\<close>: \<open>failed = Some k\<close> says that the disk refused after \<open>k\<close> bytes
  of the group had reached the file.\<close>

definition append :: "bytes list \<Rightarrow> nat option \<Rightarrow> writer \<Rightarrow> disk \<Rightarrow> (spool_error + int) \<times> writer \<times> disk" where
  "append payloads failed w d =
     (if max_bytes w \<le> used_bytes w then (Inl Spool_Full, w, d)
      else case frame_all (next_seq w) payloads of
        Inl e \<Rightarrow> (Inl (Frame_Error e), w, d)
      | Inr buffer \<Rightarrow>
          (case open_fd w of
             None \<Rightarrow> (Inl Os_Error, w, d)
           | Some path \<Rightarrow>
               (case failed of
                  Some k \<Rightarrow>
                    let d1 = write_file path (file_bytes d path @ take k buffer) d;
                        d2 = write_file path (take (seg_size w) (file_bytes d1 path)) d1
                    in (Inl Os_Error, w, d2)
                | None \<Rightarrow>
                    let d1 = write_file path (file_bytes d path @ buffer) d;
                        w1 = w\<lparr>next_seq := next_seq w + length payloads,
                               seg_size := seg_size w + length buffer,
                               used_bytes := used_bytes w + length buffer\<rparr>;
                        (w2, d2) = (if SEGMENT_BYTES \<le> seg_size w1 then open_segment w1 d1 else (w1, d1))
                    in (Inr (head w2), w2, d2))))"

definition refresh_usage :: "writer \<Rightarrow> disk \<Rightarrow> writer" where
  "refresh_usage w d = w\<lparr>used_bytes := usage d\<rparr>"

definition close_writer :: "writer \<Rightarrow> writer" where
  "close_writer w = w\<lparr>open_fd := None\<rparr>"

text \<open>\<open>SpoolFeed.prune\<close> of \<open>engine/operate/intake.py\<close>: delete the prunable segments, and
  only once the database has made the cursor durable.\<close>

definition prune :: "bool \<Rightarrow> nat \<Rightarrow> disk \<Rightarrow> disk \<times> nat" where
  "prune durable cursor d =
     (let doomed = prunable d cursor
      in if doomed = [] then (d, 0)
         else if \<not> durable then (d, 0)
         else (fold unlink doomed d, length doomed))"

section \<open>What a disk holds\<close>

text \<open>The abstract log: the records of every segment, oldest first. \<open>holds\<close> says that a
  disk is the concrete form of a list of groups, one per segment, whose records are numbered
  consecutively from \<open>s\<close> to \<open>n\<close>.\<close>

definition seg_contents :: "disk \<Rightarrow> (nat \<times> bytes) list" where
  "seg_contents d = map (\<lambda>(k, path). (k, file_bytes d path)) (segments d)"

definition spool_log :: "disk \<Rightarrow> (nat \<times> bytes) list" where
  "spool_log d = concat (map (\<lambda>(k, data). fst (parse data 0)) (seg_contents d))"

definition consecutive :: "nat \<Rightarrow> (nat \<times> bytes) list \<Rightarrow> bool" where
  "consecutive s rs \<longleftrightarrow> map fst rs = [s ..< s + length rs] \<and> (\<forall>r \<in> set rs. record_ok r)"

type_synonym groups = "(nat \<times> (nat \<times> bytes) list) list"

fun group_chain :: "nat \<Rightarrow> groups \<Rightarrow> nat \<Rightarrow> bool" where
  "group_chain s [] n \<longleftrightarrow> s = n"
| "group_chain s ((f, rs) # gs) n \<longleftrightarrow> f = s \<and> consecutive s rs \<and> group_chain (s + length rs) gs n"

definition disk_ok :: "disk \<Rightarrow> bool" where
  "disk_ok d \<longleftrightarrow> distinct (map fst (names d)) \<and> distinct (map snd (names d))
     \<and> (\<forall>i \<in> snd ` set (names d). i < next_ino d)"

definition holds :: "disk \<Rightarrow> nat \<Rightarrow> groups \<Rightarrow> nat \<Rightarrow> bool" where
  "holds d s gs n \<longleftrightarrow> disk_ok d \<and> seg_contents d = map (\<lambda>(f, rs). (f, frames rs)) gs
     \<and> group_chain s gs n \<and> (\<forall>(k, path) \<in> set (segments d). path = segment_name k)
     \<and> n \<le> 2 ^ 64"

definition writer_ok :: "disk \<Rightarrow> writer \<Rightarrow> bool" where
  "writer_ok d w \<longleftrightarrow> (\<exists>s gs f rs. holds d s (gs @ [(f, rs)]) (next_seq w)
     \<and> open_fd w = Some (segment_name f) \<and> seg_size w = length (frames rs))"

subsection \<open>Segment names\<close>

lemma digit_char_simps [simp]: "d < 10 \<Longrightarrow> is_digit (digit_char d)" "d < 10 \<Longrightarrow> digit_val (digit_char d) = d"
  by (auto simp: is_digit_def digit_char_def digit_val_def)

lemma length_fixed_dec [simp]: "length (fixed_dec k n) = k"
  by (induction k arbitrary: n) auto

lemma digits_fixed_dec [simp]: "list_all is_digit (fixed_dec k n)"
  by (induction k arbitrary: n) auto

lemma dec_val_fixed_dec: "n < 10 ^ k \<Longrightarrow> dec_val (fixed_dec k n) = n"
proof (induction k arbitrary: n)
  case 0
  then show ?case by (simp add: dec_val_def)
next
  case (Suc k)
  then have "n div 10 < 10 ^ k"
    by (simp add: less_mult_imp_div_less mult.commute)
  with Suc.IH show ?case
    by (simp add: dec_val_def)
qed

lemma ndigits_le: "n < 10 ^ k \<Longrightarrow> 0 < k \<Longrightarrow> ndigits n \<le> k"
proof (induction n arbitrary: k rule: ndigits.induct)
  case (1 n)
  show ?case
  proof (cases "n < 10")
    case True
    with "1.prems" show ?thesis by (simp add: ndigits.simps)
  next
    case False
    with "1.prems" obtain j where k: "k = Suc j" "0 < j"
      by (cases k; cases "k - 1") auto
    with "1.prems" have "n div 10 < 10 ^ j"
      by (simp add: less_mult_imp_div_less mult.commute)
    with "1.IH" False k have "ndigits (n div 10) \<le> j"
      by blast
    with False k show ?thesis by (simp add: ndigits.simps [of n])
  qed
qed

lemma segment_name_bound: "n \<le> 2 ^ 64 \<Longrightarrow> (n::nat) < 10 ^ 20"
  by simp

lemma segment_number_name [simp]: "n \<le> 2 ^ 64 \<Longrightarrow> segment_number (segment_name n) = Some n"
  using ndigits_le [OF segment_name_bound [of n]] dec_val_fixed_dec [OF segment_name_bound [of n]]
  by (simp add: segment_number_def segment_name_def max_def)

lemma segment_name_inj: "a \<le> 2 ^ 64 \<Longrightarrow> b \<le> 2 ^ 64 \<Longrightarrow> segment_name a = segment_name b \<longleftrightarrow> a = b"
  by (metis option.inject segment_number_name)

subsection \<open>Directory operations\<close>

lemma insort_key_snoc: "\<forall>y \<in> set ys. f y < f x \<Longrightarrow> insort_key f x ys = ys @ [x]"
  by (induction ys) auto

lemma set_segments: "set (segments d) = {(k, path). \<exists>i. (path, i) \<in> set (names d) \<and> segment_number path = Some k}"
  by (force simp: segments_def List.map_filter_def)

lemma segments_write [simp]: "segments (write_file path data d) = segments d"
  by (simp add: segments_def write_file_def split: option.splits)

lemma map_of_inj:
  "disk_ok d \<Longrightarrow> map_of (names d) a = Some i \<Longrightarrow> map_of (names d) b = Some i \<Longrightarrow> a = b"
  by (auto simp: disk_ok_def dest!: map_of_SomeD) (metis distinct_map inj_onD prod.inject snd_conv)

lemma disk_ok_write [simp]: "disk_ok (write_file path data d) = disk_ok d"
  by (simp add: disk_ok_def write_file_def split: option.splits)

lemma file_bytes_write:
  assumes "disk_ok d" and "path \<in> fst ` set (names d)"
  shows "file_bytes (write_file path data d) p = (if p = path then data else file_bytes d p)"
proof -
  obtain i where i: "map_of (names d) path = Some i"
    using assms(2) by (cases "map_of (names d) path") (auto simp: map_of_eq_None_iff)
  have "map_of (names d) p \<noteq> Some i" if "p \<noteq> path"
    using map_of_inj [OF assms(1) i, of p] that by blast
  then show ?thesis
    using i by (cases "map_of (names d) p") (auto simp: file_bytes_def write_file_def)
qed

lemma open_create_new:
  assumes "disk_ok d" and "path \<notin> fst ` set (names d)"
  shows "disk_ok (open_create path d)"
    and "file_bytes (open_create path d) p = (if p = path then [] else file_bytes d p)"
    and "names (open_create path d) = (path, next_ino d) # names d"
proof -
  have none: "map_of (names d) path = None"
    using assms(2) by (simp add: map_of_eq_None_iff)
  show "names (open_create path d) = (path, next_ino d) # names d"
    by (simp add: open_create_def none)
  show "disk_ok (open_create path d)"
    using assms by (auto simp: open_create_def none disk_ok_def less_Suc_eq)
  show "file_bytes (open_create path d) p = (if p = path then [] else file_bytes d p)"
    using assms by (auto simp: open_create_def none file_bytes_def disk_ok_def split: option.splits
        dest!: map_of_SomeD)
qed

lemma segments_open_create:
  assumes "disk_ok d" and "segment_number path = Some n" and "\<forall>k \<in> fst ` set (segments d). k < n"
    and "path \<notin> fst ` set (names d)"
  shows "segments (open_create path d) = segments d @ [(n, path)]"
proof -
  have "segments (open_create path d) = insort_key fst (n, path) (segments d)"
    by (simp add: segments_def open_create_new(3) [OF assms(1,4)] List.map_filter_simps assms(2))
  also have "\<dots> = segments d @ [(n, path)]"
    using assms(3) by (intro insort_key_snoc) auto
  finally show ?thesis .
qed

lemma segments_unlink: "segments (unlink path d) = filter (\<lambda>(k, p). p \<noteq> path) (segments d)"
proof -
  have "List.map_filter (\<lambda>(name, _). map_option (\<lambda>n. (n, name)) (segment_number name)) (AList.delete path xs)
    = filter (\<lambda>(k, p). p \<noteq> path)
        (List.map_filter (\<lambda>(name, _). map_option (\<lambda>n. (n, name)) (segment_number name)) xs)" for xs :: "(string \<times> nat) list"
    by (induction xs) (auto simp: List.map_filter_simps AList.delete_eq split: option.splits)
  then show ?thesis
    by (simp add: segments_def unlink_def filter_sort)
qed

lemma disk_ok_unlink: "disk_ok d \<Longrightarrow> disk_ok (unlink path d)"
  by (auto simp: disk_ok_def unlink_def AList.delete_eq distinct_map_filter)

lemma file_bytes_unlink: "p \<noteq> path \<Longrightarrow> file_bytes (unlink path d) p = file_bytes d p"
  by (simp add: file_bytes_def unlink_def AList.delete_conv' split: option.splits)

subsection \<open>The shape of a well-formed spool\<close>

lemma group_chain_snoc [simp]:
  "group_chain s (gs @ [(f, rs)]) n \<longleftrightarrow> group_chain s gs f \<and> consecutive f rs \<and> n = f + length rs"
  by (induction gs arbitrary: s) auto

lemma group_chain_records: "group_chain s gs n \<Longrightarrow> \<forall>(f, rs) \<in> set gs. \<forall>r \<in> set rs. record_ok r"
  by (induction gs arbitrary: s) (fastforce simp: consecutive_def)+

lemma consecutive_append:
  "consecutive f (rs @ new) \<longleftrightarrow> consecutive f rs \<and> consecutive (f + length rs) new"
proof -
  have "[f ..< f + length rs + length new] = [f ..< f + length rs] @ [f + length rs ..< f + length rs + length new]"
    by (metis le_add1 upt_add_eq_append)
  then show ?thesis
    by (auto simp: consecutive_def append_eq_append_conv add.assoc)
qed

lemma consecutive_take: "consecutive f rs \<Longrightarrow> consecutive f (take j rs)"
  by (metis append_take_drop_id consecutive_append)

lemma consecutive_last: "consecutive f rs \<Longrightarrow> rs \<noteq> [] \<Longrightarrow> fst (last rs) + 1 = f + length rs"
  by (cases rs rule: rev_cases) (auto simp: consecutive_def)

lemma distinct_segments: "disk_ok d \<Longrightarrow> distinct (map snd (segments d))"
proof -
  assume "disk_ok d"
  have "map snd (List.map_filter (\<lambda>(name, _). map_option (\<lambda>n. (n, name)) (segment_number name)) xs)
      = filter (\<lambda>p. segment_number p \<noteq> None) (map fst xs)" for xs :: "(string \<times> nat) list"
    by (induction xs) (auto simp: List.map_filter_simps split: option.splits)
  then have "distinct (map snd (List.map_filter (\<lambda>(name, _). map_option (\<lambda>n. (n, name)) (segment_number name)) (names d)))"
    using \<open>disk_ok d\<close> by (simp add: disk_ok_def)
  then show ?thesis
    by (simp add: segments_def distinct_map)
qed

lemma holds_sorted: "holds d s gs n \<Longrightarrow> sorted_wrt (<) (map fst (segments d))"
proof -
  assume h: "holds d s gs n"
  have "map snd (segments d) = map segment_name (map fst (segments d))"
    using h by (auto simp: holds_def)
  moreover have "distinct (map snd (segments d))"
    using h by (simp add: holds_def distinct_segments)
  ultimately have "distinct (map fst (segments d))"
    by (metis distinct_map)
  moreover have "sorted (map fst (segments d))"
    by (simp add: segments_def)
  ultimately show ?thesis
    by (simp add: strict_sorted_iff)
qed

lemma holds_last:
  assumes "holds d s (gs @ [(f, rs)]) n"
  obtains ss where "segments d = ss @ [(f, segment_name f)]"
    and "map (\<lambda>(k, path). (k, file_bytes d path)) ss = map (\<lambda>(f, rs). (f, frames rs)) gs"
    and "file_bytes d (segment_name f) = frames rs" and "\<forall>(k, path) \<in> set ss. k < f"
    and "\<forall>(k, path) \<in> set ss. path \<noteq> segment_name f"
    and "segment_name f \<in> fst ` set (names d)"
proof -
  from assms have seg: "seg_contents d = map (\<lambda>(f, rs). (f, frames rs)) gs @ [(f, frames rs)]"
    and names: "\<forall>(k, path) \<in> set (segments d). path = segment_name k" and ok: "disk_ok d"
    by (auto simp: holds_def)
  then obtain ss k path where ss: "segments d = ss @ [(k, path)]"
    by (cases "segments d" rule: rev_cases) (auto simp: seg_contents_def)
  have kf: "k = f" "path = segment_name f"
    using seg names by (auto simp: seg_contents_def ss)
  have "\<forall>(k, path) \<in> set ss. k < f"
    using holds_sorted [OF assms] by (auto simp: ss kf sorted_wrt_append)
  moreover have "\<forall>(k, path) \<in> set ss. path \<noteq> segment_name f"
    using distinct_segments [OF ok] by (force simp: ss kf)
  moreover have "segment_name f \<in> fst ` set (names d)"
  proof -
    have "(f, segment_name f) \<in> set (segments d)"
      by (simp add: ss kf)
    then show ?thesis
      by (auto simp: set_segments intro: rev_image_eqI)
  qed
  moreover have "map (\<lambda>(k, path). (k, file_bytes d path)) ss = map (\<lambda>(f, rs). (f, frames rs)) gs"
    and "file_bytes d (segment_name f) = frames rs"
    using seg by (simp_all add: seg_contents_def ss kf)
  ultimately show thesis
    using ss kf by (intro that [of ss]) simp_all
qed

lemma holds_write_last:
  assumes h: "holds d s (gs @ [(f, rs)]) n" and c: "consecutive f rs'" and b: "f + length rs' \<le> 2 ^ 64"
  shows "holds (write_file (segment_name f) (frames rs') d) s (gs @ [(f, rs')]) (f + length rs')"
proof -
  obtain ss where ss: "segments d = ss @ [(f, segment_name f)]"
    and eq: "map (\<lambda>(k, path). (k, file_bytes d path)) ss = map (\<lambda>(f, rs). (f, frames rs)) gs"
    and ne: "\<forall>(k, path) \<in> set ss. path \<noteq> segment_name f"
    and mem: "segment_name f \<in> fst ` set (names d)"
    using holds_last [OF h] by metis
  have ok: "disk_ok d"
    using h by (simp add: holds_def)
  let ?d = "write_file (segment_name f) (frames rs') d"
  have "map (\<lambda>(k, path). (k, file_bytes ?d path)) ss = map (\<lambda>(k, path). (k, file_bytes d path)) ss"
    using ne by (auto simp: file_bytes_write [OF ok mem])
  with h c b eq show ?thesis
    by (simp add: holds_def seg_contents_def ss file_bytes_write [OF ok mem])
qed

lemma holds_open_segment:
  assumes h: "holds d s gs n" and lt: "\<forall>k \<in> fst ` set (segments d). k < n"
    and "next_seq w = n"
  shows "\<exists>d'. open_segment w d = (w\<lparr>open_fd := Some (segment_name n), seg_size := 0\<rparr>, d')
    \<and> holds d' s (gs @ [(n, [])]) n"
proof -
  have ok: "disk_ok d" and n: "n \<le> 2 ^ 64"
    using h by (simp_all add: holds_def)
  have new: "segment_name n \<notin> fst ` set (names d)"
    using lt n set_segments [of d] by force
  let ?d = "open_create (segment_name n) d"
  have seg: "segments ?d = segments d @ [(n, segment_name n)]"
    using segments_open_create [OF ok segment_number_name [OF n] lt new] .
  have ne: "\<forall>(k, path) \<in> set (segments d). path \<noteq> segment_name n"
    using new set_segments [of d] by force
  then have "seg_contents ?d = seg_contents d @ [(n, [])]"
    by (force simp: seg_contents_def seg open_create_new(2) [OF ok new])
  then have "holds ?d s (gs @ [(n, [])]) n"
    using h by (simp add: holds_def seg open_create_new [OF ok new] consecutive_def)
  then show ?thesis
    using assms(3) by (simp add: open_segment_def Let_def open_create_new [OF ok new])
qed

lemma parse_frames_whole: "\<forall>r \<in> set rs. record_ok r \<Longrightarrow> parse (frames rs) 0 = (rs, length (frames rs), False)"
  using parse_frames_append [of rs "[]" "[]"] by (simp add: parse.simps [of "frames rs" "length (frames rs)"] HEADER_SIZE_def)

lemma log_holds:
  assumes "holds d s gs n"
  shows "spool_log d = concat (map snd gs)"
proof -
  have "fst (parse (frames (snd g)) 0) = snd g" if "g \<in> set gs" for g
    using that assms group_chain_records [of s gs n] parse_frames_whole [of "snd g"]
    by (auto simp: holds_def split_beta)
  then have "map (\<lambda>(k, data). fst (parse data 0)) (map (\<lambda>(f, rs). (f, frames rs)) gs) = map snd gs"
    by (simp add: split_beta)
  moreover have "seg_contents d = map (\<lambda>(f, rs). (f, frames rs)) gs"
    using assms by (simp add: holds_def)
  ultimately show ?thesis
    by (simp only: spool_log_def)
qed

subsection \<open>Appending a group\<close>

definition numbered :: "nat \<Rightarrow> bytes list \<Rightarrow> (nat \<times> bytes) list" where
  "numbered s ps = zip [s ..< s + length ps] ps"

lemma numbered_simps [simp]:
  "numbered s [] = []" "numbered s (p # ps) = (s, p) # numbered (Suc s) ps" "length (numbered s ps) = length ps"
  by (simp_all add: numbered_def upt_conv_Cons del: upt_Suc)

lemma consecutive_numbered:
  "\<forall>p \<in> set ps. length p \<le> MAX_PAYLOAD \<Longrightarrow> s + length ps \<le> 2 ^ 64 \<Longrightarrow> consecutive s (numbered s ps)"
  by (auto simp: consecutive_def numbered_def record_ok_def dest: set_zip_leftD set_zip_rightD)

lemma frame_all_numbered:
  "\<forall>p \<in> set ps. length p \<le> MAX_PAYLOAD \<Longrightarrow> s + length ps \<le> 2 ^ 64 \<Longrightarrow>
   frame_all s ps = Inr (frames (numbered s ps))"
proof (induction ps arbitrary: s)
  case Nil
  then show ?case by simp
next
  case (Cons p ps)
  then have "frame s p = Inr (frame_bytes s p)"
    using MAX_PAYLOAD_bound [of "length p"] by (simp add: frame_def)
  moreover have "frame_all (Suc s) ps = Inr (frames (numbered (Suc s) ps))"
    using Cons by simp
  ultimately show ?case by simp
qed

lemma frames_Nil_iff [simp]: "frames rs = [] \<longleftrightarrow> rs = []"
  by (cases rs) (auto simp: HEADER_SIZE_def simp flip: length_0_conv)

lemma writer_okI:
  "holds d s (gs @ [(f, rs)]) (next_seq w) \<Longrightarrow> open_fd w = Some (segment_name f) \<Longrightarrow>
   seg_size w = length (frames rs) \<Longrightarrow> writer_ok d w"
  by (auto simp: writer_ok_def)

lemma writer_okE:
  assumes "writer_ok d w"
  obtains s gs f rs where "holds d s (gs @ [(f, rs)]) (next_seq w)"
    and "open_fd w = Some (segment_name f)" and "seg_size w = length (frames rs)"
    and "next_seq w = f + length rs" and "consecutive f rs"
    and "file_bytes d (segment_name f) = frames rs"
    and "disk_ok d" and "segment_name f \<in> fst ` set (names d)"
proof -
  obtain s gs f rs where h: "holds d s (gs @ [(f, rs)]) (next_seq w)"
    and w: "open_fd w = Some (segment_name f)" "seg_size w = length (frames rs)"
    using assms by (auto simp: writer_ok_def)
  moreover have "next_seq w = f + length rs" "consecutive f rs" "disk_ok d"
    using h by (simp_all add: holds_def)
  moreover have "file_bytes d (segment_name f) = frames rs" "segment_name f \<in> fst ` set (names d)"
    using holds_last [OF h] by metis+
  ultimately show thesis
    using that by blast
qed

lemma append_written:
  assumes "writer_ok d w" and "used_bytes w < max_bytes w"
    and "\<forall>p \<in> set ps. length p \<le> MAX_PAYLOAD" and "next_seq w + length ps \<le> 2 ^ 64"
  shows "\<exists>w' d'. append ps None w d = (Inr (int (next_seq w + length ps) - 1), w', d')
    \<and> writer_ok d' w' \<and> next_seq w' = next_seq w + length ps
    \<and> spool_log d' = spool_log d @ numbered (next_seq w) ps"
proof -
  obtain s gs f rs where h: "holds d s (gs @ [(f, rs)]) (next_seq w)"
    and fd: "open_fd w = Some (segment_name f)" and size: "seg_size w = length (frames rs)"
    and n: "next_seq w = f + length rs" and c: "consecutive f rs"
    and bytes: "file_bytes d (segment_name f) = frames rs"
    using writer_okE [OF assms(1)] by metis
  let ?new = "numbered (next_seq w) ps" and ?n = "next_seq w + length ps"
  let ?d1 = "write_file (segment_name f) (frames (rs @ ?new)) d"
  let ?w1 = "w\<lparr>next_seq := ?n, seg_size := seg_size w + length (frames ?new),
               used_bytes := used_bytes w + length (frames ?new)\<rparr>"
  have fa: "frame_all (next_seq w) ps = Inr (frames ?new)"
    using assms(3,4) by (rule frame_all_numbered)
  have c': "consecutive f (rs @ ?new)"
    using c consecutive_numbered [OF assms(3,4)] by (simp add: consecutive_append n)
  have h1: "holds ?d1 s (gs @ [(f, rs @ ?new)]) ?n"
    using holds_write_last [OF h c'] assms(4) by (simp add: n add.assoc)
  have log1: "spool_log ?d1 = spool_log d @ ?new"
    using log_holds [OF h1] log_holds [OF h] by simp
  have ap: "append ps None w d =
     (let (w2, d2) = (if SEGMENT_BYTES \<le> seg_size ?w1 then open_segment ?w1 ?d1 else (?w1, ?d1))
      in (Inr (head w2), w2, d2))"
    using assms(2) by (simp add: append_def fa fd bytes Let_def)
  show ?thesis
  proof (cases "SEGMENT_BYTES \<le> seg_size ?w1")
    case True
    then have "rs @ ?new \<noteq> []"
      using size by (auto simp: SEGMENT_BYTES_def simp del: numbered_simps)
    then have "f < ?n"
      by (auto simp: n)
    obtain ss where "segments ?d1 = ss @ [(f, segment_name f)]" "\<forall>(k, path) \<in> set ss. k < f"
      using holds_last [OF h1] by metis
    with \<open>f < ?n\<close> have "\<forall>k \<in> fst ` set (segments ?d1). k < ?n"
      by auto
    from holds_open_segment [OF h1 this, of ?w1] obtain d2 where
      os: "open_segment ?w1 ?d1 = (?w1\<lparr>open_fd := Some (segment_name ?n), seg_size := 0\<rparr>, d2)"
      and h2: "holds d2 s ((gs @ [(f, rs @ ?new)]) @ [(?n, [])]) ?n"
      by auto
    have "writer_ok d2 (?w1\<lparr>open_fd := Some (segment_name ?n), seg_size := 0\<rparr>)"
      using h2 by (intro writer_okI [of d2 s "gs @ [(f, rs @ ?new)]" ?n "[]"]) simp_all
    moreover have "spool_log d2 = spool_log d @ ?new"
      using log_holds [OF h2] log_holds [OF h] by simp
    ultimately show ?thesis
      using ap os True by (simp add: head_def)
  next
    case False
    have "writer_ok ?d1 ?w1"
      using h1 fd size by (intro writer_okI [of ?d1 s gs f "rs @ ?new"]) simp_all
    then show ?thesis
      using ap False log1 by (simp add: head_def)
  qed
qed

lemma append_refused:
  assumes "writer_ok d w" and "append ps failed w d = (Inl e, w', d')"
  shows "w' = w \<and> writer_ok d' w' \<and> spool_log d' = spool_log d"
proof -
  obtain s gs f rs where h: "holds d s (gs @ [(f, rs)]) (next_seq w)"
    and fd: "open_fd w = Some (segment_name f)" and size: "seg_size w = length (frames rs)"
    and n: "next_seq w = f + length rs" and c: "consecutive f rs"
    and bytes: "file_bytes d (segment_name f) = frames rs"
    and ok: "disk_ok d" and mem: "segment_name f \<in> fst ` set (names d)"
    using writer_okE [OF assms(1)] by metis
  have names_w: "names (write_file p x d) = names d" for p x
    by (simp add: write_file_def split: option.splits)
  consider "w' = w" "d' = d"
    | k buffer where "w' = w" "d' = write_file (segment_name f)
        (take (seg_size w) (file_bytes (write_file (segment_name f) (file_bytes d (segment_name f) @ take k buffer) d) (segment_name f)))
        (write_file (segment_name f) (file_bytes d (segment_name f) @ take k buffer) d)"
    using assms(2) fd by (auto simp: append_def Let_def split: if_splits sum.splits option.splits prod.splits)
  then show ?thesis
  proof cases
    case 1
    with assms(1) show ?thesis by simp
  next
    case 2
    have "write_file p y (write_file p x d) = write_file p y d" for p x y
      by (simp add: write_file_def split: option.splits)
    with 2 have d': "d' = write_file (segment_name f) (frames rs) d"
      by (simp add: file_bytes_write [OF ok mem] bytes size)
    have "f + length rs \<le> 2 ^ 64"
      using h n by (simp add: holds_def)
    then have h': "holds d' s (gs @ [(f, rs)]) (next_seq w)"
      using holds_write_last [OF h c] d' n by simp
    then have "writer_ok d' w"
      unfolding writer_ok_def using fd size by blast
    with 2(1) show ?thesis
      using log_holds [OF h'] log_holds [OF h] by simp
  qed
qed

subsection \<open>Recovery after a crash\<close>

lemma take_frames:
  assumes "k \<le> length (frames new)"
  shows "\<exists>j tail. j \<le> length new \<and> take k (frames new) = frames (take j new) @ tail
    \<and> (tail = [] \<or> (j < length new \<and> (\<exists>m < length (frame_bytes (fst (new ! j)) (snd (new ! j))).
         tail = take m (frame_bytes (fst (new ! j)) (snd (new ! j))))))"
  using assms
proof (induction new arbitrary: k)
  case Nil
  then show ?case by simp
next
  case (Cons r new)
  let ?f = "frame_bytes (fst r) (snd r)"
  show ?case
  proof (cases "k < length ?f")
    case True
    then show ?thesis
      by (intro exI [of _ 0] exI [of _ "take k ?f"]) auto
  next
    case False
    with Cons.prems have "k - length ?f \<le> length (frames new)"
      by simp
    from Cons.IH [OF this] obtain j tail where
      IH: "j \<le> length new" "take (k - length ?f) (frames new) = frames (take j new) @ tail"
        "tail = [] \<or> (j < length new \<and> (\<exists>m < length (frame_bytes (fst (new ! j)) (snd (new ! j))).
           tail = take m (frame_bytes (fst (new ! j)) (snd (new ! j)))))"
      by blast
    with False show ?thesis
      by (intro exI [of _ "Suc j"] exI [of _ tail]) (simp add: take_all)
  qed
qed

lemma parse_crashed:
  assumes "\<forall>r \<in> set rs. record_ok r" and "\<forall>r \<in> set new. record_ok r" and "k \<le> length (frames new)"
  shows "\<exists>j \<le> length new. \<exists>tail. take k (frames new) = frames (take j new) @ tail
    \<and> parse (frames rs @ take k (frames new)) 0 = (rs @ take j new, length (frames (rs @ take j new)), False)"
proof -
  obtain j tail where j: "j \<le> length new" and tk: "take k (frames new) = frames (take j new) @ tail"
    and tail: "tail = [] \<or> (j < length new \<and> (\<exists>m < length (frame_bytes (fst (new ! j)) (snd (new ! j))).
         tail = take m (frame_bytes (fst (new ! j)) (snd (new ! j)))))"
    using take_frames [OF assms(3)] by blast
  have ok: "\<forall>r \<in> set (rs @ take j new). record_ok r"
    using assms(1,2) by (auto dest: in_set_takeD)
  have "parse (frames (rs @ take j new) @ tail) 0 = (rs @ take j new, length (frames (rs @ take j new)), False)"
    using tail
  proof
    assume "tail = []"
    then show ?thesis using parse_frames_whole [OF ok] by simp
  next
    assume "j < length new \<and> (\<exists>m < length (frame_bytes (fst (new ! j)) (snd (new ! j))).
         tail = take m (frame_bytes (fst (new ! j)) (snd (new ! j))))"
    then show ?thesis
      using parse_whole_then_torn [OF ok, of "new ! j"] assms(2) by (auto simp del: frames_simps)
  qed
  then show ?thesis
    using j tk by (intro exI [of _ j]) simp
qed

lemma holds_unlink_last:
  assumes h: "holds d s (gs @ [(f, rs)]) n"
  shows "holds (unlink (segment_name f) d) s gs f"
    and "\<forall>k \<in> fst ` set (segments (unlink (segment_name f) d)). k < f"
proof -
  obtain ss where ss: "segments d = ss @ [(f, segment_name f)]"
    and eq: "map (\<lambda>(k, path). (k, file_bytes d path)) ss = map (\<lambda>(f, rs). (f, frames rs)) gs"
    and lt: "\<forall>(k, path) \<in> set ss. k < f" and ne: "\<forall>(k, path) \<in> set ss. path \<noteq> segment_name f"
    using holds_last [OF h] by metis
  let ?d = "unlink (segment_name f) d"
  have seg: "segments ?d = ss"
    using ne by (auto simp: segments_unlink ss filter_id_conv)
  have "map (\<lambda>(k, path). (k, file_bytes ?d path)) ss = map (\<lambda>(k, path). (k, file_bytes d path)) ss"
    using ne by (auto simp: file_bytes_unlink)
  then have sc: "seg_contents ?d = map (\<lambda>(f, rs). (f, frames rs)) gs"
    by (simp only: seg_contents_def seg eq)
  have "f \<le> n"
    using h by (simp add: holds_def)
  with h have "f \<le> 2 ^ 64"
    by (simp add: holds_def)
  moreover have "\<forall>(k, path) \<in> set ss. path = segment_name k"
    using h by (simp add: holds_def ss)
  ultimately show "holds ?d s gs f"
    using h sc unfolding holds_def seg by (simp add: disk_ok_unlink)
  show "\<forall>k \<in> fst ` set (segments ?d). k < f"
    using lt seg by auto
qed

lemma init_from:
  assumes "recover d = (d1, torn, n)" and h: "holds d1 s gs n"
    and "\<forall>k \<in> fst ` set (segments d1). k < n"
  shows "\<exists>w d2. writer_init False limit d = Inr (w, d2) \<and> writer_ok d2 w \<and> next_seq w = n
    \<and> spool_log d2 = spool_log d1 \<and> torn_bytes w = torn \<and> used_bytes w = usage d2"
proof -
  let ?w = "\<lparr>max_bytes = limit, torn_bytes = torn, next_seq = n, open_fd = None, seg_size = 0, used_bytes = 0\<rparr>"
  obtain d2 where os: "open_segment ?w d1 = (?w\<lparr>open_fd := Some (segment_name n), seg_size := 0\<rparr>, d2)"
    and h2: "holds d2 s (gs @ [(n, [])]) n"
    using holds_open_segment [OF h assms(3), of ?w] by auto
  let ?w2 = "?w\<lparr>open_fd := Some (segment_name n), seg_size := 0, used_bytes := usage d2\<rparr>"
  have "writer_init False limit d = Inr (?w2, d2)"
    by (simp add: writer_init_def assms(1) os)
  moreover have "writer_ok d2 ?w2"
    using h2 by (intro writer_okI [of d2 s gs n "[]"]) simp_all
  moreover have "spool_log d2 = spool_log d1"
    using log_holds [OF h2] log_holds [OF h] by simp
  ultimately show ?thesis
    by auto
qed

lemma recover_crashed:
  assumes h: "holds d s (gs @ [(f, rs)]) n" and c: "consecutive n new" and b: "n + length new \<le> 2 ^ 64"
    and k: "k \<le> length (frames new)"
    and d': "d' = write_file (segment_name f) (frames rs @ take k (frames new)) d"
  shows "\<exists>j \<le> length new. \<exists>d1 torn gs'. recover d' = (d1, torn, n + j) \<and> holds d1 s gs' (n + j)
    \<and> (\<forall>i \<in> fst ` set (segments d1). i < n + j) \<and> spool_log d1 = spool_log d @ take j new
    \<and> (\<exists>tail. take k (frames new) = frames (take j new) @ tail \<and> torn = length tail)"
proof -
  obtain ss where ss: "segments d = ss @ [(f, segment_name f)]"
    and lt: "\<forall>(k, path) \<in> set ss. k < f" and mem: "segment_name f \<in> fst ` set (names d)"
    using holds_last [OF h] by metis
  have ok: "disk_ok d" and n: "n = f + length rs" and crs: "consecutive f rs"
    using h by (simp_all add: holds_def)
  obtain j tail where j: "j \<le> length new" and tk: "take k (frames new) = frames (take j new) @ tail"
    and p: "parse (frames rs @ take k (frames new)) 0 = (rs @ take j new, length (frames (rs @ take j new)), False)"
    using parse_crashed [OF _ _ k, of rs] crs c by (auto simp: consecutive_def)
  let ?rs = "rs @ take j new" and ?path = "segment_name f"
  let ?d1 = "write_file ?path (frames ?rs) d"
  have data: "file_bytes d' ?path = frames ?rs @ tail"
    by (simp add: d' file_bytes_write [OF ok mem] tk)
  have seg: "segments d' = ss @ [(f, ?path)]"
    by (simp add: d' ss)
  have crs': "consecutive f ?rs"
    using crs consecutive_take [OF c] by (simp add: consecutive_append n)
  have h1: "holds ?d1 s (gs @ [(f, ?rs)]) (n + j)"
    using holds_write_last [OF h crs'] j b by (simp add: n add.assoc min_absorb2)
  have cut: "(if length (frames ?rs) < length (frames ?rs @ tail)
      then write_file ?path (take (length (frames ?rs)) (frames ?rs @ tail)) d' else d') = ?d1"
    by (cases "tail = []") (auto simp: d' tk write_file_def split: option.splits)
  have p': "parse (frames ?rs @ tail) 0 = (?rs, length (frames ?rs), False)"
    using p by (simp add: tk)
  have rec_gen: "recover d' = (if R \<noteq> [] then (d1, length tail, fst (last R) + 1) else (unlink ?path d1, length tail, f))"
    if "file_bytes d' ?path = frames R @ tail" and "parse (frames R @ tail) 0 = (R, length (frames R), False)"
      and "(if length (frames R) < length (frames R @ tail)
        then write_file ?path (take (length (frames R)) (frames R @ tail)) d' else d') = d1" for R d1
    using that(3) by (auto simp: recover_def Let_def seg that(1,2))
  have rec: "recover d' = (if ?rs \<noteq> [] then (?d1, length tail, fst (last ?rs) + 1)
      else (unlink ?path ?d1, length tail, f))"
    using data p' cut by (rule rec_gen)
  have log1: "spool_log ?d1 = spool_log d @ take j new"
    using log_holds [OF h1] log_holds [OF h] by simp
  show ?thesis
  proof (cases "?rs = []")
    case False
    then have "f < n + j" and "fst (last ?rs) + 1 = n + j"
      using consecutive_last [OF crs' False] j by (auto simp: n min_absorb2)
    moreover have "\<forall>i \<in> fst ` set (segments ?d1). i < n + j"
      using lt \<open>f < n + j\<close> by (auto simp: ss)
    ultimately show ?thesis
      using rec False h1 log1 j tk by (intro exI [of _ j]) auto
  next
    case True
    then have "rs = []" "n = f" and "n + j = f \<or> new = []"
      using j by (auto simp: n)
    then have nj: "n + j = f"
      using j by auto
    have "spool_log (unlink ?path ?d1) = spool_log ?d1"
      unfolding log_holds [OF holds_unlink_last(1) [OF h1]] log_holds [OF h1] using True by simp
    then show ?thesis
      using rec True holds_unlink_last [OF h1] log1 j tk nj
      by (intro exI [of _ j]) auto
  qed
qed

subsection \<open>Deleting segments\<close>

lemma segments_fold_unlink: "segments (fold unlink ps d) = filter (\<lambda>(k, p). p \<notin> set ps) (segments d)"
  by (induction ps arbitrary: d) (auto simp: segments_unlink intro: filter_cong)

lemma file_bytes_fold_unlink: "p \<notin> set ps \<Longrightarrow> file_bytes (fold unlink ps d) p = file_bytes d p"
  by (induction ps arbitrary: d) (simp_all add: file_bytes_unlink)

lemma filter_concat_map_filter:
  "(\<And>x. x \<in> set xs \<Longrightarrow> \<not> Q x \<Longrightarrow> filter P (f x) = []) \<Longrightarrow>
   filter P (concat (map f (filter Q xs))) = filter P (concat (map f xs))"
  by (induction xs) auto

lemma log_segments: "spool_log d = concat (map (\<lambda>(k, p). fst (parse (file_bytes d p) 0)) (segments d))"
  by (simp add: spool_log_def seg_contents_def comp_def case_prod_unfold)

lemma group_chain_nth:
  "group_chain s gs n \<Longrightarrow> Suc i < length gs \<Longrightarrow>
   fst (gs ! Suc i) = fst (gs ! i) + length (snd (gs ! i)) \<and> consecutive (fst (gs ! i)) (snd (gs ! i))"
proof (induction gs arbitrary: s i)
  case Nil
  then show ?case by simp
next
  case (Cons g gs)
  obtain f rs where g: "g = (f, rs)"
    by fastforce
  show ?case
  proof (cases i)
    case 0
    with Cons.prems g show ?thesis
      by (cases gs) auto
  next
    case (Suc i')
    with Cons.prems g Cons.IH [of "s + length rs" i'] show ?thesis
      by simp
  qed
qed

lemma prunable_records:
  assumes h: "holds d s gs n" and p: "p \<in> set (prunable d cursor)" and r: "r \<in> set (fst (parse (file_bytes d p) 0))"
  shows "fst r \<le> cursor"
proof -
  let ?found = "segments d"
  obtain k after p2 where "((k, p), (after, p2)) \<in> set (zip ?found (tl ?found))" and le: "after \<le> cursor + 1"
    using p by (auto simp: prunable_def Let_def)
  then obtain i where "i < length ?found - 1" and fi: "?found ! i = (k, p)" and "tl ?found ! i = (after, p2)"
    by (auto simp: in_set_zip)
  then have i: "Suc i < length ?found" and fj: "?found ! Suc i = (after, p2)"
    by (simp_all add: nth_tl)
  have sc: "seg_contents d = map (\<lambda>(f, rs). (f, frames rs)) gs" and gc: "group_chain s gs n"
    using h by (simp_all add: holds_def)
  have eq: "map (\<lambda>(k, p). (k, file_bytes d p)) ?found = map (\<lambda>(f, rs). (f, frames rs)) gs"
    using sc by (simp only: seg_contents_def)
  then have len: "length gs = length ?found"
    by (metis length_map)
  have nth: "(\<lambda>(k, p). (k, file_bytes d p)) (?found ! j) = (\<lambda>(f, rs). (f, frames rs)) (gs ! j)"
    if "j < length ?found" for j
    using arg_cong [OF eq, of "\<lambda>l. l ! j"] that len by simp
  have k: "k = fst (gs ! i)" "file_bytes d p = frames (snd (gs ! i))" and a: "after = fst (gs ! Suc i)"
    using nth [of i] nth [of "Suc i"] i fi fj by (simp_all add: split_beta)
  have "after = k + length (snd (gs ! i))" and c: "consecutive k (snd (gs ! i))"
    using group_chain_nth [OF gc, of i] i len k a by simp_all
  then have "fst (parse (file_bytes d p) 0) = snd (gs ! i)"
    using parse_frames_whole [of "snd (gs ! i)"] k by (simp add: consecutive_def)
  with r have "fst r \<in> set (map fst (snd (gs ! i)))"
    by simp
  also have "map fst (snd (gs ! i)) = [k ..< k + length (snd (gs ! i))]"
    using c by (simp add: consecutive_def)
  finally have "fst r < after"
    by (simp add: \<open>after = k + length (snd (gs ! i))\<close>)
  with le show ?thesis
    by simp
qed

lemma empty_disk_init:
  assumes "disk_ok d" and "segments d = []"
  shows "\<exists>w d2. writer_init False limit d = Inr (w, d2) \<and> writer_ok d2 w \<and> next_seq w = 1
    \<and> spool_log d2 = [] \<and> used_bytes w = usage d2 \<and> max_bytes w = limit"
proof -
  have "holds d 1 [] 1"
    using assms by (simp add: holds_def seg_contents_def)
  moreover have "recover d = (d, 0, 1)"
    using assms by (simp add: recover_def)
  ultimately obtain w d2 where init: "writer_init False limit d = Inr (w, d2)" and "writer_ok d2 w"
    "next_seq w = 1" "spool_log d2 = spool_log d" "used_bytes w = usage d2"
    using init_from [of d d 0 1 1 "[]" limit] assms(2) by auto
  moreover have "max_bytes w = limit"
    using init by (auto simp: writer_init_def open_segment_def Let_def split: prod.splits)
  ultimately show ?thesis
    using assms(2) by (simp add: log_segments)
qed

text \<open>A first start on an empty directory: the example the witnesses below run on.\<close>

definition empty_disk :: disk where
  "empty_disk = \<lparr>names = [], inodes = (\<lambda>_. []), next_ino = 0\<rparr>"

lemma empty_disk_ok [simp]: "disk_ok empty_disk" "segments empty_disk = []"
  by (simp_all add: empty_disk_def disk_ok_def segments_def List.map_filter_simps)

lemma usage_new_writer: "segments d = [] \<Longrightarrow> writer_init False limit d = Inr (w, d2) \<Longrightarrow> disk_ok d \<Longrightarrow> used_bytes w = 0"
proof -
  assume a: "segments d = []" "writer_init False limit d = Inr (w, d2)" "disk_ok d"
  have new: "segment_name 1 \<notin> fst ` set (names d)"
    using a(1) set_segments [of d] segment_number_name [of 1] by force
  then have "segments (open_create (segment_name 1) d) = [(1, segment_name 1)]"
    using segments_open_create [OF a(3), of "segment_name 1" 1] a(1) by simp
  then show "used_bytes w = 0"
    using a by (auto simp: writer_init_def recover_def open_segment_def Let_def usage_def
        open_create_new(2) [OF a(3) new, simplified])
qed

section \<open>Properties\<close>

text \<open>C11: the writer refines an append-only log. While the spool is below its limit and the disk
  accepts the write, \<open>append\<close> returns the number of the last record; the log the disk holds
  is the log before followed by exactly the group, numbered consecutively from \<open>next_seq\<close>,
  whether or not the segment was rotated; and the writer's view of the disk stays consistent, so
  the next append does the same.\<close>

theorem append_extends_log:
  assumes "writer_ok d w" and "used_bytes w < max_bytes w"
    and "\<forall>p \<in> set ps. length p \<le> MAX_PAYLOAD" and "next_seq w + length ps \<le> 2 ^ 64"
  shows "\<exists>w' d'. append ps None w d = (Inr (int (next_seq w + length ps) - 1), w', d')
    \<and> writer_ok d' w' \<and> next_seq w' = next_seq w + length ps
    \<and> spool_log d' = spool_log d @ zip [next_seq w ..< next_seq w + length ps] ps"
  using append_written [OF assms] by (simp add: numbered_def)

theorem append_extends_log_witness:
  "\<exists>w d w' d'. writer_init False 1000 empty_disk = Inr (w, d)
    \<and> append [[7, 8], [9]] None w d = (Inr 2, w', d') \<and> spool_log d' = [(1, [7, 8]), (2, [9])]"
proof -
  obtain w d where i: "writer_init False 1000 empty_disk = Inr (w, d)" and ok: "writer_ok d w"
    and w: "next_seq w = 1" "spool_log d = []" "max_bytes w = 1000"
    using empty_disk_init [of empty_disk 1000] by auto
  have "used_bytes w < max_bytes w"
    using usage_new_writer [OF _ i] w by simp
  from append_extends_log [OF ok this, of "[[7, 8], [9]]"] show ?thesis
    using i w by (auto simp: MAX_PAYLOAD_def upt_conv_Cons)
qed



text \<open>C13: after a crash in the middle of an append, a new writer recovers every record that was durable
  before, in order, followed by the whole records of the interrupted group and nothing of its torn
  one: the log it holds is the old log and a prefix of the group, its next sequence number follows
  that prefix, and the bytes it reports torn are exactly those of the incomplete record.\<close>

theorem crash_recovery:
  assumes "writer_ok d w" and "\<forall>p \<in> set ps. length p \<le> MAX_PAYLOAD"
    and "next_seq w + length ps \<le> 2 ^ 64" and "open_fd w = Some path"
    and "frame_all (next_seq w) ps = Inr buffer" and "k \<le> length buffer"
  defines "crashed \<equiv> write_file path (file_bytes d path @ take k buffer) d"
  shows "\<exists>w' d' j. writer_init False limit crashed = Inr (w', d') \<and> j \<le> length ps
    \<and> writer_ok d' w' \<and> next_seq w' = next_seq w + j
    \<and> spool_log d' = spool_log d @ take j (zip [next_seq w ..< next_seq w + length ps] ps)
    \<and> (\<exists>tail. take k buffer = frames (take j (zip [next_seq w ..< next_seq w + length ps] ps)) @ tail
         \<and> torn_bytes w' = length tail)"
proof -
  obtain s gs f rs where h: "holds d s (gs @ [(f, rs)]) (next_seq w)" and fd: "open_fd w = Some (segment_name f)"
    and bytes: "file_bytes d (segment_name f) = frames rs"
    using writer_okE [OF assms(1)] by metis
  let ?new = "numbered (next_seq w) ps"
  have path: "path = segment_name f" and buffer: "buffer = frames ?new"
    using fd assms(4,5) frame_all_numbered [OF assms(2,3)] by simp_all
  have crashed: "crashed = write_file (segment_name f) (frames rs @ take k (frames ?new)) d"
    by (simp add: crashed_def path buffer bytes)
  have "next_seq w + length ?new \<le> 2 ^ 64" "k \<le> length (frames ?new)"
    using assms(3,6) by (simp_all add: buffer)
  from recover_crashed [OF h consecutive_numbered [OF assms(2,3)] this crashed]
  obtain j d1 torn gs' tail where j: "j \<le> length ps" and rec: "recover crashed = (d1, torn, next_seq w + j)"
    and h1: "holds d1 s gs' (next_seq w + j)" and lt: "\<forall>i \<in> fst ` set (segments d1). i < next_seq w + j"
    and l: "spool_log d1 = spool_log d @ take j ?new" and t: "take k (frames ?new) = frames (take j ?new) @ tail" "torn = length tail"
    by auto
  from init_from [OF rec h1 lt, of limit] l t j show ?thesis
    unfolding buffer by (auto simp: numbered_def)
qed

theorem crash_recovery_witness:
  "\<exists>w d path buffer w' d' j. writer_init False 1000 empty_disk = Inr (w, d) \<and> open_fd w = Some path
    \<and> frame_all 1 [[7, 8], [9]] = Inr buffer
    \<and> writer_init False 1000 (write_file path (file_bytes d path @ take 20 buffer) d) = Inr (w', d')
    \<and> spool_log d' = take j [(1, [7, 8]), (2, [9])]"
proof -
  obtain w d where i: "writer_init False 1000 empty_disk = Inr (w, d)" and ok: "writer_ok d w"
    and w: "next_seq w = 1" "spool_log d = []"
    using empty_disk_init [of empty_disk 1000] by auto
  obtain path where fd: "open_fd w = Some path"
    using ok by (auto simp: writer_ok_def)
  have ps: "\<forall>p \<in> set [[7, 8], [9 :: byte]]. length p \<le> MAX_PAYLOAD"
    by (simp add: MAX_PAYLOAD_def)
  have fa: "frame_all (next_seq w) [[7, 8], [9]] = Inr (frames (numbered 1 [[7, 8], [9]]))"
    using frame_all_numbered [OF ps, of 1] by (simp add: w)
  have "20 \<le> length (frames (numbered 1 [[7, 8], [9]]))"
    by (simp add: HEADER_SIZE_def)
  from crash_recovery [OF ok ps _ fd fa this, of 1000] obtain w' d' j where
    "writer_init False 1000 (write_file path (file_bytes d path @ take 20 (frames (numbered 1 [[7, 8], [9]]))) d) = Inr (w', d')"
    and "spool_log d' = spool_log d @ take j (zip [next_seq w ..< next_seq w + length [[7, 8], [9 :: byte]]] [[7, 8], [9]])"
    unfolding w by auto
  then show ?thesis
    using i fd fa unfolding w
    by (intro exI [of _ w] exI [of _ d] exI [of _ path] exI [of _ "frames (numbered 1 [[7, 8], [9]])"]
        exI [of _ w'] exI [of _ d'] exI [of _ j] conjI)
      (assumption | simp add: upt_conv_Cons numeral_2_eq_2)+
qed



end
