(* ===== verification/Json.thy ===== *)
theory Json
  imports Spool_Log
begin

text \<open>
  The values and the texts of Python's \<open>json\<close> module, as far as the program uses it:
  \<open>json.dumps(value, separators=(",", ":"))\<close>, the same with \<open>sort_keys=True\<close>, and
  \<open>json.loads\<close>. A \<open>dict\<close> is an association list in insertion order with distinct
  keys; a \<open>float\<close> is a real number or one of the three values \<open>json.dumps\<close> writes
  as \<open>NaN\<close>, \<open>Infinity\<close> and \<open>-Infinity\<close>. The text of a finite float
  (\<open>float.__repr__\<close>) and the float nearest to a literal are the arguments \<open>frepr\<close>
  and \<open>fread\<close>. A character is a code point below 256: the reader refuses an escape of a larger
  one, which Python accepts.
\<close>

datatype pyfloat = Finite real | Infinity | Neg_Infinity | Not_A_Number

datatype json =
    JNull
  | JBool bool
  | JInt int
  | JFloat pyfloat
  | JStr string
  | JArr "json list"
  | JObj "(string \<times> json) list"

section \<open>Writing\<close>

definition code :: "char \<Rightarrow> nat" where
  "code c = of_char c"

definition hex_digit :: "nat \<Rightarrow> char" where
  "hex_digit d = char_of (if d < 10 then 48 + d else 87 + d)"

definition short_escapes :: "(nat \<times> nat) list" where
  "short_escapes = [(34, 34), (92, 92), (10, 110), (13, 114), (9, 116), (12, 102), (8, 98)]"

definition escape_char :: "char \<Rightarrow> string" where
  "escape_char c =
     (case map_of short_escapes (code c) of
        Some e \<Rightarrow> [char_of (92::nat), char_of e]
      | None \<Rightarrow>
          if 32 \<le> code c \<and> code c \<le> 126 then [c]
          else [char_of (92::nat), char_of (117::nat), hex_digit 0, hex_digit 0,
                hex_digit (code c div 16), hex_digit (code c mod 16)])"

definition quote :: char where
  "quote = char_of (34::nat)"

definition string_text :: "string \<Rightarrow> string" where
  "string_text s = quote # concat (map escape_char s) @ [quote]"

definition nat_text :: "nat \<Rightarrow> string" where
  "nat_text n = fixed_dec (ndigits n) n"

definition int_text :: "int \<Rightarrow> string" where
  "int_text i = (if i < 0 then CHR ''-'' # nat_text (nat (- i)) else nat_text (nat i))"

fun joined :: "string list \<Rightarrow> string" where
  "joined [] = []"
| "joined [x] = x"
| "joined (x # y # xs) = x @ CHR '','' # joined (y # xs)"

fun dumps :: "(real \<Rightarrow> string) \<Rightarrow> json \<Rightarrow> string" where
  "dumps frepr JNull = ''null''"
| "dumps frepr (JBool True) = ''true''"
| "dumps frepr (JBool False) = ''false''"
| "dumps frepr (JInt i) = int_text i"
| "dumps frepr (JFloat (Finite x)) = frepr x"
| "dumps frepr (JFloat Infinity) = ''Infinity''"
| "dumps frepr (JFloat Neg_Infinity) = ''-Infinity''"
| "dumps frepr (JFloat Not_A_Number) = ''NaN''"
| "dumps frepr (JStr s) = string_text s"
| "dumps frepr (JArr xs) = CHR ''['' # joined (map (dumps frepr) xs) @ '']''"
| "dumps frepr (JObj kvs) = CHR ''{'' # joined (map (\<lambda>(k, v). string_text k @ CHR '':'' # dumps frepr v) kvs) @ ''}''"

text \<open>\<open>sort_keys=True\<close>: the keys of every object in code point order.\<close>

definition key_codes :: "string \<Rightarrow> nat list" where
  "key_codes s = map code s"

fun codes_le :: "nat list \<Rightarrow> nat list \<Rightarrow> bool" where
  "codes_le [] ys = True"
| "codes_le (x # xs) [] = False"
| "codes_le (x # xs) (y # ys) = (x < y \<or> x = y \<and> codes_le xs ys)"

fun insert_key :: "string \<times> json \<Rightarrow> (string \<times> json) list \<Rightarrow> (string \<times> json) list" where
  "insert_key p [] = [p]"
| "insert_key p (q # qs) =
     (if codes_le (key_codes (fst p)) (key_codes (fst q)) then p # q # qs else q # insert_key p qs)"

fun sort_keys :: "json \<Rightarrow> json" where
  "sort_keys (JArr xs) = JArr (map sort_keys xs)"
| "sort_keys (JObj kvs) = JObj (foldr insert_key (map (\<lambda>(k, v). (k, sort_keys v)) kvs) [])"
| "sort_keys v = v"

section \<open>Reading\<close>

definition is_space :: "char \<Rightarrow> bool" where
  "is_space c \<longleftrightarrow> code c \<in> {32, 9, 10, 13}"

definition skip_space :: "string \<Rightarrow> string" where
  "skip_space s = dropWhile is_space s"

definition unhex :: "char \<Rightarrow> nat option" where
  "unhex c =
     (let n = code c in
      if 48 \<le> n \<and> n \<le> 57 then Some (n - 48)
      else if 97 \<le> n \<and> n \<le> 102 then Some (n - 87)
      else if 65 \<le> n \<and> n \<le> 70 then Some (n - 55)
      else None)"

definition hex4 :: "char \<Rightarrow> char \<Rightarrow> char \<Rightarrow> char \<Rightarrow> char option" where
  "hex4 a b c d =
     (case (unhex a, unhex b, unhex c, unhex d) of
        (Some 0, Some 0, Some h, Some l) \<Rightarrow> Some (char_of (16 * h + l))
      | _ \<Rightarrow> None)"

definition unescape :: "char \<Rightarrow> char option" where
  "unescape c = map_option char_of (map_of [(34, 34), (92, 92), (47, 47), (98, 8), (102, 12), (110, 10), (114, 13), (116, 9)] (code c) :: nat option)"

text \<open>After the opening quote: the characters up to the closing one, and what follows it.\<close>

fun read_string :: "string \<Rightarrow> (string \<times> string) option" where
  "read_string [] = None"
| "read_string (c # s) =
     (if c = quote then Some ([], s)
      else if code c = 92 then
        (case s of
           [] \<Rightarrow> None
         | e # s1 \<Rightarrow>
             if code e = 117 then
               (case s1 of
                  h1 # h2 # h3 # h4 # s2 \<Rightarrow>
                    (case hex4 h1 h2 h3 h4 of
                       Some ch \<Rightarrow> map_option (apfst (Cons ch)) (read_string s2)
                     | None \<Rightarrow> None)
                | _ \<Rightarrow> None)
             else (case unescape e of
                     Some ch \<Rightarrow> map_option (apfst (Cons ch)) (read_string s1)
                   | None \<Rightarrow> None))
      else if code c < 32 then None
      else map_option (apfst (Cons c)) (read_string s))"

definition number_char :: "char \<Rightarrow> bool" where
  "number_char c \<longleftrightarrow> is_digit c \<or> c \<in> {CHR ''-'', CHR ''+'', CHR ''.'', CHR ''e'', CHR ''E''}"

text \<open>An integer part: zero, or digits that do not begin with zero. A literal is an integer, or it has
  a fraction or an exponent and is a float. Python refuses an integer of more than 4300 digits.\<close>

definition whole_literal :: "string \<Rightarrow> bool" where
  "whole_literal ds \<longleftrightarrow> ds \<noteq> [] \<and> list_all is_digit ds \<and> (hd ds = CHR ''0'' \<longrightarrow> length ds = 1)"

definition unsigned :: "string \<Rightarrow> string" where
  "unsigned s = (case s of c # t \<Rightarrow> if c = CHR ''-'' then t else s | [] \<Rightarrow> s)"

definition int_literal :: "string \<Rightarrow> bool" where
  "int_literal s \<longleftrightarrow> whole_literal (unsigned s)"

definition exponent_ok :: "string \<Rightarrow> bool" where
  "exponent_ok s \<longleftrightarrow> (case s of c # t \<Rightarrow> c \<in> {CHR ''e'', CHR ''E''} \<and>
       (let ds = (case t of d # t' \<Rightarrow> if d \<in> {CHR ''+'', CHR ''-''} then t' else t | [] \<Rightarrow> t)
        in ds \<noteq> [] \<and> list_all is_digit ds) | [] \<Rightarrow> True)"

definition float_literal :: "string \<Rightarrow> bool" where
  "float_literal s \<longleftrightarrow>
     (let body = unsigned s; whole = takeWhile is_digit body; rest = dropWhile is_digit body
      in whole_literal whole \<and> rest \<noteq> [] \<and>
         (if hd rest = CHR ''.'' then takeWhile is_digit (tl rest) \<noteq> [] \<and> exponent_ok (dropWhile is_digit (tl rest))
          else exponent_ok rest))"

definition MAX_STR_DIGITS :: nat where
  "MAX_STR_DIGITS = 4300"

definition int_value :: "string \<Rightarrow> int" where
  "int_value s = (if hd s = CHR ''-'' then - int (dec_val (tl s)) else int (dec_val s))"

definition number_value :: "(string \<Rightarrow> pyfloat) \<Rightarrow> string \<Rightarrow> json option" where
  "number_value fread s =
     (if int_literal s then (if length (unsigned s) \<le> MAX_STR_DIGITS then Some (JInt (int_value s)) else None)
      else if float_literal s then Some (JFloat (fread s))
      else None)"

definition strip_prefix :: "string \<Rightarrow> string \<Rightarrow> string option" where
  "strip_prefix p s = (if take (length p) s = p then Some (drop (length p) s) else None)"

definition constants :: "(string \<times> json) list" where
  "constants = [(''null'', JNull), (''true'', JBool True), (''false'', JBool False), (''NaN'', JFloat Not_A_Number),
     (''Infinity'', JFloat Infinity), (''-Infinity'', JFloat Neg_Infinity)]"

fun read_constant :: "(string \<times> json) list \<Rightarrow> string \<Rightarrow> (json \<times> string) option" where
  "read_constant [] s = None"
| "read_constant ((p, v) # ps) s =
     (case strip_prefix p s of Some r \<Rightarrow> Some (v, r) | None \<Rightarrow> read_constant ps s)"

definition read_atom :: "(string \<Rightarrow> pyfloat) \<Rightarrow> string \<Rightarrow> (json \<times> string) option" where
  "read_atom fread s =
     (case read_constant constants s of
        Some r \<Rightarrow> Some r
      | None \<Rightarrow> map_option (\<lambda>v. (v, dropWhile number_char s)) (number_value fread (takeWhile number_char s)))"

text \<open>The reader of a value, of the values of an array and of the members of an object. The first
  argument bounds the nesting and the number of elements; the length of the text is enough.\<close>

fun read_value :: "(string \<Rightarrow> pyfloat) \<Rightarrow> nat \<Rightarrow> string \<Rightarrow> (json \<times> string) option"
and read_items :: "(string \<Rightarrow> pyfloat) \<Rightarrow> nat \<Rightarrow> string \<Rightarrow> (json list \<times> string) option"
and read_members :: "(string \<Rightarrow> pyfloat) \<Rightarrow> nat \<Rightarrow> string \<Rightarrow> ((string \<times> json) list \<times> string) option" where
  "read_value fread 0 s = None"
| "read_value fread (Suc n) s =
     (case s of
        [] \<Rightarrow> None
      | c # t \<Rightarrow>
          if c = quote then map_option (apfst JStr) (read_string t)
          else if c = CHR ''['' then
            (if take 1 (skip_space t) = '']'' then Some (JArr [], drop 1 (skip_space t))
             else map_option (apfst JArr) (read_items fread n (skip_space t)))
          else if c = CHR ''{'' then
            (if take 1 (skip_space t) = ''}'' then Some (JObj [], drop 1 (skip_space t))
             else map_option (apfst (\<lambda>kvs. JObj (fold (\<lambda>(k, v). AList.update k v) kvs []))) (read_members fread n (skip_space t)))
          else read_atom fread s)"
| "read_items fread 0 s = None"
| "read_items fread (Suc n) s =
     (case read_value fread n s of
        None \<Rightarrow> None
      | Some (v, r) \<Rightarrow>
          (case skip_space r of
             [] \<Rightarrow> None
           | c # r1 \<Rightarrow>
               if c = CHR '','' then map_option (apfst (Cons v)) (read_items fread n (skip_space r1))
               else if c = CHR '']'' then Some ([v], r1)
               else None))"
| "read_members fread 0 s = None"
| "read_members fread (Suc n) s =
     (case s of
        [] \<Rightarrow> None
      | c # t \<Rightarrow>
          if c \<noteq> quote then None
          else (case read_string t of
             None \<Rightarrow> None
           | Some (k, r) \<Rightarrow>
               if take 1 (skip_space r) \<noteq> '':'' then None
               else (case read_value fread n (skip_space (drop 1 (skip_space r))) of
                  None \<Rightarrow> None
                | Some (v, r1) \<Rightarrow>
                    (case skip_space r1 of
                       [] \<Rightarrow> None
                     | d # r2 \<Rightarrow>
                         if d = CHR '','' then map_option (apfst (Cons (k, v))) (read_members fread n (skip_space r2))
                         else if d = CHR ''}'' then Some ([(k, v)], r2)
                         else None))))"

definition loads :: "(string \<Rightarrow> pyfloat) \<Rightarrow> string \<Rightarrow> json option" where
  "loads fread s =
     (case read_value fread (Suc (length s)) (skip_space s) of
        None \<Rightarrow> None
      | Some (v, r) \<Rightarrow> if skip_space r = [] then Some v else None)"

section \<open>Texts read back\<close>

text \<open>The values whose text determines them: integers Python can read back, finite floats whose text
  is a literal of the same float, objects with distinct keys.\<close>

fun readable :: "(real \<Rightarrow> string) \<Rightarrow> (string \<Rightarrow> pyfloat) \<Rightarrow> json \<Rightarrow> bool" where
  "readable frepr fread (JInt i) = (length (nat_text (nat \<bar>i\<bar>)) \<le> MAX_STR_DIGITS)"
| "readable frepr fread (JFloat (Finite x)) =
     (float_literal (frepr x) \<and> list_all number_char (frepr x) \<and> fread (frepr x) = Finite x)"
| "readable frepr fread (JArr xs) = list_all (readable frepr fread) xs"
| "readable frepr fread (JObj kvs) = (distinct (map fst kvs) \<and> list_all (\<lambda>(k, v). readable frepr fread v) kvs)"
| "readable frepr fread _ = True"

subsection \<open>Characters and numbers\<close>

lemma code_char_of [simp]: "n < 256 \<Longrightarrow> code (char_of (n::nat)) = n"
  by (simp add: code_def)

lemma code_less: "code c < 256"
  using nat_of_char_less_256 [of c] by (simp add: code_def)

lemma char_of_code [simp]: "char_of (code c) = c"
  by (simp add: code_def)

lemma code_inj: "code a = code b \<Longrightarrow> a = b"
  by (metis char_of_code)

lemma code_chars [simp]:
  "code CHR ''-'' = 45" "code CHR ''['' = 91" "code CHR '']'' = 93" "code CHR ''{'' = 123" "code CHR ''}'' = 125"
  "code CHR '','' = 44" "code CHR '':'' = 58" "code CHR ''n'' = 110" "code CHR ''t'' = 116" "code CHR ''f'' = 102"
  "code CHR ''N'' = 78" "code CHR ''I'' = 73"
  by (simp_all add: code_def)

lemma unhex_hex_digit [simp]: "d < 16 \<Longrightarrow> unhex (hex_digit d) = Some d"
  by (auto simp: unhex_def hex_digit_def Let_def)

lemma quote_code [simp]: "c = quote \<longleftrightarrow> code c = 34"
  using code_inj [of c quote] by (auto simp: quote_def)

lemma read_escaped: "read_string (escape_char c @ s) = map_option (apfst (Cons c)) (read_string s)"
proof (cases "map_of short_escapes (code c)")
  case (Some e)
  then have "(code c, e) \<in> set short_escapes"
    by (rule map_of_SomeD)
  then have "e < 256" "e \<noteq> 117" "map_of [(34, 34), (92, 92), (47, 47), (98, 8), (102, 12), (110, 10), (114, 13), (116, 9)] e = Some (code c)"
    by (auto simp: short_escapes_def)
  with Some show ?thesis
    by (simp add: escape_char_def unescape_def)
next
  case None
  then have c: "code c \<noteq> 34" "code c \<noteq> 92"
    by (auto simp: short_escapes_def split: if_splits)
  show ?thesis
  proof (cases "32 \<le> code c \<and> code c \<le> 126")
    case True
    with None c show ?thesis
      by (simp add: escape_char_def)
  next
    case False
    have "hex4 (hex_digit 0) (hex_digit 0) (hex_digit (code c div 16)) (hex_digit (code c mod 16)) = Some c"
      using code_less [of c] by (simp add: hex4_def less_mult_imp_div_less)
    moreover have "escape_char c = [char_of (92::nat), char_of (117::nat), hex_digit 0, hex_digit 0,
                hex_digit (code c div 16), hex_digit (code c mod 16)]"
      unfolding escape_char_def None option.case if_not_P [OF False] by (rule refl)
    ultimately show ?thesis
      by simp
  qed
qed

lemma read_string_text: "read_string (concat (map escape_char s) @ quote # r) = Some (s, r)"
proof (induction s)
  case (Cons c s)
  then show ?case
    by (simp add: read_escaped)
qed simp

lemma nat_text_digits [simp]: "list_all is_digit (nat_text n)" "nat_text n \<noteq> []"
  using ndigits.simps [of n] by (auto simp: nat_text_def simp flip: length_greater_0_conv)

lemma ndigits_bound: "n < 10 ^ ndigits n"
proof (induction n rule: ndigits.induct)
  case (1 n)
  show ?case
  proof (cases "n < 10")
    case False
    with 1 have "n div 10 < 10 ^ ndigits (n div 10)"
      by blast
    then have "n < 10 * 10 ^ ndigits (n div 10)"
      by (simp add: div_less_iff_less_mult)
    with False show ?thesis
      by (simp add: ndigits.simps [of n])
  qed (simp add: ndigits.simps [of n])
qed

lemma dec_val_nat_text [simp]: "dec_val (nat_text n) = n"
  by (simp add: nat_text_def dec_val_fixed_dec ndigits_bound)

lemma nat_text_step: "nat_text n = (if n < 10 then [digit_char n] else nat_text (n div 10) @ [digit_char (n mod 10)])"
  by (simp add: nat_text_def ndigits.simps [of n])

lemma hd_nat_text: "0 < n \<Longrightarrow> hd (nat_text n) \<noteq> CHR ''0''"
proof (induction n rule: ndigits.induct)
  case (1 n)
  show ?case
  proof (cases "n < 10")
    case True
    then have "code (digit_char n) = 48 + n" "code CHR ''0'' = 48"
      by (simp_all add: digit_char_def code_def)
    with "1.prems" True show ?thesis
      by (subst nat_text_step) auto
  next
    case False
    with 1 have "hd (nat_text (n div 10)) \<noteq> CHR ''0''"
      by simp
    with False show ?thesis
      by (subst nat_text_step) simp
  qed
qed

lemma whole_nat_text [simp]: "whole_literal (nat_text n)"
  using hd_nat_text [of n] by (cases "n = 0") (auto simp: whole_literal_def nat_text_step [of 0])

lemma digit_not_minus: "is_digit c \<Longrightarrow> c \<noteq> CHR ''-''"
  by (auto simp: is_digit_def)

lemma hd_digit: "list_all is_digit s \<Longrightarrow> s \<noteq> [] \<Longrightarrow> is_digit (hd s)"
  by (cases s) auto

lemma unsigned_digits: "list_all is_digit s \<Longrightarrow> unsigned s = s"
  by (cases s) (auto simp: unsigned_def dest: digit_not_minus)

lemma number_value_int:
  assumes "length (nat_text (nat \<bar>i\<bar>)) \<le> MAX_STR_DIGITS"
  shows "number_value fread (int_text i) = Some (JInt i)"
proof (cases "i < 0")
  case True
  then have "int_text i = CHR ''-'' # nat_text (nat (- i))" "unsigned (int_text i) = nat_text (nat (- i))"
    by (simp_all add: int_text_def unsigned_def)
  with assms True show ?thesis
    by (simp add: number_value_def int_literal_def int_value_def)
next
  case False
  then have "int_text i = nat_text (nat i)" "unsigned (int_text i) = nat_text (nat i)"
    by (simp_all add: int_text_def unsigned_digits)
  moreover have "hd (nat_text (nat i)) \<noteq> CHR ''-''"
    by (intro digit_not_minus hd_digit nat_text_digits)
  ultimately show ?thesis
    using assms False by (simp add: number_value_def int_literal_def int_value_def)
qed

lemma number_value_float: "float_literal s \<Longrightarrow> number_value fread s = Some (JFloat (fread s))"
proof -
  assume f: "float_literal s"
  then have "dropWhile is_digit (unsigned s) \<noteq> []"
    by (simp add: float_literal_def Let_def)
  then have "\<not> list_all is_digit (unsigned s)"
    by (auto simp: list_all_iff)
  with f show ?thesis
    by (simp add: number_value_def int_literal_def whole_literal_def)
qed

subsection \<open>Atoms\<close>

definition number_start :: "string \<Rightarrow> bool" where
  "number_start s \<longleftrightarrow> unsigned s \<noteq> [] \<and> is_digit (hd (unsigned s))"

definition ended :: "string \<Rightarrow> bool" where
  "ended r \<longleftrightarrow> (case r of [] \<Rightarrow> True | c # _ \<Rightarrow> \<not> number_char c)"

lemma digit_char_facts:
  assumes "is_digit c"
  shows "c \<noteq> CHR ''n''" "c \<noteq> CHR ''t''" "c \<noteq> CHR ''f''" "c \<noteq> CHR ''N''" "c \<noteq> CHR ''I''" "c \<noteq> CHR ''-''"
    "c \<noteq> CHR ''[''" "c \<noteq> CHR ''{''" "c \<noteq> CHR '']''" "c \<noteq> CHR ''}''" "code c \<noteq> 34" "\<not> is_space c"
  using assms by (auto simp: is_digit_def is_space_def code_def)

lemma number_start_cases:
  assumes "number_start s"
  obtains c t where "s = c # t" "is_digit c" | c t where "s = CHR ''-'' # c # t" "is_digit c"
proof (cases s)
  case (Cons a t)
  with assms that show ?thesis
    by (cases t; cases "a = CHR ''-''") (auto simp: number_start_def unsigned_def)
qed (use assms in \<open>simp add: number_start_def unsigned_def\<close>)

lemma int_text_start: "number_start (int_text i)" "list_all number_char (int_text i)"
proof -
  have d: "is_digit (hd (nat_text n))" for n
    by (intro hd_digit nat_text_digits)
  then have "unsigned (nat_text n) = nat_text n" for n
    by (intro unsigned_digits nat_text_digits)
  with d show "number_start (int_text i)"
    by (simp add: number_start_def int_text_def) (simp add: unsigned_def d)
  have "list_all number_char (nat_text n)" for n
    using nat_text_digits(1) [of n] by (auto simp: list_all_iff number_char_def)
  then show "list_all number_char (int_text i)"
    by (simp add: int_text_def number_char_def)
qed

lemma float_literal_start: "float_literal s \<Longrightarrow> number_start s"
  by (cases "unsigned s") (auto simp: float_literal_def number_start_def Let_def whole_literal_def split: if_splits)

lemma no_constant: "number_start s \<Longrightarrow> read_constant constants (s @ r) = None"
  by (erule number_start_cases) (simp_all add: constants_def strip_prefix_def digit_char_facts)

lemma number_span:
  "list_all number_char s \<Longrightarrow> ended r \<Longrightarrow> takeWhile number_char (s @ r) = s \<and> dropWhile number_char (s @ r) = r"
  by (cases r) (auto simp: ended_def list_all_iff)

lemma read_number:
  assumes "number_start s" and "list_all number_char s" and "number_value fread s = Some v" and "ended r"
  shows "read_value fread (Suc n) (s @ r) = Some (v, r)"
proof -
  have "read_atom fread (s @ r) = Some (v, r)"
    using number_span [OF assms(2,4)] by (simp add: read_atom_def no_constant assms)
  then show ?thesis
    using assms(1) by (elim number_start_cases) (simp_all add: digit_char_facts del: read_string.simps)
qed

lemma read_constants:
  "read_atom fread (''null'' @ r) = Some (JNull, r)" "read_atom fread (''true'' @ r) = Some (JBool True, r)"
  "read_atom fread (''false'' @ r) = Some (JBool False, r)" "read_atom fread (''NaN'' @ r) = Some (JFloat Not_A_Number, r)"
  "read_atom fread (''Infinity'' @ r) = Some (JFloat Infinity, r)" "read_atom fread (''-Infinity'' @ r) = Some (JFloat Neg_Infinity, r)"
  by (simp_all add: read_atom_def constants_def strip_prefix_def)

text \<open>How a text begins: never with a blank or a closing bracket.\<close>

definition opens :: "string \<Rightarrow> bool" where
  "opens s \<longleftrightarrow> s \<noteq> [] \<and> \<not> is_space (hd s) \<and> hd s \<noteq> CHR '']'' \<and> hd s \<noteq> CHR ''}''"

lemma opens_number: "number_start s \<Longrightarrow> opens s"
  by (erule number_start_cases) (auto simp: opens_def dest: digit_char_facts, auto simp: is_space_def code_def)

lemma opens_string [simp]: "opens (string_text s)"
proof -
  have "code quote = 34"
    by (simp add: quote_def)
  then have "quote \<noteq> CHR '']''" "quote \<noteq> CHR ''}''" "\<not> is_space quote"
    using code_chars(3,5) by (force, force, simp add: is_space_def)
  then show ?thesis
    by (simp add: opens_def string_text_def del: quote_code)
qed

lemma opens_dumps: "readable frepr fread j \<Longrightarrow> opens (dumps frepr j)"
  by (cases "(frepr, j)" rule: dumps.cases)
    (auto simp: opens_number int_text_start float_literal_start, auto simp: opens_def is_space_def)

lemma skip_opens: "opens s \<Longrightarrow> skip_space (s @ r) = s @ r"
  by (cases s) (auto simp: opens_def skip_space_def)

lemma skip_punct [simp]: "skip_space (CHR '','' # r) = CHR '','' # r" "skip_space (CHR '']'' # r) = CHR '']'' # r"
  "skip_space (CHR ''}'' # r) = CHR ''}'' # r" "skip_space (CHR '':'' # r) = CHR '':'' # r"
  by (simp_all add: skip_space_def is_space_def code_def)

lemma ended_punct [simp]: "ended []" "ended (CHR '','' # r)" "ended (CHR '']'' # r)" "ended (CHR ''}'' # r)"
  by (simp_all add: ended_def number_char_def is_digit_def)

subsection \<open>Values\<close>

lemma read_value_string: "read_value fread (Suc n) (string_text s @ r) = Some (JStr s, r)"
  by (simp add: string_text_def read_string_text)

lemma read_value_atom:
  assumes "read_atom fread (c # t) = Some x" and "c \<noteq> quote" and "c \<noteq> CHR ''[''" and "c \<noteq> CHR ''{''"
  shows "read_value fread (Suc n) (c # t) = Some x"
  using assms by simp

definition reads_back :: "(real \<Rightarrow> string) \<Rightarrow> (string \<Rightarrow> pyfloat) \<Rightarrow> json \<Rightarrow> bool" where
  "reads_back frepr fread j \<longleftrightarrow>
     (\<forall>n r. length (dumps frepr j) \<le> n \<longrightarrow> ended r \<longrightarrow> read_value fread n (dumps frepr j @ r) = Some (j, r))"

lemma reads_backD:
  "reads_back frepr fread j \<Longrightarrow> length (dumps frepr j) \<le> n \<Longrightarrow> ended r \<Longrightarrow> read_value fread n (dumps frepr j @ r) = Some (j, r)"
  by (simp add: reads_back_def)

lemma reads_back_atom:
  assumes "dumps frepr j \<noteq> []"
    and "\<And>n r. ended r \<Longrightarrow> read_value fread (Suc n) (dumps frepr j @ r) = Some (j, r)"
  shows "reads_back frepr fread j"
  unfolding reads_back_def
proof (intro allI impI)
  fix n r
  assume "length (dumps frepr j) \<le> n" and "ended r"
  moreover from this assms(1) obtain m where "n = Suc m"
    by (cases n) auto
  ultimately show "read_value fread n (dumps frepr j @ r) = Some (j, r)"
    using assms(2) by simp
qed

lemma not_bracket [simp]:
  "CHR ''n'' \<noteq> quote" "CHR ''t'' \<noteq> quote" "CHR ''f'' \<noteq> quote" "CHR ''N'' \<noteq> quote" "CHR ''I'' \<noteq> quote" "CHR ''-'' \<noteq> quote"
  by simp_all

lemma constants_read_back:
  "reads_back frepr fread JNull" "reads_back frepr fread (JBool True)" "reads_back frepr fread (JBool False)"
  "reads_back frepr fread (JFloat Not_A_Number)" "reads_back frepr fread (JFloat Infinity)"
  "reads_back frepr fread (JFloat Neg_Infinity)"
  by (rule reads_back_atom, simp, simp only: dumps.simps append_Cons append_Nil,
      rule read_value_atom, rule read_constants [simplified append_Cons append_Nil], rule not_bracket, simp, simp)+

lemma joined_Cons: "joined (x # xs) = x @ (if xs = [] then [] else CHR '','' # joined xs)"
  by (cases xs) auto

lemma read_items_joined:
  assumes "xs \<noteq> []" and "\<forall>x \<in> set xs. readable frepr fread x \<and> reads_back frepr fread x"
    and "length (joined (map (dumps frepr) xs)) < n"
  shows "read_items fread n (joined (map (dumps frepr) xs) @ CHR '']'' # r) = Some (xs, r)"
  using assms
proof (induction xs arbitrary: n)
  case (Cons x xs)
  let ?rest = "(if xs = [] then [] else CHR '','' # joined (map (dumps frepr) xs)) @ CHR '']'' # r"
  obtain m where n: "n = Suc m"
    using Cons.prems(3) by (cases n) auto
  have len: "length (dumps frepr x) \<le> m" "xs \<noteq> [] \<Longrightarrow> length (joined (map (dumps frepr) xs)) < m"
    using Cons.prems(3) by (auto simp: n joined_Cons split: if_splits)
  have shape: "joined (map (dumps frepr) (x # xs)) @ CHR '']'' # r = dumps frepr x @ ?rest"
    by (simp add: joined_Cons)
  have "ended ?rest"
    by simp
  then have v: "read_value fread m (dumps frepr x @ ?rest) = Some (x, ?rest)"
    using Cons.prems(2) len(1) by (intro reads_backD) simp_all
  show ?case
  proof (cases "xs = []")
    case True
    then show ?thesis
      unfolding shape n using v by simp
  next
    case False
    then obtain y ys where "xs = y # ys"
      by (cases xs) auto
    then have "opens (joined (map (dumps frepr) xs))"
      using Cons.prems(2) opens_dumps [of frepr fread y] by (auto simp: joined_Cons opens_def hd_append)
    then have "skip_space (joined (map (dumps frepr) xs) @ CHR '']'' # r) = joined (map (dumps frepr) xs) @ CHR '']'' # r"
      by (rule skip_opens)
    with False show ?thesis
      unfolding shape n using v Cons.IH [of m] Cons.prems(2) len(2) by simp
  qed
qed simp

abbreviation member_text :: "(real \<Rightarrow> string) \<Rightarrow> string \<times> json \<Rightarrow> string" where
  "member_text frepr \<equiv> \<lambda>(k, v). string_text k @ CHR '':'' # dumps frepr v"

lemma read_members_joined:
  assumes "kvs \<noteq> []" and "\<forall>(k, v) \<in> set kvs. readable frepr fread v \<and> reads_back frepr fread v"
    and "length (joined (map (member_text frepr) kvs)) < n"
  shows "read_members fread n (joined (map (member_text frepr) kvs) @ CHR ''}'' # r) = Some (kvs, r)"
  using assms
proof (induction kvs arbitrary: n)
  case (Cons kv kvs)
  obtain k x where kv: "kv = (k, x)"
    by (cases kv)
  let ?rest = "(if kvs = [] then [] else CHR '','' # joined (map (member_text frepr) kvs)) @ CHR ''}'' # r"
  obtain m where n: "n = Suc m"
    using Cons.prems(3) by (cases n) auto
  have len: "length (dumps frepr x) \<le> m" "kvs \<noteq> [] \<Longrightarrow> length (joined (map (member_text frepr) kvs)) < m"
    using Cons.prems(3) by (auto simp: n kv joined_Cons split: if_splits)
  have shape: "joined (map (member_text frepr) (kv # kvs)) @ CHR ''}'' # r
      = quote # concat (map escape_char k) @ quote # CHR '':'' # dumps frepr x @ ?rest"
    by (simp add: joined_Cons kv string_text_def)
  have x: "readable frepr fread x" "reads_back frepr fread x"
    using Cons.prems(2) by (auto simp: kv)
  have "ended ?rest"
    by simp
  then have v: "read_value fread m (skip_space (dumps frepr x @ ?rest)) = Some (x, ?rest)"
    unfolding skip_opens [OF opens_dumps [OF x(1)]] using x(2) len(1) by (intro reads_backD)
  show ?case
  proof (cases "kvs = []")
    case True
    then show ?thesis
      unfolding shape n using v by (simp add: read_string_text kv)
  next
    case False
    then obtain y ys where "kvs = y # ys"
      by (cases kvs) auto
    then have "opens (joined (map (member_text frepr) kvs))"
      using opens_string by (auto simp: joined_Cons opens_def hd_append split: prod.splits)
    then have "skip_space (joined (map (member_text frepr) kvs) @ CHR ''}'' # r) = joined (map (member_text frepr) kvs) @ CHR ''}'' # r"
      by (rule skip_opens)
    with False show ?thesis
      unfolding shape n using v Cons.IH [of m] Cons.prems(2) len(2) by (simp add: read_string_text kv)
  qed
qed simp

lemma update_fold_distinct: "distinct (map fst (acc @ kvs)) \<Longrightarrow> fold (\<lambda>(k, v). AList.update k v) kvs acc = acc @ kvs"
proof (induction kvs arbitrary: acc)
  case (Cons kv kvs)
  obtain k v where kv: "kv = (k, v)"
    by (cases kv)
  have new: "k \<notin> fst ` set ys \<Longrightarrow> AList.update k v ys = ys @ [(k, v)]" for ys
    by (induction ys) auto
  have "fold (\<lambda>(k, v). AList.update k v) (kv # kvs) acc = fold (\<lambda>(k, v). AList.update k v) kvs (acc @ [kv])"
    using Cons.prems by (simp add: kv new)
  also have "\<dots> = acc @ kv # kvs"
    using Cons.IH [of "acc @ [kv]"] Cons.prems by simp
  finally show ?case .
qed simp

lemma read_dumps: "readable frepr fread j \<Longrightarrow> reads_back frepr fread j"
proof (induction j)
  case (JArr xs)
  show ?case
    unfolding reads_back_def
  proof (intro allI impI)
    fix n r
    assume n: "length (dumps frepr (JArr xs)) \<le> n"
    then obtain m where m: "n = Suc m"
      by (cases n) auto
    show "read_value fread n (dumps frepr (JArr xs) @ r) = Some (JArr xs, r)"
    proof (cases "xs = []")
      case True
      then show ?thesis by (simp add: m)
    next
      case False
      then obtain y ys where "xs = y # ys"
        by (cases xs) auto
      then have o: "opens (joined (map (dumps frepr) xs))"
        using JArr.prems opens_dumps [of frepr fread y] by (auto simp: joined_Cons opens_def hd_append)
      have "read_items fread m (joined (map (dumps frepr) xs) @ CHR '']'' # r) = Some (xs, r)"
        using JArr n m False by (intro read_items_joined) (auto simp: list_all_iff)
      moreover have "take 1 (joined (map (dumps frepr) xs) @ CHR '']'' # r) \<noteq> '']''"
        using o by (cases "joined (map (dumps frepr) xs)") (auto simp: opens_def)
      ultimately show ?thesis
        by (simp add: m skip_opens [OF o])
    qed
  qed
next
  case (JObj kvs)
  show ?case
    unfolding reads_back_def
  proof (intro allI impI)
    fix n r
    assume n: "length (dumps frepr (JObj kvs)) \<le> n"
    then obtain m where m: "n = Suc m"
      by (cases n) auto
    show "read_value fread n (dumps frepr (JObj kvs) @ r) = Some (JObj kvs, r)"
    proof (cases "kvs = []")
      case True
      then show ?thesis by (simp add: m)
    next
      case False
      then obtain y ys where "kvs = y # ys"
        by (cases kvs) auto
      then have o: "opens (joined (map (member_text frepr) kvs))"
        using opens_string by (auto simp: joined_Cons opens_def hd_append split: prod.splits)
      have "\<forall>(k, v) \<in> set kvs. readable frepr fread v \<and> reads_back frepr fread v"
        using JObj by (fastforce simp: list_all_iff)
      then have "read_members fread m (joined (map (member_text frepr) kvs) @ CHR ''}'' # r) = Some (kvs, r)"
        using n m False by (intro read_members_joined) auto
      moreover have "take 1 (joined (map (member_text frepr) kvs) @ CHR ''}'' # r) \<noteq> ''}''"
        using o by (cases "joined (map (member_text frepr) kvs)") (auto simp: opens_def)
      moreover have "fold (\<lambda>(k, v). AList.update k v) kvs [] = kvs"
        using JObj.prems update_fold_distinct [of "[]" kvs] by simp
      ultimately show ?thesis
        by (simp add: m skip_opens [OF o])
    qed
  qed
next
  case (JInt i)
  then show ?case
    using opens_dumps [of frepr fread "JInt i"]
    by (intro reads_back_atom) (simp_all add: read_number int_text_start number_value_int opens_def del: read_value.simps)
next
  case (JFloat x)
  show ?case
  proof (cases x)
    case (Finite a)
    with JFloat show ?thesis
      using opens_dumps [of frepr fread "JFloat x"]
      by (intro reads_back_atom)
        (simp_all add: read_number float_literal_start number_value_float opens_def del: read_value.simps)
  qed (simp_all only: constants_read_back)
next
  case (JStr s)
  show ?case
    by (rule reads_back_atom) (simp add: string_text_def, simp only: dumps.simps read_value_string)
next
  case JNull
  show ?case
    by (rule constants_read_back(1))
next
  case (JBool b)
  show ?case
    by (cases b) (simp_all only: constants_read_back)
qed

text \<open>\<open>json.loads(json.dumps(value))\<close> is the value, and two values with one text are one value.\<close>

lemma loads_dumps:
  assumes "readable frepr fread j"
  shows "loads fread (dumps frepr j) = Some j"
proof -
  have "skip_space (dumps frepr j) = dumps frepr j"
    using skip_opens [OF opens_dumps [OF assms], of "[]"] by simp
  moreover have "read_value fread (Suc (length (dumps frepr j))) (dumps frepr j) = Some (j, [])"
    using reads_backD [OF read_dumps [OF assms], of "Suc (length (dumps frepr j))" "[]"]
    by (simp del: read_value.simps)
  ultimately show ?thesis
    by (simp add: loads_def del: read_value.simps) (simp add: skip_space_def)
qed

lemma dumps_inject:
  "readable frepr fread i \<Longrightarrow> readable frepr fread j \<Longrightarrow> dumps frepr i = dumps frepr j \<Longrightarrow> i = j"
  by (metis loads_dumps option.inject)

section \<open>Sorted keys\<close>

abbreviation key_le :: "string \<times> json \<Rightarrow> string \<times> json \<Rightarrow> bool" where
  "key_le p q \<equiv> codes_le (key_codes (fst p)) (key_codes (fst q))"

lemma codes_le_total: "codes_le xs ys \<or> codes_le ys xs"
  by (induction xs ys rule: codes_le.induct) auto

lemma codes_le_trans: "codes_le xs ys \<Longrightarrow> codes_le ys zs \<Longrightarrow> codes_le xs zs"
proof (induction xs ys arbitrary: zs rule: codes_le.induct)
  case (3 x xs y ys)
  then show ?case
    by (cases zs) auto
qed auto

lemma set_insert_key [simp]: "set (insert_key p qs) = insert p (set qs)"
  by (induction qs) auto

lemma keys_insert_key: "distinct (map fst (insert_key p qs)) \<longleftrightarrow> distinct (map fst (p # qs))"
  by (induction qs) auto

lemma insert_key_sorted: "sorted_wrt key_le qs \<Longrightarrow> sorted_wrt key_le (insert_key p qs)"
proof (induction qs)
  case (Cons q qs)
  then show ?case
    using codes_le_total [of "key_codes (fst p)" "key_codes (fst q)"] by (auto intro: codes_le_trans)
qed simp

lemma set_insert_keys [simp]: "set (foldr insert_key ps []) = set ps"
  by (induction ps) auto

lemma keys_insert_keys: "distinct (map fst (foldr insert_key ps [])) \<longleftrightarrow> distinct (map fst ps)"
  by (induction ps) (auto simp: keys_insert_key image_iff)

lemma insert_keys_sorted: "sorted_wrt key_le (foldr insert_key ps [])"
  by (induction ps) (auto intro: insert_key_sorted)

lemma insert_keys_same: "sorted_wrt key_le ps \<Longrightarrow> foldr insert_key ps [] = ps"
proof (induction ps)
  case (Cons p ps)
  then show ?case
    by (cases ps) auto
qed simp

lemma readable_sort_keys: "readable frepr fread j \<Longrightarrow> readable frepr fread (sort_keys j)"
proof (induction j)
  case (JObj kvs)
  let ?ps = "map (\<lambda>(k, v). (k, sort_keys v)) kvs"
  have "map fst ?ps = map fst kvs"
    by (simp split: prod.split)
  moreover have "\<forall>(k, v) \<in> set ?ps. readable frepr fread v"
    using JObj by (fastforce simp: list_all_iff)
  ultimately show ?case
    using JObj.prems by (simp only: sort_keys.simps readable.simps keys_insert_keys list_all_iff set_insert_keys)
qed (auto simp: list_all_iff)

lemma sort_keys_idem: "sort_keys (sort_keys j) = sort_keys j"
proof (induction j)
  case (JObj kvs)
  let ?ps = "foldr insert_key (map (\<lambda>(k, v). (k, sort_keys v)) kvs) []"
  have "map (\<lambda>(k, v). (k, sort_keys v)) ?ps = ?ps"
    using JObj by (intro map_idI) fastforce
  then show ?case
    by (simp add: insert_keys_same insert_keys_sorted)
qed auto

section \<open>What is read can be written\<close>

text \<open>The float nearest to a literal has a text that reads back as that float, which is what
  \<open>float.__repr__\<close> promises.\<close>

definition exact_floats :: "(real \<Rightarrow> string) \<Rightarrow> (string \<Rightarrow> pyfloat) \<Rightarrow> bool" where
  "exact_floats frepr fread \<longleftrightarrow>
     (\<forall>s x. float_literal s \<longrightarrow> fread s = Finite x \<longrightarrow> readable frepr fread (JFloat (Finite x)))"

lemma dec_val_bound: "list_all is_digit ds \<Longrightarrow> dec_val ds < 10 ^ length ds"
proof (induction ds rule: rev_induct)
  case (snoc d ds)
  then have "digit_val d < 10"
    by (auto simp: is_digit_def digit_val_def)
  with snoc show ?case
    by (simp add: dec_val_def)
qed (simp add: dec_val_def)

lemma nat_text_shortest: "n < 10 ^ k \<Longrightarrow> 0 < k \<Longrightarrow> length (nat_text n) \<le> k"
proof (induction n arbitrary: k rule: ndigits.induct)
  case (1 n)
  show ?case
  proof (cases "n < 10")
    case True
    with "1.prems" show ?thesis
      by (simp add: nat_text_step [of n])
  next
    case False
    then obtain m where k: "k = Suc m" "0 < m"
      using "1.prems" by (cases k; cases "k - 1") auto
    with "1.prems" have "n div 10 < 10 ^ m"
      by (simp add: div_less_iff_less_mult mult.commute)
    with "1.IH" [OF False this k(2)] False show ?thesis
      by (simp add: nat_text_step [of n] k)
  qed
qed

lemma number_value_readable:
  assumes "exact_floats frepr fread" and "number_value fread s = Some j"
  shows "readable frepr fread j"
proof (cases "int_literal s")
  case True
  with assms(2) have j: "j = JInt (int_value s)" "length (unsigned s) \<le> MAX_STR_DIGITS"
    by (simp_all add: number_value_def split: if_splits)
  have "nat \<bar>int_value s\<bar> = dec_val (unsigned s)"
    using True by (cases s) (auto simp: int_value_def unsigned_def int_literal_def whole_literal_def)
  moreover have "length (nat_text (dec_val (unsigned s))) \<le> length (unsigned s)"
    using True dec_val_bound [of "unsigned s"]
    by (intro nat_text_shortest) (auto simp: int_literal_def whole_literal_def)
  ultimately show ?thesis
    using j by simp
next
  case False
  with assms(2) have "j = JFloat (fread s)" "float_literal s"
    by (simp_all add: number_value_def split: if_splits)
  with assms(1) show ?thesis
    by (cases "fread s") (auto simp: exact_floats_def)
qed

lemma read_constant_readable: "read_constant constants s = Some (j, r) \<Longrightarrow> readable frepr fread j"
  by (auto simp: constants_def split: option.splits)

lemma read_atom_readable:
  "exact_floats frepr fread \<Longrightarrow> read_atom fread s = Some (j, r) \<Longrightarrow> readable frepr fread j"
  by (auto simp: read_atom_def split: option.splits dest: number_value_readable read_constant_readable)

lemma update_readable:
  "list_all (\<lambda>(k, v). P v) kvs \<Longrightarrow> P v \<Longrightarrow> list_all (\<lambda>(k, v). P v) (AList.update k v kvs)"
  by (induction kvs) auto

lemma updates_readable:
  "list_all (\<lambda>(k, v). P v) kvs \<Longrightarrow> list_all (\<lambda>(k, v). P v) acc \<Longrightarrow>
     list_all (\<lambda>(k, v). P v) (fold (\<lambda>(k, v). AList.update k v) kvs acc)"
  by (induction kvs arbitrary: acc) (auto simp: update_readable)

lemma updates_distinct:
  "distinct (map fst acc) \<Longrightarrow> distinct (map fst (fold (\<lambda>(k, v). AList.update k v) kvs acc))"
  by (induction kvs arbitrary: acc) (auto simp: distinct_update)

lemma read_readable:
  assumes "exact_floats frepr fread"
  shows "read_value fread n s = Some (j, r) \<Longrightarrow> readable frepr fread j"
    and "read_items fread n s = Some (js, r) \<Longrightarrow> list_all (readable frepr fread) js"
    and "read_members fread n s = Some (kvs, r) \<Longrightarrow> list_all (\<lambda>(k, v). readable frepr fread v) kvs"
proof (induction n arbitrary: s j js kvs r)
  case (Suc n)
  {
    case 1
    then show ?case
      using assms Suc.IH
      by (auto simp: updates_readable updates_distinct read_atom_readable split: list.splits if_splits)
  next
    case 2
    then show ?case
      using Suc.IH(1,2) by (auto split: list.splits if_splits option.splits)
  next
    case 3
    then show ?case
      using Suc.IH(1,3) by (auto split: list.splits if_splits option.splits)
  }
qed simp_all

lemma loads_readable: "exact_floats frepr fread \<Longrightarrow> loads fread s = Some j \<Longrightarrow> readable frepr fread j"
  by (auto simp: loads_def simp del: read_value.simps split: option.splits if_splits dest: read_readable(1))

declare read_value.simps [simp del] read_items.simps [simp del] read_members.simps [simp del]

end
