(* ===== verification/Events.thy ===== *)
theory Events
  imports Prelude
begin

text \<open>
  \<open>ingest/events.py\<close>: a decoded trap. Raw device text is a \<open>string\<close>.
\<close>

record Varbind =
  vb_oid :: string
  vb_kind :: string
  vb_value :: string

record TrapEvent =
  ev_device :: string
  ev_trap_oid :: string
  ev_instance :: string
  ev_ts :: seconds
  ev_varbinds :: "Varbind list"
  ev_community_tag :: string

definition fingerprint :: "TrapEvent \<Rightarrow> string \<times> string \<times> string" where
  "fingerprint e = (ev_device e, ev_trap_oid e, ev_instance e)"

record QuarantinedPacket =
  q_source :: string
  q_raw :: bytes
  q_reason :: string
  q_ts :: seconds
  q_sha256 :: string
  q_length :: int
  q_first8 :: string
  q_sanitized :: bool

end
