(* ===== verification/Records.thy ===== *)
theory Records
  imports Json Events
begin

text \<open>
  \<open>ingest/records.py\<close>: what the spool holds and what the decoder hands back. A raw record is the
  datagram with its arrival time and its source; an event is a JSON array, whose fields
  \<open>decode\<close> checks one by one.

  The libraries' part: \<open>dpack\<close> and \<open>dunpack\<close> are \<open>struct\<close>'s eight bytes of a
  float, \<open>pton\<close> and \<open>ntop\<close> the operating system's address conversions (the first argument
  of \<open>pton\<close> chooses IPv6), \<open>sha\<close> the hexadecimal SHA-256 digest. Base64 and the rounding
  of an integer to a float are written out.
\<close>

section \<open>Base64\<close>

definition b64_alphabet :: string where
  "b64_alphabet = ''ABCDEFGHIJKLMNOPQRSTUVWXYZabcdefghijklmnopqrstuvwxyz0123456789+/''"

definition b64_char :: "nat \<Rightarrow> char" where
  "b64_char n = (if n < 26 then char_of (65 + n) else if n < 52 then char_of (71 + n) else if n < 62 then char_of (n - 4)
     else if n = 62 then CHR ''+'' else CHR ''/'')"

definition b64_value :: "char \<Rightarrow> nat option" where
  "b64_value c =
     (let n = code c in
      if 65 \<le> n \<and> n \<le> 90 then Some (n - 65)
      else if 97 \<le> n \<and> n \<le> 122 then Some (n - 71)
      else if 48 \<le> n \<and> n \<le> 57 then Some (n + 4)
      else if n = 43 then Some 62 else if n = 47 then Some 63 else None)"

definition byte_of :: "nat \<Rightarrow> byte" where
  "byte_of n = word_of_nat (n mod 256)"

text \<open>\<open>base64.b64encode\<close>, and \<open>base64.b64decode(_, validate=True)\<close>: None is its
  \<open>binascii.Error\<close>, a \<open>ValueError\<close>.\<close>

fun b64encode :: "bytes \<Rightarrow> string" where
  "b64encode [] = []"
| "b64encode [a] = [b64_char (unat a div 4), b64_char (unat a mod 4 * 16), CHR ''='', CHR ''='']"
| "b64encode [a, b] =
     [b64_char (unat a div 4), b64_char (unat a mod 4 * 16 + unat b div 16), b64_char (unat b mod 16 * 4), CHR ''='']"
| "b64encode (a # b # c # r) =
     b64_char (unat a div 4) # b64_char (unat a mod 4 * 16 + unat b div 16)
     # b64_char (unat b mod 16 * 4 + unat c div 64) # b64_char (unat c mod 64) # b64encode r"

fun b64decode :: "string \<Rightarrow> bytes option" where
  "b64decode [] = Some []"
| "b64decode (a # b # c # d # r) =
     (case (b64_value a, b64_value b) of
        (Some x, Some y) \<Rightarrow>
          if c = CHR ''='' then (if d = CHR ''='' \<and> r = [] then Some [byte_of (4 * x + y div 16)] else None)
          else (case b64_value c of
             None \<Rightarrow> None
           | Some z \<Rightarrow>
               if d = CHR ''='' then
                 (if r = [] then Some [byte_of (4 * x + y div 16), byte_of (y mod 16 * 16 + z div 4)] else None)
               else (case (b64_value d, b64decode r) of
                  (Some w, Some bs) \<Rightarrow>
                    Some (byte_of (4 * x + y div 16) # byte_of (y mod 16 * 16 + z div 4) # byte_of (z mod 4 * 64 + w) # bs)
                | _ \<Rightarrow> None))
      | _ \<Rightarrow> None)"
| "b64decode _ = None"

section \<open>Numbers\<close>

text \<open>\<open>float(i)\<close>: the nearest float of 53 significant bits, ties to even; from \<open>2 ^ 1024\<close>
  on Python raises \<open>OverflowError\<close>.\<close>

fun bit_count :: "nat \<Rightarrow> nat" where
  "bit_count n = (if n = 0 then 0 else Suc (bit_count (n div 2)))"

declare bit_count.simps [simp del]

definition round_53 :: "nat \<Rightarrow> nat" where
  "round_53 n =
     (if bit_count n \<le> 53 then n
      else let s = bit_count n - 53; q = n div 2 ^ s; r = n mod 2 ^ s
           in (if 2 ^ s < 2 * r \<or> 2 ^ s = 2 * r \<and> odd q then q + 1 else q) * 2 ^ s)"

datatype record_error = Value_Error string | Int_Too_Large | Bad_Address | Struct_Refused

definition float_of_int :: "int \<Rightarrow> record_error + real" where
  "float_of_int i =
     (let m = round_53 (nat \<bar>i\<bar>)
      in if 2 ^ 1024 \<le> m then Inl Int_Too_Large else Inr (if i < 0 then - real m else real m))"

section \<open>Raw records\<close>

definition is_raw :: "bytes \<Rightarrow> bool" where
  "is_raw payload \<longleftrightarrow> take 1 payload = [82]"

definition RAW_SIZE :: nat where
  "RAW_SIZE = 11"

definition raw :: "(pyfloat \<Rightarrow> bytes) \<Rightarrow> (bool \<Rightarrow> string \<Rightarrow> bytes option) \<Rightarrow> string \<Rightarrow> int \<Rightarrow> pyfloat \<Rightarrow> bytes
    \<Rightarrow> record_error + bytes" where
  "raw dpack pton source port ts datagram =
     (case pton (CHR '':'' \<in> set source) source of
        None \<Rightarrow> Inl Bad_Address
      | Some address \<Rightarrow>
          if length address < 256 \<and> 0 \<le> port \<and> port < 65536
          then Inr (82 # (dpack ts @ le_bytes 1 (length address) @ le_bytes 2 (nat port)) @ address @ datagram)
          else Inl Struct_Refused)"

definition unraw :: "(bytes \<Rightarrow> pyfloat) \<Rightarrow> (bytes \<Rightarrow> string) \<Rightarrow> bytes \<Rightarrow> record_error + (string \<times> nat \<times> real \<times> bytes)" where
  "unraw dunpack ntop payload =
     (if \<not> is_raw payload \<or> length payload < 1 + RAW_SIZE then Inl (Value_Error ''not a raw record'')
      else
        let ts = dunpack (bslice payload 1 9);
            n = le_val (bslice payload 9 10);
            port = le_val (bslice payload 10 12);
            start = 1 + RAW_SIZE
        in (case ts of
              Finite arrival \<Rightarrow>
                if n \<notin> {4, 16} \<or> length payload < start + n
                then Inl (Value_Error ''a raw record with no valid address or time'')
                else Inr (ntop (bslice payload start (start + n)), port, arrival, drop (start + n) payload)
            | _ \<Rightarrow> Inl (Value_Error ''a raw record with no valid address or time'')))"

datatype queue_item = Trap TrapEvent | Quarantined QuarantinedPacket

definition hex_text :: "bytes \<Rightarrow> string" where
  "hex_text bs = concat (map (\<lambda>b. [hex_digit (unat b div 16), hex_digit (unat b mod 16)]) bs)"

definition unreadable :: "(bytes \<Rightarrow> pyfloat) \<Rightarrow> (bytes \<Rightarrow> string) \<Rightarrow> (bytes \<Rightarrow> string) \<Rightarrow> bytes \<Rightarrow> string \<Rightarrow> record_error + queue_item" where
  "unreadable dunpack ntop sha payload reason =
     and_then (unraw dunpack ntop payload) (\<lambda>(source, _, arrival, datagram).
       Inr (Quarantined \<lparr>q_source = source, q_raw = [], q_reason = reason, q_ts = arrival, q_sha256 = sha datagram,
              q_length = int (length datagram), q_first8 = hex_text (take 8 datagram), q_sanitized = False\<rparr>))"

section \<open>Events\<close>

definition as_list :: "queue_item \<Rightarrow> json" where
  "as_list item =
     (case item of
        Trap e \<Rightarrow> JArr [JStr ''t'', JStr (ev_device e), JStr (ev_trap_oid e), JStr (ev_instance e),
          JFloat (Finite (ev_ts e)), JStr (ev_community_tag e),
          JArr (map (\<lambda>vb. JArr [JStr (vb_oid vb), JStr (vb_kind vb), JStr (vb_value vb)]) (ev_varbinds e))]
      | Quarantined q \<Rightarrow> JArr [JStr ''q'', JStr (q_source q), JStr (b64encode (q_raw q)), JStr (q_reason q),
          JFloat (Finite (q_ts q)), JStr (q_sha256 q), JInt (q_length q), JStr (q_first8 q), JBool (q_sanitized q)])"

definition encode :: "(real \<Rightarrow> string) \<Rightarrow> queue_item \<Rightarrow> bytes" where
  "encode frepr item = map (\<lambda>c. word_of_nat (code c)) (dumps frepr (as_list item))"

fun string_field :: "json \<Rightarrow> record_error + string" where
  "string_field (JStr s) = Inr s"
| "string_field _ = Inl (Value_Error ''expected a string'')"

fun number :: "json \<Rightarrow> record_error + real" where
  "number (JInt i) = float_of_int i"
| "number (JFloat (Finite x)) = Inr x"
| "number (JFloat _) = Inl (Value_Error ''expected a finite number'')"
| "number _ = Inl (Value_Error ''expected a number'')"

fun whole :: "json \<Rightarrow> record_error + int" where
  "whole (JInt i) = Inr i"
| "whole _ = Inl (Value_Error ''expected a whole number'')"

fun varbind_field :: "json \<Rightarrow> record_error + Varbind" where
  "varbind_field (JArr [a, b, c]) =
     and_then (string_field a) (\<lambda>oid. and_then (string_field b) (\<lambda>kind. and_then (string_field c) (\<lambda>v.
       Inr \<lparr>vb_oid = oid, vb_kind = kind, vb_value = v\<rparr>)))"
| "varbind_field _ = Inl (Value_Error ''a varbind is not [oid, kind, value]'')"

definition raw_field :: "string \<Rightarrow> record_error + bytes" where
  "raw_field s = (case b64decode s of Some bs \<Rightarrow> Inr bs | None \<Rightarrow> Inl (Value_Error ''binascii.Error''))"

fun decode_trap :: "json list \<Rightarrow> record_error + queue_item" where
  "decode_trap [device, oid, inst, ts, tag, JArr varbinds] =
     and_then (for_each varbind_field varbinds) (\<lambda>built.
     and_then (string_field device) (\<lambda>d. and_then (string_field oid) (\<lambda>t. and_then (string_field inst) (\<lambda>i.
     and_then (number ts) (\<lambda>arrival. and_then (string_field tag) (\<lambda>c.
       Inr (Trap \<lparr>ev_device = d, ev_trap_oid = t, ev_instance = i, ev_ts = arrival, ev_varbinds = built, ev_community_tag = c\<rparr>)))))))"
| "decode_trap _ = Inl (Value_Error ''varbinds are not a list'')"

fun decode_quarantined :: "json list \<Rightarrow> record_error + queue_item" where
  "decode_quarantined [source, raw64, reason, ts, sha, n, first, JBool sanitized] =
     and_then (string_field source) (\<lambda>s. and_then (and_then (string_field raw64) raw_field) (\<lambda>bs.
     and_then (string_field reason) (\<lambda>r. and_then (number ts) (\<lambda>arrival. and_then (string_field sha) (\<lambda>h.
     and_then (whole n) (\<lambda>len. and_then (string_field first) (\<lambda>f.
       Inr (Quarantined \<lparr>q_source = s, q_raw = bs, q_reason = r, q_ts = arrival, q_sha256 = h, q_length = len, q_first8 = f,
              q_sanitized = sanitized\<rparr>))))))))"
| "decode_quarantined _ = Inl (Value_Error ''sanitized is not a boolean'')"

definition decode :: "json \<Rightarrow> record_error + queue_item" where
  "decode item =
     (case item of
        JArr [] \<Rightarrow> Inl (Value_Error ''not an event'')
      | JArr (tag # parts) \<Rightarrow>
          if tag = JStr ''t'' \<and> length parts = 6 then decode_trap parts
          else if tag = JStr ''q'' \<and> length parts = 8 then decode_quarantined parts
          else Inl (Value_Error ''unknown event kind'')
      | _ \<Rightarrow> Inl (Value_Error ''not an event''))"

text \<open>The bytes of a payload as UTF-8 text, for the code points of the model (below 256). Python reads a
  payload with a zero byte among its first four, or with a byte order mark, as UTF-16 or UTF-32; the
  model refuses those, and a code point from 256 on, with malformed UTF-8.\<close>

fun utf8_text :: "bytes \<Rightarrow> string option" where
  "utf8_text [] = Some []"
| "utf8_text (a # r) =
     (if unat a < 128 then map_option (Cons (char_of (unat a))) (utf8_text r)
      else if unat a = 194 \<or> unat a = 195 then
        (case r of
           [] \<Rightarrow> None
         | b # r' \<Rightarrow>
             if 128 \<le> unat b \<and> unat b < 192
             then map_option (Cons (char_of ((unat a - 192) * 64 + (unat b - 128)))) (utf8_text r')
             else None)
      else None)"

definition payload_text :: "bytes \<Rightarrow> string option" where
  "payload_text payload = (if 0 \<in> set (take 4 payload) then None else utf8_text payload)"

definition load :: "(string \<Rightarrow> pyfloat) \<Rightarrow> bytes \<Rightarrow> record_error + queue_item" where
  "load fread payload =
     (case Option.bind (payload_text payload) (loads fread) of
        None \<Rightarrow> Inl (Value_Error ''not JSON'')
      | Some parsed \<Rightarrow> decode parsed)"

section \<open>Round trips\<close>

lemma code_b64_char:
  "n < 64 \<Longrightarrow> code (b64_char n) = (if n < 26 then 65 + n else if n < 52 then 71 + n else if n < 62 then n - 4 else if n = 62 then 43 else 47)"
  by (simp add: b64_char_def, simp add: code_def)

lemma b64_value_char [simp]: "n < 64 \<Longrightarrow> b64_value (b64_char n) = Some n"
  unfolding b64_value_def Let_def code_b64_char by (simp split: if_split) arith

lemma b64_char_not_pad [simp]: "n < 64 \<Longrightarrow> b64_char n \<noteq> CHR ''=''"
proof
  assume "n < 64" and "b64_char n = CHR ''=''"
  then have "b64_value CHR ''='' = Some n"
    using b64_value_char [of n] by simp
  then show False
    by (simp add: b64_value_def code_def)
qed

lemma unat_less_256 [simp]: "unat (a :: byte) < 256"
  using unsigned_less [of a] by simp

lemma unat_byte [simp]: "unat (a :: byte) div 4 < 64" "unat (a :: byte) div 64 < 4" "unat (a :: byte) div 16 < 16"
  using unat_less_256 [of a] by linarith+

lemma byte_of_unat [simp]: "byte_of (unat a) = a"
  by (simp add: byte_of_def)

lemma six_bits:
  fixes a b :: byte
  shows "4 * (unat a div 4) + (unat a mod 4 * 16 + unat b div 16) div 16 = unat a"
    and "(unat a mod 4 * 16 + unat b div 16) mod 16 = unat b div 16"
    and "unat a mod 4 * 16 + unat b div 16 < 64"
    and "unat a mod 16 * 4 + unat b div 64 < 64"
    and "(unat a mod 16 * 4 + unat b div 64) div 4 = unat a mod 16"
    and "(unat a mod 16 * 4 + unat b div 64) mod 4 = unat b div 64"
proof -
  have b: "unat b div 16 < 16" "unat b div 64 < 4"
    by simp_all
  show "4 * (unat a div 4) + (unat a mod 4 * 16 + unat b div 16) div 16 = unat a"
    using b(1) by (simp add: div_add1_eq)
  show "(unat a mod 4 * 16 + unat b div 16) mod 16 = unat b div 16"
    using b(1) by (simp add: mod_add_eq)
  show "unat a mod 4 * 16 + unat b div 16 < 64"
    using b(1) mod_less_divisor [of 4 "unat a"] by linarith
  show "unat a mod 16 * 4 + unat b div 64 < 64"
    using b(2) mod_less_divisor [of 16 "unat a"] by linarith
  show "(unat a mod 16 * 4 + unat b div 64) div 4 = unat a mod 16"
    using b(2) by simp
  show "(unat a mod 16 * 4 + unat b div 64) mod 4 = unat b div 64"
    using b(2) by simp
qed

lemma b64_round [simp]: "b64decode (b64encode bs) = Some bs"
proof (induction bs rule: b64encode.induct)
  case (2 a)
  have "unat a mod 4 * 16 < 64"
    using mod_less_divisor [of 4 "unat a"] by linarith
  then show ?case
    by simp
next
  case (3 a b)
  have "unat b mod 16 * 4 < 64"
    using mod_less_divisor [of 16 "unat b"] by linarith
  then show ?case
    by (simp add: six_bits)
next
  case (4 a b c r)
  then show ?case
    by (simp add: six_bits)
qed simp

lemma varbinds_read: "for_each varbind_field (map (\<lambda>vb. JArr [JStr (vb_oid vb), JStr (vb_kind vb), JStr (vb_value vb)]) vbs) = Inr vbs"
  by (subst for_each_map [where h = "\<lambda>vb. vb"]) simp_all

lemma decode_as_list: "decode (as_list e) = Inr e"
  by (cases e) (simp_all add: as_list_def decode_def varbinds_read raw_field_def)

section \<open>What a decoded event can be\<close>

lemma string_field_Inr [simp]: "string_field j = Inr s \<longleftrightarrow> j = JStr s"
  by (cases j) auto

lemma whole_Inr [simp]: "whole j = Inr i \<longleftrightarrow> j = JInt i"
  by (cases j) auto

lemma raw_field_Inr [simp]: "raw_field s = Inr bs \<longleftrightarrow> b64decode s = Some bs"
  by (simp add: raw_field_def split: option.split)

abbreviation varbind_json :: "Varbind \<Rightarrow> json" where
  "varbind_json vb \<equiv> JArr [JStr (vb_oid vb), JStr (vb_kind vb), JStr (vb_value vb)]"

lemma varbind_field_Inr: "varbind_field j = Inr vb \<longleftrightarrow> j = varbind_json vb"
  by (cases j rule: varbind_field.cases) (auto simp: and_then_Inr)

lemma varbinds_Inr: "for_each varbind_field vs = Inr vbs \<longleftrightarrow> vs = map varbind_json vbs"
  unfolding for_each_Inr varbind_field_Inr by (auto simp: list_all2_conv_all_nth intro: nth_equalityI)

lemma decode_trap_Inr:
  "decode_trap parts = Inr e \<longleftrightarrow> (\<exists>t ts. e = Trap t \<and> number ts = Inr (ev_ts t)
     \<and> parts = [JStr (ev_device t), JStr (ev_trap_oid t), JStr (ev_instance t), ts, JStr (ev_community_tag t),
                JArr (map varbind_json (ev_varbinds t))])"
proof (cases parts rule: decode_trap.cases)
  case (1 device oid inst ts tag varbinds)
  show ?thesis
  proof
    assume "decode_trap parts = Inr e"
    with 1 show "\<exists>t ts. e = Trap t \<and> number ts = Inr (ev_ts t)
     \<and> parts = [JStr (ev_device t), JStr (ev_trap_oid t), JStr (ev_instance t), ts, JStr (ev_community_tag t),
                JArr (map varbind_json (ev_varbinds t))]"
      by (auto simp: and_then_Inr varbinds_Inr)
  qed (auto simp: and_then_Inr varbinds_read)
qed auto

lemma decode_quarantined_Inr:
  "decode_quarantined parts = Inr e \<longleftrightarrow> (\<exists>q ts raw. e = Quarantined q \<and> number ts = Inr (q_ts q) \<and> b64decode raw = Some (q_raw q)
     \<and> parts = [JStr (q_source q), JStr raw, JStr (q_reason q), ts, JStr (q_sha256 q), JInt (q_length q), JStr (q_first8 q),
                JBool (q_sanitized q)])"
proof (cases parts rule: decode_quarantined.cases)
  case (1 source raw64 reason ts sha n first sanitized)
  show ?thesis
  proof
    assume "decode_quarantined parts = Inr e"
    with 1 show "\<exists>q ts raw. e = Quarantined q \<and> number ts = Inr (q_ts q) \<and> b64decode raw = Some (q_raw q)
     \<and> parts = [JStr (q_source q), JStr raw, JStr (q_reason q), ts, JStr (q_sha256 q), JInt (q_length q), JStr (q_first8 q),
                JBool (q_sanitized q)]"
      by (auto simp: and_then_Inr)
  qed (auto simp: and_then_Inr)
qed auto

lemma decode_Inr:
  "decode j = Inr e \<longleftrightarrow> (\<exists>parts. j = JArr (JStr ''t'' # parts) \<and> decode_trap parts = Inr e)
     \<or> (\<exists>parts. j = JArr (JStr ''q'' # parts) \<and> decode_quarantined parts = Inr e)"
proof -
  have "length parts = 6" if "decode_trap parts = Inr e" for parts
    using that by (auto simp: decode_trap_Inr)
  moreover have "length parts = 8" if "decode_quarantined parts = Inr e" for parts
    using that by (auto simp: decode_quarantined_Inr)
  ultimately show ?thesis
    unfolding decode_def by (auto split: json.splits list.splits if_splits)
qed

lemma number_error: "number j = Inl e \<Longrightarrow> (\<exists>m. e = Value_Error m) \<or> e = Int_Too_Large"
  by (cases j rule: number.cases) (auto simp: float_of_int_def Let_def split: if_splits)

lemma for_each_Inl: "for_each f xs = Inl e \<Longrightarrow> \<exists>x \<in> set xs. f x = Inl e"
  by (induction xs) (auto simp: and_then_Inl)

lemma field_errors:
  "string_field j = Inl e \<Longrightarrow> \<exists>m. e = Value_Error m" "whole j = Inl e \<Longrightarrow> \<exists>m. e = Value_Error m"
  "raw_field s = Inl e \<Longrightarrow> \<exists>m. e = Value_Error m" "varbind_field j = Inl e \<Longrightarrow> \<exists>m. e = Value_Error m"
proof -
  show s: "string_field j = Inl e \<Longrightarrow> \<exists>m. e = Value_Error m" for j
    by (cases j) auto
  show "whole j = Inl e \<Longrightarrow> \<exists>m. e = Value_Error m"
    by (cases j) auto
  show "raw_field s = Inl e \<Longrightarrow> \<exists>m. e = Value_Error m"
    by (auto simp: raw_field_def split: option.splits)
  show "varbind_field j = Inl e \<Longrightarrow> \<exists>m. e = Value_Error m"
    by (cases j rule: varbind_field.cases) (auto simp: and_then_Inl dest: s)
qed

lemma decode_error: "decode j = Inl e \<Longrightarrow> (\<exists>m. e = Value_Error m) \<or> e = Int_Too_Large"
proof -
  have "(\<exists>m. e = Value_Error m) \<or> e = Int_Too_Large" if "decode_trap parts = Inl e" for parts
    using that by (cases parts rule: decode_trap.cases)
      (auto simp: and_then_Inl dest!: for_each_Inl dest: field_errors number_error)
  moreover have "(\<exists>m. e = Value_Error m) \<or> e = Int_Too_Large" if "decode_quarantined parts = Inl e" for parts
    using that by (cases parts rule: decode_quarantined.cases)
      (auto simp: and_then_Inl dest: field_errors number_error)
  ultimately show "decode j = Inl e \<Longrightarrow> (\<exists>m. e = Value_Error m) \<or> e = Int_Too_Large"
    by (auto simp: decode_def split: json.splits list.splits if_splits)
qed


section \<open>Through the bytes of a record\<close>

lemma escape_ascii: "x \<in> set (escape_char c) \<Longrightarrow> 32 \<le> code x \<and> code x < 128"
proof -
  have h: "code (hex_digit d) < 128 \<and> 32 \<le> code (hex_digit d)" if "d < 16" for d
    using that by (simp add: hex_digit_def)
  have n: "code c div 16 < 16" "code c mod 16 < 16"
    using code_less [of c] by (simp_all add: less_mult_imp_div_less)
  have "e < 128 \<and> 32 \<le> e" if "map_of short_escapes (code c) = Some e" for e
    using map_of_SomeD [OF that] by (auto simp: short_escapes_def)
  then show "x \<in> set (escape_char c) \<Longrightarrow> 32 \<le> code x \<and> code x < 128"
    using h [OF n(1)] h [OF n(2)] h [of 0]
    by (auto simp: escape_char_def split: option.splits if_splits)
qed

lemma number_char_ascii: "number_char c \<Longrightarrow> 32 \<le> code c \<and> code c < 128"
  by (auto simp: number_char_def is_digit_def) (auto simp: code_def)

lemma string_text_ascii: "x \<in> set (string_text s) \<Longrightarrow> 32 \<le> code x \<and> code x < 128"
  using escape_ascii by (auto simp: string_text_def quote_def)

lemma joined_chars: "set (joined xs) \<subseteq> insert (CHR '','') (\<Union> (set ` set xs))"
  by (induction xs rule: joined.induct) auto

lemma joined_ascii: "x \<in> set (joined xs) \<Longrightarrow> \<forall>y \<in> set xs. \<forall>x \<in> set y. 32 \<le> code x \<and> code x < 128 \<Longrightarrow> 32 \<le> code x \<and> code x < 128"
  using joined_chars [of xs] by fastforce

lemma joined_map_ascii:
  assumes "x \<in> set (joined (map f xs))" and "\<And>y x. y \<in> set xs \<Longrightarrow> x \<in> set (f y) \<Longrightarrow> 32 \<le> code x \<and> code x < 128"
  shows "32 \<le> code x \<and> code x < 128"
  using assms joined_ascii [of x "map f xs"] by fastforce

lemma dumps_ascii: "readable frepr fread j \<Longrightarrow> x \<in> set (dumps frepr j) \<Longrightarrow> 32 \<le> code x \<and> code x < 128"
proof (induction j arbitrary: x)
  case (JArr xs)
  then show ?case
    by (auto simp: list_all_iff dest: joined_map_ascii)
next
  case (JObj kvs)
  have "32 \<le> code x \<and> code x < 128" if "x \<in> set (joined (map (member_text frepr) kvs))" for x
  proof (rule joined_map_ascii [OF that])
    fix kv x
    assume "kv \<in> set kvs" and "x \<in> set (member_text frepr kv)"
    with JObj show "32 \<le> code x \<and> code x < 128"
      by (cases kv) (fastforce simp: list_all_iff dest: string_text_ascii)
  qed
  with JObj.prems(2) show ?case
    by auto
next
  case (JInt i)
  then show ?case
    using int_text_start(2) [of i] by (auto simp: list_all_iff dest: number_char_ascii)
next
  case (JFloat y)
  then show ?case
    by (cases y) (auto simp: list_all_iff dest: number_char_ascii, auto simp: code_def)
next
  case (JBool b)
  then show ?case
    by (cases b) (auto simp: code_def)
qed (auto simp: code_def dest: string_text_ascii)

lemma utf8_ascii: "\<forall>c \<in> set s. code c < 128 \<Longrightarrow> utf8_text (map (\<lambda>c. word_of_nat (code c)) s) = Some s"
proof (induction s)
  case (Cons c s)
  then have "unat (word_of_nat (code c) :: byte) = code c"
    by (simp add: unat_of_nat)
  with Cons show ?case
    by simp
qed simp

text \<open>What the text of an event needs: the float text of its time stamp is a literal that reads back.\<close>

definition stamp :: "queue_item \<Rightarrow> real" where
  "stamp item = (case item of Trap e \<Rightarrow> ev_ts e | Quarantined q \<Rightarrow> q_ts q)"

definition float_text_ok :: "(real \<Rightarrow> string) \<Rightarrow> (string \<Rightarrow> pyfloat) \<Rightarrow> real \<Rightarrow> bool" where
  "float_text_ok frepr fread x \<longleftrightarrow> float_literal (frepr x) \<and> list_all number_char (frepr x) \<and> fread (frepr x) = Finite x"

fun length_fits :: "queue_item \<Rightarrow> bool" where
  "length_fits (Trap e) = True"
| "length_fits (Quarantined q) = (length (nat_text (nat \<bar>q_length q\<bar>)) \<le> MAX_STR_DIGITS)"

lemma readable_as_list: "float_text_ok frepr fread (stamp e) \<Longrightarrow> length_fits e \<Longrightarrow> readable frepr fread (as_list e)"
  by (cases e) (auto simp: as_list_def float_text_ok_def stamp_def list_all_iff)

text \<open>C35: A spool record written from an event is read back as that event, whatever characters and
  bytes it holds.\<close>

theorem event_record_roundtrip:
  assumes "float_text_ok frepr fread (stamp e)" and "length_fits e"
  shows "load fread (encode frepr e) = Inr e"
proof -
  let ?s = "dumps frepr (as_list e)"
  note r = readable_as_list [OF assms]
  have ascii: "\<forall>c \<in> set ?s. 32 \<le> code c \<and> code c < 128"
    using dumps_ascii [OF r] by blast
  then have "utf8_text (encode frepr e) = Some ?s"
    unfolding encode_def by (intro utf8_ascii) blast
  moreover have "0 \<notin> set (encode frepr e)"
  proof
    assume "0 \<in> set (encode frepr e)"
    then obtain c where "c \<in> set ?s" and "(word_of_nat (code c) :: byte) = 0"
      by (auto simp: encode_def)
    then have "unat (word_of_nat (code c) :: byte) = 0" "code c < 128" "32 \<le> code c"
      using ascii by auto
    then show False
      by (simp add: unat_of_nat)
  qed
  then have "0 \<notin> set (take 4 (encode frepr e))"
    by (blast dest: in_set_takeD)
  ultimately show ?thesis
    by (simp add: load_def payload_text_def loads_dumps [OF r] decode_as_list)
qed

text \<open>A float text for the witness: half of an integer, written with one decimal.\<close>

theorem event_record_roundtrip_witness:
  "load (\<lambda>_. Finite 1.5) (encode (\<lambda>_. ''1.5'')
     (Trap \<lparr>ev_device = ''10.0.0.1'', ev_trap_oid = ''1.3.6'', ev_instance = '''', ev_ts = 1.5,
        ev_varbinds = [\<lparr>vb_oid = ''1.3'', vb_kind = ''INTEGER'', vb_value = ''2''\<rparr>], ev_community_tag = ''c''\<rparr>))
   = Inr (Trap \<lparr>ev_device = ''10.0.0.1'', ev_trap_oid = ''1.3.6'', ev_instance = '''', ev_ts = 1.5,
        ev_varbinds = [\<lparr>vb_oid = ''1.3'', vb_kind = ''INTEGER'', vb_value = ''2''\<rparr>], ev_community_tag = ''c''\<rparr>)"
  by (rule event_record_roundtrip)
    (simp_all add: float_text_ok_def float_literal_def stamp_def unsigned_def whole_literal_def exponent_ok_def
      number_char_def is_digit_def)

section \<open>Raw records and a time that is too large\<close>

lemma raw_roundtrip:
  assumes "pton (CHR '':'' \<in> set source) source = Some address" and "length address \<in> {4, 16}" and "ntop address = source"
    and "0 \<le> port" and "port < 65536" and "length (dpack (Finite ts)) = 8" and "dunpack (dpack (Finite ts)) = Finite ts"
  shows "\<exists>payload. raw dpack pton source port (Finite ts) datagram = Inr payload
    \<and> unraw dunpack ntop payload = Inr (source, nat port, ts, datagram)"
proof -
  let ?p = "82 # (dpack (Finite ts) @ le_bytes 1 (length address) @ le_bytes 2 (nat port)) @ address @ datagram"
  have "raw dpack pton source port (Finite ts) datagram = Inr ?p"
    using assms by (auto simp: raw_def)
  moreover have slices: "bslice ?p 1 9 = dpack (Finite ts)" "bslice ?p 9 10 = le_bytes 1 (length address)"
    "bslice ?p 10 12 = le_bytes 2 (nat port)" "drop 12 ?p = address @ datagram"
    using assms(6) by (simp_all add: bslice_def del: le_bytes.simps)
  moreover have "le_val (le_bytes 1 (length address)) = length address" "le_val (le_bytes 2 (nat port)) = nat port"
    using assms by (auto simp: le_val_le_bytes simp del: le_bytes.simps)
  ultimately show ?thesis
    using assms by (auto simp: unraw_def is_raw_def RAW_SIZE_def Let_def bslice_def simp del: le_bytes.simps)
qed

lemma bit_count_power: "bit_count (2 ^ k) = Suc k"
proof (induction k)
  case 0
  then show ?case by (simp add: bit_count.simps)
next
  case (Suc k)
  then show ?case by (simp add: bit_count.simps [of "2 * 2 ^ k"])
qed

lemma round_53_power: "round_53 (2 ^ k) = 2 ^ k"
proof (cases "k \<le> 52")
  case True
  then show ?thesis by (simp add: round_53_def bit_count_power)
next
  case False
  then have "52 + (k - 52) = k"
    by simp
  then have split: "(2::nat) ^ k = 2 ^ 52 * 2 ^ (k - 52)"
    by (metis power_add)
  have "(2::nat) ^ k div 2 ^ (k - 52) = 2 ^ 52" "(2::nat) ^ k mod 2 ^ (k - 52) = 0"
    unfolding split by simp_all
  moreover have "Suc k - 53 = k - 52" "\<not> Suc k \<le> 53"
    using False by simp_all
  ultimately show ?thesis
    unfolding round_53_def bit_count_power Let_def using split by simp
qed

text \<open>An event whose time is the integer \<open>2 ^ 1024\<close> is not refused with a \<open>ValueError\<close>:
  \<open>math.isfinite\<close> raises \<open>OverflowError\<close>, which no caller catches.\<close>

lemma huge_time_is_not_refused:
  "decode (JArr [JStr ''t'', JStr device, JStr oid, JStr inst, JInt (2 ^ 1024), JStr tag, JArr []]) = Inl Int_Too_Large"
proof -
  have "nat \<bar>2 ^ 1024 :: int\<bar> = 2 ^ 1024"
    by (simp only: power_abs abs_numeral nat_power_eq nat_numeral zero_le_numeral)
  then have "float_of_int (2 ^ 1024) = Inl Int_Too_Large"
    unfolding float_of_int_def Let_def by (simp only: round_53_power) simp
  then show ?thesis
    by (simp add: decode_def del: power_numeral)
qed

end
