(* ===== verification/Decoder.thy ===== *)
theory Decoder
  imports Records
begin

text \<open>
  \<open>ingest/decoder.py\<close>: the decoder process seen from the main process, and what the process
  answers. Datagrams are parsed by the receiver (pyasn1 and pysnmp) in the other process: what it makes
  of one datagram is the argument \<open>receive\<close>. What the process answers to its requests, in the
  order they are sent, is the argument \<open>answer\<close>: a JSON value, or nothing when it died, hung or
  sent no JSON.
\<close>

datatype result = Event queue_item | Nothing | Refused string

section \<open>Framing a batch\<close>

definition frames_request :: "bytes list \<Rightarrow> bytes" where
  "frames_request payloads = 68 # concat (map (\<lambda>p. le_bytes 4 (length p) @ p) payloads)"

text \<open>None is the \<open>struct.error\<close> of a length cut short. A payload cut short is returned as it is.\<close>

function unframe :: "bytes \<Rightarrow> bytes list option" where
  "unframe blob =
     (if blob = [] then Some []
      else if length blob < 4 then None
      else let n = le_val (take 4 blob) in map_option (Cons (take n (drop 4 blob))) (unframe (drop (4 + n) blob)))"
  by auto
termination
  by (relation "measure length") auto

declare unframe.simps [simp del]

definition unframe_request :: "bytes \<Rightarrow> bytes list option" where
  "unframe_request message = unframe (drop 1 message)"

section \<open>The process\<close>

definition decode_batch :: "(bytes \<Rightarrow> pyfloat) \<Rightarrow> (bytes \<Rightarrow> string) \<Rightarrow> (string \<times> nat \<times> real \<times> bytes \<Rightarrow> queue_item option)
    \<Rightarrow> bytes list \<Rightarrow> json list" where
  "decode_batch dunpack ntop receive payloads =
     map (\<lambda>p. case unraw dunpack ntop p of
                Inr datagram \<Rightarrow> (case receive datagram of Some item \<Rightarrow> as_list item | None \<Rightarrow> JNull)
              | Inl (Value_Error m) \<Rightarrow> JStr m
              | Inl _ \<Rightarrow> JNull) payloads"

definition process_answer :: "json list \<Rightarrow> int \<times> int \<Rightarrow> (string \<times> int) list \<Rightarrow> json" where
  "process_answer decoded counts reasons =
     JArr [JStr ''e'', JArr decoded, JObj [(''accepted'', JInt (fst counts)), (''quarantined'', JInt (snd counts))],
           JObj (map (\<lambda>(k, n). (k, JInt n)) reasons)]"

section \<open>The main process\<close>

record decoder =
  started :: bool
  requests_sent :: nat
  d_accepted :: int
  d_quarantined :: int
  d_reasons :: "(string \<times> int) list"
  d_counted :: "int \<times> int \<times> (string \<times> int) list"
  d_restarts :: nat
  d_unreadable :: nat

definition new_decoder :: decoder where
  "new_decoder = \<lparr>started = False, requests_sent = 0, d_accepted = 0, d_quarantined = 0, d_reasons = [],
     d_counted = (0, 0, []), d_restarts = 0, d_unreadable = 0\<rparr>"

definition decoder_start :: "decoder \<Rightarrow> decoder" where
  "decoder_start d = d\<lparr>started := True, d_counted := (0, 0, [])\<rparr>"

definition decoder_close :: "decoder \<Rightarrow> decoder" where
  "decoder_close d = d\<lparr>started := False\<rparr>"

definition add_reasons :: "(string \<times> int) list \<Rightarrow> (string \<times> int) list \<Rightarrow> (string \<times> int) list" where
  "add_reasons reasons before =
     fold (\<lambda>(reason, n) acc. AList.update reason ((case map_of acc reason of Some m \<Rightarrow> m | None \<Rightarrow> 0) + n) acc) reasons before"

definition decoder_restart :: "decoder \<Rightarrow> decoder" where
  "decoder_restart d =
     (let (accepted, quarantined, reasons) = d_counted d;
          d1 = d\<lparr>d_accepted := d_accepted d + accepted, d_quarantined := d_quarantined d + quarantined,
                 d_reasons := add_reasons reasons (d_reasons d)\<rparr>
      in decoder_start ((decoder_close d1)\<lparr>d_restarts := d_restarts d + 1\<rparr>))"

definition counts :: "decoder \<Rightarrow> int \<times> int \<times> (string \<times> int) list" where
  "counts d =
     (let (accepted, quarantined, reasons) = d_counted d
      in (d_accepted d + accepted, d_quarantined d + quarantined, add_reasons reasons (d_reasons d)))"

text \<open>\<open>local\<close>: records that are events already. An exception that is not a \<open>ValueError\<close>
  leaves the function.\<close>

definition local :: "(string \<Rightarrow> pyfloat) \<Rightarrow> bytes list \<Rightarrow> record_error + result list" where
  "local fread payloads =
     for_each (\<lambda>p. case load fread p of
                 Inr e \<Rightarrow> Inr (Event e)
               | Inl (Value_Error m) \<Rightarrow> Inr (Refused (''not a valid event: '' @ m))
               | Inl err \<Rightarrow> Inl err) payloads"

fun answer_entry :: "json \<Rightarrow> record_error + result" where
  "answer_entry JNull = Inr Nothing"
| "answer_entry (JStr s) = Inr (Refused (take 200 (''not a raw record: '' @ s)))"
| "answer_entry entry =
     (case decode entry of
        Inr e \<Rightarrow> Inr (Event e)
      | Inl (Value_Error m) \<Rightarrow> Inr (Refused (''the decoder returned an invalid event: '' @ m))
      | Inl err \<Rightarrow> Inl err)"

fun counters_of :: "json \<Rightarrow> json \<Rightarrow> (int \<times> int \<times> (string \<times> int) list) option" where
  "counters_of (JObj counters) (JObj reasons) =
     (case (map_of counters ''accepted'', map_of counters ''quarantined'') of
        (Some (JInt a), Some (JInt q)) \<Rightarrow>
          (case for_each (\<lambda>(k, v). map_sum id (\<lambda>n. (k, n)) (whole v)) reasons of
             Inr rs \<Rightarrow> Some (a, q, rs)
           | Inl _ \<Rightarrow> None)
      | _ \<Rightarrow> None)"
| "counters_of _ _ = None"

text \<open>\<open>_roundtrip\<close>: None is its \<open>DecoderError\<close>.\<close>

definition roundtrip :: "(nat \<Rightarrow> bytes list \<Rightarrow> json option) \<Rightarrow> bytes list \<Rightarrow> decoder
    \<Rightarrow> (record_error + result list) option \<times> decoder" where
  "roundtrip answer payloads d =
     (if \<not> started d then (None, d)
      else
        let d1 = d\<lparr>requests_sent := requests_sent d + 1\<rparr>
        in (case answer (requests_sent d) payloads of
              Some (JArr [JStr e, JArr decoded, counters, reasons]) \<Rightarrow>
                if e \<noteq> ''e'' \<or> length decoded \<noteq> length payloads then (None, d1)
                else (case counters_of counters reasons of
                        None \<Rightarrow> (None, d1)
                      | Some c \<Rightarrow> (Some (for_each answer_entry decoded), d1\<lparr>d_counted := c\<rparr>))
            | _ \<Rightarrow> (None, d1)))"

text \<open>\<open>Decoder.decode\<close> of one payload, and of a batch.\<close>

definition decode_single :: "(bytes \<Rightarrow> pyfloat) \<Rightarrow> (bytes \<Rightarrow> string) \<Rightarrow> (bytes \<Rightarrow> string) \<Rightarrow> (string \<Rightarrow> pyfloat)
    \<Rightarrow> (nat \<Rightarrow> bytes list \<Rightarrow> json option) \<Rightarrow> bytes \<Rightarrow> decoder \<Rightarrow> (record_error + result list) \<times> decoder" where
  "decode_single dunpack ntop sha fread answer payload d =
     (if \<not> is_raw payload then (local fread [payload], d)
      else (case roundtrip answer [payload] d of
              (Some r, d1) \<Rightarrow> (r, d1)
            | (None, d1) \<Rightarrow>
                let d2 = decoder_restart d1
                in (and_then (unreadable dunpack ntop sha payload ''decoder-failed'') (\<lambda>item. Inr [Event item]),
                    d2\<lparr>d_unreadable := d_unreadable d2 + 1\<rparr>)))"

fun one_by_one :: "(bytes \<Rightarrow> decoder \<Rightarrow> (record_error + result list) \<times> decoder) \<Rightarrow> bytes list \<Rightarrow> decoder
    \<Rightarrow> (record_error + result list) \<times> decoder" where
  "one_by_one step [] d = (Inr [], d)"
| "one_by_one step (p # ps) d =
     (case step p d of
        (Inl e, d1) \<Rightarrow> (Inl e, d1)
      | (Inr out, d1) \<Rightarrow>
          (case one_by_one step ps d1 of (r, d2) \<Rightarrow> (and_then r (\<lambda>outs. Inr (out @ outs)), d2)))"

definition decode_payloads :: "(bytes \<Rightarrow> pyfloat) \<Rightarrow> (bytes \<Rightarrow> string) \<Rightarrow> (bytes \<Rightarrow> string) \<Rightarrow> (string \<Rightarrow> pyfloat)
    \<Rightarrow> (nat \<Rightarrow> bytes list \<Rightarrow> json option) \<Rightarrow> bytes list \<Rightarrow> decoder \<Rightarrow> (record_error + result list) \<times> decoder" where
  "decode_payloads dunpack ntop sha fread answer payloads d =
     (if \<not> list_ex is_raw payloads then (local fread payloads, d)
      else if length payloads = 1 then decode_single dunpack ntop sha fread answer (hd payloads) d
      else (case roundtrip answer payloads d of
              (Some r, d1) \<Rightarrow> (r, d1)
            | (None, d1) \<Rightarrow>
                one_by_one (decode_single dunpack ntop sha fread answer) payloads (decoder_restart d1)))"

section \<open>The framing is undone\<close>

lemma unframe_frames: "\<forall>p \<in> set ps. length p < 2 ^ 32 \<Longrightarrow> unframe (concat (map (\<lambda>p. le_bytes 4 (length p) @ p) ps)) = Some ps"
proof (induction ps)
  case Nil
  then show ?case by (simp add: unframe.simps)
next
  case (Cons p ps)
  have "le_val (le_bytes 4 (length p)) = length p"
    using Cons.prems by (intro le_val_le_bytes) simp
  moreover have "le_bytes 4 x \<noteq> []" for x
    using length_le_bytes [of 4 x] by (metis list.size(3) zero_neq_numeral)
  ultimately show ?case
    using Cons by (simp add: unframe.simps [of "le_bytes 4 (length p) @ _"] Let_def del: le_bytes.simps)
qed

lemma unframe_request_frames: "\<forall>p \<in> set ps. length p < 2 ^ 32 \<Longrightarrow> unframe_request (frames_request ps) = Some ps"
  by (simp add: unframe_request_def frames_request_def unframe_frames)

section \<open>One result per record\<close>

lemma for_each_length: "for_each f xs = Inr ys \<Longrightarrow> length ys = length xs"
  by (auto simp: for_each_Inr dest: list_all2_lengthD)

lemma local_results: "local fread ps = Inr out \<Longrightarrow> length out = length ps" "local fread ps = Inl e \<Longrightarrow> e = Int_Too_Large"
proof -
  show "local fread ps = Inr out \<Longrightarrow> length out = length ps"
    by (simp add: local_def for_each_length)
  have "load fread p = Inl err \<Longrightarrow> (\<exists>m. err = Value_Error m) \<or> err = Int_Too_Large" for p err
    by (auto simp: load_def split: option.splits dest: decode_error)
  then show "local fread ps = Inl e \<Longrightarrow> e = Int_Too_Large"
    by (fastforce simp: local_def dest: for_each_Inl split: sum.splits record_error.splits)
qed

lemma answer_entry_error: "answer_entry j = Inl e \<Longrightarrow> e = Int_Too_Large"
  by (cases j rule: answer_entry.cases) (auto split: sum.splits record_error.splits dest: decode_error)

lemma roundtrip_results:
  assumes "roundtrip answer ps d = (Some r, d')"
  shows "r = Inr out \<Longrightarrow> length out = length ps" and "r = Inl e \<Longrightarrow> e = Int_Too_Large"
proof -
  obtain decoded where "r = for_each answer_entry decoded" "length decoded = length ps"
    using assms by (auto simp: roundtrip_def Let_def split: if_splits option.splits json.splits list.splits)
  then show "r = Inr out \<Longrightarrow> length out = length ps" and "r = Inl e \<Longrightarrow> e = Int_Too_Large"
    by (auto dest: for_each_length for_each_Inl answer_entry_error)
qed

definition header_ok :: "(bytes \<Rightarrow> pyfloat) \<Rightarrow> (bytes \<Rightarrow> string) \<Rightarrow> bytes \<Rightarrow> bool" where
  "header_ok dunpack ntop p \<longleftrightarrow> (\<exists>x. unraw dunpack ntop p = Inr x)"

lemma single_results:
  assumes "decode_single dunpack ntop sha fread answer p d = (r, d')"
  shows "r = Inr out \<Longrightarrow> length out = 1"
    and "r = Inl e \<Longrightarrow> e = Int_Too_Large \<or> is_raw p \<and> \<not> header_ok dunpack ntop p"
  using assms local_results [of fread "[p]"]
  by (auto simp: decode_single_def unreadable_def header_ok_def and_then_Inr and_then_Inl Let_def
      dest: roundtrip_results split: if_splits option.splits prod.splits)

lemma one_by_one_results:
  assumes "\<And>p d r d'. p \<in> set ps \<Longrightarrow> step p d = (r, d') \<Longrightarrow> (case r of Inr out \<Rightarrow> length out = 1 | Inl e \<Rightarrow> bad e p)"
    and "one_by_one step ps d = (r, d')"
  shows "case r of Inr out \<Rightarrow> length out = length ps | Inl e \<Rightarrow> \<exists>p \<in> set ps. bad e p"
  using assms
proof (induction ps arbitrary: d r d')
  case (Cons p ps)
  obtain r1 d1 where s: "step p d = (r1, d1)"
    by (cases "step p d")
  note h = Cons.prems(1) [OF _ s, simplified]
  obtain r2 d2 where o: "one_by_one step ps d1 = (r2, d2)"
    by (cases "one_by_one step ps d1")
  have "case r2 of Inr out \<Rightarrow> length out = length ps | Inl e \<Rightarrow> \<exists>p \<in> set ps. bad e p"
    using Cons.IH [OF Cons.prems(1) o] by simp
  then show ?case
    using Cons.prems(2) h s o by (auto split: sum.splits)
qed simp

text \<open>Whatever the decoder process answers, dies of or never answers, every record of a batch gets
  one result, in order. Only two things leave \<open>decode\<close> as an exception: a raw record whose own
  header is not valid, when the process fails on it, and an event with a number too large for a float.\<close>

theorem decode_answers_every_record:
  "case fst (decode_payloads dunpack ntop sha fread answer payloads d) of
     Inr out \<Rightarrow> length out = length payloads
   | Inl e \<Rightarrow> e = Int_Too_Large \<or> (\<exists>p \<in> set payloads. is_raw p \<and> \<not> header_ok dunpack ntop p)"
proof -
  obtain r d' where run: "decode_payloads dunpack ntop sha fread answer payloads d = (r, d')"
    by (cases "decode_payloads dunpack ntop sha fread answer payloads d")
  have single: "case r of Inr out \<Rightarrow> length out = 1 | Inl e \<Rightarrow> e = Int_Too_Large \<or> is_raw p \<and> \<not> header_ok dunpack ntop p"
    if "decode_single dunpack ntop sha fread answer p d = (r, d')" for p d r d'
    using single_results [OF that] by (auto split: sum.splits)
  consider "\<not> list_ex is_raw payloads" | "list_ex is_raw payloads" "length payloads = 1"
    | "list_ex is_raw payloads" "length payloads \<noteq> 1"
    by blast
  then show ?thesis
  proof cases
    case 1
    then show ?thesis
      using run local_results [of fread payloads] by (auto simp: decode_payloads_def split: sum.splits)
  next
    case 2
    then show ?thesis
      using run single [of "hd payloads" d r d'] by (cases payloads) (auto simp: decode_payloads_def split: sum.splits)
  next
    case 3
    show ?thesis
    proof (cases "roundtrip answer payloads d")
      case (Pair x d1)
      show ?thesis
      proof (cases x)
        case (Some r1)
        with 3 Pair show ?thesis
          using roundtrip_results [of answer payloads d r1 d1]
          by (auto simp: decode_payloads_def split: sum.splits)
      next
        case None
        with 3 Pair run have "one_by_one (decode_single dunpack ntop sha fread answer) payloads (decoder_restart d1) = (r, d')"
          by (simp add: decode_payloads_def)
        then have "case r of Inr out \<Rightarrow> length out = length payloads
            | Inl e \<Rightarrow> \<exists>p \<in> set payloads. e = Int_Too_Large \<or> is_raw p \<and> \<not> header_ok dunpack ntop p"
          by (rule one_by_one_results [rotated, where bad = "\<lambda>e p. e = Int_Too_Large \<or> is_raw p \<and> \<not> header_ok dunpack ntop p"])
            (rule single)
        then show ?thesis
          using run by (auto split: sum.splits)
      qed
    qed
  qed
qed

section \<open>A datagram the process cannot get through\<close>

text \<open>A process that dies on every request that holds a killing record and answers every other request
  for what the receiver makes of it.\<close>

definition answers_unless :: "(bytes \<Rightarrow> bool) \<Rightarrow> (bytes \<Rightarrow> pyfloat) \<Rightarrow> (bytes \<Rightarrow> string)
    \<Rightarrow> (string \<times> nat \<times> real \<times> bytes \<Rightarrow> queue_item option) \<Rightarrow> (nat \<Rightarrow> int \<times> int) \<Rightarrow> nat \<Rightarrow> bytes list \<Rightarrow> json option" where
  "answers_unless kills dunpack ntop receive counter k ps =
     (if list_ex kills ps then None else Some (process_answer (decode_batch dunpack ntop receive ps) (counter k) []))"

definition received :: "(bytes \<Rightarrow> pyfloat) \<Rightarrow> (bytes \<Rightarrow> string) \<Rightarrow> (bytes \<Rightarrow> string)
    \<Rightarrow> (string \<times> nat \<times> real \<times> bytes \<Rightarrow> queue_item option) \<Rightarrow> (bytes \<Rightarrow> bool) \<Rightarrow> bytes \<Rightarrow> result" where
  "received dunpack ntop sha receive kills p =
     (case unraw dunpack ntop p of
        Inl _ \<Rightarrow> Nothing
      | Inr datagram \<Rightarrow>
          if kills p then (case unreadable dunpack ntop sha p ''decoder-failed'' of Inr item \<Rightarrow> Event item | Inl _ \<Rightarrow> Nothing)
          else (case receive datagram of Some item \<Rightarrow> Event item | None \<Rightarrow> Nothing))"

lemma answer_entry_item: "answer_entry (as_list item) = Inr (Event item)"
  using decode_as_list [of item] by (cases item) (simp_all add: as_list_def)

lemma entries_of_batch:
  assumes "\<forall>p \<in> set ps. header_ok dunpack ntop p \<and> \<not> kills p"
  shows "for_each answer_entry (decode_batch dunpack ntop receive ps) = Inr (map (received dunpack ntop sha receive kills) ps)"
  unfolding decode_batch_def
  using assms by (intro for_each_map)
    (auto simp: header_ok_def received_def answer_entry_item split: option.split)

lemma roundtrip_answered:
  assumes "started d" and "\<forall>p \<in> set ps. header_ok dunpack ntop p" and "\<not> list_ex kills ps"
  shows "roundtrip (answers_unless kills dunpack ntop receive counter) ps d
    = (Some (Inr (map (received dunpack ntop sha receive kills) ps)),
       d\<lparr>requests_sent := requests_sent d + 1, d_counted := (fst (counter (requests_sent d)), snd (counter (requests_sent d)), [])\<rparr>)"
proof -
  have "for_each answer_entry (decode_batch dunpack ntop receive ps) = Inr (map (received dunpack ntop sha receive kills) ps)"
    using assms by (intro entries_of_batch) (auto simp: list_ex_iff)
  moreover have "length (decode_batch dunpack ntop receive ps) = length ps"
    by (simp add: decode_batch_def)
  ultimately show ?thesis
    using assms(1,3) by (simp add: roundtrip_def answers_unless_def process_answer_def)
qed

lemma roundtrip_killed:
  "list_ex kills ps \<Longrightarrow> roundtrip (answers_unless kills dunpack ntop receive counter) ps d
     = (None, if started d then d\<lparr>requests_sent := requests_sent d + 1\<rparr> else d)"
  by (simp add: roundtrip_def answers_unless_def)

lemma started_restart [simp]: "started (decoder_restart d)"
  by (simp add: decoder_restart_def decoder_start_def Let_def split: prod.split)

lemma unreadable_item: "header_ok dunpack ntop p \<Longrightarrow> \<exists>item. unreadable dunpack ntop sha p reason = Inr item"
  by (auto simp: header_ok_def unreadable_def)

lemma single_received:
  assumes "started d" and "is_raw p" and "header_ok dunpack ntop p"
  shows "\<exists>d'. decode_single dunpack ntop sha fread (answers_unless kills dunpack ntop receive counter) p d
      = (Inr [received dunpack ntop sha receive kills p], d')
    \<and> started d' \<and> d_unreadable d' = d_unreadable d + (if kills p then 1 else 0) \<and> d_restarts d' = d_restarts d + (if kills p then 1 else 0)"
proof (cases "kills p")
  case True
  obtain item where item: "unreadable dunpack ntop sha p ''decoder-failed'' = Inr item"
    using unreadable_item [OF assms(3)] by blast
  then have "received dunpack ntop sha receive kills p = Event item"
    using assms(3) True by (auto simp: received_def header_ok_def)
  moreover have "d_unreadable (decoder_restart x) = d_unreadable x" "d_restarts (decoder_restart x) = d_restarts x + 1" for x
    by (simp_all add: decoder_restart_def decoder_start_def decoder_close_def Let_def split: prod.split)
  ultimately show ?thesis
    using assms(1,2) True item by (simp add: decode_single_def roundtrip_killed Let_def)
next
  case False
  with assms show ?thesis
    by (simp add: decode_single_def roundtrip_answered [where sha = sha])
qed

lemma all_received:
  assumes "started d" and "\<forall>p \<in> set ps. is_raw p \<and> header_ok dunpack ntop p"
  shows "\<exists>d'. one_by_one (decode_single dunpack ntop sha fread (answers_unless kills dunpack ntop receive counter)) ps d
      = (Inr (map (received dunpack ntop sha receive kills) ps), d')
    \<and> started d' \<and> d_unreadable d' = d_unreadable d + length (filter kills ps) \<and> d_restarts d' = d_restarts d + length (filter kills ps)"
  using assms
proof (induction ps arbitrary: d)
  case (Cons p ps)
  obtain d1 where 1: "decode_single dunpack ntop sha fread (answers_unless kills dunpack ntop receive counter) p d
      = (Inr [received dunpack ntop sha receive kills p], d1)" "started d1"
      "d_unreadable d1 = d_unreadable d + (if kills p then 1 else 0)" "d_restarts d1 = d_restarts d + (if kills p then 1 else 0)"
    using single_received [OF Cons.prems(1), of p dunpack ntop sha fread kills receive counter] Cons.prems(2)
    by (auto simp del: if_split)
  from Cons.IH [OF 1(2)] Cons.prems(2) show ?case
    by (auto simp: 1)
qed simp

text \<open>C33: A datagram that crashes the decoder is never lost and never takes another with it: of a batch
  of raw records, each one the process gets through is exactly what the receiver made of it, each one it
  does not is quarantined by its metadata and counted, and the process restarts once for the batch and
  once for each of those.\<close>

theorem a_killing_datagram_is_quarantined:
  assumes "started d" and "\<forall>p \<in> set ps. is_raw p \<and> header_ok dunpack ntop p" and "1 < length ps"
  shows "\<exists>d'. decode_payloads dunpack ntop sha fread (answers_unless kills dunpack ntop receive counter) ps d
      = (Inr (map (received dunpack ntop sha receive kills) ps), d')
    \<and> d_unreadable d' = d_unreadable d + length (filter kills ps)
    \<and> d_restarts d' = d_restarts d + (if list_ex kills ps then 1 + length (filter kills ps) else 0)"
proof -
  have raws: "list_ex is_raw ps"
    using assms(2,3) by (cases ps) auto
  show ?thesis
  proof (cases "list_ex kills ps")
    case False
    then have "filter kills ps = []"
      by (auto simp: list_ex_iff filter_empty_conv)
    with False raws assms show ?thesis
      by (simp add: decode_payloads_def roundtrip_answered [where sha = sha])
  next
    case True
    let ?d = "decoder_restart (d\<lparr>requests_sent := requests_sent d + 1\<rparr>)"
    have "d_unreadable ?d = d_unreadable d" "d_restarts ?d = d_restarts d + 1"
      by (simp_all add: decoder_restart_def decoder_start_def decoder_close_def Let_def split: prod.split)
    with all_received [OF started_restart assms(2), where d1 = "d\<lparr>requests_sent := requests_sent d + 1\<rparr>" and sha = sha
        and fread = fread and kills = kills and receive = receive and counter = counter]
      True raws assms(1,3) show ?thesis
      by (auto simp: decode_payloads_def roundtrip_killed)
  qed
qed

definition plain_raw :: "byte \<Rightarrow> bytes" where
  "plain_raw b = [82, 0, 0, 0, 0, 0, 0, 0, 0, 4, 0, 0, 10, 0, 0, 1, b]"

lemma plain_raw_ok: "unraw (\<lambda>_. Finite 5) (\<lambda>_. ''10.0.0.1'') (plain_raw b) = Inr (''10.0.0.1'', 0, 5, [b])" "is_raw (plain_raw b)"
  by (simp_all add: plain_raw_def unraw_def is_raw_def RAW_SIZE_def Let_def bslice_def)

theorem a_killing_datagram_is_quarantined_witness:
  "\<exists>item d'. decode_payloads (\<lambda>_. Finite 5) (\<lambda>_. ''10.0.0.1'') (\<lambda>_. ''00'') (\<lambda>_. Finite 5)
      (answers_unless (\<lambda>p. p = plain_raw 9) (\<lambda>_. Finite 5) (\<lambda>_. ''10.0.0.1'') (\<lambda>_. None) (\<lambda>_. (0, 0)))
      [plain_raw 1, plain_raw 9] (decoder_start new_decoder) = (Inr [Nothing, Event (Quarantined item)], d')
    \<and> q_reason item = ''decoder-failed'' \<and> d_unreadable d' = 1 \<and> d_restarts d' = 2"
proof -
  let ?kills = "\<lambda>p. p = plain_raw 9"
  have differ: "plain_raw 1 \<noteq> plain_raw 9"
    by (simp add: plain_raw_def)
  have "received (\<lambda>_. Finite 5) (\<lambda>_. ''10.0.0.1'') (\<lambda>_. ''00'') (\<lambda>_. None) ?kills (plain_raw 1) = Nothing"
    by (simp add: received_def plain_raw_ok differ)
  moreover obtain item where "received (\<lambda>_. Finite 5) (\<lambda>_. ''10.0.0.1'') (\<lambda>_. ''00'') (\<lambda>_. None) ?kills (plain_raw 9) = Event (Quarantined item)"
    "q_reason item = ''decoder-failed''"
    by (simp add: received_def plain_raw_ok unreadable_def)
  moreover have "\<forall>p \<in> set [plain_raw 1, plain_raw 9]. is_raw p \<and> header_ok (\<lambda>_. Finite 5) (\<lambda>_. ''10.0.0.1'') p"
    by (auto simp: header_ok_def plain_raw_ok)
  ultimately show ?thesis
    using a_killing_datagram_is_quarantined [of "decoder_start new_decoder" "[plain_raw 1, plain_raw 9]" "\<lambda>_. Finite 5" "\<lambda>_. ''10.0.0.1''"
        "\<lambda>_. ''00''" "\<lambda>_. Finite 5" ?kills "\<lambda>_. None" "\<lambda>_. (0, 0)"] differ
    by (auto simp: decoder_start_def new_decoder_def)
qed

text \<open>An event in a batch of its own is validated here; beside a raw record it goes to the process, which
  answers that it is not a raw record, and it is set aside.\<close>

lemma event_beside_a_raw_record_is_refused:
  assumes "load fread p = Inr e" and "\<not> is_raw p" and "started d" and "is_raw r" and "header_ok dunpack ntop r"
  shows "fst (decode_payloads dunpack ntop sha fread answer [p] d) = Inr [Event e]"
    and "\<exists>other. fst (decode_payloads dunpack ntop sha fread (answers_unless (\<lambda>_. False) dunpack ntop receive counter) [r, p] d)
      = Inr [other, Refused ''not a raw record: not a raw record'']"
proof -
  show "fst (decode_payloads dunpack ntop sha fread answer [p] d) = Inr [Event e]"
    using assms by (simp add: decode_payloads_def local_def)
  obtain x where x: "unraw dunpack ntop r = Inr x"
    using assms(5) by (auto simp: header_ok_def)
  have "unraw dunpack ntop p = Inl (Value_Error ''not a raw record'')"
    using assms(2) by (simp add: unraw_def)
  with x have b: "decode_batch dunpack ntop receive [r, p]
      = [case receive x of Some item \<Rightarrow> as_list item | None \<Rightarrow> JNull, JStr ''not a raw record'']"
    by (simp add: decode_batch_def)
  have "\<exists>other. answer_entry (case receive x of Some item \<Rightarrow> as_list item | None \<Rightarrow> JNull) = Inr other"
    by (cases "receive x") (auto simp: answer_entry_item)
  then obtain other where o: "answer_entry (case receive x of Some item \<Rightarrow> as_list item | None \<Rightarrow> JNull) = Inr other"
    by blast
  show "\<exists>other. fst (decode_payloads dunpack ntop sha fread (answers_unless (\<lambda>_. False) dunpack ntop receive counter) [r, p] d)
      = Inr [other, Refused ''not a raw record: not a raw record'']"
    using assms(3,4) by (simp add: decode_payloads_def roundtrip_def answers_unless_def process_answer_def b o list_ex_iff)
qed

end
