(* ===== verification/Intake.thy ===== *)
theory Intake
  imports Decoder
begin

text \<open>
  \<open>engine/operate/intake.py\<close> (\<open>SpoolFeed\<close>), the batch loop of
  \<open>engine/operate/engine.py\<close> that calls it (\<open>run\<close>, \<open>_transaction\<close>,
  \<open>drain\<close>) and the shutdown of \<open>runner.py\<close>: how the records of the spool reach the
  database.

  The state is everything these share: the records on disk and the dead-letter file; the transactions
  the database has committed, each with the cursor it left and the records it classified, and how many
  of them have reached the disk (the batch commits without its own flush); the feed's fields; the
  engine's queue and the batch it holds; where the pump stands. A step is what runs between two
  suspension points of the event loop, so every interleaving of the pump, the engine, the writer, the
  pruning and of a crash, a kill or a power cut between them is a sequence of steps. What decoding made
  of the records a pump reads is an argument of the step that reads them.

  A commit that raises has not committed, and a cancelled transaction is rolled back. The reader's
  counters of damaged bytes are \<open>Spool_Log\<close>'s subject, not this theory's: here the spool is the
  list of its whole records. The feed's texts for the console are at the end.
\<close>

definition QUEUE_SIZE :: nat where
  "QUEUE_SIZE = 10000"

definition BATCH_SIZE :: nat where
  "BATCH_SIZE = 500"

section \<open>State\<close>

text \<open>An item on the queue is an object: its identity (\<open>id(item)\<close>) and its value. The pump works
  on the head of the records it has read: not begun, begun (the counters have counted it), written to
  the dead-letter file, or committed past.\<close>

type_synonym item = "nat \<times> queue_item"

datatype phase = Fresh | Begun | Lettered | Committed

datatype pump = Off | Reading | Delivering "(nat \<times> bytes \<times> result) list" phase

datatype engine_state = Up | Down | Stopped

record feed =
  f_spool :: "(nat \<times> bytes) list"
  f_letters :: "(nat \<times> bytes \<times> string) list"
  f_commits :: "(nat \<times> (nat \<times> queue_item) list) list"
  f_durable :: nat
  f_cursor :: nat
  f_read :: nat
  f_head :: nat
  f_peak :: nat
  f_dead_lettered :: nat
  f_invalid :: nat
  f_ignored :: nat
  f_isolate_until :: nat
  f_pending :: "(item \<times> nat) list"
  f_seq_of :: "nat \<Rightarrow> nat option"
  f_runs :: nat
  f_queue :: "item list"
  f_batch :: "item list"
  f_engine :: engine_state
  f_pump :: pump
  f_after :: nat
  f_next_id :: nat
  f_written :: "(nat \<times> bytes) list"
  f_nothing :: "nat set"
  f_overtaken :: "nat set"

text \<open>The last three fields but one are the history the properties speak of: every record ever written,
  those that decoded to nothing, and those whose batch a shutdown cancelled and then overtook.\<close>

definition db_cursor :: "(nat \<times> (nat \<times> queue_item) list) list \<Rightarrow> nat" where
  "db_cursor commits = (if commits = [] then 0 else fst (last commits))"

definition classified :: "(nat \<times> (nat \<times> queue_item) list) list \<Rightarrow> (nat \<times> queue_item) list" where
  "classified commits = concat (map snd commits)"

definition backlog :: "feed \<Rightarrow> nat" where
  "backlog f = f_head f - f_cursor f"

text \<open>A process that starts: \<open>SpoolFeed.open\<close>, which takes the cursor the database holds.\<close>

definition feed_open :: "feed \<Rightarrow> feed" where
  "feed_open f =
     (let c = db_cursor (f_commits f)
      in f\<lparr>f_cursor := c, f_read := c, f_head := c, f_peak := 0, f_dead_lettered := 0, f_invalid := 0, f_ignored := 0,
           f_isolate_until := 0, f_pending := [], f_seq_of := (\<lambda>_. None), f_runs := 0, f_queue := [], f_batch := [],
           f_engine := Down, f_pump := Off, f_after := c\<rparr>)"

definition first_feed :: feed where
  "first_feed = \<lparr>f_spool = [], f_letters = [], f_commits = [], f_durable = 0, f_cursor = 0, f_read = 0, f_head = 0, f_peak = 0,
     f_dead_lettered = 0, f_invalid = 0, f_ignored = 0, f_isolate_until = 0, f_pending = [], f_seq_of = (\<lambda>_. None), f_runs = 0,
     f_queue = [], f_batch = [], f_engine = Down, f_pump = Off, f_after = 0, f_next_id = 0, f_written = [], f_nothing = {},
     f_overtaken = {}\<rparr>"

section \<open>The writer, the engine and the database\<close>

text \<open>\<open>written\<close>: the writer made every record up to \<open>head\<close> durable.\<close>

definition written :: "nat \<Rightarrow> feed \<Rightarrow> feed" where
  "written h f =
     (if f_head f < h then let f1 = f\<lparr>f_head := h\<rparr> in f1\<lparr>f_peak := max (f_peak f1) (backlog f1)\<rparr> else f)"

definition write_records :: "bytes list \<Rightarrow> feed \<Rightarrow> feed" where
  "write_records ps f =
     (let new = numbered (length (f_written f) + 1) ps
      in written (length (f_written f) + length ps) (f\<lparr>f_spool := f_spool f @ new, f_written := f_written f @ new\<rparr>))"

text \<open>\<open>stage\<close> and the commit of the transaction it is in: the cursor of the last item, when the
  feed knows it, and the records classified.\<close>

definition stage :: "item list \<Rightarrow> feed \<Rightarrow> nat option" where
  "stage items f = (if items = [] then None else f_seq_of f (fst (last items)))"

definition commit_items :: "item list \<Rightarrow> feed \<Rightarrow> feed" where
  "commit_items items f =
     f\<lparr>f_commits := f_commits f @ [(case stage items f of Some s \<Rightarrow> s | None \<Rightarrow> db_cursor (f_commits f),
         List.map_filter (\<lambda>(i, e). map_option (\<lambda>s. (s, e)) (f_seq_of f i)) items)]\<rparr>"

text \<open>\<open>committed\<close>: the cursor moves, and what it passed is no longer pending.\<close>

definition committed :: "nat option \<Rightarrow> feed \<Rightarrow> feed" where
  "committed position f =
     (case position of
        None \<Rightarrow> f
      | Some p \<Rightarrow>
          let c = max (f_cursor f) p; gone = takeWhile (\<lambda>(_, s). s \<le> c) (f_pending f)
          in f\<lparr>f_cursor := c, f_pending := drop (length gone) (f_pending f),
               f_seq_of := (\<lambda>i. if i \<in> set (map (fst \<circ> fst) gone) then None else f_seq_of f i)\<rparr>)"

definition transaction :: "item list \<Rightarrow> feed \<Rightarrow> feed" where
  "transaction items f = committed (stage items f) (commit_items items f)"

section \<open>Setting a record aside\<close>

definition dead_letter :: "nat \<Rightarrow> bytes \<Rightarrow> string \<Rightarrow> feed \<Rightarrow> feed" where
  "dead_letter seq payload reason f = f\<lparr>f_letters := f_letters f @ [(seq, payload, reason)]\<rparr>"

text \<open>\<open>_set_aside\<close> commits the cursor past the record with an ordinary commit, which flushes it
  and every commit before it.\<close>

definition advance_db :: "nat \<Rightarrow> feed \<Rightarrow> feed" where
  "advance_db seq f =
     (let cs = f_commits f @ [(seq, [])] in f\<lparr>f_commits := cs, f_durable := length cs\<rparr>)"

definition advance :: "nat \<Rightarrow> feed \<Rightarrow> feed" where
  "advance seq f = f\<lparr>f_cursor := max (f_cursor f) seq\<rparr>"

definition set_aside :: "nat \<Rightarrow> bytes \<Rightarrow> string \<Rightarrow> feed \<Rightarrow> feed" where
  "set_aside seq payload reason f = advance seq (advance_db seq (dead_letter seq payload reason f))"

section \<open>Rewinding\<close>

definition in_flight :: "feed \<Rightarrow> int" where
  "in_flight f = int (length (f_pending f)) - int (length (f_queue f))"

definition feed_start :: "feed \<Rightarrow> feed" where
  "feed_start f = f\<lparr>f_pump := Reading, f_after := f_cursor f\<rparr>"

definition crashed_on :: "string \<Rightarrow> string" where
  "crashed_on reason = ''the engine crashed on it ('' @ reason @ '')''"

definition rewind :: "(real \<Rightarrow> string) \<Rightarrow> string \<Rightarrow> feed \<Rightarrow> feed" where
  "rewind frepr reason f =
     (let n = in_flight f;
          f1 = f\<lparr>f_runs := f_runs f + 1, f_pump := Off, f_queue := []\<rparr>;
          f2 = (if 1 < f_runs f1 \<and> 0 < n then
                  if f_cursor f1 < f_isolate_until f1 \<and> n = 1 then
                    (case hd (f_pending f1) of ((_, e), seq) \<Rightarrow>
                       set_aside seq (encode frepr e) (crashed_on reason) (f1\<lparr>f_dead_lettered := f_dead_lettered f1 + 1\<rparr>))
                  else f1\<lparr>f_isolate_until := snd (f_pending f1 ! (nat n - 1))\<rparr>
                else f1)
      in feed_start (f2\<lparr>f_pending := [], f_seq_of := (\<lambda>_. None), f_read := f_cursor f2, f_batch := [], f_engine := Up\<rparr>))"

section \<open>The pump\<close>

definition next_record :: "(nat \<times> bytes \<times> result) list \<Rightarrow> pump" where
  "next_record rest = (if rest = [] then Reading else Delivering rest Fresh)"

text \<open>\<open>_deliver\<close>, to its next suspension point. None: it waits (for what it delivered to be
  committed, or for room on the queue).\<close>

definition deliver :: "feed \<Rightarrow> feed option" where
  "deliver f =
     (case f_pump f of
        Delivering ((seq, payload, res) # rest) ph \<Rightarrow>
          (case ph of
             Fresh \<Rightarrow>
               let f1 = f\<lparr>f_head := max (f_head f) seq\<rparr>
               in (case res of
                     Nothing \<Rightarrow> Some (f1\<lparr>f_ignored := f_ignored f + 1, f_nothing := insert seq (f_nothing f), f_pump := next_record rest\<rparr>)
                   | Refused _ \<Rightarrow> Some (f1\<lparr>f_invalid := f_invalid f + 1, f_pump := Delivering ((seq, payload, res) # rest) Begun\<rparr>)
                   | Event _ \<Rightarrow> Some (f1\<lparr>f_pump := Delivering ((seq, payload, res) # rest) Begun\<rparr>))
           | Begun \<Rightarrow>
               (case res of
                  Refused why \<Rightarrow>
                    if f_pending f \<noteq> [] then None
                    else Some ((dead_letter seq payload why f)\<lparr>f_pump := Delivering ((seq, payload, res) # rest) Lettered\<rparr>)
                | Event e \<Rightarrow>
                    if seq \<le> f_isolate_until f \<and> f_pending f \<noteq> [] \<or> QUEUE_SIZE \<le> length (f_queue f) then None
                    else
                      let i = f_next_id f;
                          f1 = f\<lparr>f_queue := f_queue f @ [(i, e)], f_pending := f_pending f @ [((i, e), seq)],
                                 f_seq_of := (f_seq_of f)(i := Some seq), f_read := seq, f_next_id := i + 1,
                                 f_pump := next_record rest\<rparr>
                      in Some (f1\<lparr>f_peak := max (f_peak f1) (backlog f1)\<rparr>)
                | Nothing \<Rightarrow> None)
           | Lettered \<Rightarrow> Some ((advance_db seq f)\<lparr>f_pump := Delivering ((seq, payload, res) # rest) Committed\<rparr>)
           | Committed \<Rightarrow> Some ((advance seq f)\<lparr>f_pump := next_record rest\<rparr>))
      | _ \<Rightarrow> None)"

definition read_records :: "result list \<Rightarrow> feed \<Rightarrow> feed option" where
  "read_records results f =
     (let records = take (length results) (filter (\<lambda>r. f_after f < fst r) (f_spool f))
      in if f_pump f = Reading \<and> results \<noteq> [] \<and> length records = length results
         then Some (f\<lparr>f_pump := Delivering (map (\<lambda>((s, p), r). (s, p, r)) (zip records results)) Fresh, f_after := fst (last records)\<rparr>)
         else None)"

section \<open>Steps\<close>

datatype action =
    Write "bytes list"
  | Read "result list"
  | Deliver
  | Pump_dies
  | Take_batch nat
  | Commit nat
  | Rollback
  | Crash
  | Rewind string
  | Rewind_killed string
  | Flush
  | Prune nat
  | Stop
  | Drain nat
  | Restart
  | Power_cut nat

text \<open>\<open>Rewind_killed\<close> is a process killed while it sets the record of a crash aside, after the
  dead-letter file has it. \<open>Prune\<close> waits for the database to flush, then deletes a prefix of the
  spool that the cursor has passed (\<open>Spool_Log.prunable\<close> says which segments). \<open>Stop\<close> is the
  shutdown, which cancels the pump and the engine; what the engine holds then is neither committed nor
  put back. \<open>Drain\<close> takes a batch of what was still queued and commits it.\<close>

fun feed_step :: "(real \<Rightarrow> string) \<Rightarrow> action \<Rightarrow> feed \<Rightarrow> feed option" where
  "feed_step frepr (Write ps) f = Some (write_records ps f)"
| "feed_step frepr (Read results) f = read_records results f"
| "feed_step frepr Deliver f = deliver f"
| "feed_step frepr Pump_dies f = Some (f\<lparr>f_pump := Off\<rparr>)"
| "feed_step frepr (Take_batch n) f =
     (if f_engine f = Up \<and> f_batch f = [] \<and> 0 < n \<and> n \<le> BATCH_SIZE \<and> n \<le> length (f_queue f)
      then Some (f\<lparr>f_batch := take n (f_queue f), f_queue := drop n (f_queue f)\<rparr>) else None)"
| "feed_step frepr (Commit n) f =
     (if f_engine f = Up \<and> 0 < n \<and> n \<le> length (f_batch f)
      then Some ((transaction (take n (f_batch f)) f)\<lparr>f_batch := drop n (f_batch f)\<rparr>) else None)"
| "feed_step frepr Rollback f = (if f_engine f = Up then Some f else None)"
| "feed_step frepr Crash f = (if f_engine f = Up then Some (f\<lparr>f_engine := Down\<rparr>) else None)"
| "feed_step frepr (Rewind reason) f = (if f_engine f = Down then Some (rewind frepr reason f) else None)"
| "feed_step frepr (Rewind_killed reason) f =
     (if f_engine f = Down \<and> 0 < f_runs f \<and> in_flight f = 1 \<and> f_cursor f < f_isolate_until f
      then (case hd (f_pending f) of ((_, e), seq) \<Rightarrow>
              Some (feed_open (dead_letter seq (encode frepr e) (crashed_on reason) f)))
      else None)"
| "feed_step frepr Flush f = Some (f\<lparr>f_durable := length (f_commits f)\<rparr>)"
| "feed_step frepr (Prune n) f =
     (if \<forall>r \<in> set (take n (f_spool f)). fst r \<le> f_cursor f
      then Some (f\<lparr>f_durable := length (f_commits f), f_spool := drop n (f_spool f)\<rparr>) else None)"
| "feed_step frepr Stop f = Some (f\<lparr>f_engine := Stopped, f_pump := Off\<rparr>)"
| "feed_step frepr (Drain n) f =
     (if f_engine f = Stopped \<and> 0 < n \<and> n \<le> BATCH_SIZE \<and> n \<le> length (f_queue f)
      then Some ((transaction (take n (f_queue f)) f)\<lparr>f_queue := drop n (f_queue f), f_batch := [],
             f_overtaken := f_overtaken f \<union> snd ` set (take (length (f_batch f)) (f_pending f))\<rparr>) else None)"
| "feed_step frepr Restart f = Some (feed_open f)"
| "feed_step frepr (Power_cut k) f =
     (if f_durable f \<le> k \<and> k \<le> length (f_commits f)
      then Some (feed_open (f\<lparr>f_commits := take k (f_commits f)\<rparr>)) else None)"

fun feed_run :: "(real \<Rightarrow> string) \<Rightarrow> action list \<Rightarrow> feed \<Rightarrow> feed option" where
  "feed_run frepr [] f = Some f"
| "feed_run frepr (a # as) f = Option.bind (feed_step frepr a f) (feed_run frepr as)"

section \<open>What the console reads\<close>

definition oldest :: "feed \<Rightarrow> real option" where
  "oldest f = (case f_pending f of [] \<Rightarrow> None | ((_, e), _) # _ \<Rightarrow> Some (stamp e))"

definition oldest_wait :: "feed \<Rightarrow> real \<Rightarrow> real" where
  "oldest_wait f now = (case oldest f of None \<Rightarrow> 0 | Some t \<Rightarrow> max 0 (now - t))"

definition take_peak :: "feed \<Rightarrow> nat \<times> feed" where
  "take_peak f = (max (f_peak f) (backlog f), f\<lparr>f_peak := backlog f\<rparr>)"

definition isolating :: "feed \<Rightarrow> bool" where
  "isolating f \<longleftrightarrow> f_cursor f < f_isolate_until f"

end
