(* ===== verification/Intake_Safety.thy ===== *)
theory Intake_Safety
  imports Intake
begin

text \<open>
  The invariant of the intake and what it promises: no record that was written is ever lost, however the
  pump, the engine, the writer and the pruning interleave and wherever the process or the power stops.
\<close>

declare upt_Suc [simp del]

section \<open>The invariant\<close>

definition aside :: "feed \<Rightarrow> nat set" where
  "aside f = fst ` set (f_letters f) \<union> f_nothing f \<union> f_overtaken f"

definition settled_by :: "(nat \<times> (nat \<times> queue_item) list) list \<Rightarrow> feed \<Rightarrow> nat set" where
  "settled_by cs f = fst ` set (classified cs) \<union> aside f"

text \<open>On disk: what the spool no longer holds lies behind every cursor the database can still come back
  to.\<close>

definition disk_inv :: "feed \<Rightarrow> bool" where
  "disk_inv f \<longleftrightarrow> map fst (f_written f) = [1 ..< Suc (length (f_written f))] \<and> f_durable f \<le> length (f_commits f)
     \<and> (\<exists>k. f_spool f = drop k (f_written f) \<and> k \<le> f_cursor f
          \<and> (\<forall>j. f_durable f \<le> j \<and> j \<le> length (f_commits f) \<longrightarrow> k \<le> db_cursor (take j (f_commits f))))"

text \<open>In the database: after each commit, everything up to its cursor is settled, and what is classified
  is classified in order and not beyond the cursor.\<close>

definition db_inv :: "feed \<Rightarrow> bool" where
  "db_inv f \<longleftrightarrow>
     (\<forall>j \<le> length (f_commits f). {1 .. db_cursor (take j (f_commits f))} \<subseteq> settled_by (take j (f_commits f)) f
        \<and> (\<forall>s \<in> fst ` set (classified (take j (f_commits f))). s \<le> db_cursor (take j (f_commits f))))
     \<and> sorted_wrt (<) (map fst (classified (f_commits f)))
     \<and> (\<forall>s \<in> fst ` set (classified (f_commits f)). s \<le> f_cursor f)
     \<and> f_cursor f \<le> db_cursor (f_commits f)
     \<and> (\<forall>c \<in> fst ` set (f_commits f). c \<le> length (f_written f))"

text \<open>In memory: the records between the cursor and where the pump stands are pending or settled, and
  the queue and the engine's batch hold the pending ones in order.\<close>

definition pump_at :: "nat \<Rightarrow> feed \<Rightarrow> bool" where
  "pump_at u f \<longleftrightarrow>
     (case f_pump f of
        Off \<Rightarrow> True
      | Reading \<Rightarrow> f_after f = u
      | Delivering todo ph \<Rightarrow>
          todo \<noteq> [] \<and> map fst todo = [u + 1 ..< u + 1 + length todo] \<and> f_after f = u + length todo
          \<and> f_after f \<le> length (f_written f)
          \<and> (ph = Lettered \<longrightarrow> f_pending f = [] \<and> fst (hd todo) \<in> fst ` set (f_letters f))
          \<and> (ph = Committed \<longrightarrow> f_pending f = [] \<and> fst (hd todo) \<in> fst ` set (f_letters f)
               \<and> db_cursor (f_commits f) = fst (hd todo)))"

definition flow_inv :: "nat \<Rightarrow> feed \<Rightarrow> bool" where
  "flow_inv u f \<longleftrightarrow> pump_at u f \<and> f_cursor f \<le> u \<and> u \<le> length (f_written f)
     \<and> {f_cursor f <.. u} \<subseteq> snd ` set (f_pending f) \<union> aside f
     \<and> sorted_wrt (<) (map snd (f_pending f)) \<and> snd ` set (f_pending f) \<subseteq> {f_cursor f <.. u}
     \<and> map fst (f_pending f) = f_batch f @ f_queue f
     \<and> distinct (map (fst \<circ> fst) (f_pending f)) \<and> (\<forall>i \<in> (fst \<circ> fst) ` set (f_pending f). i < f_next_id f)
     \<and> (\<forall>x \<in> set (f_pending f). f_seq_of f (fst (fst x)) = Some (snd x))"

definition feed_inv :: "feed \<Rightarrow> bool" where
  "feed_inv f \<longleftrightarrow> disk_inv f \<and> db_inv f \<and> (\<exists>u. flow_inv u f)"

section \<open>Commits\<close>

lemma db_cursor_snoc [simp]: "db_cursor (cs @ [x]) = fst x"
  by (simp add: db_cursor_def)

lemma classified_snoc [simp]: "classified (cs @ [x]) = classified cs @ snd x" "classified [] = []"
  by (simp_all add: classified_def)

lemma db_cursor_take_bound: "\<forall>c \<in> fst ` set cs. c \<le> n \<Longrightarrow> db_cursor (take j cs) \<le> n"
proof (cases "take j cs = []")
  case False
  then have "last (take j cs) \<in> set cs"
    by (meson in_set_takeD last_in_set)
  with False show "\<forall>c \<in> fst ` set cs. c \<le> n \<Longrightarrow> db_cursor (take j cs) \<le> n"
    by (simp add: db_cursor_def)
qed (simp add: db_cursor_def)

lemma db_invD:
  assumes "db_inv f"
  shows "j \<le> length (f_commits f) \<Longrightarrow> {1 .. db_cursor (take j (f_commits f))} \<subseteq> settled_by (take j (f_commits f)) f"
    and "j \<le> length (f_commits f) \<Longrightarrow> s \<in> fst ` set (classified (take j (f_commits f))) \<Longrightarrow> s \<le> db_cursor (take j (f_commits f))"
    and "sorted_wrt (<) (map fst (classified (f_commits f)))"
    and "s \<in> fst ` set (classified (f_commits f)) \<Longrightarrow> s \<le> f_cursor f"
    and "f_cursor f \<le> db_cursor (f_commits f)"
    and "c \<in> fst ` set (f_commits f) \<Longrightarrow> c \<le> length (f_written f)"
  using assms unfolding db_inv_def by blast+

lemma db_inv_commit:
  assumes "db_inv f" and "f_commits f' = f_commits f @ [(p, new)]" and "aside f \<subseteq> aside f'"
    and "f_written f' = f_written f" and "f_cursor f \<le> f_cursor f'" and "f_cursor f' \<le> p" and "p \<le> length (f_written f)"
    and "sorted_wrt (<) (map fst new)" and "fst ` set new \<subseteq> {f_cursor f <.. f_cursor f'}"
    and "{f_cursor f <.. p} \<subseteq> fst ` set new \<union> aside f'"
  shows "db_inv f'"
proof -
  note old = db_invD [OF assms(1)]
  have all: "{1 .. db_cursor (f_commits f)} \<subseteq> settled_by (f_commits f) f"
    using old(1) [of "length (f_commits f)"] by simp
  have new: "{1 .. p} \<subseteq> settled_by (f_commits f @ [(p, new)]) f'"
  proof
    fix s
    assume s: "s \<in> {1 .. p}"
    show "s \<in> settled_by (f_commits f @ [(p, new)]) f'"
    proof (cases "s \<le> f_cursor f")
      case True
      with s old(5) all have "s \<in> settled_by (f_commits f) f"
        by auto
      with assms(3) show ?thesis
        by (auto simp: settled_by_def)
    next
      case False
      with s have "s \<in> {f_cursor f <.. p}"
        by simp
      with assms(10) have "s \<in> fst ` set new \<union> aside f'"
        by blast
      then show ?thesis
        by (auto simp: settled_by_def image_Un)
    qed
  qed
  have le: "s \<le> p" if "s \<in> fst ` set (classified (f_commits f @ [(p, new)]))" for s
    using that assms(5,6,9) old(4) [of s] by force
  have "{1 .. db_cursor (take j (f_commits f'))} \<subseteq> settled_by (take j (f_commits f')) f'
        \<and> (\<forall>s \<in> fst ` set (classified (take j (f_commits f'))). s \<le> db_cursor (take j (f_commits f')))"
    if "j \<le> length (f_commits f')" for j
  proof (cases "j = length (f_commits f')")
    case True
    then show ?thesis
      using new le by (auto simp: assms(2))
  next
    case False
    with that have j: "j \<le> length (f_commits f)" "take j (f_commits f') = take j (f_commits f)"
      by (simp_all add: assms(2))
    then show ?thesis
      using old(1,2) [of j] assms(3) by (auto simp: settled_by_def)
  qed
  moreover have "sorted_wrt (<) (map fst (classified (f_commits f')))"
    using old(3,4) assms(8,9) by (fastforce simp: assms(2) sorted_wrt_append)
  moreover have "s \<le> f_cursor f'" if "s \<in> fst ` set (classified (f_commits f'))" for s
    using that old(4) [of s] assms(5,9) by (force simp: assms(2))
  ultimately show ?thesis
    using old(6) assms(4,6,7) by (auto simp: db_inv_def assms(2))
qed

lemma disk_inv_commit:
  assumes "disk_inv f" and "f_commits f' = f_commits f @ [(p, new)]" and "f_spool f' = f_spool f" and "f_written f' = f_written f"
    and "f_cursor f \<le> f_cursor f'" and "f_cursor f \<le> p" and "f_durable f \<le> f_durable f'" and "f_durable f' \<le> length (f_commits f')"
  shows "disk_inv f'"
proof -
  obtain k where k: "f_spool f = drop k (f_written f)" "k \<le> f_cursor f"
    "\<forall>j. f_durable f \<le> j \<and> j \<le> length (f_commits f) \<longrightarrow> k \<le> db_cursor (take j (f_commits f))"
    using assms(1) by (auto simp: disk_inv_def)
  have "k \<le> db_cursor (take j (f_commits f'))" if "f_durable f' \<le> j" "j \<le> length (f_commits f')" for j
  proof (cases "j = length (f_commits f')")
    case True
    then show ?thesis
      using k(2) assms(6) by (simp add: assms(2))
  next
    case False
    with that k(3) assms(7) show ?thesis
      by (auto simp: assms(2))
  qed
  with k(1,2) assms show ?thesis
    unfolding disk_inv_def by (intro conjI exI [of _ k]) (auto simp: disk_inv_def)
qed

lemma takeWhile_sorted_nth:
  fixes xs :: "('a \<times> nat) list"
  assumes "sorted_wrt (<) (map snd xs)" and "m < length xs"
  shows "takeWhile (\<lambda>(_, s). s \<le> snd (xs ! m)) xs = take (Suc m) xs"
proof (rule takeWhile_eq_take_P_nth)
  have mono: "snd (xs ! i) < snd (xs ! j)" if "i < j" "j < length xs" for i j
    using sorted_wrt_nth_less [OF assms(1), of i j] that by simp
  show "(\<lambda>(_, s). s \<le> snd (xs ! m)) (xs ! i)" if "i < Suc m" "i < length xs" for i
    using mono [of i m] that assms(2) by (cases "i = m") (auto simp: case_prod_beta)
  show "\<not> (\<lambda>(_, s). s \<le> snd (xs ! m)) (xs ! Suc m)" if "Suc m < length xs"
    using mono [of m "Suc m"] that by (simp add: case_prod_beta)
qed

lemma map_filter_fst: "\<forall>x \<in> set xs. g (fst x) = Some (h x) \<Longrightarrow> List.map_filter g (map fst xs) = map h xs"
  by (induction xs) (auto simp: List.map_filter_simps)

lemma flow_invD:
  assumes "flow_inv u f"
  shows "pump_at u f" "f_cursor f \<le> u" "u \<le> length (f_written f)"
    "{f_cursor f <.. u} \<subseteq> snd ` set (f_pending f) \<union> aside f"
    "sorted_wrt (<) (map snd (f_pending f))" "snd ` set (f_pending f) \<subseteq> {f_cursor f <.. u}"
    "map fst (f_pending f) = f_batch f @ f_queue f"
    "distinct (map (fst \<circ> fst) (f_pending f))" "\<forall>i \<in> (fst \<circ> fst) ` set (f_pending f). i < f_next_id f"
    "\<forall>x \<in> set (f_pending f). f_seq_of f (fst (fst x)) = Some (snd x)"
  using assms unfolding flow_inv_def by blast+

text \<open>A transaction over \<open>n\<close> pending items, after the first \<open>b\<close>: the engine's own have
  \<open>b = 0\<close>, a shutdown's start after the batch that was cancelled.\<close>

definition pend_slice :: "nat \<Rightarrow> nat \<Rightarrow> feed \<Rightarrow> (item \<times> nat) list" where
  "pend_slice b n f = take n (drop b (f_pending f))"

definition reached :: "nat \<Rightarrow> nat \<Rightarrow> feed \<Rightarrow> nat" where
  "reached b n f = snd (f_pending f ! (b + n - 1))"

definition slice_ok :: "nat \<Rightarrow> nat \<Rightarrow> nat \<Rightarrow> feed \<Rightarrow> bool" where
  "slice_ok u b n f \<longleftrightarrow> flow_inv u f \<and> 0 < n \<and> b + n \<le> length (f_pending f)"

lemma slice_okD:
  assumes "slice_ok u b n f"
  shows "flow_inv u f" "0 < n" "b + n \<le> length (f_pending f)"
  using assms by (simp_all add: slice_ok_def)

lemma slice_pending: "x \<in> set (pend_slice b n f) \<Longrightarrow> x \<in> set (f_pending f)"
  by (auto simp: pend_slice_def dest: in_set_takeD in_set_dropD)

lemma last_slice:
  assumes "slice_ok u b n f"
  shows "pend_slice b n f \<noteq> []" "last (pend_slice b n f) = f_pending f ! (b + n - 1)"
proof -
  have len: "length (pend_slice b n f) = n"
    using slice_okD [OF assms] by (simp add: pend_slice_def)
  then show ne: "pend_slice b n f \<noteq> []"
    using slice_okD(2) [OF assms] by auto
  show "last (pend_slice b n f) = f_pending f ! (b + n - 1)"
    using slice_okD [OF assms] by (simp add: last_conv_nth [OF ne] len) (simp add: pend_slice_def)
qed

lemma stage_slice:
  assumes "slice_ok u b n f"
  shows "stage (map fst (pend_slice b n f)) f = Some (reached b n f)"
proof -
  have "last (pend_slice b n f) \<in> set (f_pending f)"
    using slice_pending [OF last_in_set [OF last_slice(1) [OF assms]]] .
  then have "f_seq_of f (fst (fst (last (pend_slice b n f)))) = Some (snd (last (pend_slice b n f)))"
    using flow_invD(10) [OF slice_okD(1) [OF assms]] by blast
  then show ?thesis
    using last_slice [OF assms] by (simp add: stage_def last_map reached_def)
qed

lemma classify_slice:
  assumes "slice_ok u b n f"
  shows "List.map_filter (\<lambda>(i, e). map_option (\<lambda>s. (s, e)) (f_seq_of f i)) (map fst (pend_slice b n f))
    = map (\<lambda>((i, e), s). (s, e)) (pend_slice b n f)"
  using flow_invD(10) [OF slice_okD(1) [OF assms]] by (intro map_filter_fst) (auto dest!: slice_pending)

lemma reached_pending: "slice_ok u b n f \<Longrightarrow> reached b n f \<in> {f_cursor f <.. u}"
  using last_slice slice_pending [OF last_in_set [OF last_slice(1)]] flow_invD(6) [of u f]
  by (auto simp: reached_def slice_ok_def) (metis image_subset_iff greaterThanAtMost_iff)+

lemma gone_slice:
  "slice_ok u b n f \<Longrightarrow> takeWhile (\<lambda>(_, s). s \<le> reached b n f) (f_pending f) = take (b + n) (f_pending f)"
  using takeWhile_sorted_nth [of "f_pending f" "b + n - 1"] by (auto simp: reached_def slice_ok_def dest: flow_invD(5))

lemma transaction_slice:
  assumes "slice_ok u b n f"
  shows "transaction (map fst (pend_slice b n f)) f =
     f\<lparr>f_commits := f_commits f @ [(reached b n f, map (\<lambda>((i, e), s). (s, e)) (pend_slice b n f))], f_cursor := reached b n f,
       f_pending := drop (b + n) (f_pending f),
       f_seq_of := (\<lambda>i. if i \<in> set (map (fst \<circ> fst) (take (b + n) (f_pending f))) then None else f_seq_of f i)\<rparr>"
proof -
  have "max (f_cursor f) (reached b n f) = reached b n f"
    using reached_pending [OF assms] by simp
  moreover have "length (take (b + n) (f_pending f)) = b + n"
    using slice_okD [OF assms] by simp
  ultimately show ?thesis
    by (simp add: transaction_def committed_def commit_items_def stage_slice [OF assms] classify_slice [OF assms]
        gone_slice [OF assms] Let_def cong: if_cong)
qed

lemma slice_seqs:
  assumes "slice_ok u b n f"
  shows "snd ` set (pend_slice b n f) \<subseteq> {f_cursor f <.. reached b n f}"
    and "snd ` set (take b (f_pending f)) \<union> snd ` set (pend_slice b n f) = snd ` set (f_pending f) \<inter> {.. reached b n f}"
    and "snd ` set (drop (b + n) (f_pending f)) = snd ` set (f_pending f) \<inter> {reached b n f <..}"
proof -
  note flow = flow_invD [OF slice_okD(1) [OF assms]]
  have two: "take (b + n) (f_pending f) = take b (f_pending f) @ pend_slice b n f"
    by (simp add: pend_slice_def take_add)
  have sorted: "sorted_wrt (<) (map snd (take (b + n) (f_pending f)) @ map snd (drop (b + n) (f_pending f)))"
    using flow(5) by (simp flip: map_append)
  have "last (pend_slice b n f) \<in> set (take (b + n) (f_pending f))"
    using last_slice(1) [OF assms] by (simp add: two)
  then have "reached b n f \<in> snd ` set (take (b + n) (f_pending f))"
    unfolding reached_def by (metis imageI last_slice(2) [OF assms])
  with sorted have above: "reached b n f < s" if "s \<in> snd ` set (drop (b + n) (f_pending f))" for s
    using that unfolding sorted_wrt_append set_map by blast
  have below: "s \<le> reached b n f" if "s \<in> snd ` set (take (b + n) (f_pending f))" for s
    using that unfolding gone_slice [OF assms, symmetric] by (auto dest: set_takeWhileD)
  have halves: "set (f_pending f) = set (take (b + n) (f_pending f)) \<union> set (drop (b + n) (f_pending f))"
    by (metis append_take_drop_id set_append)
  show "snd ` set (pend_slice b n f) \<subseteq> {f_cursor f <.. reached b n f}"
  proof
    fix s
    assume s: "s \<in> snd ` set (pend_slice b n f)"
    then have "s \<in> snd ` set (f_pending f)"
      using slice_pending by blast
    with flow(6) have "f_cursor f < s"
      by auto
    with s below [of s] show "s \<in> {f_cursor f <.. reached b n f}"
      by (simp add: two image_Un)
  qed
  show "snd ` set (take b (f_pending f)) \<union> snd ` set (pend_slice b n f) = snd ` set (f_pending f) \<inter> {.. reached b n f}"
    using above below unfolding halves by (force simp: two)
  show "snd ` set (drop (b + n) (f_pending f)) = snd ` set (f_pending f) \<inter> {reached b n f <..}"
    using above below unfolding halves by force
qed

lemma feed_invI: "disk_inv f \<Longrightarrow> db_inv f \<Longrightarrow> flow_inv u f \<Longrightarrow> feed_inv f"
  by (auto simp: feed_inv_def)

lemma pump_at_not_aside:
  "pump_at u f \<Longrightarrow> f_pending f \<noteq> [] \<Longrightarrow> f_pump f = Delivering todo ph \<Longrightarrow> ph = Fresh \<or> ph = Begun"
  by (cases ph) (auto simp: pump_at_def)

lemma transaction_keeps:
  assumes "disk_inv f" and "db_inv f" and "slice_ok u b n f" and "bt @ q = drop (b + n) (f_batch f @ f_queue f)"
  shows "feed_inv ((transaction (map fst (pend_slice b n f)) f)
    \<lparr>f_batch := bt, f_queue := q, f_overtaken := f_overtaken f \<union> snd ` set (take b (f_pending f))\<rparr>)" (is "feed_inv ?f'")
proof (rule feed_invI)
  note flow = flow_invD [OF slice_okD(1) [OF assms(3)]] and tr = transaction_slice [OF assms(3)]
    and seqs = slice_seqs [OF assms(3)] and r = reached_pending [OF assms(3)]
  let ?p = "reached b n f" and ?new = "map (\<lambda>((i, e), s). (s, e)) (pend_slice b n f)"
  have new_seqs: "map fst ?new = map snd (pend_slice b n f)" "fst ` set ?new = snd ` set (pend_slice b n f)"
    by (auto simp: case_prod_beta image_image)
  have commits: "f_commits ?f' = f_commits f @ [(?p, ?new)]" and cursor: "f_cursor ?f' = ?p"
    and same: "f_written ?f' = f_written f" "f_spool ?f' = f_spool f" "f_durable ?f' = f_durable f"
    and aside: "aside ?f' = aside f \<union> snd ` set (take b (f_pending f))"
    by (simp_all add: tr aside_def Un_ac)
  have pend: "f_pending ?f' = drop (b + n) (f_pending f)"
    by (simp add: tr)
  show "disk_inv ?f'"
    using assms(1) commits same(2,1) by (rule disk_inv_commit) (use r same(3) assms(1) commits cursor in \<open>auto simp: disk_inv_def\<close>)
  show "db_inv ?f'"
    using assms(2) commits
  proof (rule db_inv_commit)
    have "sorted_wrt (<) (map snd (take (b + n) (f_pending f)))"
      using flow(5) by (metis sorted_wrt_take take_map)
    then show "sorted_wrt (<) (map fst ?new)"
      unfolding new_seqs by (simp add: pend_slice_def take_add sorted_wrt_append)
    show "{f_cursor f <.. ?p} \<subseteq> fst ` set ?new \<union> aside ?f'"
    proof
      fix s
      assume s: "s \<in> {f_cursor f <.. ?p}"
      with r have "s \<in> {f_cursor f <.. u}"
        by simp
      then have "s \<in> snd ` set (f_pending f) \<union> aside f"
        using flow(4) by blast
      moreover have "s \<in> snd ` set (take b (f_pending f)) \<union> snd ` set (pend_slice b n f)" if "s \<in> snd ` set (f_pending f)"
        unfolding seqs(2) using that s by simp
      ultimately show "s \<in> fst ` set ?new \<union> aside ?f'"
        unfolding new_seqs aside by blast
    qed
  qed (use r flow(3) seqs(1) aside same cursor new_seqs in auto)
  show "flow_inv u ?f'"
    unfolding flow_inv_def
  proof (intro conjI)
    have ne: "f_pending f \<noteq> []"
      using slice_okD [OF assms(3)] by auto
    show "pump_at u ?f'"
      using flow(1) pump_at_not_aside [OF flow(1) ne] by (auto simp: pump_at_def tr split: pump.splits)
    show "f_cursor ?f' \<le> u" "u \<le> length (f_written ?f')"
      using r flow(3) same(1) by (simp_all add: cursor)
    show "{f_cursor ?f' <.. u} \<subseteq> snd ` set (f_pending ?f') \<union> aside ?f'"
    proof
      fix s
      assume s: "s \<in> {f_cursor ?f' <.. u}"
      with r have "s \<in> {f_cursor f <.. u}" "?p < s"
        by (simp_all add: cursor)
      then have "s \<in> snd ` set (f_pending f) \<union> aside f" "?p < s"
        using flow(4) by blast+
      then show "s \<in> snd ` set (f_pending ?f') \<union> aside ?f'"
        unfolding pend aside seqs(3) by blast
    qed
    show "sorted_wrt (<) (map snd (f_pending ?f'))"
      using flow(5) by (simp add: pend drop_map sorted_wrt_drop flip: drop_map)
    show "snd ` set (f_pending ?f') \<subseteq> {f_cursor ?f' <.. u}"
      unfolding pend seqs(3) cursor using flow(6) by auto
    show "map fst (f_pending ?f') = f_batch ?f' @ f_queue ?f'"
      unfolding pend using flow(7) assms(4) by (simp add: drop_map [symmetric] del: drop_append)
    have split: "distinct (map (fst \<circ> fst) (take (b + n) (f_pending f)) @ map (fst \<circ> fst) (drop (b + n) (f_pending f)))"
      using flow(8) by (metis append_take_drop_id map_append)
    then show "distinct (map (fst \<circ> fst) (f_pending ?f'))"
      by (simp add: pend)
    show "\<forall>i \<in> (fst \<circ> fst) ` set (f_pending ?f'). i < f_next_id ?f'"
      using flow(9) by (auto simp: tr dest: in_set_dropD)
    show "\<forall>x \<in> set (f_pending ?f'). f_seq_of ?f' (fst (fst x)) = Some (snd x)"
    proof
      fix x
      assume "x \<in> set (f_pending ?f')"
      then have x: "x \<in> set (drop (b + n) (f_pending f))"
        by (simp add: pend)
      then have "fst (fst x) \<notin> set (map (fst \<circ> fst) (take (b + n) (f_pending f)))"
        using split by (auto simp: rev_image_eqI)
      moreover have "f_seq_of f (fst (fst x)) = Some (snd x)"
        using flow(10) in_set_dropD [OF x] by blast
      ultimately show "f_seq_of ?f' (fst (fst x)) = Some (snd x)"
        unfolding tr by simp
    qed
  qed
qed

section \<open>The writer and the pump\<close>

lemma nth_seq:
  assumes "map fst ws = [1 ..< Suc (length ws)]" and "i < length ws"
  shows "fst (ws ! i) = Suc i"
proof -
  have "fst (ws ! i) = map fst ws ! i"
    using assms(2) by simp
  also have "\<dots> = Suc i"
    unfolding assms(1) using assms(2) by (subst nth_upt) simp_all
  finally show ?thesis .
qed

lemma filter_after:
  assumes "map fst ws = [1 ..< Suc (length ws)]" and "k \<le> u"
  shows "filter (\<lambda>r. u < fst r) (drop k ws) = drop u ws"
proof -
  have "drop k ws = take (u - k) (drop k ws) @ drop u ws"
    using append_take_drop_id [of "u - k" "drop k ws"] assms(2) by simp
  moreover have "fst r \<le> u" if "r \<in> set (take (u - k) (drop k ws))" for r
  proof -
    obtain i where "i < u - k" "i < length ws - k" "r = drop k ws ! i"
      using \<open>r \<in> _\<close> by (auto simp: in_set_conv_nth)
    then show ?thesis
      using nth_seq [OF assms(1), of "k + i"] by simp
  qed
  then have "filter (\<lambda>r. u < fst r) (take (u - k) (drop k ws)) = []"
    by (auto simp: filter_empty_conv dest!: leD)
  moreover have "u < fst r" if "r \<in> set (drop u ws)" for r
  proof -
    obtain i where "i < length ws - u" "r = drop u ws ! i"
      using \<open>r \<in> _\<close> by (auto simp: in_set_conv_nth)
    then show ?thesis
      using nth_seq [OF assms(1), of "u + i"] by simp
  qed
  then have "filter (\<lambda>r. u < fst r) (drop u ws) = drop u ws"
    by (simp add: filter_id_conv)
  ultimately show ?thesis
    by (metis append_Nil filter_append)
qed

lemma seqs_drop:
  assumes "map fst ws = [1 ..< Suc (length ws)]"
  shows "map fst (take n (drop u ws)) = [u + 1 ..< u + 1 + length (take n (drop u ws))]"
proof (rule nth_equalityI)
  fix i
  assume "i < length (map fst (take n (drop u ws)))"
  then have "u + i < length ws" "i < n"
    by (simp_all add: less_diff_conv add.commute)
  then show "map fst (take n (drop u ws)) ! i = [u + 1 ..< u + 1 + length (take n (drop u ws))] ! i"
    using nth_seq [OF assms, of "u + i"] by simp
qed simp

lemma first_of_upt: "x # xs = [m ..< m + Suc n] \<Longrightarrow> x = m \<and> xs = [Suc m ..< Suc m + n]"
  by (simp add: upt_conv_Cons)

lemma pump_at_next:
  assumes "f_pump f = Delivering ((seq, payload, res) # rest) ph" and "pump_at u f"
  shows "seq = Suc u" "Suc u \<le> length (f_written f)"
    "f_pump f' = next_record rest \<Longrightarrow> f_after f' = f_after f \<Longrightarrow> f_written f' = f_written f \<Longrightarrow> pump_at (Suc u) f'"
proof -
  have todo: "seq # map fst rest = [u + 1 ..< u + 1 + Suc (length rest)]" "f_after f = u + Suc (length rest)"
    "f_after f \<le> length (f_written f)"
    using assms by (auto simp: pump_at_def)
  note first = first_of_upt [OF todo(1)]
  show "seq = Suc u" "Suc u \<le> length (f_written f)"
    using first todo(2,3) by simp_all
  show "f_pump f' = next_record rest \<Longrightarrow> f_after f' = f_after f \<Longrightarrow> f_written f' = f_written f \<Longrightarrow> pump_at (Suc u) f'"
    using first todo(2,3) by (cases rest) (auto simp: pump_at_def next_record_def)
qed

lemma disk_inv_same:
  "disk_inv f \<Longrightarrow> f_written f' = f_written f \<Longrightarrow> f_spool f' = f_spool f \<Longrightarrow> f_commits f' = f_commits f
    \<Longrightarrow> f_durable f' = f_durable f \<Longrightarrow> f_cursor f \<le> f_cursor f' \<Longrightarrow> disk_inv f'"
  unfolding disk_inv_def by (metis order_trans)

lemma db_inv_same:
  assumes "db_inv f" and "f_written f' = f_written f" and "f_commits f' = f_commits f" and "aside f \<subseteq> aside f'"
    and "f_cursor f \<le> f_cursor f'" and "f_cursor f' \<le> db_cursor (f_commits f)"
  shows "db_inv f'"
proof -
  have "settled_by cs f \<subseteq> settled_by cs f'" for cs
    using assms(4) by (auto simp: settled_by_def)
  then have "{1 .. db_cursor (take j (f_commits f))} \<subseteq> settled_by (take j (f_commits f)) f'" if "j \<le> length (f_commits f)" for j
    using db_invD(1) [OF assms(1) that] by blast
  moreover have "s \<le> f_cursor f'" if "s \<in> fst ` set (classified (f_commits f))" for s
    using db_invD(4) [OF assms(1) that] assms(5) by simp
  ultimately show ?thesis
    using db_invD(2,3,6) [OF assms(1)] assms(6) unfolding db_inv_def assms(2,3) by blast
qed

lemma flow_inv_same:
  assumes "flow_inv u f" and "pump_at u' f'" and "u \<le> u'" and "u' \<le> length (f_written f')" and "{u <.. u'} \<subseteq> aside f'"
    and "aside f \<subseteq> aside f'" and "f_cursor f' = f_cursor f" and "f_pending f' = f_pending f"
    and "f_batch f' @ f_queue f' = f_batch f @ f_queue f" and "f_next_id f' = f_next_id f" and "f_seq_of f' = f_seq_of f"
  shows "flow_inv u' f'"
proof -
  note flow = flow_invD [OF assms(1)]
  have "{f_cursor f <.. u'} \<subseteq> {f_cursor f <.. u} \<union> {u <.. u'}"
    by auto
  also have "\<dots> \<subseteq> snd ` set (f_pending f) \<union> aside f'"
    using flow(4) assms(5,6) by blast
  finally have "{f_cursor f <.. u'} \<subseteq> snd ` set (f_pending f) \<union> aside f'" .
  moreover have "snd ` set (f_pending f) \<subseteq> {f_cursor f <.. u'}"
    using flow(6) assms(3) by fastforce
  ultimately show ?thesis
    using flow(2,5,7,8,9,10) assms unfolding flow_inv_def by (metis order_trans)
qed

lemma write_keeps:
  assumes "feed_inv f"
  shows "feed_inv (write_records ps f)"
proof -
  obtain u where disk: "disk_inv f" and db: "db_inv f" and flow: "flow_inv u f"
    using assms by (auto simp: feed_inv_def)
  let ?f' = "write_records ps f"
  let ?new = "numbered (length (f_written f) + 1) ps"
  have same: "f_commits ?f' = f_commits f" "f_cursor ?f' = f_cursor f" "f_durable ?f' = f_durable f" "aside ?f' = aside f"
    "f_pending ?f' = f_pending f" "f_batch ?f' = f_batch f" "f_queue ?f' = f_queue f" "f_next_id ?f' = f_next_id f"
    "f_seq_of ?f' = f_seq_of f" "f_pump ?f' = f_pump f" "f_after ?f' = f_after f" "f_letters ?f' = f_letters f"
    and grown: "f_written ?f' = f_written f @ ?new" "f_spool ?f' = f_spool f @ ?new"
    by (simp_all add: write_records_def written_def aside_def Let_def)
  have "map fst ?new = [Suc (length (f_written f)) ..< Suc (length (f_written f) + length ps)]"
    by (simp add: numbered_def)
  then have "map fst (f_written ?f') = [1 ..< Suc (length (f_written ?f'))]"
    using disk upt_add_eq_append [of 1 "Suc (length (f_written f))" "length ps"] by (simp add: grown disk_inv_def)
  moreover obtain k where k: "f_spool f = drop k (f_written f)" "k \<le> f_cursor f"
    "\<forall>j. f_durable f \<le> j \<and> j \<le> length (f_commits f) \<longrightarrow> k \<le> db_cursor (take j (f_commits f))"
    using disk by (auto simp: disk_inv_def)
  moreover have "k \<le> length (f_written f)"
    using k(2) flow_invD(2,3) [OF flow] by simp
  ultimately have "disk_inv ?f'"
    using disk unfolding disk_inv_def same grown by (intro conjI exI [of _ k]) auto
  moreover have "db_inv ?f'"
    using db unfolding db_inv_def settled_by_def same grown by auto
  moreover have "pump_at u ?f'"
    using flow_invD(1) [OF flow] unfolding pump_at_def same grown by (auto split: pump.splits)
  then have "flow_inv u ?f'"
    using flow unfolding flow_inv_def same grown by auto
  ultimately show ?thesis
    by (rule feed_invI)
qed

lemma seqs_of_todo: "length rs = length results \<Longrightarrow> map fst (map (\<lambda>((s, p), r). (s, p, r)) (zip rs results)) = map fst rs"
  by (induction rs results rule: list_induct2) (auto split: prod.split)

lemma read_keeps:
  assumes "feed_inv f" and "read_records results f = Some f'"
  shows "feed_inv f'"
proof -
  obtain u where disk: "disk_inv f" and db: "db_inv f" and flow: "flow_inv u f"
    using assms(1) by (auto simp: feed_inv_def)
  obtain k where k: "f_spool f = drop k (f_written f)" "k \<le> f_cursor f" and ws: "map fst (f_written f) = [1 ..< Suc (length (f_written f))]"
    using disk by (auto simp: disk_inv_def)
  let ?rs = "take (length results) (drop u (f_written f))"
  let ?todo = "map (\<lambda>((s, p), r). (s, p, r)) (zip ?rs results)"
  have pump: "f_pump f = Reading" "results \<noteq> []"
    using assms(2) by (auto simp: read_records_def Let_def split: if_splits)
  then have after: "f_after f = u"
    using flow_invD(1) [OF flow] by (simp add: pump_at_def)
  have "filter (\<lambda>r. u < fst r) (f_spool f) = drop u (f_written f)"
    unfolding k(1) using k(2) flow_invD(2) [OF flow] by (intro filter_after [OF ws]) simp
  then have len: "length ?rs = length results" and f': "f' = f\<lparr>f_pump := Delivering ?todo Fresh, f_after := fst (last ?rs)\<rparr>"
    using assms(2) by (auto simp: read_records_def Let_def after split: if_splits)
  have ne: "?rs \<noteq> []"
    using len pump(2) by auto
  have seqs: "map fst ?rs = [u + 1 ..< u + 1 + length results]"
    using seqs_drop [OF ws, of "length results" u] unfolding len .
  have "fst (last ?rs) = last (map fst ?rs)"
    using ne by (simp add: last_map)
  also have "\<dots> = u + length results"
    unfolding seqs using pump(2) by (simp add: last_upt)
  finally have "fst (last ?rs) = u + length results" .
  moreover have "map fst ?todo = map fst ?rs"
    by (rule seqs_of_todo [OF len])
  moreover have "u + length results \<le> length (f_written f)"
  proof -
    have "0 < length results" "length ?rs \<le> length (f_written f) - u"
      using pump(2) by simp_all
    then show ?thesis
      unfolding len by linarith
  qed
  moreover have "length ?todo = length results" "?todo \<noteq> []"
    using len pump(2) by auto
  ultimately have "pump_at u f'"
    unfolding pump_at_def f' using seqs by simp
  then have "flow_inv u f'"
    by (rule flow_inv_same [OF flow]) (simp_all add: f' aside_def flow_invD(3) [OF flow])
  moreover have "disk_inv f'"
    by (rule disk_inv_same [OF disk]) (simp_all add: f')
  moreover have "db_inv f'"
    by (rule db_inv_same [OF db]) (simp_all add: f' aside_def db_invD(5) [OF db])
  ultimately show ?thesis
    by (blast intro: feed_invI)
qed

lemma delivering:
  assumes "deliver f = Some f'"
  obtains seq payload res rest ph where "f_pump f = Delivering ((seq, payload, res) # rest) ph"
proof -
  obtain todo ph where p: "f_pump f = Delivering todo ph" "todo \<noteq> []"
    using assms by (auto simp: deliver_def split: pump.splits list.splits)
  then obtain x rest where "todo = x # rest"
    by (cases todo) auto
  with p that show thesis
    by (cases x) auto
qed

text \<open>A step of the pump on a record that stays at its head, and one that is done with it.\<close>

lemma same_record_keeps:
  assumes "feed_inv f" and "f_pump f = Delivering todo ph" and "f_pump f' = Delivering todo ph'" and "ph' = Begun"
    and "f_written f' = f_written f" "f_spool f' = f_spool f" "f_commits f' = f_commits f" "f_durable f' = f_durable f"
    and "f_cursor f' = f_cursor f" "f_letters f' = f_letters f" "f_nothing f' = f_nothing f" "f_overtaken f' = f_overtaken f"
    and "f_pending f' = f_pending f" "f_batch f' = f_batch f" "f_queue f' = f_queue f" "f_next_id f' = f_next_id f"
    and "f_seq_of f' = f_seq_of f" "f_after f' = f_after f"
  shows "feed_inv f'"
proof -
  obtain u where disk: "disk_inv f" and db: "db_inv f" and flow: "flow_inv u f"
    using assms(1) by (auto simp: feed_inv_def)
  have "pump_at u f'"
    using flow_invD(1) [OF flow] assms by (auto simp: pump_at_def)
  then have "flow_inv u f'"
    by (rule flow_inv_same [OF flow]) (simp_all add: assms aside_def flow_invD(3) [OF flow])
  moreover have "disk_inv f'"
    by (rule disk_inv_same [OF disk]) (simp_all add: assms)
  moreover have "db_inv f'"
    by (rule db_inv_same [OF db]) (simp_all add: assms aside_def db_invD(5) [OF db])
  ultimately show ?thesis
    by (blast intro: feed_invI)
qed

lemma nothing_keeps:
  assumes "feed_inv f" and "f_pump f = Delivering ((seq, payload, Nothing) # rest) Fresh" and "deliver f = Some f'"
  shows "feed_inv f'"
proof -
  obtain u where disk: "disk_inv f" and db: "db_inv f" and flow: "flow_inv u f"
    using assms(1) by (auto simp: feed_inv_def)
  have f': "f' = f\<lparr>f_head := max (f_head f) seq, f_ignored := f_ignored f + 1, f_nothing := insert seq (f_nothing f),
      f_pump := next_record rest\<rparr>"
    using assms(2,3) by (simp add: deliver_def Let_def)
  note next_at = pump_at_next [OF assms(2) flow_invD(1) [OF flow]]
  have "pump_at (Suc u) f'"
    by (rule next_at(3)) (simp_all add: f')
  then have "flow_inv (Suc u) f'"
  proof (rule flow_inv_same [OF flow])
    have "{u <.. Suc u} = {seq}"
      using next_at(1) by auto
    then show "{u <.. Suc u} \<subseteq> aside f'"
      by (simp add: f' aside_def)
  qed (use next_at(2) in \<open>auto simp: f' aside_def\<close>)
  moreover have "disk_inv f'"
    by (rule disk_inv_same [OF disk]) (simp_all add: f')
  moreover have "db_inv f'"
    by (rule db_inv_same [OF db]) (auto simp: f' aside_def db_invD(5) [OF db])
  ultimately show ?thesis
    by (blast intro: feed_invI)
qed

lemma aside_keeps:
  assumes "feed_inv f" and "f_pump f = Delivering ((seq, payload, res) # rest) ph" and "ph \<noteq> Fresh"
    and "ph = Begun \<Longrightarrow> res = Refused why" and "deliver f = Some f'"
  shows "feed_inv f'"
proof -
  obtain u where disk: "disk_inv f" and db: "db_inv f" and flow: "flow_inv u f"
    using assms(1) by (auto simp: feed_inv_def)
  note next_at = pump_at_next [OF assms(2) flow_invD(1) [OF flow]]
  have at: "pump_at u f" and seq: "seq = Suc u"
    using flow_invD(1) [OF flow] next_at(1) by simp_all
  show ?thesis
  proof (cases ph)
    case Begun
    then have pend: "f_pending f = []" and f': "f' = (dead_letter seq payload why f)\<lparr>f_pump := Delivering ((seq, payload, Refused why) # rest) Lettered\<rparr>"
      using assms(2,5) assms(4) [OF Begun] Begun by (auto simp: deliver_def split: if_splits)
    have "pump_at u f'"
      using at assms(2) assms(4) [OF Begun] Begun pend by (auto simp: pump_at_def f' dead_letter_def)
    then have "flow_inv u f'"
      by (rule flow_inv_same [OF flow]) (auto simp: f' dead_letter_def aside_def flow_invD(3) [OF flow])
    moreover have "disk_inv f'"
      by (rule disk_inv_same [OF disk]) (simp_all add: f' dead_letter_def)
    moreover have "db_inv f'"
      by (rule db_inv_same [OF db]) (auto simp: f' dead_letter_def aside_def db_invD(5) [OF db])
    ultimately show ?thesis
      by (blast intro: feed_invI)
  next
    case Lettered
    then have f': "f' = (advance_db seq f)\<lparr>f_pump := Delivering ((seq, payload, res) # rest) Committed\<rparr>"
      using assms(2,5) Lettered by (simp add: deliver_def)
    have pend: "f_pending f = []" "seq \<in> fst ` set (f_letters f)"
      using at assms(2) Lettered by (auto simp: pump_at_def)
    have cs: "f_commits f' = f_commits f @ [(seq, [])]" "f_durable f' = length (f_commits f')"
      by (simp_all add: f' advance_db_def Let_def)
    have same: "f_written f' = f_written f" "f_spool f' = f_spool f" "f_cursor f' = f_cursor f" "aside f' = aside f"
      by (simp_all add: f' advance_db_def aside_def Let_def)
    have "pump_at u f'"
      using at assms(2) pend Lettered by (auto simp: pump_at_def f' advance_db_def Let_def)
    then have "flow_inv u f'"
      by (rule flow_inv_same [OF flow]) (simp_all add: same, simp_all add: f' advance_db_def Let_def flow_invD(3) [OF flow])
    moreover have "disk_inv f'"
      using disk cs(1) same(2,1) by (rule disk_inv_commit)
        (use flow_invD(2) [OF flow] disk in \<open>auto simp: same cs seq disk_inv_def\<close>)
    moreover have "db_inv f'"
      using db cs(1)
    proof (rule db_inv_commit)
      have "{f_cursor f <.. seq} \<subseteq> {f_cursor f <.. u} \<union> {seq}"
        using seq by auto
      also have "\<dots> \<subseteq> aside f"
        using flow_invD(4) [OF flow] pend by (auto simp: aside_def)
      finally show "{f_cursor f <.. seq} \<subseteq> fst ` set [] \<union> aside f'"
        by (simp add: same)
    qed (use flow_invD(2) [OF flow] next_at(2) in \<open>simp_all add: same seq\<close>)
    ultimately show ?thesis
      by (blast intro: feed_invI)
  next
    case Committed
    then have f': "f' = (advance seq f)\<lparr>f_pump := next_record rest\<rparr>"
      using assms(2,5) Committed by (simp add: deliver_def)
    have pend: "f_pending f = []" "db_cursor (f_commits f) = seq"
      using at assms(2) Committed by (auto simp: pump_at_def)
    have cursor: "f_cursor f' = seq" "f_cursor f \<le> seq"
      using flow_invD(2) [OF flow] by (simp_all add: f' advance_def seq)
    have "pump_at (Suc u) f'"
      by (rule next_at(3)) (simp_all add: f' advance_def)
    then have "flow_inv (Suc u) f'"
      using flow_invD(7) [OF flow] next_at(2) cursor unfolding flow_inv_def
      by (simp add: f' advance_def pend seq)
    moreover have "disk_inv f'"
      by (rule disk_inv_same [OF disk]) (simp_all add: f' advance_def)
    moreover have "db_inv f'"
      by (rule db_inv_same [OF db]) (use cursor pend in \<open>simp_all add: f' advance_def aside_def\<close>)
    ultimately show ?thesis
      by (blast intro: feed_invI)
  qed (use assms(3) in simp)
qed

lemma event_keeps:
  assumes "feed_inv f" and "f_pump f = Delivering ((seq, payload, Event e) # rest) Begun" and "deliver f = Some f'"
  shows "feed_inv f'"
proof -
  obtain u where disk: "disk_inv f" and db: "db_inv f" and flow: "flow_inv u f"
    using assms(1) by (auto simp: feed_inv_def)
  let ?i = "f_next_id f"
  have f': "f_queue f' = f_queue f @ [(?i, e)]" "f_pending f' = f_pending f @ [((?i, e), seq)]" "f_seq_of f' = (f_seq_of f)(?i := Some seq)"
    "f_next_id f' = ?i + 1" "f_pump f' = next_record rest" "f_written f' = f_written f" "f_spool f' = f_spool f"
    "f_commits f' = f_commits f" "f_durable f' = f_durable f" "f_cursor f' = f_cursor f" "aside f' = aside f" "f_batch f' = f_batch f"
    "f_after f' = f_after f"
    using assms(2,3) by (auto simp: deliver_def Let_def aside_def split: if_splits)
  note next_at = pump_at_next [OF assms(2) flow_invD(1) [OF flow]] and flow = flow flow_invD [OF flow]
  have "pump_at (Suc u) f'"
    by (rule next_at(3)) (simp_all add: f')
  moreover have "{f_cursor f <.. Suc u} \<subseteq> {f_cursor f <.. u} \<union> {Suc u}"
    by auto
  then have "{f_cursor f <.. Suc u} \<subseteq> snd ` set (f_pending f') \<union> aside f'"
    using flow(5) by (auto simp: f' next_at(1))
  moreover have "sorted_wrt (<) (map snd (f_pending f'))" "snd ` set (f_pending f') \<subseteq> {f_cursor f <.. Suc u}"
    using flow(3,6,7) by (fastforce simp: f' next_at(1) sorted_wrt_append)+
  moreover have "distinct (map (fst \<circ> fst) (f_pending f'))" "\<forall>i \<in> (fst \<circ> fst) ` set (f_pending f'). i < f_next_id f'"
    using flow(9,10) by (auto simp: f')
  moreover have "\<forall>x \<in> set (f_pending f'). f_seq_of f' (fst (fst x)) = Some (snd x)"
    using flow(10,11) by (auto simp: f')
  ultimately have "flow_inv (Suc u) f'"
    using flow(3,8) next_at(2) unfolding flow_inv_def by (simp add: f')
  moreover have "disk_inv f'"
    by (rule disk_inv_same [OF disk]) (simp_all add: f')
  moreover have "db_inv f'"
    by (rule db_inv_same [OF db]) (simp_all add: f' db_invD(5) [OF db])
  ultimately show ?thesis
    by (blast intro: feed_invI)
qed

lemma deliver_keeps:
  assumes "feed_inv f" and "deliver f = Some f'"
  shows "feed_inv f'"
proof -
  obtain seq payload res rest ph where p: "f_pump f = Delivering ((seq, payload, res) # rest) ph"
    using delivering [OF assms(2)] by blast
  show ?thesis
  proof (cases res)
    case (Event e)
    then consider "ph = Fresh" | "ph = Begun" | "ph = Lettered" | "ph = Committed"
      by (cases ph) auto
    then show ?thesis
    proof cases
      case 1
      with p Event assms(2) show ?thesis
        by (intro same_record_keeps [OF assms(1) p, of f' Begun]) (auto simp: deliver_def Let_def)
    next
      case 2
      with p Event show ?thesis
        using event_keeps [OF assms(1) _ assms(2)] by blast
    qed (use p aside_keeps [OF assms(1) p _ _ assms(2)] in auto)
  next
    case Nothing
    show ?thesis
    proof (cases ph)
      case Fresh
      with p Nothing show ?thesis
        using nothing_keeps [OF assms(1) _ assms(2)] by blast
    qed (use p Nothing assms(2) aside_keeps [OF assms(1) p _ _ assms(2)] in \<open>auto simp: deliver_def\<close>)
  next
    case (Refused why)
    show ?thesis
    proof (cases "ph = Fresh")
      case True
      with p Refused assms(2) show ?thesis
        by (intro same_record_keeps [OF assms(1) p, of f' Begun]) (auto simp: deliver_def Let_def)
    next
      case False
      with p Refused show ?thesis
        using aside_keeps [OF assms(1) p _ _ assms(2)] by blast
    qed
  qed
qed

section \<open>Rewinding, starting and stopping\<close>

text \<open>With nothing pending the memory holds its invariant at the cursor, wherever the pump then starts.\<close>

lemma flow_inv_empty:
  "f_pending f = [] \<Longrightarrow> f_batch f = [] \<Longrightarrow> f_queue f = [] \<Longrightarrow> f_pump f = Off \<or> f_pump f = Reading \<and> f_after f = f_cursor f
    \<Longrightarrow> f_cursor f \<le> length (f_written f) \<Longrightarrow> flow_inv (f_cursor f) f"
  by (auto simp: flow_inv_def pump_at_def)

lemma set_aside_fields [simp]:
  "f_commits (set_aside seq p why f) = f_commits f @ [(seq, [])]"
  "f_durable (set_aside seq p why f) = Suc (length (f_commits f))"
  "f_cursor (set_aside seq p why f) = max (f_cursor f) seq"
  "f_written (set_aside seq p why f) = f_written f" "f_spool (set_aside seq p why f) = f_spool f"
  "aside (set_aside seq p why f) = insert seq (aside f)"
  by (simp_all add: set_aside_def advance_def advance_db_def dead_letter_def aside_def Let_def)

lemma open_keeps:
  assumes "disk_inv f" and "db_inv f" and "f_commits f' = take k (f_commits f)" and "f_durable f \<le> k" and "k \<le> length (f_commits f)"
    and "f_durable f' = f_durable f" "f_written f' = f_written f" "f_spool f' = f_spool f" "aside f \<subseteq> aside f'"
  shows "feed_inv (feed_open f')"
proof (rule feed_invI)
  note db = db_invD [OF assms(2)]
  let ?g = "feed_open f'"
  have fields: "f_commits ?g = take k (f_commits f)" "f_durable ?g = f_durable f" "f_written ?g = f_written f"
    "f_spool ?g = f_spool f" "f_cursor ?g = db_cursor (take k (f_commits f))" "aside f \<subseteq> aside ?g"
    using assms by (auto simp: feed_open_def aside_def Let_def)
  have bound: "db_cursor (take k (f_commits f)) \<le> length (f_written f)"
    using db(6) by (intro db_cursor_take_bound) blast
  obtain n where n: "f_spool f = drop n (f_written f)" "n \<le> f_cursor f"
    "\<forall>j. f_durable f \<le> j \<and> j \<le> length (f_commits f) \<longrightarrow> n \<le> db_cursor (take j (f_commits f))"
    using assms(1) by (auto simp: disk_inv_def)
  have prefix: "take j (take k (f_commits f)) = take j (f_commits f)" if "j \<le> k" for j
    using that by (simp add: min_def)
  show "disk_inv ?g"
    unfolding disk_inv_def fields
  proof (intro conjI exI [of _ n] allI impI)
    show "n \<le> db_cursor (take k (f_commits f))"
      using n(3) assms(4,5) by blast
    show "n \<le> db_cursor (take j (take k (f_commits f)))" if "f_durable f \<le> j \<and> j \<le> length (take k (f_commits f))" for j
      using that n(3) assms(5) prefix [of j] by simp
  qed (use assms(1,4,5) n(1) in \<open>auto simp: disk_inv_def\<close>)
  have "sorted_wrt (<) (map fst (classified (take k (f_commits f))))"
    using db(3) by (metis append_take_drop_id classified_def concat_append map_append sorted_wrt_append)
  moreover have "{1 .. db_cursor (take j (take k (f_commits f)))} \<subseteq> settled_by (take j (take k (f_commits f))) ?g"
    if "j \<le> k" for j
    using db(1) [of j] that assms(5) fields(6) unfolding prefix [OF that] by (auto simp: settled_by_def)
  moreover have "s \<le> db_cursor (take j (take k (f_commits f)))" if "j \<le> k" "s \<in> fst ` set (classified (take j (take k (f_commits f))))" for j s
    using db(2) [of j s] that assms(5) unfolding prefix [OF that(1)] by simp
  moreover have "c \<le> length (f_written f)" if "c \<in> fst ` set (take k (f_commits f))" for c
  proof -
    have "c \<in> fst ` set (f_commits f)"
      using that by (auto dest: in_set_takeD)
    then show ?thesis
      by (rule db(6))
  qed
  ultimately show "db_inv ?g"
    unfolding db_inv_def fields using assms(5) db(2) [of k] by (auto simp: min_def)
  show "flow_inv (f_cursor ?g) ?g"
    by (rule flow_inv_empty) (use bound fields in \<open>simp_all add: feed_open_def Let_def\<close>)
qed

lemma start_keeps:
  assumes "disk_inv f" and "db_inv f" and "f_commits f' = f_commits f" and "f_durable f' = f_durable f" and "f_written f' = f_written f"
    and "f_spool f' = f_spool f" and "f_cursor f' = f_cursor f" and "aside f' = aside f" and "f_pending f' = []" "f_batch f' = []" "f_queue f' = []"
    and "f_pump f' = Reading" "f_after f' = f_cursor f"
  shows "feed_inv f'"
proof (rule feed_invI)
  have "f_cursor f \<le> db_cursor (take (length (f_commits f)) (f_commits f))"
    using db_invD(5) [OF assms(2)] by simp
  also have "\<dots> \<le> length (f_written f)"
    using db_invD(6) [OF assms(2)] by (intro db_cursor_take_bound) blast
  finally show "flow_inv (f_cursor f') f'"
    using assms by (intro flow_inv_empty) simp_all
  show "disk_inv f'"
    by (rule disk_inv_same [OF assms(1)]) (simp_all add: assms)
  show "db_inv f'"
    by (rule db_inv_same [OF assms(2)]) (simp_all add: assms db_invD(5) [OF assms(2)])
qed

lemma set_aside_head:
  assumes "disk_inv f" and "db_inv f" and "flow_inv u f" and "f_pending f = ((i, e), seq) # rest"
    and "f_commits f' = f_commits f" "f_durable f' = f_durable f" "f_written f' = f_written f" "f_spool f' = f_spool f"
    "f_cursor f' = f_cursor f" "aside f' = aside f"
  shows "disk_inv (set_aside seq p why f')" "db_inv (set_aside seq p why f')"
proof -
  note flow = flow_invD [OF assms(3)]
  have seq: "f_cursor f < seq" "seq \<le> u"
    using flow(6) by (auto simp: assms(4))
  have after: "seq < s" if "s \<in> snd ` set rest" for s
    using flow(5) that by (auto simp: assms(4))
  show "disk_inv (set_aside seq p why f')"
    by (rule disk_inv_commit [OF assms(1), where p = seq and new = "[]"]) (use assms seq in \<open>auto simp: disk_inv_def\<close>)
  have "{f_cursor f <.. seq} \<subseteq> insert seq (aside f)"
  proof
    fix s
    assume s: "s \<in> {f_cursor f <.. seq}"
    then have "s \<in> snd ` set (f_pending f) \<union> aside f"
      using flow(4) seq by (meson greaterThanAtMost_iff le_trans subsetD)
    then show "s \<in> insert seq (aside f)"
      using after [of s] s by (auto simp: assms(4))
  qed
  then show "db_inv (set_aside seq p why f')"
    by (intro db_inv_commit [OF assms(2), where p = seq and new = "[]"]) (use assms seq flow(3) in auto)
qed

lemma rewind_keeps:
  assumes "feed_inv f"
  shows "feed_inv (rewind frepr why f)"
proof -
  obtain u where disk: "disk_inv f" and db: "db_inv f" and flow: "flow_inv u f"
    using assms by (auto simp: feed_inv_def)
  let ?g = "f\<lparr>f_runs := f_runs f + 1, f_pump := Off, f_queue := [], f_dead_lettered := f_dead_lettered f + 1\<rparr>"
  show ?thesis
  proof (cases "0 < f_runs f \<and> in_flight f = 1 \<and> f_cursor f < f_isolate_until f")
    case True
    then have "f_pending f \<noteq> []"
      by (auto simp: in_flight_def)
    then obtain i e seq rest where head: "f_pending f = ((i, e), seq) # rest"
      by (metis list.exhaust surj_pair)
    have fields: "f_commits ?g = f_commits f" "f_durable ?g = f_durable f" "f_written ?g = f_written f" "f_spool ?g = f_spool f"
      "f_cursor ?g = f_cursor f" "aside ?g = aside f"
      by (simp_all add: aside_def)
    note sa = set_aside_head [OF disk db flow head fields]
    from True head have "rewind frepr why f = feed_start ((set_aside seq (encode frepr e) (crashed_on why) ?g)
        \<lparr>f_pending := [], f_seq_of := (\<lambda>_. None), f_read := max (f_cursor f) seq, f_batch := [], f_engine := Up\<rparr>)"
      by (simp add: rewind_def Let_def)
    then show ?thesis
      using start_keeps [OF sa] by (simp add: feed_start_def set_aside_def advance_def advance_db_def dead_letter_def aside_def Let_def)
  next
    case False
    then show ?thesis
      by (intro start_keeps [OF disk db]) (auto simp: rewind_def feed_start_def aside_def Let_def)
  qed
qed

section \<open>Every step\<close>

lemma pump_at_same:
  assumes "pump_at u f" and "f_pump f' = f_pump f \<or> f_pump f' = Off" and "f_after f' = f_after f" "f_written f' = f_written f"
    "f_pending f' = f_pending f" "f_letters f' = f_letters f" "f_commits f' = f_commits f"
  shows "pump_at u f'"
  using assms(2)
proof
  assume "f_pump f' = f_pump f"
  with assms(1) show ?thesis
    unfolding pump_at_def assms(3-7) by simp
qed (simp add: pump_at_def)

lemma quiet_keeps:
  assumes "feed_inv f" and "f_written f' = f_written f" "f_spool f' = f_spool f" "f_commits f' = f_commits f" "f_durable f' = f_durable f"
    and "f_cursor f' = f_cursor f" "aside f' = aside f" "f_letters f' = f_letters f" "f_pending f' = f_pending f"
    and "f_batch f' @ f_queue f' = f_batch f @ f_queue f" "f_next_id f' = f_next_id f" "f_seq_of f' = f_seq_of f"
    and "f_pump f' = f_pump f \<or> f_pump f' = Off" "f_after f' = f_after f"
  shows "feed_inv f'"
proof -
  obtain u where disk: "disk_inv f" and db: "db_inv f" and flow: "flow_inv u f"
    using assms(1) by (auto simp: feed_inv_def)
  have "pump_at u f'"
    by (rule pump_at_same [OF flow_invD(1) [OF flow]]) (simp_all add: assms)
  then have "flow_inv u f'"
    by (rule flow_inv_same [OF flow]) (simp_all add: assms flow_invD(3) [OF flow])
  moreover have "disk_inv f'"
    by (rule disk_inv_same [OF disk]) (simp_all add: assms)
  moreover have "db_inv f'"
    by (rule db_inv_same [OF db]) (simp_all add: assms db_invD(5) [OF db])
  ultimately show ?thesis
    by (blast intro: feed_invI)
qed

lemma flush_keeps:
  assumes "feed_inv f" and "f' = f\<lparr>f_durable := length (f_commits f)\<rparr>"
  shows "feed_inv f'"
proof -
  obtain u where disk: "disk_inv f" and db: "db_inv f" and flow: "flow_inv u f"
    using assms(1) by (auto simp: feed_inv_def)
  have "disk_inv f'"
    using disk by (fastforce simp: disk_inv_def assms(2))
  moreover have "db_inv f'"
    by (rule db_inv_same [OF db]) (simp_all add: assms(2) aside_def db_invD(5) [OF db])
  moreover have "pump_at u f'"
    by (rule pump_at_same [OF flow_invD(1) [OF flow]]) (simp_all add: assms(2))
  then have "flow_inv u f'"
    by (rule flow_inv_same [OF flow]) (simp_all add: assms(2) aside_def flow_invD(3) [OF flow])
  ultimately show ?thesis
    by (blast intro: feed_invI)
qed

lemma prune_keeps:
  assumes "feed_inv f" and "\<forall>r \<in> set (take n (f_spool f)). fst r \<le> f_cursor f"
  shows "feed_inv (f\<lparr>f_durable := length (f_commits f), f_spool := drop n (f_spool f)\<rparr>)"
proof -
  let ?f = "f\<lparr>f_durable := length (f_commits f)\<rparr>"
  have "feed_inv ?f"
    using flush_keeps [OF assms(1)] by simp
  then obtain u where disk: "disk_inv ?f" and db: "db_inv ?f" and flow: "flow_inv u ?f"
    by (auto simp: feed_inv_def)
  let ?f' = "?f\<lparr>f_spool := drop n (f_spool f)\<rparr>"
  obtain k where ws: "map fst (f_written f) = [1 ..< Suc (length (f_written f))]" and k: "f_spool f = drop k (f_written f)" "k \<le> f_cursor f"
    using disk by (auto simp: disk_inv_def)
  let ?k = "if f_spool f = [] then k else min (k + n) (length (f_written f))"
  have spool: "drop n (f_spool f) = drop ?k (f_written f)"
    by (simp add: k(1) min_def add.commute)
  have "?k \<le> f_cursor f"
  proof (cases "n = 0 \<or> f_spool f = []")
    case True
    with k(2) show ?thesis
      by (auto simp: min_def)
  next
    case False
    let ?m = "min n (length (f_spool f)) - 1"
    have m: "?m < length (take n (f_spool f))"
      using False by (cases "f_spool f") auto
    then have "take n (f_spool f) ! ?m \<in> set (take n (f_spool f))"
      by (rule nth_mem)
    then have "fst (take n (f_spool f) ! ?m) \<le> f_cursor f"
      using assms(2) by blast
    moreover have "take n (f_spool f) ! ?m = f_written f ! (k + ?m)" "k + ?m < length (f_written f)"
      using m False by (auto simp: k(1))
    ultimately have "Suc (k + ?m) \<le> f_cursor f"
      using nth_seq [OF ws, of "k + ?m"] by simp
    with False show ?thesis
      by (auto simp: k(1) min_def split: if_splits)
  qed
  then have "disk_inv ?f'"
    using disk db_invD(5) [OF db] unfolding disk_inv_def
    by (intro conjI exI [of _ ?k]) (auto simp: spool simp del: if_split)
  moreover have "db_inv ?f'"
    by (rule db_inv_same [OF db]) (use db_invD(5) [OF db] in \<open>simp_all add: aside_def\<close>)
  moreover have "pump_at u ?f'"
    by (rule pump_at_same [OF flow_invD(1) [OF flow]]) simp_all
  then have "flow_inv u ?f'"
    by (rule flow_inv_same [OF flow]) (use flow_invD(3) [OF flow] in \<open>simp_all add: aside_def\<close>)
  ultimately show ?thesis
    by (auto intro: feed_invI)
qed

lemma pend_slices:
  assumes "map fst (f_pending f) = f_batch f @ f_queue f"
  shows "n \<le> length (f_batch f) \<Longrightarrow> map fst (pend_slice 0 n f) = take n (f_batch f)"
    and "map fst (pend_slice (length (f_batch f)) n f) = take n (f_queue f)"
    and "length (f_pending f) = length (f_batch f) + length (f_queue f)"
proof -
  show "length (f_pending f) = length (f_batch f) + length (f_queue f)"
    using arg_cong [OF assms, of length] by simp
qed (simp_all add: pend_slice_def take_map [symmetric] drop_map [symmetric] assms)

lemma commit_keeps:
  assumes "feed_inv f" and "0 < n" and "n \<le> length (f_batch f)"
  shows "feed_inv ((transaction (take n (f_batch f)) f)\<lparr>f_batch := drop n (f_batch f)\<rparr>)"
proof -
  obtain u where disk: "disk_inv f" and db: "db_inv f" and flow: "flow_inv u f"
    using assms(1) by (auto simp: feed_inv_def)
  note ps = pend_slices [OF flow_invD(7) [OF flow]]
  have ok: "slice_ok u 0 n f"
    using flow assms ps(3) by (simp add: slice_ok_def)
  have "feed_inv ((transaction (map fst (pend_slice 0 n f)) f)
      \<lparr>f_batch := drop n (f_batch f), f_queue := f_queue f, f_overtaken := f_overtaken f \<union> snd ` set (take 0 (f_pending f))\<rparr>)"
    using assms(3) by (intro transaction_keeps [OF disk db ok]) simp
  then show ?thesis
    using ps(1) [OF assms(3)] transaction_slice [OF ok] by simp
qed

lemma drain_keeps:
  assumes "feed_inv f" and "0 < n" and "n \<le> length (f_queue f)"
  shows "feed_inv ((transaction (take n (f_queue f)) f)\<lparr>f_queue := drop n (f_queue f), f_batch := [],
             f_overtaken := f_overtaken f \<union> snd ` set (take (length (f_batch f)) (f_pending f))\<rparr>)"
proof -
  obtain u where disk: "disk_inv f" and db: "db_inv f" and flow: "flow_inv u f"
    using assms(1) by (auto simp: feed_inv_def)
  note ps = pend_slices [OF flow_invD(7) [OF flow]]
  have ok: "slice_ok u (length (f_batch f)) n f"
    using flow assms ps(3) by (simp add: slice_ok_def)
  have "feed_inv ((transaction (map fst (pend_slice (length (f_batch f)) n f)) f)
      \<lparr>f_batch := [], f_queue := drop n (f_queue f), f_overtaken := f_overtaken f \<union> snd ` set (take (length (f_batch f)) (f_pending f))\<rparr>)"
    by (intro transaction_keeps [OF disk db ok]) simp
  moreover have "g\<lparr>f_batch := [], f_queue := q, f_overtaken := o1\<rparr> = g\<lparr>f_queue := q, f_batch := [], f_overtaken := o1\<rparr>" for g :: feed and q o1
    by simp
  ultimately show ?thesis
    unfolding ps(2) by metis
qed

lemma feed_step_keeps:
  assumes "feed_inv f" and "feed_step frepr a f = Some f'"
  shows "feed_inv f'"
proof -
  obtain u where disk: "disk_inv f" and db: "db_inv f"
    using assms(1) by (auto simp: feed_inv_def)
  have reopen: "feed_inv (feed_open f'')" if "f_commits f'' = take k (f_commits f)" "f_durable f \<le> k" "k \<le> length (f_commits f)"
    "f_durable f'' = f_durable f" "f_written f'' = f_written f" "f_spool f'' = f_spool f" "aside f \<subseteq> aside f''" for f'' k
    using open_keeps [OF disk db that] .
  have d: "f_durable f \<le> length (f_commits f)"
    using disk by (simp add: disk_inv_def)
  show ?thesis
  proof (cases a)
    case (Write ps)
    with assms show ?thesis by (auto intro: write_keeps)
  next
    case (Read rs)
    with assms show ?thesis by (auto intro: read_keeps)
  next
    case Deliver
    with assms show ?thesis by (auto intro: deliver_keeps)
  next
    case Pump_dies
    with assms(2) show ?thesis by (intro quiet_keeps [OF assms(1)]) (auto simp: aside_def)
  next
    case (Take_batch n)
    with assms(2) show ?thesis by (intro quiet_keeps [OF assms(1)]) (auto simp: aside_def split: if_splits)
  next
    case (Commit n)
    with assms show ?thesis by (auto intro: commit_keeps split: if_splits)
  next
    case Rollback
    with assms show ?thesis by (auto split: if_splits)
  next
    case Crash
    with assms(2) show ?thesis by (intro quiet_keeps [OF assms(1)]) (auto simp: aside_def split: if_splits)
  next
    case (Rewind why)
    with assms show ?thesis by (auto intro: rewind_keeps split: if_splits)
  next
    case (Rewind_killed why)
    then obtain p seq where "f' = feed_open (dead_letter seq p (crashed_on why) f)"
      using assms(2) by (auto split: if_splits prod.splits)
    then show ?thesis
      using reopen [of "dead_letter seq p (crashed_on why) f" "length (f_commits f)"] d
      by (auto simp: dead_letter_def aside_def)
  next
    case Flush
    with assms show ?thesis by (auto intro: flush_keeps)
  next
    case (Prune n)
    with assms show ?thesis by (auto intro!: prune_keeps split: if_splits)
  next
    case Stop
    with assms(2) show ?thesis by (intro quiet_keeps [OF assms(1)]) (auto simp: aside_def)
  next
    case (Drain n)
    with assms show ?thesis by (auto intro!: drain_keeps split: if_splits)
  next
    case Restart
    with assms(2) reopen [of f "length (f_commits f)"] d show ?thesis by simp
  next
    case (Power_cut k)
    with assms(2) reopen [of "f\<lparr>f_commits := take k (f_commits f)\<rparr>" k] show ?thesis
      by (auto simp: aside_def split: if_splits)
  qed
qed

lemma first_feed_inv: "feed_inv first_feed"
  by (rule feed_invI [where u = 0])
    (auto simp: disk_inv_def db_inv_def flow_inv_def pump_at_def first_feed_def db_cursor_def aside_def upt_Suc)

lemma feed_run_keeps: "feed_run frepr as f = Some f' \<Longrightarrow> feed_inv f \<Longrightarrow> feed_inv f'"
  by (induction as arbitrary: f) (auto simp: bind_eq_Some_conv intro: feed_step_keeps)

section \<open>No trap is lost\<close>


text \<open>A shutdown loses traps. The engine holds record 1 (it waits for the database lock, or between two
  attempts of a batch the database refused) while record 2 is queued; the shutdown cancels the engine,
  then drains the queue, and the cursor it commits passes record 1.\<close>

definition plain_event :: queue_item where
  "plain_event = Trap \<lparr>ev_device = ''10.0.0.1'', ev_trap_oid = ''1.3'', ev_instance = '''', ev_ts = 1, ev_varbinds = [], ev_community_tag = ''''\<rparr>"

lemmas feed_eval = first_feed_def write_records_def written_def rewind_def feed_start_def in_flight_def read_records_def
  deliver_def next_record_def QUEUE_SIZE_def BATCH_SIZE_def transaction_def committed_def commit_items_def stage_def classified_def
  db_cursor_def List.map_filter_def set_aside_def advance_def advance_db_def dead_letter_def

lemma shutdown_overtakes_a_trap:
  "\<exists>f. feed_run frepr [Write [[1], [2]], Rewind '''', Read [Event plain_event, Event plain_event], Deliver, Deliver, Deliver, Deliver,
        Take_batch 1, Stop, Drain 1] first_feed = Some f
     \<and> map fst (classified (f_commits f)) = [2] \<and> db_cursor (f_commits f) = 2 \<and> f_letters f = [] \<and> f_nothing f = {}
     \<and> f_overtaken f = {1}"
  by (simp add: feed_eval Let_def)

text \<open>For the witness: the commit of record 1 has not reached the disk, so a power cut may undo it, and
  the spool still holds the record.\<close>

definition one_committed :: "action list" where
  "one_committed = [Write [[1], [2]], Rewind '''', Read [Event plain_event, Event plain_event], Deliver, Deliver, Take_batch 1, Commit 1]"

lemma one_committed_run:
  "\<exists>f. feed_run frepr one_committed first_feed = Some f \<and> f_durable f = 0 \<and> map fst (classified (f_commits f)) = [1]
     \<and> f_letters f = [] \<and> f_nothing f = {} \<and> f_overtaken f = {}"
  by (simp add: feed_eval one_committed_def Let_def)


text \<open>A pump that ends with an exception (the disk refuses the dead-letter file, the database the
  cursor) is not started again by anything but a crash of the engine or a new process: no record is
  delivered, and when the engine has committed what it held it waits for good.\<close>

lemma transaction_other [simp]:
  "f_pump (transaction items f) = f_pump f" "f_queue (transaction items f) = f_queue f"
  by (simp_all add: transaction_def committed_def commit_items_def Let_def split: option.split)

lemma feed_open_other [simp]: "f_pump (feed_open f) = Off" "f_queue (feed_open f) = []"
  by (simp_all add: feed_open_def Let_def)

lemma dead_pump_stays_dead:
  assumes "f_pump f = Off" and "feed_step frepr a f = Some f'" and "a \<notin> range Rewind"
  shows "f_pump f' = Off \<and> length (f_queue f') \<le> length (f_queue f)"
proof (cases a)
  case (Write ps)
  with assms show ?thesis
    by (auto simp: write_records_def written_def Let_def)
next
  case (Read results)
  with assms show ?thesis
    by (simp add: read_records_def Let_def)
next
  case (Rewind_killed why)
  with assms(2) show ?thesis
    by (auto split: if_splits prod.splits)
next
  case (Rewind why)
  with assms(3) show ?thesis
    by simp
qed (use assms in \<open>auto simp: deliver_def split: if_splits\<close>)

end
