(* ===== verification/Intake_Crash.thy ===== *)
theory Intake_Crash
  imports Intake_Safety
begin

text \<open>
  A record the engine cannot classify is set aside: in the life of one process the engine crashes at most
  three times with a given record in flight. The first crash replays the records in flight one at a time;
  when the record was the last of them the next one may still join it, which a second crash finds out;
  at the third it is alone.
\<close>

section \<open>Runs of one process, with a decoding that is a function of the record\<close>

fun same_decoding :: "(nat \<times> bytes \<Rightarrow> result) \<Rightarrow> action \<Rightarrow> feed \<Rightarrow> bool" where
  "same_decoding dec (Read results) f \<longleftrightarrow> results = map dec (take (length results) (filter (\<lambda>r. f_after f < fst r) (f_spool f)))"
| "same_decoding dec _ f \<longleftrightarrow> True"

fun one_process :: "action \<Rightarrow> bool" where
  "one_process Restart = False"
| "one_process (Power_cut k) = False"
| "one_process (Rewind_killed why) = False"
| "one_process _ = True"

fun steady_run :: "(real \<Rightarrow> string) \<Rightarrow> (nat \<times> bytes \<Rightarrow> result) \<Rightarrow> action list \<Rightarrow> feed \<Rightarrow> bool" where
  "steady_run frepr dec [] f = True"
| "steady_run frepr dec (a # as) f =
     (one_process a \<and> same_decoding dec a f
      \<and> (case feed_step frepr a f of None \<Rightarrow> False | Some f' \<Rightarrow> steady_run frepr dec as f'))"

definition flying :: "feed \<Rightarrow> nat set" where
  "flying f = snd ` set (take (nat (in_flight f)) (f_pending f))"

fun is_rewind :: "action \<Rightarrow> bool" where
  "is_rewind (Rewind why) = True"
| "is_rewind _ = False"

fun crashes_with :: "(real \<Rightarrow> string) \<Rightarrow> nat \<Rightarrow> action list \<Rightarrow> feed \<Rightarrow> nat" where
  "crashes_with frepr p [] f = 0"
| "crashes_with frepr p (a # as) f =
     (case feed_step frepr a f of
        None \<Rightarrow> 0
      | Some f' \<Rightarrow> (if is_rewind a \<and> p \<in> flying f then 1 else 0) + crashes_with frepr p as f')"

section \<open>Why three are enough\<close>

definition is_event :: "result \<Rightarrow> bool" where
  "is_event r = (case r of Event e \<Rightarrow> True | _ \<Rightarrow> False)"

definition rec_of :: "feed \<Rightarrow> nat \<Rightarrow> nat \<times> bytes" where
  "rec_of f s = f_written f ! (s - 1)"

text \<open>The records being delivered and the pending ones are what decoding makes of them; what lies
  ahead of the cursor and is settled is no event; the record isolation waits for is one; and of the
  pending records only the first can be one delivered alone.\<close>

definition todo_of :: "pump \<Rightarrow> (nat \<times> bytes \<times> result) list" where
  "todo_of p = (case p of Delivering todo ph \<Rightarrow> todo | _ \<Rightarrow> [])"

definition crash_inv :: "(nat \<times> bytes \<Rightarrow> result) \<Rightarrow> feed \<Rightarrow> bool" where
  "crash_inv dec f \<longleftrightarrow>
     (\<forall>(s, p, r) \<in> set (todo_of (f_pump f)). r = dec (rec_of f s))
     \<and> (\<forall>s \<in> snd ` set (f_pending f). is_event (dec (rec_of f s)))
     \<and> aside f \<subseteq> {1 .. length (f_written f)}
     \<and> (\<forall>s \<in> aside f. f_cursor f < s \<longrightarrow> \<not> is_event (dec (rec_of f s)))
     \<and> f_isolate_until f \<le> length (f_written f)
     \<and> (f_cursor f < f_isolate_until f \<longrightarrow> is_event (dec (rec_of f (f_isolate_until f))))
     \<and> (\<forall>s \<in> set (tl (map snd (f_pending f))). f_isolate_until f < s)
     \<and> (f_runs f = 0 \<longrightarrow> f_pending f = [] \<and> f_pump f = Off)"

lemma crash_invD:
  assumes "crash_inv dec f"
  shows "(s, p, r) \<in> set (todo_of (f_pump f)) \<Longrightarrow> r = dec (rec_of f s)"
    and "s \<in> snd ` set (f_pending f) \<Longrightarrow> is_event (dec (rec_of f s))"
    and "aside f \<subseteq> {1 .. length (f_written f)}"
    and "s \<in> aside f \<Longrightarrow> f_cursor f < s \<Longrightarrow> \<not> is_event (dec (rec_of f s))"
    and "f_isolate_until f \<le> length (f_written f)"
    and "f_cursor f < f_isolate_until f \<Longrightarrow> is_event (dec (rec_of f (f_isolate_until f)))"
    and "s \<in> set (tl (map snd (f_pending f))) \<Longrightarrow> f_isolate_until f < s"
    and "f_runs f = 0 \<Longrightarrow> f_pending f = [] \<and> f_pump f = Off"
  using assms unfolding crash_inv_def by blast+

text \<open>A step that reads nothing, pends nothing new and settles only what the cursor has passed.\<close>

lemma crash_inv_step:
  assumes "crash_inv dec f" and "f_written f' = f_written f" and "f_isolate_until f' = f_isolate_until f"
    and "set (todo_of (f_pump f')) \<subseteq> set (todo_of (f_pump f))" and "f_runs f \<le> f_runs f'"
    and "f_pump f = Off \<Longrightarrow> f_pump f' = Off"
    and "\<exists>n. f_pending f' = drop n (f_pending f)" and "f_cursor f \<le> f_cursor f'"
    and "aside f' \<subseteq> aside f \<union> ({1 .. length (f_written f)} \<inter> {.. f_cursor f'})"
  shows "crash_inv dec f'"
proof -
  note c = crash_invD [OF assms(1)]
  obtain n where n: "f_pending f' = drop n (f_pending f)"
    using assms(7) by blast
  have "set (tl (map snd (f_pending f'))) \<subseteq> set (tl (map snd (f_pending f)))"
    by (simp add: n tl_drop flip: drop_map) (metis drop_map set_drop_subset map_tl tl_drop)
  moreover have "snd ` set (f_pending f') \<subseteq> snd ` set (f_pending f)"
    by (auto simp: n dest: in_set_dropD)
  moreover have "rec_of f' s = rec_of f s" for s
    by (simp add: rec_of_def assms(2))
  moreover have "aside f' \<subseteq> {1 .. length (f_written f)}"
    using assms(9) c(3) by blast
  moreover have "\<not> is_event (dec (rec_of f s))" if "s \<in> aside f'" "f_cursor f' < s" for s
    using that assms(8,9) c(4) [of s] by auto
  moreover have "r = dec (rec_of f s)" if "(s, p, r) \<in> set (todo_of (f_pump f'))" for s p r
    using that assms(4) c(1) by blast
  moreover have "f_pending f' = [] \<and> f_pump f' = Off" if "f_runs f' = 0"
    using that assms(5,6) c(8) n by simp
  ultimately show ?thesis
    using assms(2,3,8) c(2,5,6,7) unfolding crash_inv_def by (simp add: subset_iff) blast
qed

definition level :: "nat \<Rightarrow> feed \<Rightarrow> nat" where
  "level p f =
     (if p \<le> f_cursor f then 3 else if f_isolate_until f < p then 0 else if f_isolate_until f = p then 1 else 2)"

lemma todo_next: "set (todo_of (next_record rest)) = set rest"
  by (simp add: todo_of_def next_record_def)

lemma write_crash_inv:
  assumes "crash_inv dec f" and "flow_inv u f"
  shows "crash_inv dec (write_records ps f)"
proof -
  note c = crash_invD [OF assms(1)] and flow = flow_invD [OF assms(2)]
  let ?f' = "write_records ps f"
  have same: "f_pump ?f' = f_pump f" "f_pending ?f' = f_pending f" "aside ?f' = aside f" "f_isolate_until ?f' = f_isolate_until f"
    "f_cursor ?f' = f_cursor f" "f_runs ?f' = f_runs f"
    and grown: "f_written ?f' = f_written f @ numbered (length (f_written f) + 1) ps"
    by (simp_all add: write_records_def written_def aside_def Let_def)
  have kept: "rec_of ?f' s = rec_of f s" if "s \<le> length (f_written f)" "0 < s" for s
  proof -
    have "s - 1 < length (f_written f)"
      using that by simp
    then show ?thesis
      unfolding rec_of_def grown by (simp add: nth_append)
  qed
  have todo: "s \<le> length (f_written f) \<and> 0 < s" if t: "(s, p, r) \<in> set (todo_of (f_pump f))" for s p r
  proof -
    obtain todo ph where p: "f_pump f = Delivering todo ph" and i: "(s, p, r) \<in> set todo"
      using t by (cases "f_pump f") (auto simp: todo_of_def)
    then have "s \<in> set (map fst todo)"
      by (auto simp: rev_image_eqI)
    moreover have "map fst todo = [u + 1 ..< u + 1 + length todo]" "u + length todo \<le> length (f_written f)"
      using flow(1) p by (simp_all add: pump_at_def)
    ultimately have "s \<in> {u + 1 ..< u + 1 + length todo}"
      by (simp only: set_upt)
    with \<open>u + length todo \<le> _\<close> show ?thesis
      by simp
  qed
  have "r = dec (rec_of ?f' s)" if "(s, p, r) \<in> set (todo_of (f_pump f))" for s p r
    using c(1) [OF that] todo [OF that] kept by simp
  moreover have "is_event (dec (rec_of ?f' s))" if "s \<in> snd ` set (f_pending f)" for s
    using c(2) [OF that] kept [of s] flow(3,6) that by fastforce
  moreover have "\<not> is_event (dec (rec_of ?f' s))" if "s \<in> aside f" "f_cursor f < s" for s
    using c(4) [OF that] c(3) kept [of s] that by auto
  moreover have "is_event (dec (rec_of ?f' (f_isolate_until f)))" if "f_cursor f < f_isolate_until f"
    using c(6) [OF that] c(5) kept [of "f_isolate_until f"] that by simp
  moreover have "length (f_written f) \<le> length (f_written ?f')"
    by (simp add: grown)
  moreover have "aside f \<subseteq> {1 .. length (f_written ?f')}" "f_isolate_until f \<le> length (f_written ?f')"
    using c(3,5) by (auto simp: grown)
  ultimately show ?thesis
    using c(7,8) unfolding crash_inv_def same by blast
qed

lemma zip_decoded:
  "results = map dec rs \<Longrightarrow> (s, p, r) \<in> set (map (\<lambda>((s, p), r). (s, p, r)) (zip rs results)) \<Longrightarrow> (s, p) \<in> set rs \<and> r = dec (s, p)"
  by (auto simp: zip_map2 in_set_zip) (metis nth_mem)

lemma crash_inv_read:
  assumes "crash_inv dec f" and "f_runs f \<noteq> 0" and "\<And>s p r. (s, p, r) \<in> set (todo_of (f_pump f')) \<Longrightarrow> r = dec (rec_of f s)"
    and "f_written f' = f_written f" "f_pending f' = f_pending f" "aside f' = aside f"
    "f_isolate_until f' = f_isolate_until f" "f_cursor f' = f_cursor f" "f_runs f' = f_runs f"
  shows "crash_inv dec f'"
proof -
  have "rec_of f' s = rec_of f s" for s
    by (simp add: rec_of_def assms(4))
  then show ?thesis
    using crash_invD(2-7) [OF assms(1)] assms(2,3) unfolding crash_inv_def assms(4-9) by auto
qed

lemma read_crash_inv:
  assumes "crash_inv dec f" and "feed_inv f" and "read_records results f = Some f'" and "same_decoding dec (Read results) f"
  shows "crash_inv dec f'"
proof -
  have disk: "disk_inv f"
    using assms(2) by (simp add: feed_inv_def)
  then obtain k where k: "f_spool f = drop k (f_written f)" and ws: "map fst (f_written f) = [1 ..< Suc (length (f_written f))]"
    by (auto simp: disk_inv_def)
  define rs where "rs = take (length results) (filter (\<lambda>r. f_after f < fst r) (f_spool f))"
  have pump: "f_pump f = Reading"
    and f': "f' = f\<lparr>f_pump := Delivering (map (\<lambda>((s, p), r). (s, p, r)) (zip rs results)) Fresh, f_after := fst (last rs)\<rparr>"
    using assms(3) by (simp_all add: read_records_def Let_def rs_def split: if_splits)
  have results: "results = map dec rs"
    using assms(4) unfolding same_decoding.simps rs_def .
  have "r = dec (rec_of f s)" if "(s, p, r) \<in> set (todo_of (f_pump f'))" for s p r
  proof -
    have "(s, p, r) \<in> set (map (\<lambda>((s, p), r). (s, p, r)) (zip rs results))"
      using that by (simp add: f' todo_of_def)
    from zip_decoded [OF results this] have sp: "(s, p) \<in> set rs" "r = dec (s, p)"
      by simp_all
    then have "(s, p) \<in> set (f_written f)"
      by (auto simp: rs_def k dest!: in_set_takeD in_set_dropD)
    then obtain j where "j < length (f_written f)" "f_written f ! j = (s, p)"
      by (auto simp: in_set_conv_nth)
    then have "rec_of f s = (s, p)"
      using nth_seq [OF ws, of j] by (simp add: rec_of_def)
    with sp(2) show ?thesis
      by simp
  qed
  moreover have "f_runs f \<noteq> 0"
    using crash_invD(8) [OF assms(1)] pump by (cases "f_runs f = 0") simp_all
  ultimately show ?thesis
    by (intro crash_inv_read [OF assms(1)]) (simp_all add: f' aside_def)
qed

lemma transaction_crash_inv:
  assumes "crash_inv dec f" and "slice_ok u b n f"
  shows "crash_inv dec ((transaction (map fst (pend_slice b n f)) f)
    \<lparr>f_batch := bt, f_queue := q, f_overtaken := f_overtaken f \<union> snd ` set (take b (f_pending f))\<rparr>)"
proof (rule crash_inv_step [OF assms(1)])
  note flow = flow_invD [OF slice_okD(1) [OF assms(2)]]
  let ?f' = "(transaction (map fst (pend_slice b n f)) f)
    \<lparr>f_batch := bt, f_queue := q, f_overtaken := f_overtaken f \<union> snd ` set (take b (f_pending f))\<rparr>"
  note tr = transaction_slice [OF assms(2)]
  show "f_cursor f \<le> f_cursor ?f'"
    using reached_pending [OF assms(2)] by (simp add: tr)
  have "snd ` set (f_pending f) \<subseteq> {1 .. length (f_written f)}"
    using flow(3,6) by fastforce
  then have "snd ` set (take b (f_pending f)) \<subseteq> {1 .. length (f_written f)} \<inter> {.. reached b n f}"
    using slice_seqs(2) [OF assms(2)] by blast
  moreover have "aside ?f' = aside f \<union> snd ` set (take b (f_pending f))"
    by (simp add: aside_def tr Un_ac)
  moreover have "f_cursor ?f' = reached b n f"
    by (simp add: tr)
  ultimately show "aside ?f' \<subseteq> aside f \<union> ({1 .. length (f_written f)} \<inter> {.. f_cursor ?f'})"
    by (simp only:) (rule Un_mono [OF subset_refl])
qed (simp_all add: transaction_slice [OF assms(2)], rule exI, rule refl)

lemma delivered_record:
  assumes "crash_inv dec f" and "pump_at u f" and "f_pump f = Delivering ((seq, payload, res) # rest) ph"
  shows "res = dec (rec_of f seq)" "seq \<in> {1 .. length (f_written f)}" "f_runs f \<noteq> 0"
proof -
  note c = crash_invD [OF assms(1)]
  show "res = dec (rec_of f seq)"
    using c(1) [of seq payload res] assms(3) by (simp add: todo_of_def)
  show "seq \<in> {1 .. length (f_written f)}"
    using pump_at_next(1,2) [OF assms(3,2)] by simp
  show "f_runs f \<noteq> 0"
    using c(8) assms(3) by (cases "f_runs f = 0") simp_all
qed

lemma settle_crash_inv:
  assumes "crash_inv dec f" and "aside f' = insert seq (aside f)" and "seq \<in> {1 .. length (f_written f)}"
    and "\<not> is_event (dec (rec_of f seq))" and "set (todo_of (f_pump f')) \<subseteq> set (todo_of (f_pump f))"
    and "f_written f' = f_written f" "f_pending f' = f_pending f" "f_isolate_until f' = f_isolate_until f" "f_cursor f' = f_cursor f"
    "f_runs f' = f_runs f" "f_runs f \<noteq> 0"
  shows "crash_inv dec f'"
proof -
  note c = crash_invD [OF assms(1)]
  have "rec_of f' s = rec_of f s" for s
    by (simp add: rec_of_def assms(6))
  moreover have "r = dec (rec_of f s)" if "(s, p, r) \<in> set (todo_of (f_pump f'))" for s p r
    using c(1) subsetD [OF assms(5) that] .
  ultimately show ?thesis
    using c(2-7) assms(3,4,11) unfolding crash_inv_def assms(2,6-10) by auto
qed

lemma pend_crash_inv:
  assumes "crash_inv dec f" and "is_event (dec (rec_of f seq))" and "f_pending f = [] \<or> f_isolate_until f < seq"
    and "f_pending f' = f_pending f @ [(x, seq)]" and "set (todo_of (f_pump f')) \<subseteq> set (todo_of (f_pump f))"
    and "f_written f' = f_written f" "aside f' = aside f" "f_isolate_until f' = f_isolate_until f" "f_cursor f' = f_cursor f"
    "f_runs f' = f_runs f" "f_runs f \<noteq> 0"
  shows "crash_inv dec f'"
proof -
  note c = crash_invD [OF assms(1)]
  have "rec_of f' s = rec_of f s" for s
    by (simp add: rec_of_def assms(6))
  moreover have "r = dec (rec_of f s)" if "(s, p, r) \<in> set (todo_of (f_pump f'))" for s p r
    using c(1) subsetD [OF assms(5) that] .
  moreover have "f_isolate_until f < s" if "s \<in> set (tl (map snd (f_pending f')))" for s
    using that c(7) [of s] assms(3) by (cases "f_pending f") (auto simp: assms(4))
  ultimately show ?thesis
    using c(2-6) assms(2,11) unfolding crash_inv_def assms(6-10) by (auto simp: assms(4))
qed

lemma deliver_crash_inv:
  assumes "crash_inv dec f" and "feed_inv f" and "deliver f = Some f'"
  shows "crash_inv dec f'"
proof -
  obtain u where flow: "flow_inv u f"
    using assms(2) by (auto simp: feed_inv_def)
  obtain seq payload res rest ph where p: "f_pump f = Delivering ((seq, payload, res) # rest) ph"
    using delivering [OF assms(3)] by blast
  note head = delivered_record [OF assms(1) flow_invD(1) [OF flow] p]
  have smaller: "set (todo_of (next_record rest)) \<subseteq> set (todo_of (f_pump f))"
    unfolding todo_next by (auto simp: p todo_of_def)
  show ?thesis
  proof (cases ph)
    case Fresh
    show ?thesis
    proof (cases res)
      case Nothing
      with p Fresh assms(3) smaller head show ?thesis
        by (intro settle_crash_inv [OF assms(1), of _ seq]) (auto simp: deliver_def Let_def aside_def is_event_def)
    qed (use p Fresh assms(3) in \<open>auto simp: deliver_def Let_def aside_def todo_of_def intro!: crash_inv_step [OF assms(1)] exI [of _ 0]\<close>)
  next
    case Begun
    show ?thesis
    proof (cases res)
      case (Event e)
      with head(1) have "is_event (dec (rec_of f seq))"
        by (simp add: is_event_def flip: head(1))
      with p Begun Event assms(3) smaller head(3) show ?thesis
        by (intro pend_crash_inv [OF assms(1), of seq f' "(f_next_id f, e)"]) (auto simp: deliver_def Let_def aside_def split: if_splits)
    next
      case (Refused why)
      with head(1) have "\<not> is_event (dec (rec_of f seq))"
        by (simp add: is_event_def flip: head(1))
      with p Begun Refused assms(3) head(2,3) show ?thesis
        by (intro settle_crash_inv [OF assms(1), of _ seq])
          (auto simp: deliver_def Let_def aside_def dead_letter_def todo_of_def split: if_splits)
    qed (use p Begun assms(3) in \<open>auto simp: deliver_def\<close>)
  next
    case Lettered
    with p assms(3) show ?thesis
      by (intro crash_inv_step [OF assms(1)]) (auto simp: deliver_def advance_db_def aside_def todo_of_def Let_def intro!: exI [of _ 0])
  next
    case Committed
    with p assms(3) smaller show ?thesis
      by (intro crash_inv_step [OF assms(1)]) (auto simp: deliver_def advance_def aside_def Let_def intro!: exI [of _ 0])
  qed
qed

section \<open>A crash\<close>

definition sets_aside :: "feed \<Rightarrow> bool" where
  "sets_aside f \<longleftrightarrow> 0 < f_runs f \<and> in_flight f = 1 \<and> f_cursor f < f_isolate_until f"

lemma rewind_aside:
  assumes "sets_aside f" and "f_pending f = ((i, e), seq) # rest"
  shows "f_cursor (rewind frepr why f) = max (f_cursor f) seq" "aside (rewind frepr why f) = insert seq (aside f)"
    "f_isolate_until (rewind frepr why f) = f_isolate_until f"
  using assms by (simp_all add: rewind_def sets_aside_def Let_def feed_start_def set_aside_def advance_def advance_db_def
      dead_letter_def aside_def)

lemma rewind_other:
  assumes "\<not> sets_aside f"
  shows "f_cursor (rewind frepr why f) = f_cursor f" "aside (rewind frepr why f) = aside f"
    "f_isolate_until (rewind frepr why f)
       = (if 0 < f_runs f \<and> 0 < in_flight f then snd (f_pending f ! (nat (in_flight f) - 1)) else f_isolate_until f)"
  using assms by (auto simp: rewind_def sets_aside_def Let_def feed_start_def aside_def)

lemma rewind_any:
  "f_pending (rewind frepr why f) = []" "f_pump (rewind frepr why f) = Reading" "f_runs (rewind frepr why f) = Suc (f_runs f)"
  "f_written (rewind frepr why f) = f_written f"
  by (auto simp: rewind_def Let_def feed_start_def set_aside_def advance_def advance_db_def dead_letter_def split: prod.split)

lemma flying_facts:
  assumes "flow_inv u f" and "0 < in_flight f"
  shows "nat (in_flight f) - 1 < length (f_pending f)" "f_pending f \<noteq> []"
    "p \<in> flying f \<Longrightarrow> p \<in> snd ` set (f_pending f) \<and> p \<le> snd (f_pending f ! (nat (in_flight f) - 1))"
proof -
  let ?n = "nat (in_flight f)"
  show bound: "?n - 1 < length (f_pending f)" and "f_pending f \<noteq> []"
    using assms(2) by (auto simp: in_flight_def)
  assume "p \<in> flying f"
  then have "p \<in> set (take ?n (map snd (f_pending f)))"
    by (simp add: flying_def take_map)
  then obtain i where i: "i < ?n" "i < length (f_pending f)" "p = map snd (f_pending f) ! i"
    by (auto simp: in_set_conv_nth)
  have "p \<le> map snd (f_pending f) ! (?n - 1)"
  proof (cases "i = ?n - 1")
    case False
    with i(1) have "i < ?n - 1"
      by simp
    then have "map snd (f_pending f) ! i < map snd (f_pending f) ! (?n - 1)"
      using flow_invD(5) [OF assms(1)] bound by (intro sorted_wrt_nth_less) simp_all
    with i(3) show ?thesis
      by simp
  qed (simp add: i(3))
  then show "p \<in> snd ` set (f_pending f) \<and> p \<le> snd (f_pending f ! (?n - 1))"
    using i bound by auto
qed

lemma rewind_crash_inv:
  assumes "crash_inv dec f" and "flow_inv u f"
  shows "crash_inv dec (rewind frepr why f)"
proof -
  note c = crash_invD [OF assms(1)] and flow = flow_invD [OF assms(2)]
  let ?f' = "rewind frepr why f"
  have recs: "rec_of ?f' s = rec_of f s" for s
    by (simp add: rec_of_def rewind_any)
  have pend_bound: "snd ` set (f_pending f) \<subseteq> {1 .. length (f_written f)}"
    using flow(3,6) by fastforce
  show ?thesis
  proof (cases "sets_aside f")
    case True
    then have "f_pending f \<noteq> []"
      by (auto simp: sets_aside_def in_flight_def)
    then obtain i e seq rest where head: "f_pending f = ((i, e), seq) # rest"
      by (metis list.exhaust surj_pair)
    note ra = rewind_aside [OF True head, of frepr why]
    have "seq \<in> {1 .. length (f_written f)}"
      using pend_bound by (simp add: head)
    then show ?thesis
      using c(3-6) unfolding crash_inv_def ra rewind_any recs by (auto simp: todo_of_def)
  next
    case False
    note ro = rewind_other [OF False, of frepr why]
    show ?thesis
    proof (cases "0 < f_runs f \<and> 0 < in_flight f")
      case True
      then have "f_pending f ! (nat (in_flight f) - 1) \<in> set (f_pending f)"
        using flying_facts(1) [OF assms(2)] by (intro nth_mem) simp
      then have "snd (f_pending f ! (nat (in_flight f) - 1)) \<in> snd ` set (f_pending f)"
        by (rule imageI)
      then show ?thesis
        using True c(2,3,4) pend_bound unfolding crash_inv_def ro rewind_any recs by (auto simp: todo_of_def)
    next
      case other: False
      then have iso: "f_isolate_until ?f' = f_isolate_until f"
        unfolding ro(3) by (rule if_not_P)
      show ?thesis
        using c(3-6) unfolding crash_inv_def ro(1,2) iso rewind_any recs by (auto simp: todo_of_def)
    qed
  qed
qed

text \<open>Each crash with the record in flight takes it one level up; no other step takes it down.\<close>

lemma rewind_level:
  assumes "crash_inv dec f" and "flow_inv u f"
  shows "level p f + (if p \<in> flying f then 1 else 0) \<le> level p (rewind frepr why f)"
proof -
  note c = crash_invD [OF assms(1)] and flow = flow_invD [OF assms(2)]
  show ?thesis
  proof (cases "0 < in_flight f")
    case False
    then have "flying f = {}" "\<not> sets_aside f"
      by (simp_all add: flying_def sets_aside_def)
    with False show ?thesis
      by (simp add: level_def rewind_other)
  next
    case flight: True
    note fl = flying_facts [OF assms(2) flight]
    have runs: "0 < f_runs f"
      using c(8) fl(2) by (cases "f_runs f = 0") simp_all
    obtain i e seq rest where head: "f_pending f = ((i, e), seq) # rest"
      using fl(2) by (metis list.exhaust surj_pair)
    let ?last = "snd (f_pending f ! (nat (in_flight f) - 1))"
    show ?thesis
    proof (cases "sets_aside f")
      case True
      then have "flying f = {seq}"
        by (simp add: sets_aside_def flying_def head)
      moreover have "f_cursor f < seq"
        using flow(6) by (simp add: head)
      ultimately show ?thesis
        using rewind_aside [OF True head, of frepr why] by (auto simp: level_def)
    next
      case False
      note ro = rewind_other [OF False, of frepr why]
      have iso: "f_isolate_until (rewind frepr why f) = ?last"
        unfolding ro(3) using runs flight by simp
      have higher: "f_isolate_until f < ?last" if "f_cursor f < f_isolate_until f"
      proof -
        have "in_flight f \<noteq> 1"
          using False runs that by (simp add: sets_aside_def)
        with flight obtain m where m: "nat (in_flight f) = Suc (Suc m)"
          by (cases "nat (in_flight f)" rule: nat.exhaust; cases "nat (in_flight f) - 1") auto
        then have "Suc m < length (map snd (f_pending f))"
          using fl(1) by simp
        then have "map snd (f_pending f) ! Suc m \<in> set (tl (map snd (f_pending f)))"
          by (cases "f_pending f") auto
        then show ?thesis
          using c(7) fl(1) by (simp add: m)
      qed
      have alone: False if "p \<in> flying f" "p < f_isolate_until f"
      proof -
        have p: "p \<in> snd ` set (f_pending f)" "f_cursor f < p"
          using fl(3) [OF that(1)] flow(6) by auto
        then have iso_ahead: "f_cursor f < f_isolate_until f"
          using that(2) by simp
        have "f_isolate_until f < ?last" "?last \<in> snd ` set (f_pending f)"
          using higher [OF iso_ahead] fl(1) by auto
        then have "f_isolate_until f \<in> {f_cursor f <.. u}"
          using flow(6) iso_ahead by auto
        moreover have "f_isolate_until f \<notin> aside f"
          using c(4,6) iso_ahead by blast
        ultimately have "f_isolate_until f \<in> snd ` set (f_pending f)"
          using flow(4) by blast
        moreover have "f_isolate_until f \<notin> set (tl (map snd (f_pending f)))"
          using c(7) by blast
        ultimately have "f_isolate_until f = seq"
          by (auto simp: head rev_image_eqI)
        moreover have "p = seq \<or> seq < p"
          using p(1) flow(5) by (auto simp: head)
        ultimately show False
          using that(2) by auto
      qed
      have "p \<in> flying f \<Longrightarrow> f_cursor f < p \<and> p \<le> ?last"
        using fl(3) flow(6) by fastforce
      then show ?thesis
        using higher alone unfolding level_def iso ro(1) by (cases "f_cursor f < f_isolate_until f") (auto split: if_splits)
    qed
  qed
qed

section \<open>Runs\<close>

lemma level_mono: "f_cursor f \<le> f_cursor f' \<Longrightarrow> f_isolate_until f' = f_isolate_until f \<Longrightarrow> level p f \<le> level p f'"
  by (auto simp: level_def)

lemma transaction_isolate [simp]: "f_isolate_until (transaction items f) = f_isolate_until f"
  by (simp add: transaction_def committed_def commit_items_def Let_def split: option.split)

lemma transaction_cursor: "f_cursor f \<le> f_cursor (transaction items f)"
  by (simp add: transaction_def committed_def commit_items_def Let_def split: option.split)

lemma quiet_crash_inv:
  assumes "crash_inv dec f" and "f_written f' = f_written f" "f_isolate_until f' = f_isolate_until f" "aside f' = aside f"
    "f_cursor f' = f_cursor f" "f_pending f' = f_pending f" "f_runs f' = f_runs f" and "f_pump f' = f_pump f \<or> f_pump f' = Off"
  shows "crash_inv dec f'"
proof (rule crash_inv_step [OF assms(1)])
  show "set (todo_of (f_pump f')) \<subseteq> set (todo_of (f_pump f))"
    using assms(8) by (elim disjE) (simp_all add: todo_of_def)
  show "\<exists>n. f_pending f' = drop n (f_pending f)"
    by (intro exI [of _ 0]) (simp add: assms)
qed (use assms in auto)

lemma deliver_level:
  assumes "deliver f = Some f'"
  shows "f_cursor f \<le> f_cursor f' \<and> f_isolate_until f' = f_isolate_until f"
proof -
  obtain seq payload res rest ph where p: "f_pump f = Delivering ((seq, payload, res) # rest) ph"
    using delivering [OF assms] by blast
  show ?thesis
    using assms by (cases ph; cases res) (auto simp: p deliver_def Let_def dead_letter_def advance_db_def advance_def split: if_splits)
qed

lemma crash_step:
  assumes "feed_inv f" and "crash_inv dec f" and "one_process a" and "same_decoding dec a f" and "feed_step frepr a f = Some f'"
  shows "crash_inv dec f' \<and> level p f + (if is_rewind a \<and> p \<in> flying f then 1 else 0) \<le> level p f'"
proof -
  obtain u where flow: "flow_inv u f"
    using assms(1) by (auto simp: feed_inv_def)
  note ps = pend_slices [OF flow_invD(7) [OF flow]]
  show ?thesis
  proof (cases a)
    case (Write ws)
    with assms(5) show ?thesis
      using write_crash_inv [OF assms(2) flow, of ws]
      by (auto intro!: level_mono simp: write_records_def written_def Let_def)
  next
    case (Read rs)
    with assms(4,5) show ?thesis
      using read_crash_inv [OF assms(2,1), of rs f']
      by (auto intro!: level_mono simp: read_records_def Let_def simp del: same_decoding.simps split: if_splits)
  next
    case Deliver
    with assms(5) show ?thesis
      using deliver_crash_inv [OF assms(2,1), of f'] deliver_level [of f f'] by (auto intro!: level_mono)
  next
    case (Commit n)
    then have n: "0 < n" "n \<le> length (f_batch f)" and f': "f' = (transaction (take n (f_batch f)) f)\<lparr>f_batch := drop n (f_batch f)\<rparr>"
      using assms(5) by (auto split: if_splits)
    have ok: "slice_ok u 0 n f"
      using flow n ps(3) by (simp add: slice_ok_def)
    have "crash_inv dec f'"
      using transaction_crash_inv [OF assms(2) ok, where bt = "drop n (f_batch f)" and q = "f_queue f"] ps(1) [OF n(2)] transaction_slice [OF ok]
      by (simp add: f')
    with Commit show ?thesis
      using transaction_cursor [of f "take n (f_batch f)"] by (auto intro!: level_mono simp: f')
  next
    case (Drain n)
    let ?ot = "f_overtaken f \<union> snd ` set (take (length (f_batch f)) (f_pending f))"
    have n: "0 < n" "n \<le> length (f_queue f)"
      and f': "f' = (transaction (take n (f_queue f)) f)\<lparr>f_queue := drop n (f_queue f), f_batch := [], f_overtaken := ?ot\<rparr>"
      using assms(5) Drain by (auto split: if_splits)
    have ok: "slice_ok u (length (f_batch f)) n f"
      using flow n ps(3) by (simp add: slice_ok_def)
    have "f' = (transaction (map fst (pend_slice (length (f_batch f)) n f)) f)\<lparr>f_batch := [], f_queue := drop n (f_queue f), f_overtaken := ?ot\<rparr>"
      unfolding f' ps(2) by simp
    then have "crash_inv dec f'"
      using transaction_crash_inv [OF assms(2) ok] by metis
    with Drain show ?thesis
      using transaction_cursor [of f "take n (f_queue f)"] by (auto intro!: level_mono simp: f')
  next
    case (Rewind why)
    then have "f' = rewind frepr why f"
      using assms(5) by (simp split: if_splits)
    with Rewind show ?thesis
      using rewind_crash_inv [OF assms(2) flow, of frepr why] rewind_level [OF assms(2) flow, of p frepr why] by simp
  qed (use assms(3,5) in \<open>auto intro!: level_mono quiet_crash_inv [OF assms(2)] simp: aside_def split: if_splits\<close>)
qed

lemma crash_count:
  assumes "feed_inv f" and "crash_inv dec f" and "steady_run frepr dec as f"
  shows "crashes_with frepr p as f + level p f \<le> 3"
  using assms
proof (induction as arbitrary: f)
  case Nil
  then show ?case
    by (simp add: level_def)
next
  case (Cons a as)
  then obtain f' where f': "feed_step frepr a f = Some f'" "one_process a" "same_decoding dec a f" "steady_run frepr dec as f'"
    by (auto split: option.splits)
  note step = crash_step [OF Cons.prems(1,2) f'(2,3,1), of p]
  have "crashes_with frepr p as f' + level p f' \<le> 3"
    using Cons.IH [OF feed_step_keeps [OF Cons.prems(1) f'(1)] _ f'(4)] step by blast
  with step f'(1) show ?case
    by simp
qed

lemma first_crash_inv: "crash_inv dec first_feed"
  by (simp add: crash_inv_def first_feed_def aside_def todo_of_def)


text \<open>Three are needed when the record was the last in flight at its first crash.\<close>

definition poisoned :: "action list" where
  "poisoned = [Write [[1]], Rewind '''', Read [Event plain_event], Deliver, Deliver, Take_batch 1, Crash, Rewind '''',
     Write [[2]], Read [Event plain_event, Event plain_event], Deliver, Deliver, Deliver, Deliver, Take_batch 2, Crash, Rewind '''',
     Read [Event plain_event, Event plain_event], Deliver, Deliver, Deliver, Take_batch 1, Crash, Rewind '''']"


end
