(* ===== verification/Known_Oids.thy ===== *)
theory Known_Oids
  imports Prelude "HOL-Library.Sublist" "HOL-Library.AList"
begin

text \<open>
  \<open>ingest/known_oids.py\<close>: the bundled OID tables, the X.733 severity a trap carries and the
  arc-boundary subtree test. A Python string is an Isabelle \<open>string\<close>, whose characters are the
  code points below 256; \<open>strip\<close>, \<open>lower\<close> and \<open>isdigit\<close> are written out for them.
\<close>

section \<open>Strings\<close>

definition is_space :: "char \<Rightarrow> bool" where
  "is_space c \<longleftrightarrow> (let n = of_char c :: nat in 9 \<le> n \<and> n \<le> 13 \<or> 28 \<le> n \<and> n \<le> 32 \<or> n = 133 \<or> n = 160)"

definition strip :: "string \<Rightarrow> string" where
  "strip s = rev (dropWhile is_space (rev (dropWhile is_space s)))"

definition lower_char :: "char \<Rightarrow> char" where
  "lower_char c = (let n = of_char c :: nat
     in if 65 \<le> n \<and> n \<le> 90 \<or> 192 \<le> n \<and> n \<le> 222 \<and> n \<noteq> 215 then char_of (n + 32) else c)"

definition lower :: "string \<Rightarrow> string" where
  "lower s = map lower_char s"

fun split_on :: "char \<Rightarrow> string \<Rightarrow> string list" where
  "split_on d [] = [[]]"
| "split_on d (c # cs) =
     (if c = d then [] # split_on d cs
      else (c # hd (split_on d cs)) # tl (split_on d cs))"

fun join_on :: "char \<Rightarrow> string list \<Rightarrow> string" where
  "join_on d [] = []"
| "join_on d [x] = x"
| "join_on d (x # y # xs) = x @ d # join_on d (y # xs)"

section \<open>Tables\<close>

definition ENTERPRISE_PREFIX :: string where
  "ENTERPRISE_PREFIX = ''1.3.6.1.4.1.''"

definition SNMP_TRAP_OID :: string where
  "SNMP_TRAP_OID = ''1.3.6.1.6.3.1.1.4.1.0''"

definition SYS_UPTIME_OID :: string where
  "SYS_UPTIME_OID = ''1.3.6.1.2.1.1.3.0''"

definition IANA_ENTERPRISES :: "(int \<times> string) list" where
  "IANA_ENTERPRISES =
    [(2, ''IBM''), (9, ''Cisco Systems''), (11, ''Hewlett Packard''), (23, ''Novell''),
     (42, ''Sun Microsystems (Oracle)''), (43, ''3Com''), (52, ''Enterasys Networks''), (63, ''Apple''),
     (94, ''Nokia''), (111, ''Oracle''), (116, ''Hitachi''), (119, ''NEC''), (161, ''Motorola''),
     (164, ''RAD Data Communications''), (171, ''D-Link''), (193, ''Ericsson''), (207, ''Allied Telesis''),
     (211, ''Fujitsu''), (232, ''Compaq (HPE)''), (236, ''Samsung Electronics''), (244, ''Lantronix''),
     (248, ''Hirschmann (Belden)''), (253, ''Xerox''), (259, ''Accton (Edgecore)''), (311, ''Microsoft''),
     (318, ''APC (Schneider Electric)''), (332, ''Digi International''), (343, ''Intel''),
     (368, ''Axis Communications''), (388, ''Symbol Technologies''), (429, ''U.S. Robotics''),
     (476, ''Vertiv (Liebert)''), (534, ''Eaton''), (637, ''Alcatel-Lucent''), (664, ''ADTRAN''),
     (674, ''Dell''), (789, ''NetApp''), (890, ''Zyxel''), (1139, ''Dell EMC''), (1271, ''Ciena''),
     (1286, ''ECI Telecom (Ribbon)''), (1397, ''Tellabs''), (1588, ''Brocade (Broadcom)''),
     (1602, ''Canon''), (1916, ''Extreme Networks''), (1991, ''Foundry Networks (Extreme)''),
     (2011, ''Huawei''), (2021, ''UCD (net-snmp)''), (2272, ''Nortel Networks''),
     (2281, ''Ceragon Networks''), (2352, ''Ericsson (Redback)''), (2544, ''Adtran Networks (ADVA)''),
     (2604, ''Sophos''), (2620, ''Check Point''), (2636, ''Juniper Networks''), (2682, ''DPS Telecom''),
     (2879, ''Ribbon (Sonus)''), (3097, ''WatchGuard''), (3224, ''Juniper (NetScreen)''), (3320, ''BDCOM''),
     (3375, ''F5 Networks''), (3607, ''Cisco ONS (Cerent)''), (3709, ''Datacom''),
     (3808, ''CyberPower Systems''), (3902, ''ZTE''), (4115, ''CommScope (Arris)''), (4526, ''Netgear''),
     (4874, ''Juniper (Unisphere)''), (4881, ''Ruijie Networks''), (5003, ''AudioCodes''),
     (5875, ''FiberHome''), (5951, ''Citrix (NetScaler)''), (6027, ''Dell (Force10)''), (6141, ''Ciena''),
     (6296, ''DASAN Networks''), (6321, ''Calix''), (6486, ''Alcatel-Lucent Enterprise''),
     (6527, ''Nokia (SR OS)''), (6574, ''Synology''), (6876, ''VMware''),
     (7483, ''Nokia 1830 PSS (Alcatel-Lucent Tropic)''), (8072, ''net-snmp''), (8691, ''Moxa''),
     (8741, ''SonicWall''), (8886, ''Raisecom''), (10876, ''Supermicro''), (11863, ''TP-Link''),
     (12356, ''Fortinet''), (13742, ''Raritan (Legrand)''), (14179, ''Cisco (Airespace)''),
     (14823, ''Aruba (HPE)''), (14988, ''MikroTik''), (17163, ''Riverbed''), (17713, ''Cambium Networks''),
     (19046, ''Lenovo''), (21296, ''Infinera''), (24681, ''QNAP''), (25053, ''Ruckus (CommScope)''),
     (25461, ''Palo Alto Networks''), (25506, ''H3C''), (29671, ''Cisco Meraki''),
     (30065, ''Arista Networks''), (33049, ''Mellanox (NVIDIA)''), (41112, ''Ubiquiti''),
     (41263, ''Nutanix''), (42229, ''Coriant (Infinera)'')]"

definition STANDARD_TRAPS :: "(string \<times> string) list" where
  "STANDARD_TRAPS =
    [(''1.3.6.1.6.3.1.1.5.1'', ''coldStart''), (''1.3.6.1.6.3.1.1.5.2'', ''warmStart''),
     (''1.3.6.1.6.3.1.1.5.3'', ''linkDown''), (''1.3.6.1.6.3.1.1.5.4'', ''linkUp''),
     (''1.3.6.1.6.3.1.1.5.5'', ''authenticationFailure''), (''1.3.6.1.6.3.1.1.5.6'', ''egpNeighborLoss''),
     (''1.3.6.1.2.1.16.0.1'', ''risingAlarm''), (''1.3.6.1.2.1.16.0.2'', ''fallingAlarm'')]"

definition WELL_KNOWN_VARBINDS :: "(string \<times> string) list" where
  "WELL_KNOWN_VARBINDS =
    [(SYS_UPTIME_OID, ''sysUpTime''), (SNMP_TRAP_OID, ''snmpTrapOID''),
     (''1.3.6.1.6.3.1.1.4.3.0'', ''snmpTrapEnterprise''), (''1.3.6.1.2.1.1.5.0'', ''sysName''),
     (''1.3.6.1.2.1.2.2.1.1.'', ''ifIndex''), (''1.3.6.1.2.1.2.2.1.2.'', ''ifDescr''),
     (''1.3.6.1.2.1.2.2.1.7.'', ''ifAdminStatus''), (''1.3.6.1.2.1.2.2.1.8.'', ''ifOperStatus''),
     (''1.3.6.1.2.1.31.1.1.1.1.'', ''ifName''), (''1.3.6.1.2.1.31.1.1.1.18.'', ''ifAlias'')]"

definition CLEAR_PAIR_SEEDS :: "(string \<times> string) list" where
  "CLEAR_PAIR_SEEDS =
    [(''1.3.6.1.6.3.1.1.5.3'', ''1.3.6.1.6.3.1.1.5.4''), (''1.3.6.1.2.1.16.0.1'', ''1.3.6.1.2.1.16.0.2'')]"

definition OCCURRENCE_NOTIFICATIONS :: "(string \<times> string) list" where
  "OCCURRENCE_NOTIFICATIONS =
    [(''1.3.6.1.6.3.1.1.5.1'', ''coldStart''), (''1.3.6.1.6.3.1.1.5.2'', ''warmStart''),
     (''1.3.6.1.6.3.1.1.5.5'', ''authenticationFailure''), (''1.3.6.1.2.1.47.2.0.1'', ''entConfigChange''),
     (''1.3.6.1.2.1.33.2.1'', ''upsTrapOnBattery''), (''1.3.6.1.2.1.33.2.2'', ''upsTrapTestCompleted'')]"

definition SEVERITY_VOCAB :: "(string \<times> int) list" where
  "SEVERITY_VOCAB =
    [(''critical'', 0), (''major'', 1), (''minor'', 2), (''warning'', 3), (''indeterminate'', 4),
     (''cleared'', 4)]"

section \<open>Reading a trap\<close>

definition severity_rank :: "string \<Rightarrow> int option" where
  "severity_rank v = map_of SEVERITY_VOCAB (lower (strip v))"

text \<open>A varbind as the code passes it: its OID and its value, \<open>None\<close> when the value is missing
  or not a string.\<close>

fun severity_loop :: "(string \<times> string option) list \<Rightarrow> (string \<times> int \<times> string) option
    \<Rightarrow> (string \<times> int \<times> string) option" where
  "severity_loop [] best = best"
| "severity_loop ((oid, value) # vbs) best =
     severity_loop vbs
       (case value of
          None \<Rightarrow> best
        | Some raw \<Rightarrow>
            (case severity_rank raw of
               None \<Rightarrow> best
             | Some rank \<Rightarrow>
                 (case best of
                    None \<Rightarrow> Some (lower (strip raw), rank, oid)
                  | Some (_, best_rank, _) \<Rightarrow>
                      if rank < best_rank then Some (lower (strip raw), rank, oid) else best)))"

definition standard_severity :: "(string \<times> string option) list \<Rightarrow> (string \<times> int \<times> string) option" where
  "standard_severity vbs = severity_loop vbs None"

definition under_subtree :: "string \<Rightarrow> string \<Rightarrow> bool" where
  "under_subtree oid rt \<longleftrightarrow> oid = rt \<or> prefix (rt @ ''.'') oid"

definition arcs :: "string \<Rightarrow> string list" where
  "arcs oid = split_on (CHR ''.'') oid"

definition ancestors :: "string \<Rightarrow> string list" where
  "ancestors oid = map (\<lambda>n. join_on (CHR ''.'') (take n (arcs oid))) (rev [1..<Suc (length (arcs oid))])"

definition trap_name :: "string \<Rightarrow> string option" where
  "trap_name oid = map_of STANDARD_TRAPS oid"

text \<open>\<open>str.isdigit\<close> also holds for the superscripts one, two and three, which \<open>int\<close> refuses.\<close>

definition digit_char :: "char \<Rightarrow> bool" where
  "digit_char c \<longleftrightarrow> (let n = of_char c :: nat in 48 \<le> n \<and> n \<le> 57)"

definition isdigit :: "string \<Rightarrow> bool" where
  "isdigit s \<longleftrightarrow> s \<noteq> [] \<and> list_all (\<lambda>c. digit_char c \<or> (of_char c :: nat) \<in> {178, 179, 185}) s"

datatype value_error = ValueError

definition int_of_string :: "string \<Rightarrow> value_error + int" where
  "int_of_string s =
     (if s \<noteq> [] \<and> list_all digit_char s then Inr (foldl (\<lambda>n c. 10 * n + (of_char c - 48)) 0 s) else Inl ValueError)"

fun digits :: "nat \<Rightarrow> string" where
  "digits n = (if n < 10 then [char_of (48 + n)] else digits (n div 10) @ [char_of (48 + n mod 10)])"

declare digits.simps [simp del]

definition vendor_of :: "string \<Rightarrow> value_error + string option" where
  "vendor_of oid =
     (if \<not> prefix ENTERPRISE_PREFIX oid then Inr None
      else
        let head = hd (split_on (CHR ''.'') (drop (length ENTERPRISE_PREFIX) oid))
        in if \<not> isdigit head then Inr None
           else
             case int_of_string head of
               Inl e \<Rightarrow> Inl e
             | Inr number \<Rightarrow>
                 (case map_of IANA_ENTERPRISES number of
                    Some name \<Rightarrow> Inr (Some name)
                  | None \<Rightarrow> Inr (Some (''enterprise-'' @ digits (nat number)))))"

section \<open>Arcs\<close>

lemma split_on_not_Nil [simp]: "split_on d s \<noteq> []"
  by (induction s) auto

lemma join_split [simp]: "join_on d (split_on d s) = s"
proof (induction s)
  case (Cons c cs)
  then show ?case
    by (cases "split_on d cs" rule: list.exhaust; cases "tl (split_on d cs)") auto
qed simp

lemma join_Cons: "xs \<noteq> [] \<Longrightarrow> join_on d (x # xs) = x @ d # join_on d xs"
  by (cases xs) auto

lemma split_no_sep: "d \<notin> set s \<Longrightarrow> split_on d s = [s]"
  by (induction s) auto

lemma split_append_sep: "split_on d (s @ d # t) = split_on d s @ split_on d t"
  by (induction s) auto

lemma join_append:
  "xs \<noteq> [] \<Longrightarrow> ys \<noteq> [] \<Longrightarrow> join_on d (xs @ ys) = join_on d xs @ d # join_on d ys"
  by (induction xs rule: induct_list012) (auto simp: join_Cons)

text \<open>The one statement the string test has to meet: the arcs of the root are a prefix of the
  arcs of the OID.\<close>

lemma under_subtree_arcs: "under_subtree oid rt \<longleftrightarrow> prefix (arcs rt) (arcs oid)"
proof
  assume "under_subtree oid rt"
  then consider "oid = rt" | t where "oid = rt @ CHR ''.'' # t"
    by (auto simp: under_subtree_def prefix_def)
  then show "prefix (arcs rt) (arcs oid)"
    by cases (auto simp: arcs_def split_append_sep)
next
  assume "prefix (arcs rt) (arcs oid)"
  then obtain ys where ys: "arcs oid = arcs rt @ ys"
    by (auto simp: prefix_def)
  have "oid = join_on (CHR ''.'') (arcs oid)" "rt = join_on (CHR ''.'') (arcs rt)"
    by (simp_all add: arcs_def)
  with ys show "under_subtree oid rt"
    by (cases "ys = []") (auto simp: under_subtree_def prefix_def join_append arcs_def)
qed

lemma under_subtree_refl: "under_subtree oid oid"
  by (simp add: under_subtree_def)

lemma under_subtree_trans: "under_subtree a b \<Longrightarrow> under_subtree b c \<Longrightarrow> under_subtree a c"
  by (auto simp: under_subtree_arcs)

lemma arcs_inject: "arcs a = arcs b \<longleftrightarrow> a = b"
  by (metis arcs_def join_split)

lemma sep_free_split: "x \<in> set (split_on d s) \<Longrightarrow> d \<notin> set x"
proof (induction s arbitrary: x)
  case (Cons c cs)
  show ?case
  proof (cases "c = d")
    case True
    with Cons show ?thesis by auto
  next
    case False
    then have "x = c # hd (split_on d cs) \<or> x \<in> set (tl (split_on d cs))"
      using Cons.prems by auto
    moreover have "hd (split_on d cs) \<in> set (split_on d cs)"
      by simp
    ultimately show ?thesis
      using Cons.IH False by (metis list.set_sel(2) set_ConsD split_on_not_Nil)
  qed
qed simp

lemma split_join:
  "xs \<noteq> [] \<Longrightarrow> (\<And>x. x \<in> set xs \<Longrightarrow> d \<notin> set x) \<Longrightarrow> split_on d (join_on d xs) = xs"
proof (induction xs rule: induct_list012)
  case (3 x y zs)
  then show ?case
    by (simp add: split_append_sep split_no_sep)
qed (auto simp: split_no_sep)

lemma arcs_join_take:
  assumes "0 < n"
  shows "arcs (join_on (CHR ''.'') (take n (arcs oid))) = take n (arcs oid)"
  using assms unfolding arcs_def
  by (intro split_join) (auto dest: in_set_takeD sep_free_split)

lemma length_ancestors: "length (ancestors oid) = length (arcs oid)"
  using split_on_not_Nil [of "CHR ''.''" oid]
  by (simp add: ancestors_def arcs_def Suc_leI del: split_on_not_Nil)

lemma nth_ancestors:
  assumes "i < length (arcs oid)"
  shows "arcs (ancestors oid ! i) = take (length (arcs oid) - i) (arcs oid)"
proof -
  have "rev [1..<Suc (length (arcs oid))] ! i = length (arcs oid) - i"
    using assms by (simp add: rev_nth del: upt_Suc)
  then show ?thesis
    using assms by (simp add: ancestors_def arcs_join_take del: upt_Suc)
qed

lemma ancestors_members: "rt \<in> set (ancestors oid) \<longleftrightarrow> under_subtree oid rt"
proof
  assume "rt \<in> set (ancestors oid)"
  then obtain i where "i < length (arcs oid)" "rt = ancestors oid ! i"
    by (metis in_set_conv_nth length_ancestors)
  then show "under_subtree oid rt"
    by (simp add: under_subtree_arcs nth_ancestors take_is_prefix)
next
  assume "under_subtree oid rt"
  then obtain ys where ys: "arcs oid = arcs rt @ ys"
    by (auto simp: under_subtree_arcs prefix_def)
  have pos: "0 < length (arcs rt)"
    by (simp add: arcs_def)
  let ?i = "length ys"
  have i: "?i < length (arcs oid)"
    using ys pos by simp
  then have "arcs (ancestors oid ! ?i) = arcs rt"
    by (simp add: nth_ancestors) (simp add: ys)
  with i show "rt \<in> set (ancestors oid)"
    by (metis arcs_inject length_ancestors nth_mem)
qed

section \<open>The severity a trap carries\<close>

definition ranked :: "string \<times> string option \<Rightarrow> int option" where
  "ranked vb = Option.bind (snd vb) severity_rank"

definition severity_best :: "(string \<times> string option) list \<Rightarrow> (string \<times> int \<times> string) option \<Rightarrow> bool" where
  "severity_best vbs best \<longleftrightarrow>
     (case best of
        None \<Rightarrow> (\<forall>vb \<in> set vbs. ranked vb = None)
      | Some (t, r, oid) \<Rightarrow>
          (\<exists>pre v post. vbs = pre @ (oid, Some v) # post \<and> severity_rank v = Some r \<and> t = lower (strip v)
             \<and> (\<forall>vb \<in> set pre. \<forall>q. ranked vb = Some q \<longrightarrow> r < q)
             \<and> (\<forall>vb \<in> set post. \<forall>q. ranked vb = Some q \<longrightarrow> r \<le> q)))"

lemma severity_bestI:
  assumes "vbs = pre @ (oid, Some v) # post" and "severity_rank v = Some r" and "t = lower (strip v)"
    and "\<forall>vb \<in> set pre. \<forall>q. ranked vb = Some q \<longrightarrow> r < q" and "\<forall>vb \<in> set post. \<forall>q. ranked vb = Some q \<longrightarrow> r \<le> q"
  shows "severity_best vbs (Some (t, r, oid))"
  unfolding severity_best_def option.case prod.case using assms by blast

lemma severity_bestE:
  assumes "severity_best vbs (Some (t, r, oid))"
  obtains pre v post where "vbs = pre @ (oid, Some v) # post" "severity_rank v = Some r" "t = lower (strip v)"
    "\<forall>vb \<in> set pre. \<forall>q. ranked vb = Some q \<longrightarrow> r < q" "\<forall>vb \<in> set post. \<forall>q. ranked vb = Some q \<longrightarrow> r \<le> q"
  using assms unfolding severity_best_def option.case prod.case by blast

lemma severity_best_keep:
  assumes "severity_best done_vbs (Some (t, r, oid))" and "\<And>q. ranked vb = Some q \<Longrightarrow> r \<le> q"
  shows "severity_best (done_vbs @ [vb]) (Some (t, r, oid))"
proof -
  obtain pre v post where b: "done_vbs = pre @ (oid, Some v) # post"
      "severity_rank v = Some r" "t = lower (strip v)"
      "\<forall>vb \<in> set pre. \<forall>q. ranked vb = Some q \<longrightarrow> r < q" "\<forall>vb \<in> set post. \<forall>q. ranked vb = Some q \<longrightarrow> r \<le> q"
    using assms(1) by (rule severity_bestE)
  show ?thesis
    by (rule severity_bestI [of _ pre _ v "post @ [vb]"]) (use b assms(2) in auto)
qed

lemma severity_best_skip:
  assumes "severity_best done_vbs best" and "ranked vb = None"
  shows "severity_best (done_vbs @ [vb]) best"
proof (cases best)
  case None
  with assms show ?thesis by (simp add: severity_best_def)
next
  case (Some b)
  obtain t r oid where "b = (t, r, oid)"
    by (cases b)
  with assms Some show ?thesis
    by (auto intro!: severity_best_keep)
qed

lemma severity_best_bound:
  assumes "severity_best vbs (Some (t, r, oid))" and "vb \<in> set vbs" and "ranked vb = Some q"
  shows "r \<le> q"
proof -
  obtain pre v post where b: "vbs = pre @ (oid, Some v) # post" "severity_rank v = Some r"
      "\<forall>vb \<in> set pre. \<forall>q. ranked vb = Some q \<longrightarrow> r < q" "\<forall>vb \<in> set post. \<forall>q. ranked vb = Some q \<longrightarrow> r \<le> q"
    using assms(1) by (rule severity_bestE)
  from assms(2) consider "vb \<in> set pre" | "vb = (oid, Some v)" | "vb \<in> set post"
    using b(1) by auto
  then show ?thesis
    using b assms(3) by cases (auto simp: ranked_def)
qed

lemma severity_best_new:
  assumes "severity_best done_vbs best" and "severity_rank raw = Some q"
    and "\<And>t r oid. best = Some (t, r, oid) \<Longrightarrow> q < r"
  shows "severity_best (done_vbs @ [(oid, Some raw)]) (Some (lower (strip raw), q, oid))"
proof -
  have "q < r" if "vb \<in> set done_vbs" "ranked vb = Some r" for vb r
  proof (cases best)
    case None
    with assms(1) that show ?thesis by (simp add: severity_best_def)
  next
    case (Some b)
    obtain t r' oid' where b: "best = Some (t, r', oid')"
      using Some by (cases b) auto
    have "r' \<le> r"
      using assms(1) that unfolding b by (rule severity_best_bound)
    with assms(3) [OF b] show ?thesis by simp
  qed
  then show ?thesis
    by (intro severity_bestI [of _ done_vbs _ raw "[]"]) (use assms(2) in auto)
qed

lemma severity_loop_best:
  "severity_best done_vbs best \<Longrightarrow> severity_best (done_vbs @ vbs) (severity_loop vbs best)"
proof (induction vbs best arbitrary: done_vbs rule: severity_loop.induct)
  case (1 best)
  then show ?case by simp
next
  case (2 oid val vbs best)
  let ?best = "case val of None \<Rightarrow> best | Some raw \<Rightarrow> (case severity_rank raw of None \<Rightarrow> best
     | Some rank \<Rightarrow> (case best of None \<Rightarrow> Some (lower (strip raw), rank, oid)
        | Some (_, best_rank, _) \<Rightarrow> if rank < best_rank then Some (lower (strip raw), rank, oid) else best))"
  have "severity_best (done_vbs @ [(oid, val)]) ?best"
  proof (cases "ranked (oid, val)")
    case None
    then have "?best = best"
      by (auto simp: ranked_def split: option.splits)
    with severity_best_skip [OF 2(2) None] show ?thesis
      by (simp only:)
  next
    case (Some q)
    then obtain raw where raw: "val = Some raw" "severity_rank raw = Some q"
      by (cases val) (auto simp: ranked_def)
    show ?thesis
    proof (cases "\<exists>t r o'. best = Some (t, r, o') \<and> r \<le> q")
      case True
      then obtain t r o' where b: "best = Some (t, r, o')" "r \<le> q"
        by blast
      then have "?best = best"
        using raw by simp
      then show ?thesis
        using 2(2) Some b by (simp only:) (rule severity_best_keep, simp_all)
    next
      case False
      then have lt: "q < r" if "best = Some (t, r, o')" for t r o'
        using that by auto
      then have "?best = Some (lower (strip raw), q, oid)"
        using raw by (auto split: option.splits)
      then show ?thesis
        using severity_best_new [OF 2(2) raw(2) lt] raw(1) by simp
    qed
  qed
  from 2(1) [OF this] show ?case
    by simp
qed

section \<open>Vendors\<close>

lemma int_of_string_snoc:
  assumes "int_of_string s = Inr n" and "digit_char c"
  shows "int_of_string (s @ [c]) = Inr (10 * n + (of_char c - 48))"
  using assms by (auto simp: int_of_string_def split: if_splits)

lemma digit_char_of: "k < 10 \<Longrightarrow> digit_char (char_of (48 + k :: nat)) \<and> (of_char (char_of (48 + k :: nat)) :: int) = 48 + int k"
proof -
  assume k: "k < 10"
  have n: "(of_char (char_of (48 + k) :: char) :: nat) = 48 + k"
    using k by (simp only: of_char_of) simp
  have "(of_char (char_of (48 + k) :: char) :: int) = int (48 + k)"
    using of_nat_of_char [of "char_of (48 + k)", where 'a = int] unfolding n by simp
  with n k show ?thesis
    by (simp add: digit_char_def Let_def del: of_char_of)
qed

lemma digits_parse: "int_of_string (digits n) = Inr (int n) \<and> list_all digit_char (digits n) \<and> digits n \<noteq> []"
proof (induction n rule: digits.induct)
  case (1 n)
  show ?case
  proof (cases "n < 10")
    case True
    then show ?thesis
      using digit_char_of [of n] by (simp add: digits.simps [of n] int_of_string_def)
  next
    case False
    then have IH: "int_of_string (digits (n div 10)) = Inr (int (n div 10))" "list_all digit_char (digits (n div 10))"
      using 1 by auto
    have d: "digit_char (char_of (48 + n mod 10))" "(of_char (char_of (48 + n mod 10 :: nat)) :: int) = 48 + int (n mod 10)"
      using digit_char_of [of "n mod 10"] by simp_all
    have "digits n = digits (n div 10) @ [char_of (48 + n mod 10)]"
      using False by (simp add: digits.simps [of n])
    moreover have "10 * int (n div 10) + int (n mod 10) = int n"
      using mult_div_mod_eq [of 10 n] by linarith
    ultimately show ?thesis
      using IH d int_of_string_snoc [OF IH(1) d(1)] by simp
  qed
qed

lemma digits_no_dot: "CHR ''.'' \<notin> set (digits n)"
  using digits_parse [of n] by (auto simp: list_all_iff digit_char_def)

lemma split_on_prefix: "d \<notin> set s \<Longrightarrow> split_on d (s @ t) = (s @ hd (split_on d t)) # tl (split_on d t)"
  by (induction s) auto

section \<open>Properties\<close>

text \<open>A subtree is a statement about arcs, and the ancestors of an OID are exactly its subtree roots.
  The string test \<open>under_subtree\<close> holds exactly when the arcs of the root are the first arcs
  of the OID (so \<open>1.1.1.10\<close> is not under \<open>1.1.1.1\<close>), it is reflexive and
  transitive, and \<open>ancestors\<close> lists every root that contains the OID, each once, the most
  specific first.\<close>

theorem subtree_by_arcs:
  "(under_subtree oid rt \<longleftrightarrow> (\<exists>n. arcs rt = take n (arcs oid)))
    \<and> set (ancestors oid) = {r. under_subtree oid r}
    \<and> map arcs (ancestors oid) = map (\<lambda>n. take n (arcs oid)) (rev [1..<Suc (length (arcs oid))])
    \<and> \<not> under_subtree ''1.3.6.1.1.10'' ''1.3.6.1.1.1''"
proof -
  have "under_subtree oid rt \<longleftrightarrow> (\<exists>n. arcs rt = take n (arcs oid))"
    unfolding under_subtree_arcs by (metis append_eq_conv_conj prefix_def take_is_prefix)
  moreover have "map arcs (ancestors oid) = map (\<lambda>n. take n (arcs oid)) (rev [1..<Suc (length (arcs oid))])"
    by (auto simp: ancestors_def arcs_join_take simp del: upt_Suc)
  moreover have "\<not> under_subtree ''1.3.6.1.1.10'' ''1.3.6.1.1.1''"
    by code_simp
  ultimately show ?thesis
    by (auto simp: ancestors_members)
qed

text \<open>The severity a trap carries is the most severe one, and among equals the first. When
  \<open>standard_severity\<close> answers, the trap splits at the varbind it names: that varbind's value
  is the X.733 word with that rank, every earlier ranked varbind is less severe and no later one is
  more severe; it answers nothing exactly when no varbind carries an X.733 word.\<close>

theorem most_severe_wins:
  "(standard_severity vbs = None \<longleftrightarrow> (\<forall>vb \<in> set vbs. ranked vb = None))
    \<and> (\<forall>t r oid. standard_severity vbs = Some (t, r, oid) \<longrightarrow>
         (\<exists>pre v post. vbs = pre @ (oid, Some v) # post \<and> severity_rank v = Some r \<and> t = lower (strip v)
            \<and> (\<forall>vb \<in> set pre. \<forall>q. ranked vb = Some q \<longrightarrow> r < q)
            \<and> (\<forall>vb \<in> set post. \<forall>q. ranked vb = Some q \<longrightarrow> r \<le> q)))"
proof -
  have best: "severity_best vbs (standard_severity vbs)"
    using severity_loop_best [of "[]" None vbs] by (simp add: standard_severity_def severity_best_def)
  have "standard_severity vbs \<noteq> None" if "vb \<in> set vbs" "ranked vb \<noteq> None" for vb
  proof
    assume none: "standard_severity vbs = None"
    show False
      using best that unfolding none by (simp add: severity_best_def)
  qed
  moreover have "\<exists>vb \<in> set vbs. ranked vb \<noteq> None" if "standard_severity vbs = Some (t, r, oid)" for t r oid
    using best unfolding that by (rule severity_bestE) (auto simp: ranked_def)
  ultimately have "standard_severity vbs = None \<longleftrightarrow> (\<forall>vb \<in> set vbs. ranked vb = None)"
    by (metis not_None_eq prod_cases3)
  moreover have "\<exists>pre v post. vbs = pre @ (oid, Some v) # post \<and> severity_rank v = Some r \<and> t = lower (strip v)
            \<and> (\<forall>vb \<in> set pre. \<forall>q. ranked vb = Some q \<longrightarrow> r < q)
            \<and> (\<forall>vb \<in> set post. \<forall>q. ranked vb = Some q \<longrightarrow> r \<le> q)"
    if "standard_severity vbs = Some (t, r, oid)" for t r oid
    using best unfolding that by (rule severity_bestE) blast
  ultimately show ?thesis
    by blast
qed

theorem most_severe_wins_witness:
  "standard_severity [(''1.2'', Some ''major''), (''1.3'', None), (''1.4'', Some '' CRITICAL ''), (''1.5'', Some ''critical'')]
     = Some (''critical'', 0, ''1.4'')
   \<and> standard_severity [(''1.2'', Some ''x'')] = None"
proof -
  have "standard_severity [(''1.2'', Some ''major''), (''1.3'', None), (''1.4'', Some '' CRITICAL ''), (''1.5'', Some ''critical'')]
     = Some (''critical'', 0, ''1.4'')"
    by code_simp
  moreover have "\<forall>vb \<in> set [(''1.2'', Some ''x'')]. ranked vb = None"
    by code_simp
  then have "standard_severity [(''1.2'', Some ''x'')] = None"
    using most_severe_wins [of "[(''1.2'', Some ''x'')]"] by blast
  ultimately show ?thesis
    by blast
qed

text \<open>An enterprise OID names its vendor by the first arc after the prefix, and by nothing else. For
  every number and every continuation of the OID, \<open>vendor_of\<close> is the registry's name, or
  \<open>enterprise-n\<close> when the registry does not list the number; it never fails on an OID whose
  arcs are decimal.\<close>

theorem vendor_by_first_arc:
  assumes "rest = [] \<or> hd rest = CHR ''.''"
  shows "vendor_of (ENTERPRISE_PREFIX @ digits n @ rest) =
    Inr (Some (case map_of IANA_ENTERPRISES (int n) of Some name \<Rightarrow> name | None \<Rightarrow> ''enterprise-'' @ digits n))"
proof -
  have "hd (split_on (CHR ''.'') (digits n @ rest)) = digits n"
    using assms digits_no_dot [of n] by (cases rest) (auto simp: split_on_prefix split_no_sep)
  moreover have "isdigit (digits n)"
    using digits_parse [of n] by (auto simp: isdigit_def list_all_iff)
  ultimately show ?thesis
    using digits_parse [of n] by (simp add: vendor_of_def Let_def split: option.splits)
qed

theorem vendor_by_first_arc_witness:
  "vendor_of ''1.3.6.1.4.1.2011.5.25'' = Inr (Some ''Huawei'')
   \<and> vendor_of (ENTERPRISE_PREFIX @ digits 7 @ ''.1'') = Inr (Some (''enterprise-'' @ digits 7))"
proof -
  have "vendor_of ''1.3.6.1.4.1.2011.5.25'' = Inr (Some ''Huawei'')"
    by code_simp
  moreover have "map_of IANA_ENTERPRISES (int 7) = None"
    by code_simp
  ultimately show ?thesis
    using vendor_by_first_arc [of "''.1''" 7] by simp
qed

end
