(* ===== verification/Mw_Rules.thy ===== *)
theory Mw_Rules
  imports Known_Oids
begin

text \<open>
  \<open>engine/mw/rules.py\<close> and the rule half of \<open>engine/mw/compile.py\<close>: what still gets
  through a maintenance window. Rules of different kinds are a conjunction, rules of one kind a
  disjunction, and a target without a rule collects nothing.
\<close>

datatype MatchOn = Trap | Varbind

record SeverityRule =
  at_or_above_rank :: int

record OidRule =
  oid_root :: string
  oid_match_on :: MatchOn

record SlotRule =
  slot_starts_at :: seconds
  slot_ends_at :: seconds

definition severity_admits :: "SeverityRule \<Rightarrow> int option \<Rightarrow> bool" where
  "severity_admits rule rank = (case rank of None \<Rightarrow> False | Some r \<Rightarrow> r \<le> at_or_above_rank rule)"

definition oid_admits :: "OidRule \<Rightarrow> string \<Rightarrow> string list \<Rightarrow> bool" where
  "oid_admits rule trap_oid varbind_oids =
     (if oid_match_on rule = Trap then under_subtree trap_oid (oid_root rule)
      else list_ex (\<lambda>oid. under_subtree oid (oid_root rule)) varbind_oids)"

definition slot_admits :: "SlotRule \<Rightarrow> seconds \<Rightarrow> bool" where
  "slot_admits rule ts \<longleftrightarrow> slot_starts_at rule \<le> ts \<and> ts < slot_ends_at rule"

record TargetRules =
  severity_rules :: "SeverityRule list"
  oid_rules :: "OidRule list"
  slot_rules :: "SlotRule list"

definition collects_nothing :: "TargetRules \<Rightarrow> bool" where
  "collects_nothing r \<longleftrightarrow> severity_rules r = [] \<and> oid_rules r = [] \<and> slot_rules r = []"

definition COLLECT_NOTHING :: TargetRules where
  "COLLECT_NOTHING = \<lparr>severity_rules = [], oid_rules = [], slot_rules = []\<rparr>"

definition admits :: "TargetRules \<Rightarrow> seconds \<Rightarrow> string \<Rightarrow> string list \<Rightarrow> int option \<Rightarrow> bool" where
  "admits r ts trap_oid varbind_oids rank =
     (if collects_nothing r then False
      else if slot_rules r \<noteq> [] \<and> \<not> list_ex (\<lambda>rule. slot_admits rule ts) (slot_rules r) then False
      else if severity_rules r \<noteq> [] \<and> \<not> list_ex (\<lambda>rule. severity_admits rule rank) (severity_rules r) then False
      else oid_rules r = [] \<or> list_ex (\<lambda>rule. oid_admits rule trap_oid varbind_oids) (oid_rules r))"

section \<open>Stored rules\<close>

text \<open>A row of the rule table: the columns a kind does not use are null.\<close>

record rule_row =
  row_ne_id :: int
  row_kind :: string
  row_severity_rank :: "int option"
  row_oid_root :: "string option"
  row_match_on :: "string option"
  row_slot_starts_at :: "seconds option"
  row_slot_ends_at :: "seconds option"

definition match_on :: "string option \<Rightarrow> MatchOn" where
  "match_on raw = (if raw = Some ''trap'' then Trap else Varbind)"

text \<open>\<open>row["slot_ends_at"] or row["slot_starts_at"]\<close>: a null and a zero both fall back.\<close>

definition slot_end :: "seconds option \<Rightarrow> seconds \<Rightarrow> seconds" where
  "slot_end ends starts = (case ends of None \<Rightarrow> starts | Some e \<Rightarrow> if e = 0 then starts else e)"

definition rule_step :: "rule_row \<Rightarrow> TargetRules \<Rightarrow> TargetRules" where
  "rule_step row r =
     (if row_kind row = ''severity'' \<and> row_severity_rank row \<noteq> None
      then r\<lparr>severity_rules := severity_rules r @ [\<lparr>at_or_above_rank = the (row_severity_rank row)\<rparr>]\<rparr>
      else if row_kind row = ''oid'' \<and> row_oid_root row \<noteq> None \<and> row_oid_root row \<noteq> Some []
      then r\<lparr>oid_rules := oid_rules r @ [\<lparr>oid_root = the (row_oid_root row), oid_match_on = match_on (row_match_on row)\<rparr>]\<rparr>
      else if row_kind row = ''slot'' \<and> row_slot_starts_at row \<noteq> None
      then r\<lparr>slot_rules := slot_rules r @ [\<lparr>slot_starts_at = the (row_slot_starts_at row),
               slot_ends_at = slot_end (row_slot_ends_at row) (the (row_slot_starts_at row))\<rparr>]\<rparr>
      else r)"

definition compile_rules :: "rule_row list \<Rightarrow> TargetRules" where
  "compile_rules rows = fold rule_step rows COLLECT_NOTHING"

section \<open>The composition rule\<close>

lemma admits_iff:
  "admits r ts trap_oid oids rank \<longleftrightarrow>
     \<not> collects_nothing r
     \<and> (slot_rules r = [] \<or> (\<exists>s \<in> set (slot_rules r). slot_admits s ts))
     \<and> (severity_rules r = [] \<or> (\<exists>s \<in> set (severity_rules r). severity_admits s rank))
     \<and> (oid_rules r = [] \<or> (\<exists>s \<in> set (oid_rules r). oid_admits s trap_oid oids))"
  by (auto simp: admits_def list_ex_iff)

lemma not_admits_nothing [simp]: "\<not> admits COLLECT_NOTHING ts trap_oid oids rank"
  by (simp add: admits_def collects_nothing_def COLLECT_NOTHING_def)

text \<open>What one stored row means, independently of the compilation.\<close>

definition row_rank_rule :: "rule_row \<Rightarrow> bool" where
  "row_rank_rule row \<longleftrightarrow> row_kind row = ''severity'' \<and> row_severity_rank row \<noteq> None"

definition row_oid_rule :: "rule_row \<Rightarrow> bool" where
  "row_oid_rule row \<longleftrightarrow> row_kind row = ''oid'' \<and> row_oid_root row \<notin> {None, Some []}"

definition row_slot_rule :: "rule_row \<Rightarrow> bool" where
  "row_slot_rule row \<longleftrightarrow> row_kind row = ''slot'' \<and> row_slot_starts_at row \<noteq> None"

lemmas row_rule_defs = row_rank_rule_def row_oid_rule_def row_slot_rule_def

lemma compile_rules_fold:
  "severity_rules (fold rule_step rows r) =
     severity_rules r @ map (\<lambda>row. \<lparr>at_or_above_rank = the (row_severity_rank row)\<rparr>) (filter row_rank_rule rows)
   \<and> oid_rules (fold rule_step rows r) =
     oid_rules r @ map (\<lambda>row. \<lparr>oid_root = the (row_oid_root row), oid_match_on = match_on (row_match_on row)\<rparr>)
       (filter row_oid_rule rows)
   \<and> slot_rules (fold rule_step rows r) =
     slot_rules r @ map (\<lambda>row. \<lparr>slot_starts_at = the (row_slot_starts_at row),
               slot_ends_at = slot_end (row_slot_ends_at row) (the (row_slot_starts_at row))\<rparr>)
       (filter row_slot_rule rows)"
proof (induction rows arbitrary: r)
  case (Cons row rows)
  have "severity_rules (rule_step row r) = severity_rules r @
        (if row_rank_rule row then [\<lparr>at_or_above_rank = the (row_severity_rank row)\<rparr>] else [])"
      "oid_rules (rule_step row r) = oid_rules r @
        (if row_oid_rule row then [\<lparr>oid_root = the (row_oid_root row), oid_match_on = match_on (row_match_on row)\<rparr>] else [])"
      "slot_rules (rule_step row r) = slot_rules r @
        (if row_slot_rule row then [\<lparr>slot_starts_at = the (row_slot_starts_at row),
               slot_ends_at = slot_end (row_slot_ends_at row) (the (row_slot_starts_at row))\<rparr>] else [])"
    by (auto simp: rule_step_def row_rule_defs)
  then show ?case
    using Cons.IH [of "rule_step row r"] by simp
qed simp

lemma compile_rules_lists:
  "severity_rules (compile_rules rows) =
     map (\<lambda>row. \<lparr>at_or_above_rank = the (row_severity_rank row)\<rparr>) (filter row_rank_rule rows)"
  "oid_rules (compile_rules rows) =
     map (\<lambda>row. \<lparr>oid_root = the (row_oid_root row), oid_match_on = match_on (row_match_on row)\<rparr>)
       (filter row_oid_rule rows)"
  "slot_rules (compile_rules rows) =
     map (\<lambda>row. \<lparr>slot_starts_at = the (row_slot_starts_at row),
               slot_ends_at = slot_end (row_slot_ends_at row) (the (row_slot_starts_at row))\<rparr>)
       (filter row_slot_rule rows)"
  using compile_rules_fold [of rows COLLECT_NOTHING] by (simp_all add: compile_rules_def COLLECT_NOTHING_def)

section \<open>Properties\<close>

text \<open>The composition rule holds for the rows as stored. A trap is admitted by the compiled rows
  exactly when some row is a rule, and for each of the three kinds, when rows of that kind exist, one
  of them admits the trap: the slot half-open, the severity at most the threshold (never without a
  placed severity), the subtree by arcs on the trap OID or on some varbind.\<close>

theorem compiled_rules_compose:
  "admits (compile_rules rows) ts trap_oid oids rank \<longleftrightarrow>
     (\<exists>row \<in> set rows. row_rank_rule row \<or> row_oid_rule row \<or> row_slot_rule row)
     \<and> ((\<forall>row \<in> set rows. \<not> row_slot_rule row)
        \<or> (\<exists>row \<in> set rows. row_slot_rule row \<and> the (row_slot_starts_at row) \<le> ts
             \<and> ts < slot_end (row_slot_ends_at row) (the (row_slot_starts_at row))))
     \<and> ((\<forall>row \<in> set rows. \<not> row_rank_rule row)
        \<or> (\<exists>row \<in> set rows. row_rank_rule row \<and> (\<exists>q. rank = Some q \<and> q \<le> the (row_severity_rank row))))
     \<and> ((\<forall>row \<in> set rows. \<not> row_oid_rule row)
        \<or> (\<exists>row \<in> set rows. row_oid_rule row
             \<and> (if match_on (row_match_on row) = Trap then prefix (arcs (the (row_oid_root row))) (arcs trap_oid)
                else \<exists>oid \<in> set oids. prefix (arcs (the (row_oid_root row))) (arcs oid))))"
proof -
  have slot: "(\<exists>s \<in> set (slot_rules (compile_rules rows)). slot_admits s ts) \<longleftrightarrow>
      (\<exists>row \<in> set rows. row_slot_rule row \<and> the (row_slot_starts_at row) \<le> ts
             \<and> ts < slot_end (row_slot_ends_at row) (the (row_slot_starts_at row)))"
    by (auto simp: compile_rules_lists slot_admits_def)
  have sev: "(\<exists>s \<in> set (severity_rules (compile_rules rows)). severity_admits s rank) \<longleftrightarrow>
      (\<exists>row \<in> set rows. row_rank_rule row \<and> (\<exists>q. rank = Some q \<and> q \<le> the (row_severity_rank row)))"
    by (cases rank) (auto simp: compile_rules_lists severity_admits_def)
  have oid: "(\<exists>s \<in> set (oid_rules (compile_rules rows)). oid_admits s trap_oid oids) \<longleftrightarrow>
      (\<exists>row \<in> set rows. row_oid_rule row
             \<and> (if match_on (row_match_on row) = Trap then prefix (arcs (the (row_oid_root row))) (arcs trap_oid)
                else \<exists>oid \<in> set oids. prefix (arcs (the (row_oid_root row))) (arcs oid)))"
    by (auto simp: compile_rules_lists oid_admits_def list_ex_iff under_subtree_arcs)
  have none: "collects_nothing (compile_rules rows) \<longleftrightarrow>
      \<not> (\<exists>row \<in> set rows. row_rank_rule row \<or> row_oid_rule row \<or> row_slot_rule row)"
    by (auto simp: collects_nothing_def compile_rules_lists filter_empty_conv)
  have empty: "slot_rules (compile_rules rows) = [] \<longleftrightarrow> (\<forall>row \<in> set rows. \<not> row_slot_rule row)"
      "severity_rules (compile_rules rows) = [] \<longleftrightarrow> (\<forall>row \<in> set rows. \<not> row_rank_rule row)"
      "oid_rules (compile_rules rows) = [] \<longleftrightarrow> (\<forall>row \<in> set rows. \<not> row_oid_rule row)"
    by (auto simp: compile_rules_lists filter_empty_conv)
  show ?thesis
    unfolding admits_iff slot sev oid none empty by blast
qed

text \<open>A second rule of a kind admits more, the first rule of a kind admits less. Adding a subtree
  to a target that already has one never refuses a trap that was admitted; adding the first subtree
  to a target that has other rules never admits a trap that was refused.\<close>

theorem adding_an_oid_rule:
  assumes "\<not> collects_nothing r"
  shows "if oid_rules r = []
    then admits (r\<lparr>oid_rules := [rule]\<rparr>) ts trap_oid oids rank \<longrightarrow> admits r ts trap_oid oids rank
    else admits r ts trap_oid oids rank \<longrightarrow> admits (r\<lparr>oid_rules := oid_rules r @ [rule]\<rparr>) ts trap_oid oids rank"
  using assms by (auto simp: admits_iff collects_nothing_def)

theorem adding_an_oid_rule_witness:
  "let r = \<lparr>severity_rules = [], oid_rules = [\<lparr>oid_root = ''1.3'', oid_match_on = Trap\<rparr>], slot_rules = []\<rparr>
   in admits r 0 ''1.3.6'' [] None
     \<and> admits (r\<lparr>oid_rules := oid_rules r @ [\<lparr>oid_root = ''1.4'', oid_match_on = Varbind\<rparr>]\<rparr>) 0 ''1.3.6'' [] None"
proof -
  let ?r = "\<lparr>severity_rules = [], oid_rules = [\<lparr>oid_root = ''1.3'', oid_match_on = Trap\<rparr>], slot_rules = []\<rparr>"
  have "\<not> collects_nothing ?r"
    by (simp add: collects_nothing_def)
  moreover have "admits ?r 0 ''1.3.6'' [] None"
    by (simp add: admits_def collects_nothing_def oid_admits_def under_subtree_def)
  ultimately show ?thesis
    using adding_an_oid_rule [of ?r "\<lparr>oid_root = ''1.4'', oid_match_on = Varbind\<rparr>" 0 "''1.3.6''" "[]" None]
    by simp
qed

theorem compiled_rules_compose_witness:
  "admits (compile_rules [\<lparr>row_ne_id = 1, row_kind = ''severity'', row_severity_rank = Some 2, row_oid_root = None,
     row_match_on = None, row_slot_starts_at = None, row_slot_ends_at = None\<rparr>]) 0 ''1.3.6'' [] (Some 1)"
  by (subst compiled_rules_compose) (simp add: row_rank_rule_def row_oid_rule_def row_slot_rule_def)

end
