(* ===== verification/Mw_Index.thy ===== *)
theory Mw_Index
  imports Mw_Rules
begin

text \<open>
  \<open>engine/mw/index.py\<close> and \<open>from_rows\<close> of \<open>engine/mw/compile.py\<close>: the per-trap check
  against an immutable snapshot of the maintenance windows. A dictionary whose order matters is an
  association list with distinct keys.
\<close>

record CompiledWindow =
  window_id :: int
  window_name :: string
  organization_id :: int
  starts_at :: seconds
  ends_at :: seconds
  effective_starts_at :: seconds
  effective_ends_at :: seconds
  targets :: "(int \<times> TargetRules) list"
  ledger_enabled :: bool

definition covers :: "CompiledWindow \<Rightarrow> seconds \<Rightarrow> bool" where
  "covers w ts \<longleftrightarrow> effective_starts_at w \<le> ts \<and> ts < effective_ends_at w"

record Decision =
  collect :: bool
  decided_window :: "int option"

definition suppressed :: "Decision \<Rightarrow> bool" where
  "suppressed d \<longleftrightarrow> decided_window d \<noteq> None \<and> \<not> collect d"

definition under_window :: "Decision \<Rightarrow> bool" where
  "under_window d \<longleftrightarrow> decided_window d \<noteq> None"

definition COLLECT :: Decision where
  "COLLECT = \<lparr>collect = True, decided_window = None\<rparr>"

type_synonym window_index = "(int \<times> CompiledWindow list) list"

definition window_rules :: "int \<Rightarrow> CompiledWindow \<Rightarrow> TargetRules" where
  "window_rules ne_id w = (case map_of (targets w) ne_id of Some r \<Rightarrow> r | None \<Rightarrow> COLLECT_NOTHING)"

definition decide :: "window_index \<Rightarrow> int \<Rightarrow> seconds \<Rightarrow> string \<Rightarrow> string list \<Rightarrow> int option \<Rightarrow> Decision" where
  "decide idx ne_id ts trap_oid varbind_oids rank =
     (case map_of idx ne_id of
        None \<Rightarrow> COLLECT
      | Some windows \<Rightarrow>
          (let covering = filter (\<lambda>w. covers w ts) windows
           in case covering of
                [] \<Rightarrow> COLLECT
              | first # _ \<Rightarrow>
                  (case find (\<lambda>w. admits (window_rules ne_id w) ts trap_oid varbind_oids rank) covering of
                     Some w \<Rightarrow> \<lparr>collect = True, decided_window = Some (window_id w)\<rparr>
                   | None \<Rightarrow> \<lparr>collect = False, decided_window = Some (window_id first)\<rparr>)))"

definition active :: "window_index \<Rightarrow> seconds \<Rightarrow> CompiledWindow list" where
  "active idx ts =
     (let seen = fold (\<lambda>w seen. if map_of seen (window_id w) = None then seen @ [(window_id w, w)] else seen)
                   (filter (\<lambda>w. covers w ts) (concat (map snd idx))) []
      in map (\<lambda>k. the (map_of seen k)) (sort (map fst seen)))"

text \<open>\<open>by_ne.setdefault(ne_id, []).append(window)\<close>.\<close>

definition index_add :: "CompiledWindow \<Rightarrow> int \<Rightarrow> window_index \<Rightarrow> window_index" where
  "index_add w ne_id idx =
     AList.update ne_id ((case map_of idx ne_id of None \<Rightarrow> [] | Some ws \<Rightarrow> ws) @ [w]) idx"

definition compile_windows :: "CompiledWindow list \<Rightarrow> window_index" where
  "compile_windows ws = fold (\<lambda>w. fold (index_add w) (map fst (targets w))) ws []"

definition build :: "int \<Rightarrow> string \<Rightarrow> int \<Rightarrow> seconds \<Rightarrow> seconds \<Rightarrow> seconds \<Rightarrow> (int \<times> TargetRules) list \<Rightarrow> bool
    \<Rightarrow> CompiledWindow" where
  "build wid nm org starts ends patch_s tgts ledger =
     (let margin = max 0 patch_s
      in \<lparr>window_id = wid, window_name = nm, organization_id = org, starts_at = starts, ends_at = ends,
          effective_starts_at = starts - margin, effective_ends_at = ends + margin, targets = tgts,
          ledger_enabled = ledger\<rparr>)"

section \<open>From stored rows\<close>

record window_row =
  row_id :: int
  row_name :: string
  row_organization_id :: int
  row_starts_at :: seconds
  row_ends_at :: seconds
  row_patch_s :: seconds
  row_ledger_enabled :: bool
  row_targets :: "int list"
  row_rules :: "rule_row list"

definition row_target_rules :: "window_row \<Rightarrow> (int \<times> TargetRules) list" where
  "row_target_rules row =
     fold (\<lambda>ne_id. AList.update ne_id (compile_rules (filter (\<lambda>r. row_ne_id r = ne_id) (row_rules row))))
       (row_targets row) []"

definition from_row :: "window_row \<Rightarrow> CompiledWindow" where
  "from_row row = build (row_id row) (row_name row) (row_organization_id row) (row_starts_at row) (row_ends_at row)
     (row_patch_s row) (row_target_rules row) (row_ledger_enabled row)"

definition from_rows :: "window_row list \<Rightarrow> window_index" where
  "from_rows rows = compile_windows (map from_row rows)"

section \<open>Lookup equals scan\<close>

text \<open>A window as the code holds it: \<open>targets\<close> is a dictionary.\<close>

definition window_ok :: "CompiledWindow \<Rightarrow> bool" where
  "window_ok w \<longleftrightarrow> distinct (map fst (targets w))"

definition targeted :: "int \<Rightarrow> CompiledWindow \<Rightarrow> bool" where
  "targeted ne_id w \<longleftrightarrow> ne_id \<in> fst ` set (targets w)"

lemma index_add_lookup:
  "map_of (index_add w n idx) k =
     (if k = n then Some ((case map_of idx n of None \<Rightarrow> [] | Some ws \<Rightarrow> ws) @ [w]) else map_of idx k)"
  by (simp add: index_add_def update_conv')

lemma index_adds_lookup:
  "distinct ns \<Longrightarrow> map_of (fold (index_add w) ns idx) k =
     (if k \<in> set ns then Some ((case map_of idx k of None \<Rightarrow> [] | Some ws \<Rightarrow> ws) @ [w]) else map_of idx k)"
  by (induction ns arbitrary: idx) (auto simp: index_add_lookup)

lemma compile_fold_lookup:
  "list_all window_ok ws \<Longrightarrow>
   map_of (fold (\<lambda>w. fold (index_add w) (map fst (targets w))) ws idx) k =
     (case (map_of idx k, filter (targeted k) ws) of
        (None, []) \<Rightarrow> None
      | (None, v # vs) \<Rightarrow> Some (v # vs)
      | (Some us, vs) \<Rightarrow> Some (us @ vs))"
proof (induction ws arbitrary: idx)
  case Nil
  then show ?case by (simp split: option.splits)
next
  case (Cons w ws)
  then have "distinct (map fst (targets w))" "list_all window_ok ws"
    by (auto simp: window_ok_def [of w])
  then show ?case
    by (auto simp: Cons.IH index_adds_lookup targeted_def split: option.splits list.splits)
qed

lemma compile_windows_lookup:
  "list_all window_ok ws \<Longrightarrow> map_of (compile_windows ws) ne_id =
     (case filter (targeted ne_id) ws of [] \<Rightarrow> None | v # vs \<Rightarrow> Some (v # vs))"
  by (simp add: compile_windows_def compile_fold_lookup)

definition scan :: "CompiledWindow list \<Rightarrow> int \<Rightarrow> seconds \<Rightarrow> string \<Rightarrow> string list \<Rightarrow> int option \<Rightarrow> Decision" where
  "scan ws ne_id ts trap_oid oids rank =
     (let covering = filter (\<lambda>w. targeted ne_id w \<and> covers w ts) ws
      in case find (\<lambda>w. admits (window_rules ne_id w) ts trap_oid oids rank) covering of
           Some w \<Rightarrow> \<lparr>collect = True, decided_window = Some (window_id w)\<rparr>
         | None \<Rightarrow> (case covering of [] \<Rightarrow> COLLECT
                     | w # _ \<Rightarrow> \<lparr>collect = False, decided_window = Some (window_id w)\<rparr>))"

lemma decide_scan:
  assumes "list_all window_ok ws"
  shows "decide (compile_windows ws) ne_id ts trap_oid oids rank = scan ws ne_id ts trap_oid oids rank"
proof -
  have f: "filter (\<lambda>w. targeted ne_id w \<and> covers w ts) ws = filter (\<lambda>w. covers w ts) (filter (targeted ne_id) ws)"
    by (simp add: conj_commute)
  show ?thesis
  proof (cases "filter (targeted ne_id) ws")
    case Nil
    then show ?thesis
      using assms by (simp add: decide_def scan_def f compile_windows_lookup)
  next
    case (Cons v vs)
    then show ?thesis
      using assms by (simp add: decide_def scan_def f compile_windows_lookup Let_def split: list.splits option.splits)
  qed
qed

lemma find_None: "find P xs = None \<longleftrightarrow> (\<forall>x \<in> set xs. \<not> P x)"
  by (induction xs) auto

lemma find_SomeD: "find P xs = Some x \<Longrightarrow> x \<in> set xs \<and> P x"
  by (induction xs) (auto split: if_splits)

lemma scan_cases:
  fixes ws ne_id ts trap_oid oids rank
  defines "d \<equiv> scan ws ne_id ts trap_oid oids rank"
    and "cov \<equiv> {w \<in> set ws. targeted ne_id w \<and> covers w ts}"
  shows "(under_window d \<longleftrightarrow> cov \<noteq> {})
    \<and> (collect d \<longleftrightarrow> cov = {} \<or> (\<exists>w \<in> cov. admits (window_rules ne_id w) ts trap_oid oids rank))
    \<and> (decided_window d \<noteq> None \<longrightarrow> the (decided_window d) \<in> window_id ` cov)"
proof -
  let ?cov = "filter (\<lambda>w. targeted ne_id w \<and> covers w ts) ws"
  let ?P = "\<lambda>w. admits (window_rules ne_id w) ts trap_oid oids rank"
  have set_cov: "set ?cov = cov"
    by (auto simp: cov_def)
  show ?thesis
  proof (cases "find ?P ?cov")
    case None
    then have no: "\<forall>w \<in> cov. \<not> ?P w"
      using set_cov by (simp only: find_None)
    show ?thesis
    proof (cases ?cov)
      case Nil
      then have "cov = {}"
        using set_cov by simp
      with None Nil show ?thesis
        by (simp add: d_def scan_def COLLECT_def under_window_def)
    next
      case (Cons w rest)
      then have "w \<in> cov"
        using set_cov by auto
      with None Cons no show ?thesis
        by (auto simp: d_def scan_def Let_def under_window_def)
    qed
  next
    case (Some w)
    then have "w \<in> cov" "?P w"
      using find_SomeD [OF Some] set_cov by auto
    with Some show ?thesis
      by (auto simp: d_def scan_def Let_def under_window_def)
  qed
qed

lemma distinct_fold_update: "distinct (map fst xs) \<Longrightarrow> distinct (map fst (fold (\<lambda>k. AList.update k (f k)) ks xs))"
  by (induction ks arbitrary: xs) (simp_all add: distinct_update)

lemma fold_update_lookup:
  "map_of (fold (\<lambda>k. AList.update k (f k)) ks xs) k = (if k \<in> set ks then Some (f k) else map_of xs k)"
  by (induction ks arbitrary: xs) (auto simp: update_conv')

lemma row_targets_lookup:
  "map_of (row_target_rules row) ne_id =
     (if ne_id \<in> set (row_targets row)
      then Some (compile_rules (filter (\<lambda>r. row_ne_id r = ne_id) (row_rules row))) else None)"
  by (simp add: row_target_rules_def fold_update_lookup)

lemma window_ok_from_row: "window_ok (from_row row)"
  by (simp add: window_ok_def from_row_def build_def row_target_rules_def Let_def distinct_fold_update)

lemma targeted_from_row: "targeted ne_id (from_row row) \<longleftrightarrow> ne_id \<in> set (row_targets row)"
  using row_targets_lookup [of row ne_id] map_of_eq_None_iff [of "row_target_rules row" ne_id]
  by (auto simp: targeted_def from_row_def build_def Let_def split: if_splits)

lemma rules_from_row:
  "ne_id \<in> set (row_targets row) \<Longrightarrow>
   window_rules ne_id (from_row row) = compile_rules (filter (\<lambda>r. row_ne_id r = ne_id) (row_rules row))"
  using row_targets_lookup [of row ne_id] by (simp add: window_rules_def from_row_def build_def Let_def)

lemma covers_from_row:
  "covers (from_row row) ts \<longleftrightarrow>
     row_starts_at row - max 0 (row_patch_s row) \<le> ts \<and> ts < row_ends_at row + max 0 (row_patch_s row)"
  by (simp add: covers_def from_row_def build_def Let_def)

lemma decide_rows:
  fixes rows ne_id ts trap_oid oids rank
  defines "d \<equiv> decide (from_rows rows) ne_id ts trap_oid oids rank"
    and "cov \<equiv> {row \<in> set rows. ne_id \<in> set (row_targets row)
        \<and> row_starts_at row - max 0 (row_patch_s row) \<le> ts \<and> ts < row_ends_at row + max 0 (row_patch_s row)}"
  shows "(under_window d \<longleftrightarrow> cov \<noteq> {})
    \<and> (suppressed d \<longleftrightarrow> cov \<noteq> {} \<and> (\<forall>row \<in> cov.
         \<not> admits (compile_rules (filter (\<lambda>r. row_ne_id r = ne_id) (row_rules row))) ts trap_oid oids rank))
    \<and> (decided_window d \<noteq> None \<longrightarrow> the (decided_window d) \<in> row_id ` cov)"
proof -
  let ?ws = "map from_row rows"
  let ?cov = "{w \<in> set ?ws. targeted ne_id w \<and> covers w ts}"
  have ok: "list_all window_ok ?ws"
    by (simp add: list_all_iff window_ok_from_row)
  have d: "d = scan ?ws ne_id ts trap_oid oids rank"
    by (simp add: d_def from_rows_def decide_scan [OF ok])
  have cov: "?cov = from_row ` cov"
    by (auto simp: cov_def targeted_from_row covers_from_row)
  have ids: "window_id (from_row row) = row_id row" for row
    by (simp add: from_row_def build_def Let_def)
  have rules: "admits (window_rules ne_id (from_row row)) ts trap_oid oids rank
      = admits (compile_rules (filter (\<lambda>r. row_ne_id r = ne_id) (row_rules row))) ts trap_oid oids rank"
    if "row \<in> cov" for row
    using that by (simp add: cov_def rules_from_row)
  have "(under_window d \<longleftrightarrow> ?cov \<noteq> {})
    \<and> (collect d \<longleftrightarrow> ?cov = {} \<or> (\<exists>w \<in> ?cov. admits (window_rules ne_id w) ts trap_oid oids rank))
    \<and> (decided_window d \<noteq> None \<longrightarrow> the (decided_window d) \<in> window_id ` ?cov)"
    unfolding d by (rule scan_cases)
  then show ?thesis
    unfolding cov by (auto simp: suppressed_def under_window_def rules ids)
qed

section \<open>Properties\<close>

text \<open>C20: the indexed check is the scan of all windows. For windows whose target dictionaries have one
  entry per element, \<open>decide\<close> on the compiled index gives the same decision, window number
  included, as walking the whole list in its order.\<close>

theorem decide_is_a_scan:
  assumes "list_all window_ok ws"
  shows "decide (compile_windows ws) ne_id ts trap_oid oids rank = scan ws ne_id ts trap_oid oids rank"
  using assms by (rule decide_scan)

theorem decide_is_a_scan_witness:
  "let w = build 7 ''cut'' 1 10 20 0 [(4, COLLECT_NOTHING)] True
   in decide (compile_windows [w]) 4 15 ''1.3'' [] None = \<lparr>collect = False, decided_window = Some 7\<rparr>"
proof -
  let ?w = "build 7 ''cut'' 1 10 20 0 [(4, COLLECT_NOTHING)] True"
  have "list_all window_ok [?w]"
    by (simp add: window_ok_def build_def)
  from decide_is_a_scan [OF this, of 4 15 "''1.3''" "[]" None] show ?thesis
    by (simp add: scan_def Let_def build_def targeted_def covers_def window_rules_def admits_def collects_nothing_def
        COLLECT_NOTHING_def)
qed

text \<open>What the check decides, from the stored rows. A trap is under a window exactly when some stored
  window targets its element and its instant lies in the declared interval widened by the
  (non-negative) patch band on both sides, open at the top; it is suppressed exactly when it is under
  a window and the rules of no such window for that element admit it; and the window it is
  attributed to is one of those that cover it.\<close>

theorem check_from_stored_rows:
  fixes rows ne_id ts trap_oid oids rank
  defines "d \<equiv> decide (from_rows rows) ne_id ts trap_oid oids rank"
    and "cov \<equiv> {row \<in> set rows. ne_id \<in> set (row_targets row)
        \<and> row_starts_at row - max 0 (row_patch_s row) \<le> ts \<and> ts < row_ends_at row + max 0 (row_patch_s row)}"
  shows "(under_window d \<longleftrightarrow> cov \<noteq> {})
    \<and> (suppressed d \<longleftrightarrow> cov \<noteq> {} \<and> (\<forall>row \<in> cov.
         \<not> admits (compile_rules (filter (\<lambda>r. row_ne_id r = ne_id) (row_rules row))) ts trap_oid oids rank))
    \<and> (decided_window d \<noteq> None \<longrightarrow> the (decided_window d) \<in> row_id ` cov)"
  unfolding d_def cov_def by (rule decide_rows)

theorem check_from_stored_rows_witness:
  "let row = \<lparr>row_id = 3, row_name = ''w'', row_organization_id = 1, row_starts_at = 100, row_ends_at = 200,
       row_patch_s = 30, row_ledger_enabled = True, row_targets = [5], row_rules = []\<rparr>
   in suppressed (decide (from_rows [row]) 5 229 ''1.3'' [] (Some 0))
      \<and> \<not> under_window (decide (from_rows [row]) 5 230 ''1.3'' [] (Some 0))"
proof -
  let ?row = "\<lparr>row_id = 3, row_name = ''w'', row_organization_id = 1, row_starts_at = 100, row_ends_at = 200,
       row_patch_s = 30, row_ledger_enabled = True, row_targets = [5], row_rules = []\<rparr>"
  have "suppressed (decide (from_rows [?row]) 5 229 ''1.3'' [] (Some 0))"
    using check_from_stored_rows [of "[?row]" 5 229 "''1.3''" "[]" "Some 0"]
    by (simp add: compile_rules_def)
  moreover have "\<not> under_window (decide (from_rows [?row]) 5 230 ''1.3'' [] (Some 0))"
    using check_from_stored_rows [of "[?row]" 5 230 "''1.3''" "[]" "Some 0"] by simp
  ultimately show ?thesis
    by simp
qed

end
