(* ===== verification/Alternation.thy ===== *)
theory Alternation
  imports Prelude "HOL-Library.AList" "HOL-Library.Product_Lexorder" "HOL-Library.List_Lexorder" "HOL-Library.Char_ord"
begin

text \<open>
  \<open>engine/correlate/alternation.py\<close>: the two learners that pair a raise with its clear.
  \<open>ClearPairLearner\<close> learns a pair of alarm classes from strict alternation on one
  (device, instance); \<open>StateClearLearner\<close> learns the clear value of one varbind from strict
  two-value alternation. A dictionary that is only looked up is a map; \<open>slots\<close>, whose size
  is read, is an association list; a set that is only sorted and emptied is a set.
\<close>

section \<open>Class pairs\<close>

definition CLEAR_CYCLES_TO_LEARN :: int where
  "CLEAR_CYCLES_TO_LEARN = 2"

record Alternation =
  alt_first :: int
  alt_second :: "int option"
  alt_last :: int
  alt_cycles :: int

record EdgeRow =
  edge_kind :: string
  a_id :: int
  b_id :: int
  edge_weight :: real
  edge_n :: real
  edge_g :: int

record clear_pairs =
  raise_to_clear :: "int \<rightharpoonup> int"
  clear_to_raise :: "int \<rightharpoonup> int"
  pair_state :: "(int \<times> string) \<rightharpoonup> Alternation"
  pair_dirty :: "(int \<times> int) set"

datatype role = Raise | Clear

definition no_pairs :: clear_pairs where
  "no_pairs = \<lparr>raise_to_clear = Map.empty, clear_to_raise = Map.empty, pair_state = Map.empty, pair_dirty = {}\<rparr>"

definition known_role :: "clear_pairs \<Rightarrow> int \<Rightarrow> role option" where
  "known_role l c =
     (if raise_to_clear l c \<noteq> None then Some Raise
      else if clear_to_raise l c \<noteq> None then Some Clear
      else None)"

definition register :: "int \<Rightarrow> int \<Rightarrow> clear_pairs \<Rightarrow> clear_pairs" where
  "register raise_class clear_class l =
     (if known_role l raise_class \<noteq> None \<or> known_role l clear_class \<noteq> None then l
      else l\<lparr>raise_to_clear := (raise_to_clear l)(raise_class \<mapsto> clear_class),
             clear_to_raise := (clear_to_raise l)(clear_class \<mapsto> raise_class),
             pair_dirty := insert (raise_class, clear_class) (pair_dirty l)\<rparr>)"

definition new_alternation :: "int \<Rightarrow> Alternation" where
  "new_alternation c = \<lparr>alt_first = c, alt_second = None, alt_last = c, alt_cycles = 0\<rparr>"

definition observe :: "int \<Rightarrow> string \<Rightarrow> int \<Rightarrow> clear_pairs \<Rightarrow> clear_pairs" where
  "observe device_id inst class_id l =
     (let slot = (device_id, inst)
      in case pair_state l slot of
        None \<Rightarrow> l\<lparr>pair_state := (pair_state l)(slot \<mapsto> new_alternation class_id)\<rparr>
      | Some alt \<Rightarrow>
          if class_id = alt_last alt then l
          else
            let alt = (if alt_second alt = None \<and> class_id \<noteq> alt_first alt
                       then alt\<lparr>alt_second := Some class_id\<rparr> else alt)
            in if class_id \<noteq> alt_first alt \<and> Some class_id \<noteq> alt_second alt
               then l\<lparr>pair_state := (pair_state l)(slot \<mapsto> new_alternation class_id)\<rparr>
               else
                 let alt = alt\<lparr>alt_last := class_id\<rparr>
                 in case alt_second alt of
                      None \<Rightarrow> l\<lparr>pair_state := (pair_state l)(slot \<mapsto> alt)\<rparr>
                    | Some second \<Rightarrow>
                        if class_id \<noteq> second then l\<lparr>pair_state := (pair_state l)(slot \<mapsto> alt)\<rparr>
                        else
                          let alt = alt\<lparr>alt_cycles := alt_cycles alt + 1\<rparr>;
                              l = l\<lparr>pair_state := (pair_state l)(slot \<mapsto> alt)\<rparr>;
                              known = (known_role l (alt_first alt) \<noteq> None \<or> known_role l second \<noteq> None)
                          in if CLEAR_CYCLES_TO_LEARN \<le> alt_cycles alt \<and> \<not> known
                             then register (alt_first alt) second l else l)"

definition flush_pairs :: "clear_pairs \<Rightarrow> EdgeRow list \<times> clear_pairs" where
  "flush_pairs l =
     (map (\<lambda>(r, c). \<lparr>edge_kind = ''clear_pair'', a_id = r, b_id = c, edge_weight = 1, edge_n = 1, edge_g = 0\<rparr>)
        (sorted_list_of_set (pair_dirty l)),
      l\<lparr>pair_dirty := {}\<rparr>)"

definition edge_order :: "EdgeRow list \<Rightarrow> EdgeRow list" where
  "edge_order edges = sort_key (\<lambda>e. (a_id e, b_id e)) edges"

fun contradictions :: "EdgeRow list \<Rightarrow> (int \<rightharpoonup> int) \<Rightarrow> int set \<Rightarrow> int set" where
  "contradictions [] first contradicted = contradicted"
| "contradictions (e # es) first contradicted =
     contradictions es
       (if first (a_id e) = None then first(a_id e \<mapsto> b_id e) else first)
       (if first (b_id e) = Some (a_id e) then insert (a_id e) (insert (b_id e) contradicted) else contradicted)"

fun adopt :: "int set \<Rightarrow> EdgeRow list \<Rightarrow> clear_pairs \<Rightarrow> clear_pairs" where
  "adopt contradicted [] l = l"
| "adopt contradicted (e # es) l =
     adopt contradicted es
       (if a_id e \<in> contradicted \<or> b_id e \<in> contradicted then l
        else l\<lparr>raise_to_clear := (raise_to_clear l)(a_id e \<mapsto> b_id e),
               clear_to_raise := (clear_to_raise l)(b_id e \<mapsto> a_id e)\<rparr>)"

definition load_pairs :: "EdgeRow list \<Rightarrow> clear_pairs \<Rightarrow> int list \<times> clear_pairs" where
  "load_pairs edges l =
     (let contradicted = contradictions (edge_order edges) Map.empty {}
      in (sorted_list_of_set contradicted, adopt contradicted (edge_order edges) l))"

section \<open>State varbinds\<close>

definition MAX_STATE_SLOTS :: nat where
  "MAX_STATE_SLOTS = 4096"

definition STATE_MAX_VALUE_CHARS :: nat where
  "STATE_MAX_VALUE_CHARS = 32"

definition STATE_SKIP :: "string set" where
  "STATE_SKIP = {''1.3.6.1.2.1.1.3.0'', ''1.3.6.1.6.3.1.1.4.1.0'', ''1.3.6.1.6.3.1.1.4.3.0'', ''1.3.6.1.6.3.18.1.3.0''}"

record value_alternation =
  val_first :: string
  val_second :: "string option"
  val_last :: string
  val_cycles :: int
  poisoned :: bool

type_synonym slot_key = "int \<times> string \<times> int \<times> string"

record state_clears =
  clear_value :: "(int \<times> string) \<rightharpoonup> string"
  raise_value :: "(int \<times> string) \<rightharpoonup> string"
  slots :: "(slot_key \<times> value_alternation) list"
  state_dirty :: "(int \<times> string) set"

definition no_states :: state_clears where
  "no_states = \<lparr>clear_value = Map.empty, raise_value = Map.empty, slots = [], state_dirty = {}\<rparr>"

definition register_state :: "int \<Rightarrow> string \<Rightarrow> string \<Rightarrow> string \<Rightarrow> state_clears \<Rightarrow> state_clears" where
  "register_state class_id oid raise_v clear_v l =
     (let key = (class_id, oid)
      in if clear_value l key \<noteq> None then l
         else l\<lparr>clear_value := (clear_value l)(key \<mapsto> clear_v),
                raise_value := (raise_value l)(key \<mapsto> raise_v),
                state_dirty := insert key (state_dirty l)\<rparr>)"

text \<open>One varbind of \<open>observe\<close>: the body of its loop.\<close>

definition observe_varbind :: "int \<Rightarrow> string \<Rightarrow> int \<Rightarrow> string \<times> string \<Rightarrow> state_clears \<Rightarrow> state_clears" where
  "observe_varbind device_id inst class_id vb l =
     (let (oid, raw) = vb
      in if oid \<in> STATE_SKIP \<or> clear_value l (class_id, oid) \<noteq> None then l
         else
           let val = take STATE_MAX_VALUE_CHARS raw; key = (device_id, inst, class_id, oid)
           in case map_of (slots l) key of
                None \<Rightarrow>
                  if length (slots l) < MAX_STATE_SLOTS
                  then l\<lparr>slots := AList.update key \<lparr>val_first = val, val_second = None, val_last = val,
                           val_cycles = 0, poisoned = False\<rparr> (slots l)\<rparr>
                  else l
              | Some alt \<Rightarrow>
                  if poisoned alt \<or> val = val_last alt then l
                  else
                    let alt = (if val_second alt = None \<and> val \<noteq> val_first alt
                               then alt\<lparr>val_second := Some val\<rparr> else alt)
                    in if val \<noteq> val_first alt \<and> Some val \<noteq> val_second alt
                       then l\<lparr>slots := AList.update key (alt\<lparr>poisoned := True\<rparr>) (slots l)\<rparr>
                       else
                         let alt = alt\<lparr>val_last := val\<rparr>
                         in if Some val = val_second alt
                            then
                              let alt = alt\<lparr>val_cycles := val_cycles alt + 1\<rparr>;
                                  l = l\<lparr>slots := AList.update key alt (slots l)\<rparr>
                              in if CLEAR_CYCLES_TO_LEARN \<le> val_cycles alt
                                 then register_state class_id oid (val_first alt) val l else l
                            else l\<lparr>slots := AList.update key alt (slots l)\<rparr>)"

definition observe_states :: "int \<Rightarrow> string \<Rightarrow> int \<Rightarrow> (string \<times> string) list \<Rightarrow> state_clears \<Rightarrow> state_clears" where
  "observe_states device_id inst class_id varbinds l =
     fold (observe_varbind device_id inst class_id) varbinds l"

definition is_clear :: "state_clears \<Rightarrow> int \<Rightarrow> (string \<times> string) list \<Rightarrow> bool" where
  "is_clear l class_id varbinds \<longleftrightarrow>
     list_ex (\<lambda>(oid, raw). clear_value l (class_id, oid) = Some (take STATE_MAX_VALUE_CHARS raw)) varbinds"

definition flush_states :: "state_clears \<Rightarrow> (int \<times> string \<times> string option \<times> string option) list \<times> state_clears" where
  "flush_states l =
     (map (\<lambda>(c, oid). (c, oid, clear_value l (c, oid), raise_value l (c, oid))) (sorted_list_of_set (state_dirty l)),
      l\<lparr>state_dirty := {}\<rparr>)"

definition load_states :: "(int \<times> string \<times> string \<times> string) list \<Rightarrow> state_clears \<Rightarrow> state_clears" where
  "load_states rows l =
     fold (\<lambda>(c, oid, cv, rv) l. l\<lparr>clear_value := (clear_value l)((c, oid) \<mapsto> cv),
                                  raise_value := (raise_value l)((c, oid) \<mapsto> rv)\<rparr>) rows l"

section \<open>A class holds one role\<close>

definition one_role :: "clear_pairs \<Rightarrow> bool" where
  "one_role l \<longleftrightarrow> (\<forall>r c. raise_to_clear l r = Some c \<longleftrightarrow> clear_to_raise l c = Some r)
     \<and> dom (raise_to_clear l) \<inter> dom (clear_to_raise l) = {}
     \<and> (\<forall>(r, c) \<in> pair_dirty l. raise_to_clear l r = Some c) \<and> finite (pair_dirty l)"

lemma one_role_no_pairs: "one_role no_pairs"
  by (simp add: one_role_def no_pairs_def)

lemma known_role_None: "known_role l c = None \<longleftrightarrow> raise_to_clear l c = None \<and> clear_to_raise l c = None"
  by (simp add: known_role_def)

lemma register_one_role:
  assumes "one_role l" and "raise_class \<noteq> clear_class"
  shows "one_role (register raise_class clear_class l)"
proof (cases "known_role l raise_class = None \<and> known_role l clear_class = None")
  case True
  then have none: "raise_to_clear l raise_class = None" "clear_to_raise l raise_class = None"
      "raise_to_clear l clear_class = None" "clear_to_raise l clear_class = None"
    by (simp_all add: known_role_None)
  have inv: "\<And>r c. raise_to_clear l r = Some c \<longleftrightarrow> clear_to_raise l c = Some r"
    and disj: "dom (raise_to_clear l) \<inter> dom (clear_to_raise l) = {}"
    and dirty: "\<And>r c. (r, c) \<in> pair_dirty l \<Longrightarrow> raise_to_clear l r = Some c" and fin: "finite (pair_dirty l)"
    using assms(1) by (auto simp: one_role_def)
  have no: "raise_to_clear l r \<noteq> Some raise_class" "raise_to_clear l r \<noteq> Some clear_class"
      "clear_to_raise l r \<noteq> Some raise_class" "clear_to_raise l r \<noteq> Some clear_class" for r
    using none inv by (metis option.distinct(1))+
  let ?l = "register raise_class clear_class l"
  have r: "raise_to_clear ?l = (raise_to_clear l)(raise_class \<mapsto> clear_class)"
      "clear_to_raise ?l = (clear_to_raise l)(clear_class \<mapsto> raise_class)"
      "pair_dirty ?l = insert (raise_class, clear_class) (pair_dirty l)"
    using True by (simp_all add: register_def)
  show ?thesis
    unfolding one_role_def r
  proof (intro conjI allI ballI)
    fix a b
    show "((raise_to_clear l)(raise_class \<mapsto> clear_class)) a = Some b
        \<longleftrightarrow> ((clear_to_raise l)(clear_class \<mapsto> raise_class)) b = Some a"
      using inv [of a b] no by (cases "a = raise_class"; cases "b = clear_class") auto
  next
    show "dom ((raise_to_clear l)(raise_class \<mapsto> clear_class)) \<inter> dom ((clear_to_raise l)(clear_class \<mapsto> raise_class)) = {}"
      using disj none assms(2) by auto
  next
    fix p
    assume "p \<in> insert (raise_class, clear_class) (pair_dirty l)"
    then show "case p of (r, c) \<Rightarrow> ((raise_to_clear l)(raise_class \<mapsto> clear_class)) r = Some c"
      using dirty none by fastforce
  next
    show "finite (insert (raise_class, clear_class) (pair_dirty l))"
      using fin by simp
  qed
next
  case False
  with assms show ?thesis
    by (auto simp: register_def)
qed

lemma register_slots [simp]: "pair_state (register r c l) = pair_state l"
  by (simp add: register_def)

text \<open>An alternation's second class differs from its first: what \<open>observe\<close> registers is
  never a class paired with itself.\<close>

definition slots_ok :: "clear_pairs \<Rightarrow> bool" where
  "slots_ok l \<longleftrightarrow> (\<forall>slot alt. pair_state l slot = Some alt \<longrightarrow> alt_second alt \<noteq> Some (alt_first alt))"

lemma one_role_slots [simp]: "one_role (l\<lparr>pair_state := x\<rparr>) = one_role l"
  by (simp add: one_role_def)

lemma observe_ok:
  assumes "one_role l" and "slots_ok l"
  shows "one_role (observe d i c l) \<and> slots_ok (observe d i c l)"
proof (cases "pair_state l (d, i)")
  case None
  with assms show ?thesis
    by (auto simp: observe_def slots_ok_def new_alternation_def)
next
  case (Some alt)
  then have "alt_second alt \<noteq> Some (alt_first alt)"
    using assms(2) by (auto simp: slots_ok_def)
  with Some assms show ?thesis
    by (cases "alt_second alt")
      (auto simp: observe_def slots_ok_def new_alternation_def Let_def intro!: register_one_role)
qed

inductive learner_reach :: "clear_pairs \<Rightarrow> bool" where
  start: "learner_reach no_pairs"
| seeded: "learner_reach l \<Longrightarrow> r \<noteq> c \<Longrightarrow> learner_reach (register r c l)"
| observed: "learner_reach l \<Longrightarrow> learner_reach (observe d i c l)"
| flushed: "learner_reach l \<Longrightarrow> learner_reach (snd (flush_pairs l))"

lemma learner_reach_ok: "learner_reach l \<Longrightarrow> one_role l \<and> slots_ok l"
proof (induction rule: learner_reach.induct)
  case start
  show ?case
    by (simp add: one_role_no_pairs) (simp add: slots_ok_def no_pairs_def)
next
  case (seeded l r c)
  then show ?case
    by (auto simp: register_one_role) (simp add: slots_ok_def)
next
  case (observed l d i c)
  then show ?case
    by (simp add: observe_ok)
next
  case (flushed l)
  then show ?case
    by (auto simp: flush_pairs_def one_role_def slots_ok_def)
qed

section \<open>Persistence\<close>

lemma map_of_graph:
  assumes "\<And>k v. (k, v) \<in> set xs \<longleftrightarrow> m k = Some v"
  shows "map_of xs = m"
proof
  fix k
  show "map_of xs k = m k"
  proof (cases "m k")
    case None
    then have "k \<notin> fst ` set xs"
      using assms by force
    with None show ?thesis by (simp add: map_of_eq_None_iff)
  next
    case (Some v)
    then have "k \<in> fst ` set xs"
      using assms by (metis fst_conv image_eqI)
    then obtain v' where "map_of xs k = Some v'"
      by (cases "map_of xs k") (auto simp: map_of_eq_None_iff)
    moreover from this have "m k = Some v'"
      using assms map_of_SomeD by metis
    ultimately show ?thesis by simp
  qed
qed

lemma adopt_maps:
  "raise_to_clear (adopt {} es l) = raise_to_clear l ++ map_of (rev (map (\<lambda>e. (a_id e, b_id e)) es))
   \<and> clear_to_raise (adopt {} es l) = clear_to_raise l ++ map_of (rev (map (\<lambda>e. (b_id e, a_id e)) es))"
  by (induction es arbitrary: l) (simp_all add: map_add_def fun_eq_iff split: option.splits)

lemma no_contradictions:
  "(\<And>e f. e \<in> set es \<Longrightarrow> f \<in> set es \<Longrightarrow> \<not> (a_id e = b_id f)) \<Longrightarrow>
   (\<And>f. f \<in> set es \<Longrightarrow> first (b_id f) = None) \<Longrightarrow> contradictions es first {} = {}"
proof (induction es arbitrary: first)
  case Nil
  show ?case by simp
next
  case (Cons e es)
  let ?first = "if first (a_id e) = None then first(a_id e \<mapsto> b_id e) else first"
  have "contradictions es ?first {} = {}"
  proof (rule Cons.IH)
    show "a_id g \<noteq> b_id f" if "g \<in> set es" "f \<in> set es" for g f
      using that Cons.prems(1) by simp
    show "?first (b_id f) = None" if "f \<in> set es" for f
      using Cons.prems(1) [of e f] Cons.prems(2) [of f] that by auto
  qed
  then show ?case
    using Cons.prems(2) [of e] by simp
qed

lemma load_flushed:
  assumes ok: "one_role l" and all: "\<And>r c. (r, c) \<in> pair_dirty l \<longleftrightarrow> raise_to_clear l r = Some c"
    and rows: "set rows = set (fst (flush_pairs l))"
  shows "fst (load_pairs rows no_pairs) = []
    \<and> raise_to_clear (snd (load_pairs rows no_pairs)) = raise_to_clear l
    \<and> clear_to_raise (snd (load_pairs rows no_pairs)) = clear_to_raise l"
proof -
  let ?es = "edge_order rows"
  have fin: "finite (pair_dirty l)"
    using ok by (simp add: one_role_def)
  have set_es: "(\<lambda>e. (a_id e, b_id e)) ` set ?es = pair_dirty l"
    using fin by (force simp: edge_order_def rows flush_pairs_def)
  have disj: "a_id e \<noteq> b_id f" if "e \<in> set ?es" "f \<in> set ?es" for e f
  proof -
    have "raise_to_clear l (a_id e) = Some (b_id e)" "raise_to_clear l (a_id f) = Some (b_id f)"
      using that set_es all by blast+
    then have "a_id e \<in> dom (raise_to_clear l)" "b_id f \<in> dom (clear_to_raise l)"
      using ok by (auto simp: one_role_def)
    then show ?thesis
      using ok by (auto simp: one_role_def)
  qed
  have none: "contradictions ?es Map.empty {} = {}"
    using disj by (intro no_contradictions) auto
  have "map_of (rev (map (\<lambda>e. (a_id e, b_id e)) ?es)) = raise_to_clear l"
    by (rule map_of_graph) (simp add: set_es all)
  moreover have "map_of (rev (map (\<lambda>e. (b_id e, a_id e)) ?es)) = clear_to_raise l"
  proof (rule map_of_graph)
    fix k v
    have "(k, v) \<in> set (rev (map (\<lambda>e. (b_id e, a_id e)) ?es)) \<longleftrightarrow> (v, k) \<in> (\<lambda>e. (a_id e, b_id e)) ` set ?es"
      by force
    then show "(k, v) \<in> set (rev (map (\<lambda>e. (b_id e, a_id e)) ?es)) \<longleftrightarrow> clear_to_raise l k = Some v"
      using ok by (simp add: set_es all one_role_def)
  qed
  ultimately show ?thesis
    using adopt_maps [of ?es no_pairs] by (simp add: load_pairs_def none no_pairs_def)
qed

section \<open>The state learner\<close>

definition states_ok :: "state_clears \<Rightarrow> bool" where
  "states_ok l \<longleftrightarrow> dom (clear_value l) = dom (raise_value l)
     \<and> (\<forall>k c. clear_value l k = Some c \<longrightarrow> raise_value l k \<noteq> Some c)
     \<and> (\<forall>(k, alt) \<in> set (slots l). val_second alt \<noteq> Some (val_first alt))
     \<and> length (slots l) \<le> MAX_STATE_SLOTS \<and> distinct (map fst (slots l))"

lemma length_update_new: "map_of xs k = None \<Longrightarrow> length (AList.update k v xs) = Suc (length xs)"
  by (induction xs) (auto split: if_splits)

lemma length_update_old: "map_of xs k = Some u \<Longrightarrow> length (AList.update k v xs) = length xs"
  by (induction xs) (auto split: if_splits)

lemma set_update_subset: "set (AList.update k v xs) \<subseteq> insert (k, v) (set xs)"
  by (induction xs) auto

lemma states_ok_update:
  assumes "states_ok l" and "val_second alt \<noteq> Some (val_first alt)"
    and "length (AList.update k alt (slots l)) \<le> MAX_STATE_SLOTS"
  shows "states_ok (l\<lparr>slots := AList.update k alt (slots l)\<rparr>)"
  using assms set_update_subset [of k alt "slots l"] by (fastforce simp: states_ok_def distinct_update)

lemma states_ok_register:
  "states_ok l \<Longrightarrow> r \<noteq> c \<Longrightarrow> states_ok (register_state class_id oid r c l)"
  by (auto simp: states_ok_def register_state_def Let_def)

lemma observe_varbind_ok: "states_ok l \<Longrightarrow> states_ok (observe_varbind d i c vb l)"
proof -
  assume ok: "states_ok l"
  obtain oid raw where vb: "vb = (oid, raw)"
    by fastforce
  let ?val = "take STATE_MAX_VALUE_CHARS raw" and ?key = "(d, i, c, oid)"
  show ?thesis
  proof (cases "map_of (slots l) ?key")
    case None
    with ok show ?thesis
      by (auto simp: observe_varbind_def vb Let_def length_update_new intro!: states_ok_update)
  next
    case (Some alt)
    have len: "length (AList.update ?key a (slots l)) \<le> MAX_STATE_SLOTS" for a
      using ok Some by (simp add: length_update_old states_ok_def)
    have "val_second alt \<noteq> Some (val_first alt)"
      using ok Some by (auto simp: states_ok_def dest!: map_of_SomeD)
    with Some ok len show ?thesis
      by (cases "val_second alt")
        (auto simp: observe_varbind_def vb Let_def intro!: states_ok_update states_ok_register)
  qed
qed

lemma observe_states_ok: "states_ok l \<Longrightarrow> states_ok (observe_states d i c vbs l)"
  unfolding observe_states_def by (induction vbs arbitrary: l) (simp_all add: observe_varbind_ok)

lemma states_run_ok:
  "states_ok l \<Longrightarrow> states_ok (fold (\<lambda>(d, i, c, vbs). observe_states d i c vbs) traps l)"
proof (induction traps arbitrary: l)
  case (Cons t traps)
  obtain d i c vbs where "t = (d, i, c, vbs)"
    using prod_cases4 by blast
  with Cons show ?case
    by (simp add: observe_states_ok)
qed simp

lemma states_ok_values:
  assumes "states_ok l" and "clear_value l k = Some v"
  shows "\<exists>r. raise_value l k = Some r \<and> r \<noteq> v"
proof -
  have "k \<in> dom (raise_value l)"
    using assms by (auto simp: states_ok_def)
  moreover have "raise_value l k \<noteq> Some v"
    using assms by (simp only: states_ok_def) blast
  ultimately show ?thesis
    by auto
qed

section \<open>Properties\<close>



text \<open>A pair is learned at the second full alternation and not before. On a slot with no history,
  when neither class has a role, the traps X, Y, X leave the dictionaries as they were, and the
  next Y registers exactly the pair with X as the raise and Y as its clear.\<close>

theorem pair_learned_at_second_cycle:
  assumes "pair_state l (d, i) = None" and "x \<noteq> y" and "known_role l x = None" and "known_role l y = None"
  shows "raise_to_clear (fold (observe d i) [x, y, x] l) = raise_to_clear l
    \<and> clear_to_raise (fold (observe d i) [x, y, x] l) = clear_to_raise l
    \<and> raise_to_clear (fold (observe d i) [x, y, x, y] l) = (raise_to_clear l)(x \<mapsto> y)
    \<and> clear_to_raise (fold (observe d i) [x, y, x, y] l) = (clear_to_raise l)(y \<mapsto> x)"
proof -
  let ?alt = "\<lambda>last second cycles. \<lparr>alt_first = x, alt_second = second, alt_last = last, alt_cycles = cycles\<rparr>"
  let ?at = "\<lambda>a. l\<lparr>pair_state := (pair_state l)((d, i) \<mapsto> a)\<rparr>"
  have x1: "observe d i x l = ?at (?alt x None 0)"
    using assms(1) by (simp add: observe_def new_alternation_def)
  have y1: "observe d i y (?at (?alt x None 0)) = ?at (?alt y (Some y) 1)"
    using assms(2) by (simp add: observe_def CLEAR_CYCLES_TO_LEARN_def Let_def)
  have x2: "observe d i x (?at (?alt y (Some y) 1)) = ?at (?alt x (Some y) 1)"
    using assms(2) by (simp add: observe_def Let_def)
  have y2: "observe d i y (?at (?alt x (Some y) 1)) = register x y (?at (?alt y (Some y) 2))"
    using assms(2-4) by (simp add: observe_def CLEAR_CYCLES_TO_LEARN_def Let_def known_role_def split: if_splits)
  show ?thesis
    using assms(3,4) by (simp add: x1 y1 x2 y2 register_def known_role_None)
qed

theorem pair_learned_at_second_cycle_witness:
  "raise_to_clear (fold (observe 7 ''if1'') [10, 20, 10, 20] no_pairs) 10 = Some 20"
  using pair_learned_at_second_cycle [of no_pairs 7 "''if1''" 10 20]
  by (simp add: no_pairs_def known_role_def)

text \<open>What is flushed is what is loaded. When every learned pair is among the rows to be written, the
  rows a flush writes, loaded into a fresh learner (in whatever order they are read back), restore
  both dictionaries exactly and no class is refused as contradictory.\<close>

theorem flush_load_roundtrip:
  assumes "learner_reach l" and "\<And>r c. (r, c) \<in> pair_dirty l \<longleftrightarrow> raise_to_clear l r = Some c"
    and "set rows = set (fst (flush_pairs l))"
  shows "fst (load_pairs rows no_pairs) = []
    \<and> raise_to_clear (snd (load_pairs rows no_pairs)) = raise_to_clear l
    \<and> clear_to_raise (snd (load_pairs rows no_pairs)) = clear_to_raise l"
  using learner_reach_ok [OF assms(1)] assms(2,3) by (intro load_flushed) auto

theorem flush_load_roundtrip_witness:
  "raise_to_clear (snd (load_pairs (fst (flush_pairs (register 3 4 no_pairs))) no_pairs)) 3 = Some 4"
proof -
  have r: "learner_reach (register 3 4 no_pairs)"
    by (intro learner_reach.intros) simp
  have d: "(r, c) \<in> pair_dirty (register 3 4 no_pairs) \<longleftrightarrow> raise_to_clear (register 3 4 no_pairs) r = Some c" for r c
    by (auto simp: register_def known_role_def no_pairs_def)
  have "raise_to_clear (register 3 4 no_pairs) 3 = Some 4"
    by (simp add: register_def known_role_def no_pairs_def)
  with flush_load_roundtrip [OF r d refl] show ?thesis
    by simp
qed

text \<open>The state learner stays bounded and its two values stay distinct. From the empty learner, any
  sequence of traps keeps at most \<open>MAX_STATE_SLOTS\<close> slots, gives every learned field both a
  clear and a raise value, and never the same value for both.\<close>

theorem state_learner_bounded:
  assumes "states_ok l"
  shows "states_ok (fold (\<lambda>(d, i, c, vbs). observe_states d i c vbs) traps l)
    \<and> length (slots (fold (\<lambda>(d, i, c, vbs). observe_states d i c vbs) traps l)) \<le> MAX_STATE_SLOTS
    \<and> (\<forall>k v. clear_value (fold (\<lambda>(d, i, c, vbs). observe_states d i c vbs) traps l) k = Some v
         \<longrightarrow> (\<exists>r. raise_value (fold (\<lambda>(d, i, c, vbs). observe_states d i c vbs) traps l) k = Some r \<and> r \<noteq> v))"
proof -
  let ?l = "fold (\<lambda>(d, i, c, vbs). observe_states d i c vbs) traps l"
  have ok: "states_ok ?l"
    using assms by (rule states_run_ok)
  moreover have "length (slots ?l) \<le> MAX_STATE_SLOTS"
    using ok by (simp only: states_ok_def)
  ultimately show ?thesis
    using states_ok_values [OF ok] by blast
qed

theorem state_learner_bounded_witness:
  "states_ok no_states \<and>
   length (slots (fold (\<lambda>(d, i, c, vbs). observe_states d i c vbs) [(1, ''p'', 9, [(''1.2'', ''up'')])] no_states))
     \<le> MAX_STATE_SLOTS"
proof -
  have ok: "states_ok no_states"
    by (simp add: states_ok_def no_states_def)
  show ?thesis
    using ok state_learner_bounded [OF ok, of "[(1, ''p'', 9, [(''1.2'', ''up'')])]"] by blast
qed

text \<open>What \<open>load\<close> does not refuse. Two stored rows in which one class is the clear of one pair
  and the raise of another are both adopted: nothing is reported as contradictory, and the class
  then holds both roles, which \<open>class_roles_exclusive\<close> excludes for a learner that only
  learns. Only a pair stored in both directions is dropped.\<close>

theorem load_keeps_a_class_in_two_roles:
  "(let e = (\<lambda>a b. \<lparr>edge_kind = ''clear_pair'', a_id = a, b_id = b, edge_weight = 1, edge_n = 1, edge_g = 0\<rparr>);
        (refused, l) = load_pairs [e 1 2, e 2 3] no_pairs
    in refused = [] \<and> raise_to_clear l 2 = Some 3 \<and> clear_to_raise l 2 = Some 1)"
  by (simp add: load_pairs_def edge_order_def no_pairs_def)

end
