(* ===== verification/Write_Behind.thy ===== *)
theory Write_Behind
  imports Prelude
begin

text \<open>
  The write-behind contract that the in-memory structures of the hot path share
  (\<open>StateLedger\<close>, \<open>ClearPairLearner\<close>, \<open>StateClearLearner\<close>): entries live in
  memory, an operation marks the keys it changes as dirty, and a periodic flush hands the dirty
  entries to the store and clears the marks. The one law an operation has to meet is that an entry
  which is not marked after it was there, unmarked and equal, before it.
\<close>

text \<open>The store's side of a flush: each row is merged into the row of its key. What is stored
  for a row may depend on what was stored before (an SQL \<open>COALESCE\<close> in the upsert).\<close>

definition upsert :: "('v option \<Rightarrow> 'v \<Rightarrow> 'v) \<Rightarrow> ('k \<times> 'v) list \<Rightarrow> ('k \<rightharpoonup> 'v) \<Rightarrow> ('k \<rightharpoonup> 'v)" where
  "upsert merge rows db = fold (\<lambda>(k, v) db. db(k \<mapsto> merge (db k) v)) rows db"

lemma upsert_other: "k \<notin> fst ` set rows \<Longrightarrow> upsert merge rows db k = db k"
  unfolding upsert_def by (induction rows arbitrary: db) auto

lemma upsert_merged:
  "k \<in> fst ` set rows \<Longrightarrow> (\<And>u. (k, u) \<in> set rows \<Longrightarrow> u = v) \<Longrightarrow>
   \<exists>old. upsert merge rows db k = Some (merge old v)"
proof (induction rows arbitrary: db)
  case (Cons r rows)
  obtain j u where r: "r = (j, u)" by (cases r)
  show ?case
  proof (cases "k \<in> fst ` set rows")
    case True
    then show ?thesis
      using Cons.IH [of "db(j \<mapsto> merge (db j) u)"] Cons.prems(2) by (simp add: upsert_def r del: fun_upd_apply)
  next
    case False
    then have "j = k" "u = v"
      using Cons.prems by (auto simp: r)
    with upsert_other [OF False, of merge "db(j \<mapsto> merge (db j) u)"] show ?thesis
      by (auto simp: upsert_def r)
  qed
qed simp

locale write_behind =
  fixes items :: "'s \<Rightarrow> 'k \<rightharpoonup> 'v"
    and unsaved :: "'s \<Rightarrow> 'k set"
    and operation :: "'s \<Rightarrow> 's \<Rightarrow> bool"
    and take_unsaved :: "'s \<Rightarrow> ('k \<times> 'v) list \<times> 's"
    and good :: "'s \<Rightarrow> bool"
    and merge :: "'v option \<Rightarrow> 'v \<Rightarrow> 'v"
    and holds_row :: "'v \<Rightarrow> 'v \<Rightarrow> bool"
  assumes good_operation: "good s \<Longrightarrow> operation s t \<Longrightarrow> good t"
    and operation_marks: "good s \<Longrightarrow> operation s t \<Longrightarrow> items t k = Some v \<Longrightarrow> k \<notin> unsaved t
        \<Longrightarrow> items s k = Some v \<and> k \<notin> unsaved s"
    and good_take: "good s \<Longrightarrow> good (snd (take_unsaved s))"
    and take_items: "good s \<Longrightarrow> items (snd (take_unsaved s)) = items s"
    and take_rows: "good s \<Longrightarrow> k \<in> unsaved s \<Longrightarrow> items s k = Some v \<Longrightarrow> (k, v) \<in> set (fst (take_unsaved s))"
    and take_sound: "good s \<Longrightarrow> (k, v) \<in> set (fst (take_unsaved s)) \<Longrightarrow> items s k = Some v"
    and merge_holds: "holds_row v (merge old v)"
begin

definition saved :: "'s \<Rightarrow> ('k \<rightharpoonup> 'v) \<Rightarrow> bool" where
  "saved s db \<longleftrightarrow> good s \<and> (\<forall>k v. items s k = Some v \<longrightarrow> k \<notin> unsaved s \<longrightarrow> (\<exists>u. db k = Some u \<and> holds_row v u))"

inductive run :: "'s \<times> ('k \<rightharpoonup> 'v) \<Rightarrow> 's \<times> ('k \<rightharpoonup> 'v) \<Rightarrow> bool" where
  none: "run c c"
| operate: "run c (s, db) \<Longrightarrow> operation s t \<Longrightarrow> run c (t, db)"
| flush: "run c (s, db) \<Longrightarrow> take_unsaved s = (rows, t) \<Longrightarrow> run c (t, upsert merge rows db)"

lemma flush_complete:
  assumes "saved s db" and "items s k = Some v"
  shows "\<exists>u. upsert merge (fst (take_unsaved s)) db k = Some u \<and> holds_row v u"
proof (cases "k \<in> fst ` set (fst (take_unsaved s))")
  case True
  have "u = v" if "(k, u) \<in> set (fst (take_unsaved s))" for u
    using that assms take_sound [of s k u] by (simp add: saved_def)
  then obtain old where "upsert merge (fst (take_unsaved s)) db k = Some (merge old v)"
    using upsert_merged [OF True] by blast
  then show ?thesis
    using merge_holds by blast
next
  case False
  then have "k \<notin> unsaved s"
    using assms take_rows [of s k v] by (force simp: saved_def)
  with assms show ?thesis
    by (auto simp: saved_def upsert_other [OF False])
qed

lemma saved_run: "run c d \<Longrightarrow> c = (s, db) \<Longrightarrow> saved s db \<Longrightarrow> saved (fst d) (snd d)"
proof (induction rule: run.induct)
  case (operate c u db' t)
  then have "saved u db'" by simp
  with operate.hyps(2) show ?case
    unfolding saved_def fst_conv snd_conv by (meson good_operation operation_marks)
next
  case (flush c u db' rows t)
  then have "saved u db'" by simp
  moreover have "t = snd (take_unsaved u)" "rows = fst (take_unsaved u)"
    using flush.hyps(2) by simp_all
  ultimately show ?case
    using flush_complete [of u db'] by (auto simp: saved_def good_take take_items)
qed simp

text \<open>After a run and one more flush the durable rows hold every entry in memory.\<close>

lemma flush_saves_all:
  assumes "saved s db" and "run (s, db) (t, db')" and "items t k = Some v"
  shows "\<exists>u. upsert merge (fst (take_unsaved t)) db' k = Some u \<and> holds_row v u"
  using saved_run [OF assms(2) refl assms(1)] assms(3) by (simp add: flush_complete)

end

end
