(* ===== verification/Mw_Ledger.thy ===== *)
theory Mw_Ledger
  imports Mw_Index Alternation Events Write_Behind
begin

text \<open>
  \<open>engine/mw/ledger.py\<close>: what a maintenance window remembers of the traps it suppressed, a
  raise and a clear instant per alarm identity. The dictionary \<open>entries\<close> is an association
  list with distinct keys, the set \<open>dirty\<close> is flushed in key order.
\<close>

section \<open>Keys\<close>

datatype LedgerKey = LedgerKey (key_window: int) (key_device: int) (key_class: int) (key_instance: string)

definition key_tuple :: "LedgerKey \<Rightarrow> int \<times> int \<times> int \<times> string" where
  "key_tuple k = (key_window k, key_device k, key_class k, key_instance k)"

lemma key_tuple_inject [simp]: "key_tuple k = key_tuple l \<longleftrightarrow> k = l"
  by (cases k; cases l) (auto simp: key_tuple_def)

instantiation LedgerKey :: linorder
begin

definition less_eq_LedgerKey :: "LedgerKey \<Rightarrow> LedgerKey \<Rightarrow> bool" where
  "less_eq_LedgerKey k l \<longleftrightarrow> key_tuple k \<le> key_tuple l"

definition less_LedgerKey :: "LedgerKey \<Rightarrow> LedgerKey \<Rightarrow> bool" where
  "less_LedgerKey k l \<longleftrightarrow> key_tuple k < key_tuple l"

instance
proof
  fix x y z :: LedgerKey
  show "x < y \<longleftrightarrow> x \<le> y \<and> \<not> y \<le> x"
    unfolding less_eq_LedgerKey_def less_LedgerKey_def by (rule less_le_not_le)
  show "x \<le> x" "x \<le> y \<Longrightarrow> y \<le> z \<Longrightarrow> x \<le> z" "x \<le> y \<or> y \<le> x"
    unfolding less_eq_LedgerKey_def by (auto intro: order_trans linear)
  show "x = y" if "x \<le> y" "y \<le> x"
    using that antisym [of "key_tuple x" "key_tuple y"] by (simp add: less_eq_LedgerKey_def)
qed

end

section \<open>Entries\<close>

record LedgerEntry =
  entry_ne_id :: int
  raised_at :: "seconds option"
  cleared_at :: "seconds option"
  surfaced_at :: "seconds option"

definition entry_unresolved :: "LedgerEntry \<Rightarrow> bool" where
  "entry_unresolved e \<longleftrightarrow> raised_at e \<noteq> None \<and> cleared_at e = None \<and> surfaced_at e = None"

record StateLedger =
  entries :: "(LedgerKey \<times> LedgerEntry) list"
  ledger_dirty :: "LedgerKey set"

definition empty_ledger :: StateLedger where
  "empty_ledger = \<lparr>entries = [], ledger_dirty = {}\<rparr>"

definition new_entry :: "int \<Rightarrow> LedgerEntry" where
  "new_entry ne_id = \<lparr>entry_ne_id = ne_id, raised_at = None, cleared_at = None, surfaced_at = None\<rparr>"

definition observe_raise :: "LedgerKey \<Rightarrow> int \<Rightarrow> seconds \<Rightarrow> StateLedger \<Rightarrow> StateLedger" where
  "observe_raise key ne_id ts l =
     (let entry = (case map_of (entries l) key of None \<Rightarrow> new_entry ne_id | Some e \<Rightarrow> e);
          entry = (if raised_at entry = None \<or> cleared_at entry \<noteq> None
                   then entry\<lparr>raised_at := Some ts, cleared_at := None, surfaced_at := None\<rparr> else entry)
      in l\<lparr>entries := AList.update key entry (entries l), ledger_dirty := insert key (ledger_dirty l)\<rparr>)"

definition observe_clear :: "LedgerKey \<Rightarrow> int \<Rightarrow> seconds \<Rightarrow> StateLedger \<Rightarrow> StateLedger" where
  "observe_clear key ne_id ts l =
     (let entry = (case map_of (entries l) key of None \<Rightarrow> new_entry ne_id | Some e \<Rightarrow> e)
      in l\<lparr>entries := AList.update key (entry\<lparr>cleared_at := Some ts\<rparr>) (entries l),
           ledger_dirty := insert key (ledger_dirty l)\<rparr>)"

definition observe_suppressed :: "Decision \<Rightarrow> int \<Rightarrow> int \<Rightarrow> int \<Rightarrow> string \<Rightarrow> TrapEvent \<Rightarrow> clear_pairs \<Rightarrow> state_clears
    \<Rightarrow> window_index \<Rightarrow> StateLedger \<Rightarrow> StateLedger" where
  "observe_suppressed d ne_id device_id class_id inst item clears states windows l =
     (case decided_window d of
        None \<Rightarrow> l
      | Some w \<Rightarrow>
          (let ws = (case map_of windows ne_id of None \<Rightarrow> [] | Some ws \<Rightarrow> ws);
               window = find (\<lambda>x. window_id x = w) ws
           in if (case window of None \<Rightarrow> False | Some x \<Rightarrow> \<not> ledger_enabled x) then l
              else
                case clear_to_raise clears class_id of
                  Some raise_class \<Rightarrow> observe_clear (LedgerKey w device_id raise_class inst) ne_id (ev_ts item) l
                | None \<Rightarrow>
                    let varbinds = map (\<lambda>vb. (vb_oid vb, vb_value vb)) (ev_varbinds item);
                        said = standard_severity (map (\<lambda>(o', v). (o', Some v)) varbinds);
                        ended = (case said of None \<Rightarrow> False | Some (token, _, _) \<Rightarrow> token = ''cleared'')
                    in if is_clear states class_id varbinds \<or> ended
                       then observe_clear (LedgerKey w device_id class_id inst) ne_id (ev_ts item) l
                       else observe_raise (LedgerKey w device_id class_id inst) ne_id (ev_ts item) l))"

definition unresolved :: "int \<Rightarrow> StateLedger \<Rightarrow> (LedgerKey \<times> LedgerEntry) list" where
  "unresolved w l =
     filter (\<lambda>(k, e). key_window k = w \<and> entry_unresolved e)
       (sort_key (\<lambda>(k, e). (key_device k, key_class k, key_instance k)) (entries l))"

definition forget_window :: "int \<Rightarrow> StateLedger \<Rightarrow> StateLedger" where
  "forget_window w l =
     l\<lparr>entries := filter (\<lambda>(k, e). key_window k \<noteq> w) (entries l),
       ledger_dirty := {k \<in> ledger_dirty l. \<not> (key_window k = w \<and> k \<in> fst ` set (entries l))}\<rparr>"

definition take_dirty :: "StateLedger \<Rightarrow> (LedgerKey \<times> LedgerEntry) list \<times> StateLedger" where
  "take_dirty l =
     (List.map_filter (\<lambda>k. map_option (Pair k) (map_of (entries l) k)) (sorted_list_of_set (ledger_dirty l)),
      l\<lparr>ledger_dirty := {}\<rparr>)"

type_synonym LedgerRow =
  "int \<times> int \<times> int \<times> int \<times> string \<times> seconds option \<times> seconds option \<times> seconds option"

definition to_rows :: "(LedgerKey \<times> LedgerEntry) list \<Rightarrow> LedgerRow list" where
  "to_rows es = map (\<lambda>(k, e). (key_window k, entry_ne_id e, key_device k, key_class k, key_instance k,
     raised_at e, cleared_at e, surfaced_at e)) es"

section \<open>What the ledger says\<close>

datatype observation =
    Raised (obs_key: LedgerKey) (obs_ne: int) (obs_ts: seconds)
  | Cleared (obs_key: LedgerKey) (obs_ne: int) (obs_ts: seconds)

fun observe_ledger :: "observation \<Rightarrow> StateLedger \<Rightarrow> StateLedger" where
  "observe_ledger (Raised k n t) l = observe_raise k n t l"
| "observe_ledger (Cleared k n t) l = observe_clear k n t l"

text \<open>The specification, read off the history: the instant of the first raise after the last
  clear, when there is one.\<close>

definition open_since :: "LedgerKey \<Rightarrow> observation list \<Rightarrow> seconds option" where
  "open_since k obs =
     (let own = filter (\<lambda>o'. obs_key o' = k) obs;
          after = rev (takeWhile (\<lambda>o'. \<exists>n t. o' = Raised k n t) (rev own))
      in case after of [] \<Rightarrow> None | o' # _ \<Rightarrow> Some (obs_ts o'))"

lemma open_since_Nil [simp]: "open_since k [] = None"
  by (simp add: open_since_def)

lemma open_since_snoc:
  "open_since k (obs @ [o']) =
     (if obs_key o' \<noteq> k then open_since k obs
      else case o' of Cleared _ _ _ \<Rightarrow> None
         | Raised _ _ t \<Rightarrow> (case open_since k obs of None \<Rightarrow> Some t | Some s \<Rightarrow> Some s))"
  by (cases o') (auto simp: open_since_def Let_def split: list.splits)

definition ledger_ok :: "StateLedger \<Rightarrow> bool" where
  "ledger_ok l \<longleftrightarrow> distinct (map fst (entries l)) \<and> finite (ledger_dirty l)"

lemma observe_lookup:
  "map_of (entries (observe_raise k n t l)) j =
     (if j = k then Some (let e = (case map_of (entries l) k of None \<Rightarrow> new_entry n | Some e \<Rightarrow> e)
        in if raised_at e = None \<or> cleared_at e \<noteq> None
           then e\<lparr>raised_at := Some t, cleared_at := None, surfaced_at := None\<rparr> else e)
      else map_of (entries l) j)"
  "map_of (entries (observe_clear k n t l)) j =
     (if j = k then Some ((case map_of (entries l) k of None \<Rightarrow> new_entry n | Some e \<Rightarrow> e)\<lparr>cleared_at := Some t\<rparr>)
      else map_of (entries l) j)"
  by (simp_all add: observe_raise_def observe_clear_def Let_def update_conv')

lemma observe_ledger_dirty: "ledger_dirty (observe_ledger o' l) = insert (obs_key o') (ledger_dirty l)"
  by (cases o') (simp_all add: observe_raise_def observe_clear_def Let_def)

lemma observe_ledger_ok: "ledger_ok l \<Longrightarrow> ledger_ok (observe_ledger o' l)"
  by (cases o') (simp_all add: ledger_ok_def observe_raise_def observe_clear_def Let_def distinct_update)

definition entry_matches :: "LedgerEntry option \<Rightarrow> seconds option \<Rightarrow> bool" where
  "entry_matches e since \<longleftrightarrow>
     (case e of None \<Rightarrow> since = None
      | Some e \<Rightarrow> surfaced_at e = None \<and> (if cleared_at e = None then raised_at e else None) = since
          \<and> (cleared_at e = None \<longrightarrow> raised_at e \<noteq> None))"

lemma ledger_matches_history:
  "ledger_ok (fold observe_ledger obs empty_ledger)
   \<and> entry_matches (map_of (entries (fold observe_ledger obs empty_ledger)) k) (open_since k obs)"
proof (induction obs rule: rev_induct)
  case Nil
  show ?case
    by (simp add: ledger_ok_def empty_ledger_def entry_matches_def)
next
  case (snoc o' obs)
  let ?l = "fold observe_ledger obs empty_ledger"
  have m: "entry_matches (map_of (entries (observe_ledger o' ?l)) k) (open_since k (obs @ [o']))"
  proof (cases "map_of (entries ?l) k")
    case None
    with snoc show ?thesis
      by (cases o') (auto simp: entry_matches_def open_since_snoc observe_lookup new_entry_def)
  next
    case (Some e)
    with snoc show ?thesis
      by (cases o'; cases "cleared_at e"; cases "raised_at e")
        (auto simp: entry_matches_def open_since_snoc observe_lookup)
  qed
  with snoc show ?case
    by (simp add: observe_ledger_ok)
qed

lemma unresolved_members:
  "(k, e) \<in> set (unresolved w l) \<longleftrightarrow> (k, e) \<in> set (entries l) \<and> key_window k = w \<and> entry_unresolved e"
  by (auto simp: unresolved_def)

lemma sorted_unresolved:
  "sorted (map (\<lambda>(k, e). (key_device k, key_class k, key_instance k)) (unresolved w l))"
  by (simp add: unresolved_def sorted_filter)

lemma unresolved_lookup:
  assumes "ledger_ok l"
  shows "(k, e) \<in> set (unresolved w l) \<longleftrightarrow> map_of (entries l) k = Some e \<and> key_window k = w \<and> entry_unresolved e"
  using assms by (simp add: unresolved_members ledger_ok_def)

lemma forget_lookup:
  "map_of (entries (forget_window w l)) k = (if key_window k = w then None else map_of (entries l) k)"
proof -
  have "map_of (filter (\<lambda>(k, e). key_window k \<noteq> w) es) k = (if key_window k = w then None else map_of es k)"
    for es :: "(LedgerKey \<times> LedgerEntry) list"
    by (induction es) auto
  then show ?thesis
    by (simp add: forget_window_def)
qed

lemma distinct_fst_filter: "distinct (map fst xs) \<Longrightarrow> distinct (map fst (filter P xs))"
  by (induction xs) (auto dest: filter_is_subset [THEN subsetD])

lemma forget_ok: "ledger_ok l \<Longrightarrow> ledger_ok (forget_window w l)"
  by (simp add: ledger_ok_def forget_window_def distinct_fst_filter)

lemma take_dirty_rows:
  "finite (ledger_dirty l) \<Longrightarrow>
   (k, e) \<in> set (fst (take_dirty l)) \<longleftrightarrow> k \<in> ledger_dirty l \<and> map_of (entries l) k = Some e"
  by (force simp: take_dirty_def List.map_filter_def)

section \<open>Properties\<close>

text \<open>C19: the ledger reports exactly the faults that are still open, with the instant they started. After
  any history of observations of suppressed raises and clears, in any order and over any keys, a key is
  reported by \<open>unresolved\<close> with a raise instant exactly when the history has a raise of that
  key after its last clear, and the instant is that of the first such raise; the report is in
  device, class, instance order.\<close>

theorem ledger_reports_open_faults:
  "((\<exists>e. (k, e) \<in> set (unresolved (key_window k) (fold observe_ledger obs empty_ledger)) \<and> raised_at e = Some t)
      \<longleftrightarrow> open_since k obs = Some t)
    \<and> sorted (map (\<lambda>(k, e). (key_device k, key_class k, key_instance k))
      (unresolved w (fold observe_ledger obs empty_ledger)))"
proof -
  let ?l = "fold observe_ledger obs empty_ledger"
  have ok: "ledger_ok ?l" and m: "entry_matches (map_of (entries ?l) k) (open_since k obs)"
    using ledger_matches_history [of obs k] by simp_all
  have "(\<exists>e. (k, e) \<in> set (unresolved (key_window k) ?l) \<and> raised_at e = Some t) \<longleftrightarrow> open_since k obs = Some t"
  proof (cases "map_of (entries ?l) k")
    case None
    with m show ?thesis
      by (simp add: unresolved_lookup [OF ok] entry_matches_def)
  next
    case (Some e)
    with m show ?thesis
      by (cases "cleared_at e"; cases "raised_at e")
        (auto simp: unresolved_lookup [OF ok] entry_matches_def entry_unresolved_def)
  qed
  then show ?thesis
    by (simp add: sorted_unresolved)
qed

text \<open>A suppressed clear closes the fault of its raise class. When the covering windows of that number
  keep a ledger and the class of the trap is a learned clear, the trap is filed under the raise class:
  the raise of the same device and instance is no longer reported for that window, and the entry of
  every other key stays as it was.\<close>

theorem suppressed_clear_closes_raise:
  assumes "decided_window d = Some w" and "clear_to_raise clears class_id = Some r"
    and "\<forall>x \<in> set (case map_of windows ne_id of None \<Rightarrow> [] | Some ws \<Rightarrow> ws). window_id x = w \<longrightarrow> ledger_enabled x"
    and "ledger_ok l"
  shows "(\<forall>e. (LedgerKey w device_id r inst, e)
      \<notin> set (unresolved w (observe_suppressed d ne_id device_id class_id inst item clears states windows l)))
    \<and> (\<forall>k. k \<noteq> LedgerKey w device_id r inst \<longrightarrow>
      map_of (entries (observe_suppressed d ne_id device_id class_id inst item clears states windows l)) k
        = map_of (entries l) k)"
proof -
  let ?key = "LedgerKey w device_id r inst"
  let ?ws = "case map_of windows ne_id of None \<Rightarrow> [] | Some ws \<Rightarrow> ws"
  have on: "\<not> (case find (\<lambda>x. window_id x = w) ?ws of None \<Rightarrow> False | Some x \<Rightarrow> \<not> ledger_enabled x)"
    using assms(3) by (auto split: option.splits dest!: find_SomeD)
  have step: "observe_suppressed d ne_id device_id class_id inst item clears states windows l
      = observe_clear ?key ne_id (ev_ts item) l"
    unfolding observe_suppressed_def assms(1,2) Let_def option.case if_not_P [OF on] by (rule refl)
  have ok: "ledger_ok (observe_clear ?key ne_id (ev_ts item) l)"
    using observe_ledger_ok [OF assms(4), of "Cleared ?key ne_id (ev_ts item)"] by simp
  show ?thesis
    by (simp add: step unresolved_lookup [OF ok] observe_lookup entry_unresolved_def)
qed

theorem suppressed_clear_closes_raise_witness:
  "let w = build 7 ''cut'' 1 0 100 0 [(4, COLLECT_NOTHING)] True;
       l = observe_raise (LedgerKey 7 4 1 ''p'') 4 10 empty_ledger;
       trap = \<lparr>ev_device = ''d'', ev_trap_oid = ''1.3'', ev_instance = ''p'', ev_ts = 20, ev_varbinds = [], ev_community_tag = []\<rparr>
   in unresolved 7 l \<noteq> []
     \<and> (\<forall>e. (LedgerKey 7 4 1 ''p'', e) \<notin> set (unresolved 7 (observe_suppressed \<lparr>collect = False, decided_window = Some 7\<rparr>
          4 4 2 ''p'' trap (register 1 2 no_pairs) no_states [(4, [w])] l)))"
proof -
  let ?w = "build 7 ''cut'' 1 0 100 0 [(4, COLLECT_NOTHING)] True"
  let ?l = "observe_raise (LedgerKey 7 4 1 ''p'') 4 10 empty_ledger"
  let ?trap = "\<lparr>ev_device = ''d'', ev_trap_oid = ''1.3'', ev_instance = ''p'', ev_ts = 20, ev_varbinds = [], ev_community_tag = []\<rparr>"
  have ok: "ledger_ok ?l"
    by (simp add: ledger_ok_def observe_raise_def empty_ledger_def Let_def)
  have role: "clear_to_raise (register 1 2 no_pairs) 2 = Some 1"
    by (simp add: register_def known_role_def no_pairs_def)
  have "unresolved 7 ?l \<noteq> []"
    by (simp add: unresolved_def observe_raise_def empty_ledger_def new_entry_def entry_unresolved_def Let_def)
  moreover have on: "\<forall>x \<in> set (case map_of [(4, [?w])] 4 of None \<Rightarrow> [] | Some ws \<Rightarrow> ws). window_id x = 7 \<longrightarrow> ledger_enabled x"
    by (simp add: build_def Let_def)
  moreover note suppressed_clear_closes_raise [OF _ role on ok, of "\<lparr>collect = False, decided_window = Some 7\<rparr>" 4 "''p''" ?trap no_states]
  ultimately show ?thesis
    unfolding Let_def by simp
qed

end
