(* ===== verification/Mw_Sweep.thy ===== *)
theory Mw_Sweep
  imports Mw_Ledger
begin

text \<open>
  The maintenance windows in the store (\<open>store/maintenance_windows.py\<close>,
  \<open>store/mw_compile.py\<close>, \<open>store/mw_ledger.py\<close>) and the sweep that moves them
  (\<open>engine/operate/window_sweep.py\<close>), with the routes that edit them. An SQL statement is a
  function on the list of the table's rows; a transaction is one step.
\<close>

section \<open>The window table\<close>

datatype wstatus = Pending_confirmation | Scheduled | Active | Ended | Cancelled | Expired

definition LIVE_STATUSES :: "wstatus list" where
  "LIVE_STATUSES = [Pending_confirmation, Scheduled, Active]"

definition CONFIRMATION_THRESHOLD_S :: seconds where
  "CONFIRMATION_THRESHOLD_S = 6 * 3600"

record mw_window =
  w_id :: int
  w_name :: string
  w_organization_id :: int
  w_status :: wstatus
  w_starts_at :: seconds
  w_ends_at :: seconds
  w_patch_s :: seconds
  w_ledger_enabled :: bool
  w_needs_confirmation :: bool
  w_confirmed_at :: "seconds option"
  w_confirmed_by :: "string option"
  w_ended_at :: "seconds option"
  w_cancelled_at :: "seconds option"
  w_updated_at :: seconds

text \<open>A statement \<open>UPDATE ... WHERE\<close>: the new rows, and whether one matched.\<close>

definition update_where :: "(mw_window \<Rightarrow> bool) \<Rightarrow> (mw_window \<Rightarrow> mw_window) \<Rightarrow> mw_window list \<Rightarrow> mw_window list" where
  "update_where P f ws = map (\<lambda>w. if P w then f w else w) ws"

definition confirm_window :: "int \<Rightarrow> string \<Rightarrow> seconds \<Rightarrow> wstatus \<Rightarrow> mw_window list \<Rightarrow> value_error + bool \<times> mw_window list" where
  "confirm_window wid by_ref now status ws =
     (if status \<notin> {Scheduled, Active} then Inl ValueError
      else
        let P = (\<lambda>w. w_id w = wid \<and> w_status w = Pending_confirmation)
        in Inr (list_ex P ws,
             update_where P (\<lambda>w. w\<lparr>w_status := status, w_confirmed_at := Some now, w_confirmed_by := Some by_ref,
               w_updated_at := now\<rparr>) ws))"

definition cancel_window :: "int \<Rightarrow> seconds \<Rightarrow> mw_window list \<Rightarrow> bool \<times> mw_window list" where
  "cancel_window wid now ws =
     (let P = (\<lambda>w. w_id w = wid \<and> w_status w \<in> set LIVE_STATUSES)
      in (list_ex P ws,
          update_where P (\<lambda>w. w\<lparr>w_status := Cancelled, w_cancelled_at := Some now, w_updated_at := now\<rparr>) ws))"

definition end_window_now :: "int \<Rightarrow> seconds \<Rightarrow> mw_window list \<Rightarrow> bool \<times> mw_window list" where
  "end_window_now wid now ws =
     (let P = (\<lambda>w. w_id w = wid \<and> w_status w \<in> {Active, Scheduled, Pending_confirmation})
      in (list_ex P ws, update_where P (\<lambda>w. w\<lparr>w_status := Ended, w_ended_at := Some now, w_updated_at := now\<rparr>) ws))"

definition update_window_schedule ::
  "int \<Rightarrow> seconds \<Rightarrow> seconds \<Rightarrow> seconds \<Rightarrow> bool \<Rightarrow> wstatus \<Rightarrow> seconds \<Rightarrow> mw_window list \<Rightarrow> mw_window list" where
  "update_window_schedule wid starts ends patch_s needs status now ws =
     update_where (\<lambda>w. w_id w = wid)
       (\<lambda>w. w\<lparr>w_starts_at := starts, w_ends_at := ends, w_patch_s := patch_s, w_needs_confirmation := needs,
              w_status := status, w_updated_at := now,
              w_confirmed_at := (if status = Pending_confirmation then None else w_confirmed_at w),
              w_confirmed_by := (if status = Pending_confirmation then None else w_confirmed_by w)\<rparr>) ws"

definition advance_statuses :: "seconds \<Rightarrow> mw_window list \<Rightarrow> int list \<times> mw_window list" where
  "advance_statuses now ws =
     (let expired = update_where (\<lambda>w. w_status w = Pending_confirmation \<and> w_starts_at w - w_patch_s w \<le> now)
            (\<lambda>w. w\<lparr>w_status := Expired, w_updated_at := now\<rparr>) ws;
          active = update_where (\<lambda>w. w_status w = Scheduled \<and> w_starts_at w - w_patch_s w \<le> now
                \<and> w_ends_at w + w_patch_s w > now)
            (\<lambda>w. w\<lparr>w_status := Active, w_updated_at := now\<rparr>) expired;
          over = (\<lambda>w. w_status w \<in> {Active, Scheduled} \<and> w_ends_at w + w_patch_s w \<le> now)
      in (sort (map w_id (filter over active)),
          update_where over
            (\<lambda>w. w\<lparr>w_status := Ended, w_ended_at := (case w_ended_at w of None \<Rightarrow> Some now | Some t \<Rightarrow> Some t),
                   w_updated_at := now\<rparr>) active))"

section \<open>The edits of the routes\<close>

definition needs_confirmation :: "seconds \<Rightarrow> seconds \<Rightarrow> bool" where
  "needs_confirmation starts ends \<longleftrightarrow> ends - starts > CONFIRMATION_THRESHOLD_S"

definition initial_status :: "seconds \<Rightarrow> seconds \<Rightarrow> wstatus" where
  "initial_status starts now = (if starts \<le> now then Active else Scheduled)"

definition restatus :: "mw_window \<Rightarrow> bool \<Rightarrow> seconds \<Rightarrow> seconds \<Rightarrow> seconds \<Rightarrow> wstatus" where
  "restatus w needs starts now ends =
     (let lengthened = ends - starts > w_ends_at w - w_starts_at w
      in if needs \<and> (w_confirmed_at w = None \<or> lengthened) then Pending_confirmation
         else initial_status starts now)"

text \<open>The create route: the draft's status, and the confirmation of a caller who may give it.\<close>

definition create_window ::
  "int \<Rightarrow> string \<Rightarrow> int \<Rightarrow> seconds \<Rightarrow> seconds \<Rightarrow> seconds \<Rightarrow> bool \<Rightarrow> string option \<Rightarrow> seconds
    \<Rightarrow> mw_window list \<Rightarrow> mw_window list" where
  "create_window wid nm org starts ends patch_s ledger confirm_by now ws =
     (let needs = needs_confirmation starts ends;
          draft = \<lparr>w_id = wid, w_name = nm, w_organization_id = org,
                   w_status = (if needs then Pending_confirmation else initial_status starts now),
                   w_starts_at = starts, w_ends_at = ends, w_patch_s = patch_s, w_ledger_enabled = ledger,
                   w_needs_confirmation = needs, w_confirmed_at = None, w_confirmed_by = None,
                   w_ended_at = None, w_cancelled_at = None, w_updated_at = now\<rparr>;
          ws = ws @ [draft]
      in case confirm_by of
           Some by_ref \<Rightarrow>
             if needs then (case confirm_window wid by_ref now (initial_status starts now) ws of
                 Inl _ \<Rightarrow> ws | Inr (_, ws') \<Rightarrow> ws') else ws
         | None \<Rightarrow> ws)"

definition find_window :: "int \<Rightarrow> mw_window list \<Rightarrow> mw_window option" where
  "find_window wid ws = find (\<lambda>w. w_id w = wid) ws"

definition extend_window :: "int \<Rightarrow> seconds \<Rightarrow> seconds \<Rightarrow> mw_window list \<Rightarrow> mw_window list option" where
  "extend_window wid ends now ws =
     (case find_window wid ws of
        None \<Rightarrow> None
      | Some w \<Rightarrow>
          if w_status w \<notin> set LIVE_STATUSES then None
          else if ends \<le> w_ends_at w then None
          else
            let needs = needs_confirmation (w_starts_at w) ends;
                status = restatus w needs (w_starts_at w) now ends
            in Some (update_window_schedule wid (w_starts_at w) ends (w_patch_s w) needs status now ws))"

text \<open>The update route, after its own checks: any schedule, the status decided again.\<close>

definition edit_window :: "int \<Rightarrow> seconds \<Rightarrow> seconds \<Rightarrow> seconds \<Rightarrow> seconds \<Rightarrow> mw_window list \<Rightarrow> mw_window list" where
  "edit_window wid starts ends patch_s now ws =
     (case find_window wid ws of
        None \<Rightarrow> ws
      | Some w \<Rightarrow>
          let needs = needs_confirmation starts ends
          in update_window_schedule wid starts ends patch_s needs (restatus w needs starts now ends) now ws)"

section \<open>The index rows\<close>

definition INDEX_LOOKAHEAD_S :: seconds where
  "INDEX_LOOKAHEAD_S = 3600"

definition INDEX_LOOKBEHIND_S :: seconds where
  "INDEX_LOOKBEHIND_S = 60"

definition window_index_rows :: "seconds \<Rightarrow> mw_window list \<Rightarrow> (int \<times> int) list \<Rightarrow> (int \<times> rule_row) list \<Rightarrow> window_row list" where
  "window_index_rows now ws tgts rules =
     map (\<lambda>w. \<lparr>row_id = w_id w, row_name = w_name w, row_organization_id = w_organization_id w,
            row_starts_at = w_starts_at w, row_ends_at = w_ends_at w, row_patch_s = w_patch_s w,
            row_ledger_enabled = w_ledger_enabled w,
            row_targets = sort (map snd (filter (\<lambda>(x, _). x = w_id w) tgts)),
            row_rules = map snd (filter (\<lambda>(x, _). x = w_id w) rules)\<rparr>)
       (sort_key w_id
         (filter (\<lambda>w. w_status w \<in> {Scheduled, Active}
            \<and> w_starts_at w - w_patch_s w \<le> now + INDEX_LOOKAHEAD_S
            \<and> w_ends_at w + w_patch_s w \<ge> now - INDEX_LOOKBEHIND_S) ws))"

section \<open>The ledger table and the alarms it surfaces\<close>

record ledger_cols =
  col_raised_at :: "seconds option"
  col_cleared_at :: "seconds option"
  col_surfaced_at :: "seconds option"

type_synonym ledger_pk = "int \<times> int \<times> int \<times> string"

definition coalesce :: "'a option \<Rightarrow> 'a option \<Rightarrow> 'a option" where
  "coalesce a b = (case a of None \<Rightarrow> b | Some x \<Rightarrow> Some x)"

definition merge_cols :: "ledger_cols option \<Rightarrow> ledger_cols \<Rightarrow> ledger_cols" where
  "merge_cols old new =
     (case old of None \<Rightarrow> new
      | Some o' \<Rightarrow> \<lparr>col_raised_at = coalesce (col_raised_at new) (col_raised_at o'), col_cleared_at = col_cleared_at new,
                   col_surfaced_at = coalesce (col_surfaced_at new) (col_surfaced_at o')\<rparr>)"

definition row_pk :: "LedgerRow \<Rightarrow> ledger_pk" where
  "row_pk row = (case row of (w, ne, _, c, i, _) \<Rightarrow> (w, ne, c, i))"

definition row_cols :: "LedgerRow \<Rightarrow> ledger_cols" where
  "row_cols row = (case row of (_, _, _, _, _, r, cl, s) \<Rightarrow> \<lparr>col_raised_at = r, col_cleared_at = cl, col_surfaced_at = s\<rparr>)"

definition flush_ledger :: "LedgerRow list \<Rightarrow> (ledger_pk \<times> ledger_cols) list \<Rightarrow> (ledger_pk \<times> ledger_cols) list" where
  "flush_ledger rows table =
     fold (\<lambda>row table. AList.update (row_pk row) (merge_cols (map_of table (row_pk row)) (row_cols row)) table) rows table"

definition unresolved_ledger :: "int \<Rightarrow> (ledger_pk \<times> ledger_cols) list \<Rightarrow> LedgerRow list" where
  "unresolved_ledger wid table =
     map (\<lambda>((w, ne, c, i), cols). (wid, ne, ne, c, i, col_raised_at cols, col_cleared_at cols, col_surfaced_at cols))
       (sort_key (\<lambda>((w, ne, c, i), cols). (ne, c, i))
         (filter (\<lambda>((w, ne, c, i), cols). w = wid \<and> col_raised_at cols \<noteq> None \<and> col_cleared_at cols = None
            \<and> col_surfaced_at cols = None) table))"

definition mark_ledger_surfaced :: "LedgerRow \<Rightarrow> seconds \<Rightarrow> (ledger_pk \<times> ledger_cols) list \<Rightarrow> (ledger_pk \<times> ledger_cols) list" where
  "mark_ledger_surfaced row now table =
     map (\<lambda>(k, cols). (k, if k = row_pk row then cols\<lparr>col_surfaced_at := Some now\<rparr> else cols)) table"

text \<open>An alarm row; \<open>al_active\<close> is \<open>status = 'active'\<close>. The entity column is left out.\<close>

type_synonym alarm_pk = "int \<times> int \<times> string"

record alarm_row =
  al_id :: int
  al_active :: bool
  al_first_seen :: seconds
  al_last_seen :: seconds
  al_cleared_at :: "seconds option"
  al_surfaced_from :: "int option"
  al_surfaced_at :: "seconds option"
  al_surfaced_ack :: "seconds option"

record window_member =
  wm_alarm :: int
  wm_class :: int
  wm_device :: int
  wm_first_seen :: seconds

record mw_state =
  mw_windows :: "mw_window list"
  mw_targets :: "(int \<times> int) list"
  mw_rules :: "(int \<times> rule_row) list"
  mw_table :: "(ledger_pk \<times> ledger_cols) list"
  mw_alarms :: "(alarm_pk \<times> alarm_row) list"
  mw_next_alarm :: int
  mw_next_situation :: int
  mw_sit_of :: "(int \<times> int) list"
  mw_members :: "(int \<times> window_member list) list"
  mw_memory :: StateLedger
  mw_snapshot :: window_index

definition alarm_key :: "LedgerRow \<Rightarrow> alarm_pk" where
  "alarm_key row = (case row of (_, ne, _, c, i, _) \<Rightarrow> (ne, c, i))"

definition row_raised :: "LedgerRow \<Rightarrow> seconds option" where
  "row_raised row = col_raised_at (row_cols row)"

definition surface_ledger_entry :: "LedgerRow \<Rightarrow> seconds \<Rightarrow> mw_state \<Rightarrow> int option \<times> mw_state" where
  "surface_ledger_entry row now st =
     (let raised = (case row_raised row of None \<Rightarrow> now | Some t \<Rightarrow> t)
      in case map_of (mw_alarms st) (alarm_key row) of
           Some a \<Rightarrow>
             if al_active a then (None, st)
             else (Some (al_id a),
                   st\<lparr>mw_alarms := AList.update (alarm_key row)
                        (a\<lparr>al_active := True, al_cleared_at := None, al_last_seen := now,
                           al_surfaced_from := Some (fst row), al_surfaced_at := Some now, al_surfaced_ack := None\<rparr>)
                        (mw_alarms st)\<rparr>)
         | None \<Rightarrow>
             (Some (mw_next_alarm st),
              st\<lparr>mw_alarms := AList.update (alarm_key row)
                   \<lparr>al_id = mw_next_alarm st, al_active = True, al_first_seen = raised, al_last_seen = now,
                    al_cleared_at = None, al_surfaced_from = Some (fst row), al_surfaced_at = Some now,
                    al_surfaced_ack = None\<rparr> (mw_alarms st),
                 mw_next_alarm := mw_next_alarm st + 1\<rparr>))"

definition file_surfaced :: "int \<Rightarrow> LedgerRow \<Rightarrow> seconds \<Rightarrow> int option \<Rightarrow> mw_state \<Rightarrow> int \<times> mw_state" where
  "file_surfaced alarm row now situation st =
     (let first_seen = (case row_raised row of None \<Rightarrow> now | Some t \<Rightarrow> t);
          (sid, st) = (case situation of
             Some sid \<Rightarrow> (sid, st)
           | None \<Rightarrow> (mw_next_situation st,
               st\<lparr>mw_next_situation := mw_next_situation st + 1,
                  mw_members := AList.update (mw_next_situation st) [] (mw_members st)\<rparr>));
          member = (case row of (_, _, dev, c, _) \<Rightarrow>
             \<lparr>wm_alarm = alarm, wm_class = c, wm_device = dev, wm_first_seen = first_seen\<rparr>)
      in (sid, st\<lparr>mw_sit_of := AList.update alarm sid (mw_sit_of st),
                  mw_members := AList.update sid
                    ((case map_of (mw_members st) sid of None \<Rightarrow> [] | Some ms \<Rightarrow> ms) @ [member]) (mw_members st)\<rparr>))"

fun surface_entries :: "LedgerRow list \<Rightarrow> seconds \<Rightarrow> int option \<Rightarrow> nat \<Rightarrow> mw_state \<Rightarrow> nat \<times> mw_state" where
  "surface_entries [] now situation surfaced st = (surfaced, st)"
| "surface_entries (row # rows) now situation surfaced st =
     (let (alarm, st1) = surface_ledger_entry row now st
      in case alarm of
           Some a \<Rightarrow>
             (let (sid, st2) = file_surfaced a row now situation st1
              in surface_entries rows now (Some sid) (Suc surfaced)
                   (st2\<lparr>mw_table := mark_ledger_surfaced row now (mw_table st2)\<rparr>))
         | None \<Rightarrow>
             surface_entries rows now situation surfaced
               (st1\<lparr>mw_table := mark_ledger_surfaced row now (mw_table st1)\<rparr>))"

definition surface_window :: "int \<Rightarrow> seconds \<Rightarrow> mw_state \<Rightarrow> nat \<times> mw_state" where
  "surface_window wid now st = surface_entries (unresolved_ledger wid (mw_table st)) now None 0 st"

definition forget_in_memory :: "int \<Rightarrow> mw_state \<Rightarrow> mw_state" where
  "forget_in_memory wid st = st\<lparr>mw_memory := forget_window wid (mw_memory st)\<rparr>"

definition surface_window_now :: "int \<Rightarrow> seconds \<Rightarrow> mw_state \<Rightarrow> nat \<times> mw_state" where
  "surface_window_now wid now st =
     (let (n, st) = surface_window wid now st in (n, forget_in_memory wid st))"

definition flush_memory :: "mw_state \<Rightarrow> mw_state" where
  "flush_memory st =
     (let (rows, memory) = take_dirty (mw_memory st)
      in st\<lparr>mw_memory := memory, mw_table := flush_ledger (to_rows rows) (mw_table st)\<rparr>)"

definition maintenance_windows :: "seconds \<Rightarrow> mw_state \<Rightarrow> mw_state" where
  "maintenance_windows now st =
     (let (just_ended, ws) = advance_statuses now (mw_windows st);
          st = flush_memory (st\<lparr>mw_windows := ws\<rparr>);
          st = fold (\<lambda>wid st. forget_in_memory wid (snd (surface_window wid now st))) just_ended st
      in st\<lparr>mw_snapshot := from_rows (window_index_rows now (mw_windows st) (mw_targets st) (mw_rules st))\<rparr>)"

text \<open>The route \<open>POST /api/maintenance-windows/{wid}/end\<close>: \<open>None\<close> is its 409.\<close>

definition end_window_route :: "int \<Rightarrow> seconds \<Rightarrow> mw_state \<Rightarrow> (nat \<times> mw_state) option" where
  "end_window_route wid now st =
     (let (matched, ws) = end_window_now wid now (mw_windows st)
      in if matched then Some (surface_window_now wid now (st\<lparr>mw_windows := ws\<rparr>)) else None)"

definition cancel_window_route :: "int \<Rightarrow> seconds \<Rightarrow> mw_state \<Rightarrow> mw_state option" where
  "cancel_window_route wid now st =
     (let (matched, ws) = cancel_window wid now (mw_windows st)
      in if matched then Some (st\<lparr>mw_windows := ws\<rparr>) else None)"

definition extend_window_route :: "int \<Rightarrow> seconds \<Rightarrow> seconds \<Rightarrow> mw_state \<Rightarrow> mw_state option" where
  "extend_window_route wid ends now st =
     map_option (\<lambda>ws. st\<lparr>mw_windows := ws\<rparr>) (extend_window wid ends now (mw_windows st))"

section \<open>The ledger table behind the memory\<close>

definition entry_cols :: "LedgerEntry \<Rightarrow> ledger_cols" where
  "entry_cols e = \<lparr>col_raised_at = raised_at e, col_cleared_at = cleared_at e, col_surfaced_at = surfaced_at e\<rparr>"

definition pk_key :: "ledger_pk \<Rightarrow> LedgerKey" where
  "pk_key p = (case p of (w, ne, c, i) \<Rightarrow> LedgerKey w ne c i)"

lemma pk_key_tuple [simp]: "pk_key (key_tuple k) = k" "key_tuple (pk_key p) = p"
  by (cases k; simp add: pk_key_def key_tuple_def) (cases p; simp add: pk_key_def key_tuple_def)

text \<open>The table keys on the element where the memory keys on the device; since the device id is the
  element id, an entry's element is the device of its key.\<close>

definition memory_ok :: "StateLedger \<Rightarrow> bool" where
  "memory_ok l \<longleftrightarrow> ledger_ok l
     \<and> (\<forall>k e. map_of (entries l) k = Some e \<longrightarrow> entry_ne_id e = key_device k \<and> surfaced_at e = None)"

definition memory_items :: "StateLedger \<Rightarrow> ledger_pk \<rightharpoonup> ledger_cols" where
  "memory_items l p = map_option entry_cols (map_of (entries l) (pk_key p))"

definition memory_step :: "StateLedger \<Rightarrow> StateLedger \<Rightarrow> bool" where
  "memory_step l m \<longleftrightarrow>
     (\<exists>o'. obs_ne o' = key_device (obs_key o') \<and> m = observe_ledger o' l) \<or> (\<exists>w. m = forget_window w l)"

definition rows_kv :: "LedgerRow list \<Rightarrow> (ledger_pk \<times> ledger_cols) list" where
  "rows_kv rows = map (\<lambda>r. (row_pk r, row_cols r)) rows"

definition memory_take :: "StateLedger \<Rightarrow> (ledger_pk \<times> ledger_cols) list \<times> StateLedger" where
  "memory_take l = (rows_kv (to_rows (fst (take_dirty l))), snd (take_dirty l))"

definition cols_hold :: "ledger_cols \<Rightarrow> ledger_cols \<Rightarrow> bool" where
  "cols_hold v u \<longleftrightarrow> col_cleared_at u = col_cleared_at v
     \<and> (col_raised_at v \<noteq> None \<longrightarrow> col_raised_at u = col_raised_at v)
     \<and> (col_surfaced_at v \<noteq> None \<longrightarrow> col_surfaced_at u = col_surfaced_at v)"

lemma merge_cols_hold: "cols_hold v (merge_cols old v)"
  by (cases old) (auto simp: cols_hold_def merge_cols_def coalesce_def)

lemma flush_ledger_upsert: "map_of (flush_ledger rows table) = upsert merge_cols (rows_kv rows) (map_of table)"
  unfolding flush_ledger_def upsert_def rows_kv_def
  by (induction rows arbitrary: table) (simp_all add: update_conv' del: fun_upd_apply)

lemma rows_kv_to_rows:
  "rows_kv (to_rows es) = map (\<lambda>(k, e). ((key_window k, entry_ne_id e, key_class k, key_instance k), entry_cols e)) es"
  by (auto simp: rows_kv_def to_rows_def row_pk_def row_cols_def entry_cols_def)

lemma memory_rows:
  assumes "memory_ok l"
  shows "(p, c) \<in> set (fst (memory_take l)) \<longleftrightarrow> pk_key p \<in> ledger_dirty l \<and> memory_items l p = Some c"
proof -
  have fin: "finite (ledger_dirty l)"
    using assms by (simp add: memory_ok_def ledger_ok_def)
  have "(p, c) \<in> set (fst (memory_take l)) \<longleftrightarrow>
      (\<exists>k e. k \<in> ledger_dirty l \<and> map_of (entries l) k = Some e
        \<and> p = (key_window k, entry_ne_id e, key_class k, key_instance k) \<and> c = entry_cols e)"
    unfolding memory_take_def fst_conv rows_kv_to_rows using take_dirty_rows [OF fin] by auto
  also have "\<dots> \<longleftrightarrow> (\<exists>k e. k \<in> ledger_dirty l \<and> map_of (entries l) k = Some e \<and> p = key_tuple k \<and> c = entry_cols e)"
    using assms by (auto simp: memory_ok_def key_tuple_def)
  also have "\<dots> \<longleftrightarrow> pk_key p \<in> ledger_dirty l \<and> memory_items l p = Some c"
    by (auto simp: memory_items_def)
  finally show ?thesis .
qed

lemma memory_ok_observe:
  assumes "memory_ok l" and "obs_ne o' = key_device (obs_key o')"
  shows "memory_ok (observe_ledger o' l)"
proof -
  have "entry_ne_id e = key_device k \<and> surfaced_at e = None" if "map_of (entries (observe_ledger o' l)) k = Some e" for k e
    using that assms
    by (cases o') (auto simp: memory_ok_def observe_lookup Let_def new_entry_def split: if_splits option.splits)
  then show ?thesis
    using assms(1) by (simp add: memory_ok_def observe_ledger_ok)
qed

lemma memory_ok_forget: "memory_ok l \<Longrightarrow> memory_ok (forget_window w l)"
  by (auto simp: memory_ok_def forget_ok forget_lookup split: if_splits)

lemma take_dirty_entries [simp]:
  "entries (snd (take_dirty l)) = entries l" "ledger_dirty (snd (take_dirty l)) = {}"
  by (simp_all add: take_dirty_def)

lemma memory_step_marks:
  assumes "memory_step s t" and "memory_items t p = Some v" and "pk_key p \<notin> ledger_dirty t"
  shows "memory_items s p = Some v \<and> pk_key p \<notin> ledger_dirty s"
proof -
  from assms(1) consider (obs) o' where "t = observe_ledger o' s" | (forget) w where "t = forget_window w s"
    by (auto simp: memory_step_def)
  then show ?thesis
  proof cases
    case obs
    then have "pk_key p \<noteq> obs_key o'" "pk_key p \<notin> ledger_dirty s"
      using assms(3) by (simp_all add: observe_ledger_dirty)
    with obs assms(2) show ?thesis
      by (cases o') (simp_all add: memory_items_def observe_lookup)
  next
    case forget
    with assms(2) have "key_window (pk_key p) \<noteq> w"
      by (auto simp: memory_items_def forget_lookup split: if_splits)
    moreover from this have "pk_key p \<notin> ledger_dirty s"
      using forget assms(3) by (auto simp: forget_window_def)
    ultimately show ?thesis
      using assms(2) by (simp add: forget memory_items_def forget_lookup)
  qed
qed

interpretation ledger_store: write_behind memory_items "\<lambda>l. key_tuple ` ledger_dirty l" memory_step memory_take memory_ok
  merge_cols cols_hold
proof
  show "memory_ok t" if "memory_ok s" "memory_step s t" for s t
    using that by (auto simp: memory_step_def memory_ok_observe memory_ok_forget)
  show "memory_items s p = Some v \<and> p \<notin> key_tuple ` ledger_dirty s"
    if "memory_ok s" "memory_step s t" "memory_items t p = Some v" "p \<notin> key_tuple ` ledger_dirty t" for s t p v
  proof -
    have iff: "p \<in> key_tuple ` D \<longleftrightarrow> pk_key p \<in> D" for D
      by (metis image_iff pk_key_tuple)
    show ?thesis
      using memory_step_marks [OF that(2,3)] that(4) by (simp add: iff)
  qed
  show "memory_ok (snd (memory_take s))" if "memory_ok s" for s
    using that by (simp add: memory_take_def memory_ok_def ledger_ok_def)
  show "memory_items (snd (memory_take s)) = memory_items s" for s
    by (simp add: memory_take_def memory_items_def fun_eq_iff)
  show "(p, v) \<in> set (fst (memory_take s))"
    if "memory_ok s" "p \<in> key_tuple ` ledger_dirty s" "memory_items s p = Some v" for s p v
    using that by (auto simp: memory_rows)
  show "memory_items s p = Some v" if "memory_ok s" "(p, v) \<in> set (fst (memory_take s))" for s p v
    using that by (simp add: memory_rows)
  show "cols_hold v (merge_cols old v)" for v old
    by (rule merge_cols_hold)
qed

section \<open>Surfacing\<close>

definition is_active :: "mw_state \<Rightarrow> alarm_pk \<Rightarrow> bool" where
  "is_active st k \<longleftrightarrow> (\<exists>a. map_of (mw_alarms st) k = Some a \<and> al_active a)"

lemma surface_ledger_entry_fields [simp]:
  "mw_table (snd (surface_ledger_entry row now st)) = mw_table st"
  "mw_memory (snd (surface_ledger_entry row now st)) = mw_memory st"
  "mw_windows (snd (surface_ledger_entry row now st)) = mw_windows st"
  by (simp_all add: surface_ledger_entry_def Let_def split: option.splits)

lemma file_surfaced_fields [simp]:
  "mw_table (snd (file_surfaced a row now sit st)) = mw_table st"
  "mw_memory (snd (file_surfaced a row now sit st)) = mw_memory st"
  "mw_windows (snd (file_surfaced a row now sit st)) = mw_windows st"
  "mw_alarms (snd (file_surfaced a row now sit st)) = mw_alarms st"
  by (simp_all add: file_surfaced_def Let_def split: option.splits prod.splits)

lemma surface_ledger_entry_active: "is_active (snd (surface_ledger_entry row now st)) (alarm_key row)"
  by (auto simp: surface_ledger_entry_def is_active_def Let_def update_conv' split: option.splits)

lemma surface_ledger_entry_mono: "is_active st k \<Longrightarrow> is_active (snd (surface_ledger_entry row now st)) k"
  by (auto simp: surface_ledger_entry_def is_active_def Let_def update_conv' split: option.splits)

text \<open>One iteration of the loop, whatever its two branches do.\<close>

lemma surface_entries_step:
  obtains sit' n' st' where
    "surface_entries (row # rows) now sit n st = surface_entries rows now sit' n' st'"
    "mw_alarms st' = mw_alarms (snd (surface_ledger_entry row now st))"
    "mw_table st' = mark_ledger_surfaced row now (mw_table st)"
    "mw_memory st' = mw_memory st" "mw_windows st' = mw_windows st"
proof -
  obtain al st1 where e: "surface_ledger_entry row now st = (al, st1)"
    by fastforce
  have st1: "mw_alarms st1 = mw_alarms (snd (surface_ledger_entry row now st))" "mw_table st1 = mw_table st"
      "mw_memory st1 = mw_memory st" "mw_windows st1 = mw_windows st"
    using surface_ledger_entry_fields [of row now st] by (simp_all add: e)
  show ?thesis
  proof (cases al)
    case None
    show ?thesis
      by (rule that [of sit n "st1\<lparr>mw_table := mark_ledger_surfaced row now (mw_table st1)\<rparr>"])
        (simp_all add: None e st1(2-4))
  next
    case (Some a)
    obtain sid st2 where f: "file_surfaced a row now sit st1 = (sid, st2)"
      by fastforce
    have st2: "mw_alarms st2 = mw_alarms st1" "mw_table st2 = mw_table st1" "mw_memory st2 = mw_memory st1"
        "mw_windows st2 = mw_windows st1"
      using file_surfaced_fields [of a row now sit st1] by (simp_all add: f)
    show ?thesis
      by (rule that [of "Some sid" "Suc n" "st2\<lparr>mw_table := mark_ledger_surfaced row now (mw_table st2)\<rparr>"])
        (simp_all add: Some e f st2 st1(2-4))
  qed
qed

lemma is_active_cong: "mw_alarms st = mw_alarms st' \<Longrightarrow> is_active st k = is_active st' k"
  by (simp add: is_active_def)

lemma surface_entries_active:
  "(is_active st k \<or> (\<exists>row \<in> set rows. alarm_key row = k)) \<Longrightarrow> is_active (snd (surface_entries rows now sit n st)) k"
proof (induction rows arbitrary: sit n st)
  case (Cons row rows)
  obtain sit' n' st' where s: "surface_entries (row # rows) now sit n st = surface_entries rows now sit' n' st'"
      "mw_alarms st' = mw_alarms (snd (surface_ledger_entry row now st))"
    by (rule surface_entries_step)
  have "is_active st' k \<or> (\<exists>r \<in> set rows. alarm_key r = k)"
    using Cons.prems surface_ledger_entry_active [of row now st] surface_ledger_entry_mono [of st k row now]
    by (auto simp: is_active_cong [OF s(2)])
  then show ?case
    unfolding s(1) by (rule Cons.IH)
qed simp

lemma surface_entries_frame:
  "mw_memory (snd (surface_entries rows now sit n st)) = mw_memory st
   \<and> mw_windows (snd (surface_entries rows now sit n st)) = mw_windows st
   \<and> ((\<forall>row \<in> set rows. row_pk row \<noteq> p) \<longrightarrow>
       map_of (mw_table (snd (surface_entries rows now sit n st))) p = map_of (mw_table st) p)"
proof (induction rows arbitrary: sit n st)
  case (Cons row rows)
  obtain sit' n' st' where s: "surface_entries (row # rows) now sit n st = surface_entries rows now sit' n' st'"
      "mw_table st' = mark_ledger_surfaced row now (mw_table st)" "mw_memory st' = mw_memory st" "mw_windows st' = mw_windows st"
    by (rule surface_entries_step)
  have "map_of (mark_ledger_surfaced row now t) p = map_of t p" if "row_pk row \<noteq> p" for t
    using that unfolding mark_ledger_surfaced_def by (induction t) auto
  with Cons.IH [of sit' n' st'] show ?case
    unfolding s(1) using s(2-4) by auto
qed simp

lemma unresolved_ledger_row:
  assumes "map_of table (w, ne, c, i) = Some cols" and "col_raised_at cols \<noteq> None" and "col_cleared_at cols = None"
    and "col_surfaced_at cols = None"
  shows "\<exists>row \<in> set (unresolved_ledger w table). alarm_key row = (ne, c, i)"
proof -
  have "((w, ne, c, i), cols) \<in> set table"
    using assms(1) by (rule map_of_SomeD)
  with assms(2-4) have "(w, ne, ne, c, i, col_raised_at cols, col_cleared_at cols, col_surfaced_at cols) \<in> set (unresolved_ledger w table)"
    unfolding unresolved_ledger_def by force
  then show ?thesis
    by (rule bexI [rotated]) (simp add: alarm_key_def)
qed

lemma unresolved_ledger_window: "row \<in> set (unresolved_ledger w table) \<Longrightarrow> \<exists>ne c i. row_pk row = (w, ne, c, i)"
  by (auto simp: unresolved_ledger_def row_pk_def)

lemma surface_window_active:
  assumes "is_active st k \<or> (\<exists>cols. map_of (mw_table st) (w, k) = Some cols \<and> col_raised_at cols \<noteq> None
      \<and> col_cleared_at cols = None \<and> col_surfaced_at cols = None)"
  shows "is_active (snd (surface_window w now st)) k"
proof -
  obtain ne c i where k: "k = (ne, c, i)"
    by (cases k)
  show ?thesis
    unfolding surface_window_def
    using assms unresolved_ledger_row [of "mw_table st" w ne c i] by (intro surface_entries_active) (auto simp: k)
qed

lemma surface_window_frame:
  "mw_memory (snd (surface_window w now st)) = mw_memory st"
  "mw_windows (snd (surface_window w now st)) = mw_windows st"
  "v \<noteq> w \<Longrightarrow> map_of (mw_table (snd (surface_window w now st))) (v, k) = map_of (mw_table st) (v, k)"
  unfolding surface_window_def
  using surface_entries_frame [of "unresolved_ledger w (mw_table st)" now None 0 st "(v, k)"]
    unresolved_ledger_window [of _ w "mw_table st"] by fastforce+

definition end_one :: "seconds \<Rightarrow> int \<Rightarrow> mw_state \<Rightarrow> mw_state" where
  "end_one now wid st = forget_in_memory wid (snd (surface_window wid now st))"

lemma end_one_frame:
  "mw_windows (end_one now w st) = mw_windows st"
  "map_of (entries (mw_memory (end_one now w st))) k
     = (if key_window k = w then None else map_of (entries (mw_memory st)) k)"
  by (simp_all add: end_one_def forget_in_memory_def surface_window_frame forget_lookup)

lemma end_all_frame:
  "mw_windows (fold (end_one now) ids st) = mw_windows st
   \<and> map_of (entries (mw_memory (fold (end_one now) ids st))) k
       = (if key_window k \<in> set ids then None else map_of (entries (mw_memory st)) k)"
  by (induction ids arbitrary: st) (auto simp: end_one_frame)

lemma end_all_active:
  "(is_active st k \<or> w \<in> set ids \<and> (\<exists>cols. map_of (mw_table st) (w, k) = Some cols \<and> col_raised_at cols \<noteq> None
      \<and> col_cleared_at cols = None \<and> col_surfaced_at cols = None))
   \<Longrightarrow> is_active (fold (end_one now) ids st) k"
proof (induction ids arbitrary: st)
  case (Cons v ids)
  have act: "is_active (end_one now v st) k = is_active (snd (surface_window v now st)) k"
    by (simp add: end_one_def forget_in_memory_def is_active_def)
  have tab: "mw_table (end_one now v st) = mw_table (snd (surface_window v now st))"
    by (simp add: end_one_def forget_in_memory_def)
  show ?case
  proof (cases "is_active st k \<or> v = w")
    case True
    then have "is_active (end_one now v st) k"
      unfolding act using Cons.prems by (intro surface_window_active) blast
    then show ?thesis
      using Cons.IH [of "end_one now v st"] by simp
  next
    case False
    then have "map_of (mw_table (end_one now v st)) (w, k) = map_of (mw_table st) (w, k)"
      by (simp add: tab surface_window_frame)
    with False Cons.prems show ?thesis
      using Cons.IH [of "end_one now v st"] by simp
  qed
qed simp

lemma maintenance_windows_fold:
  "maintenance_windows now st =
     (let (ids, ws) = advance_statuses now (mw_windows st);
          st = fold (end_one now) ids (flush_memory (st\<lparr>mw_windows := ws\<rparr>))
      in st\<lparr>mw_snapshot := from_rows (window_index_rows now (mw_windows st) (mw_targets st) (mw_rules st))\<rparr>)"
  by (simp add: maintenance_windows_def end_one_def [abs_def] Let_def split: prod.splits)

lemma flush_memory_table:
  "mw_table (flush_memory st) = flush_ledger (to_rows (fst (take_dirty (mw_memory st)))) (mw_table st)"
  "mw_memory (flush_memory st) = snd (take_dirty (mw_memory st))"
  "mw_windows (flush_memory st) = mw_windows st"
  by (simp_all add: flush_memory_def split: prod.splits)

text \<open>The durable ledger is behind the memory by the dirty keys only: the invariant of the
  write-behind contract, for the table of this state.\<close>

definition table_behind :: "mw_state \<Rightarrow> bool" where
  "table_behind st \<longleftrightarrow> ledger_store.saved (mw_memory st) (map_of (mw_table st))"

lemma flushed_row:
  assumes "table_behind st" and "map_of (entries (mw_memory st)) k = Some e"
  shows "\<exists>u. map_of (mw_table (flush_memory st)) (key_tuple k) = Some u \<and> cols_hold (entry_cols e) u"
proof -
  have "memory_items (mw_memory st) (key_tuple k) = Some (entry_cols e)"
    using assms(2) by (simp add: memory_items_def)
  from ledger_store.flush_complete [OF _ this] assms(1) show ?thesis
    by (simp add: table_behind_def flush_memory_table flush_ledger_upsert memory_take_def)
qed

lemma flushed_unsurfaced:
  assumes "memory_ok (mw_memory st)" and "\<And>cols. map_of (mw_table st) p = Some cols \<Longrightarrow> col_surfaced_at cols = None"
    and "map_of (entries (mw_memory st)) (pk_key p) = Some e" and "surfaced_at e = None"
    and "map_of (mw_table (flush_memory st)) p = Some u"
  shows "col_surfaced_at u = None"
proof -
  have rows: "c = entry_cols e" if "(p, c) \<in> set (rows_kv (to_rows (fst (take_dirty (mw_memory st)))))" for c
    using memory_rows [OF assms(1), of p c] that assms(3) by (auto simp: memory_take_def memory_items_def)
  have gen: "col_surfaced_at v = None"
    if "upsert merge_cols kv db p = Some v" "\<And>c. (p, c) \<in> set kv \<Longrightarrow> c = entry_cols e"
       "\<And>c. db p = Some c \<Longrightarrow> col_surfaced_at c = None" for kv db v
    using that
  proof (induction kv arbitrary: db)
    case Nil
    then show ?case by (simp add: upsert_def)
  next
    case (Cons x kv)
    obtain j c where x: "x = (j, c)" by (cases x)
    have "upsert merge_cols kv (db(j \<mapsto> merge_cols (db j) c)) p = Some v"
      using Cons.prems(1) by (simp add: upsert_def x del: fun_upd_apply)
    then show ?case
    proof (rule Cons.IH)
      show "c = entry_cols e" if "(p, c) \<in> set kv" for c
        using that Cons.prems(2) by simp
      show "col_surfaced_at b = None" if "(db(j \<mapsto> merge_cols (db j) c)) p = Some b" for b
        using that Cons.prems(2) [of c] Cons.prems(3) assms(4)
        by (auto simp: x merge_cols_def coalesce_def entry_cols_def split: if_splits option.splits)
    qed
  qed
  show ?thesis
    using gen [OF _ rows assms(2)] assms(5) by (simp add: flush_memory_table flush_ledger_upsert)
qed

section \<open>Reachable states\<close>

definition mw_empty :: mw_state where
  "mw_empty = \<lparr>mw_windows = [], mw_targets = [], mw_rules = [], mw_table = [], mw_alarms = [], mw_next_alarm = 1,
     mw_next_situation = 1, mw_sit_of = [], mw_members = [], mw_memory = empty_ledger, mw_snapshot = []\<rparr>"

text \<open>The routes, the ingest path (an observation of the state ledger, or any change of the alarm
  table) and the sweep, in any order and at any instants.\<close>

inductive mw_reach :: "mw_state \<Rightarrow> bool" where
  empty: "mw_reach mw_empty"
| create: "mw_reach st \<Longrightarrow> wid \<notin> w_id ` set (mw_windows st) \<Longrightarrow> mw_reach (st\<lparr>mw_windows :=
    create_window wid nm org starts ends patch_s ledger confirm_by now (mw_windows st)\<rparr>)"
| confirm: "mw_reach st \<Longrightarrow> confirm_window wid by_ref now status (mw_windows st) = Inr (matched, ws) \<Longrightarrow>
    mw_reach (st\<lparr>mw_windows := ws\<rparr>)"
| edit: "mw_reach st \<Longrightarrow> mw_reach (st\<lparr>mw_windows := edit_window wid starts ends patch_s now (mw_windows st)\<rparr>)"
| extend: "mw_reach st \<Longrightarrow> extend_window_route wid ends now st = Some st' \<Longrightarrow> mw_reach st'"
| cancel: "mw_reach st \<Longrightarrow> cancel_window_route wid now st = Some st' \<Longrightarrow> mw_reach st'"
| end_now: "mw_reach st \<Longrightarrow> end_window_route wid now st = Some (n, st') \<Longrightarrow> mw_reach st'"
| retarget: "mw_reach st \<Longrightarrow> mw_reach (st\<lparr>mw_targets := tgts, mw_rules := rules\<rparr>)"
| suppress: "mw_reach st \<Longrightarrow> obs_ne o' = key_device (obs_key o') \<Longrightarrow>
    mw_reach (st\<lparr>mw_memory := observe_ledger o' (mw_memory st)\<rparr>)"
| alarms_change: "mw_reach st \<Longrightarrow> mw_reach (st\<lparr>mw_alarms := alarms\<rparr>)"
| tick: "mw_reach st \<Longrightarrow> mw_reach (maintenance_windows now st)"

inductive_cases mw_reach_tickE: "mw_reach (maintenance_windows now st)"

lemma mark_times:
  "map_of t p = Some c \<Longrightarrow> \<exists>c'. map_of (mark_ledger_surfaced row now t) p = Some c'
     \<and> col_raised_at c' = col_raised_at c \<and> col_cleared_at c' = col_cleared_at c"
  unfolding mark_ledger_surfaced_def by (induction t) (auto split: if_splits)

lemma surface_entries_times:
  "map_of (mw_table st) p = Some c \<Longrightarrow> \<exists>c'. map_of (mw_table (snd (surface_entries rows now sit n st))) p = Some c'
     \<and> col_raised_at c' = col_raised_at c \<and> col_cleared_at c' = col_cleared_at c"
proof (induction rows arbitrary: sit n st c)
  case (Cons row rows)
  obtain sit' n' st' where s: "surface_entries (row # rows) now sit n st = surface_entries rows now sit' n' st'"
      "mw_table st' = mark_ledger_surfaced row now (mw_table st)"
    by (rule surface_entries_step)
  obtain c' where "map_of (mw_table st') p = Some c'" "col_raised_at c' = col_raised_at c" "col_cleared_at c' = col_cleared_at c"
    using mark_times [OF Cons.prems, of row now] by (auto simp: s(2))
  with Cons.IH [of st' c' sit' n'] show ?case
    unfolding s(1) by auto
qed simp

lemma table_behind_end_one:
  assumes "table_behind st"
  shows "table_behind (end_one now w st)"
  unfolding table_behind_def ledger_store.saved_def
proof (intro conjI allI impI)
  have ok: "memory_ok (mw_memory st)"
    using assms by (simp add: table_behind_def ledger_store.saved_def)
  have mem: "mw_memory (end_one now w st) = forget_window w (mw_memory st)"
    by (simp add: end_one_def forget_in_memory_def surface_window_frame)
  have tab: "mw_table (end_one now w st) = mw_table (snd (surface_entries (unresolved_ledger w (mw_table st)) now None 0 st))"
    by (simp add: end_one_def forget_in_memory_def surface_window_def)
  show "memory_ok (mw_memory (end_one now w st))"
    by (simp add: mem ok memory_ok_forget)
  fix p v
  assume "memory_items (mw_memory (end_one now w st)) p = Some v"
    and "p \<notin> key_tuple ` ledger_dirty (mw_memory (end_one now w st))"
  then have "memory_items (mw_memory st) p = Some v \<and> p \<notin> key_tuple ` ledger_dirty (mw_memory st)"
    unfolding mem by (intro ledger_store.operation_marks [OF ok, of "forget_window w (mw_memory st)"])
      (auto simp: memory_step_def)
  then obtain u where u: "map_of (mw_table st) p = Some u" "cols_hold v u" "memory_items (mw_memory st) p = Some v"
    using assms unfolding table_behind_def ledger_store.saved_def by blast
  have "col_surfaced_at v = None"
    using u(3) ok by (auto simp: memory_items_def memory_ok_def entry_cols_def)
  with u(2) surface_entries_times [OF u(1), of "unresolved_ledger w (mw_table st)" now None 0]
  show "\<exists>u. map_of (mw_table (end_one now w st)) p = Some u \<and> cols_hold v u"
    by (auto simp: tab cols_hold_def)
qed

lemma table_behind_end_all: "table_behind st \<Longrightarrow> table_behind (fold (end_one now) ids st)"
  by (induction ids arbitrary: st) (simp_all add: table_behind_end_one)

lemma table_behind_flush: "table_behind st \<Longrightarrow> table_behind (flush_memory st)"
proof -
  assume "table_behind st"
  then have s: "ledger_store.saved (mw_memory st) (map_of (mw_table st))"
    by (simp add: table_behind_def)
  obtain rows m where t: "memory_take (mw_memory st) = (rows, m)"
    by fastforce
  have "ledger_store.saved m (upsert merge_cols rows (map_of (mw_table st)))"
    using ledger_store.saved_run [OF ledger_store.run.flush [OF ledger_store.run.none t] refl s] by simp
  moreover have "rows = rows_kv (to_rows (fst (take_dirty (mw_memory st))))" "m = snd (take_dirty (mw_memory st))"
    using t by (simp_all add: memory_take_def)
  ultimately show ?thesis
    by (simp add: table_behind_def flush_memory_table flush_ledger_upsert)
qed

lemma table_behind_cong:
  "mw_memory st = mw_memory st' \<Longrightarrow> mw_table st = mw_table st' \<Longrightarrow> table_behind st = table_behind st'"
  by (simp add: table_behind_def)

lemma table_behind_tick: "table_behind st \<Longrightarrow> table_behind (maintenance_windows now st)"
proof -
  assume behind: "table_behind st"
  obtain ids ws where a: "advance_statuses now (mw_windows st) = (ids, ws)"
    by fastforce
  have "table_behind (fold (end_one now) ids (flush_memory (st\<lparr>mw_windows := ws\<rparr>)))"
    using behind by (intro table_behind_end_all table_behind_flush) (simp add: table_behind_def)
  then show ?thesis
    by (simp add: maintenance_windows_fold a Let_def table_behind_def)
qed

lemma reach_table_behind: "mw_reach st \<Longrightarrow> table_behind st"
proof (induction rule: mw_reach.induct)
  case empty
  show ?case
    by (simp add: table_behind_def ledger_store.saved_def mw_empty_def memory_ok_def ledger_ok_def empty_ledger_def memory_items_def)
next
  case (suppress st o')
  have "ledger_store.saved (observe_ledger o' (mw_memory st)) (map_of (mw_table st))"
    using ledger_store.saved_run [OF ledger_store.run.operate [OF ledger_store.run.none] refl, of "mw_memory st"] suppress
    by (auto simp: table_behind_def memory_step_def)
  then show ?case
    by (simp add: table_behind_def)
next
  case (end_now st wid now n st')
  obtain m ws where w: "end_window_now wid now (mw_windows st) = (m, ws)"
    by fastforce
  have "table_behind (end_one now wid (st\<lparr>mw_windows := ws\<rparr>))"
    using end_now.IH by (intro table_behind_end_one) (simp add: table_behind_def)
  moreover have "st' = end_one now wid (st\<lparr>mw_windows := ws\<rparr>)"
    using end_now.hyps(2)
    by (auto simp: end_window_route_def w surface_window_now_def end_one_def Let_def split: if_splits prod.splits)
  ultimately show ?case by simp
qed (auto simp: table_behind_tick extend_window_route_def cancel_window_route_def Let_def split: if_splits prod.splits
      intro: table_behind_cong [THEN iffD1, rotated 2])

section \<open>The confirmation gate\<close>

definition gate_ok :: "mw_window list \<Rightarrow> bool" where
  "gate_ok ws \<longleftrightarrow> (\<forall>w \<in> set ws. w_status w \<in> {Scheduled, Active} \<longrightarrow>
     \<not> needs_confirmation (w_starts_at w) (w_ends_at w) \<or> w_confirmed_at w \<noteq> None)"

lemma gate_update_where:
  assumes "gate_ok ws"
    and "\<And>w. w \<in> set ws \<Longrightarrow> P w \<Longrightarrow> w_status (f w) \<in> {Scheduled, Active} \<Longrightarrow>
      \<not> needs_confirmation (w_starts_at (f w)) (w_ends_at (f w)) \<or> w_confirmed_at (f w) \<noteq> None"
  shows "gate_ok (update_where P f ws)"
  using assms by (fastforce simp: gate_ok_def update_where_def split: if_splits)

lemma gate_confirm: "gate_ok ws \<Longrightarrow> confirm_window wid by_ref now status ws = Inr (m, ws') \<Longrightarrow> gate_ok ws'"
  by (auto simp: confirm_window_def Let_def split: if_splits intro: gate_update_where)

lemma gate_advance: "gate_ok ws \<Longrightarrow> gate_ok (snd (advance_statuses now ws))"
  unfolding advance_statuses_def Let_def snd_conv
  by (intro gate_update_where) (auto simp: gate_ok_def update_where_def split: if_splits)

lemma gate_restatus:
  assumes "gate_ok ws" and "distinct (map w_id ws)" and "w \<in> set ws" and "w_id w = wid"
    and "status = restatus w (needs_confirmation starts ends) starts now ends"
  shows "gate_ok (update_window_schedule wid starts ends patch_s (needs_confirmation starts ends) status now ws)"
proof -
  have same: "v = w" if "v \<in> set ws" "w_id v = wid" for v
    using that assms(2-4) by (metis distinct_map inj_on_def)
  have "\<not> needs_confirmation starts ends \<or> w_confirmed_at w \<noteq> None" if "status \<in> {Scheduled, Active}"
    using that by (auto simp: assms(5) restatus_def Let_def split: if_splits)
  then show ?thesis
    unfolding update_window_schedule_def by (intro gate_update_where [OF assms(1)]) (auto dest: same)
qed

definition windows_ok :: "mw_window list \<Rightarrow> bool" where
  "windows_ok ws \<longleftrightarrow> gate_ok ws \<and> distinct (map w_id ws)"

lemma find_windowD: "find_window wid ws = Some w \<Longrightarrow> w \<in> set ws \<and> w_id w = wid"
  unfolding find_window_def by (drule find_SomeD) simp

lemma ids_update_where:
  assumes "\<And>w. w_id (f w) = w_id w"
  shows "map w_id (update_where P f ws) = map w_id ws"
  using assms by (simp add: update_where_def)

lemma windows_ok_confirm:
  assumes "windows_ok ws" and "confirm_window wid by_ref now status ws = Inr (m, ws')"
  shows "windows_ok ws'"
proof -
  have "map w_id ws' = map w_id ws"
    using assms(2) by (auto simp: confirm_window_def Let_def ids_update_where split: if_splits)
  moreover have "gate_ok ws'"
    using assms gate_confirm by (auto simp: windows_ok_def)
  ultimately show ?thesis
    using assms(1) by (simp add: windows_ok_def)
qed

lemma windows_ok_create:
  assumes "windows_ok ws" and "wid \<notin> w_id ` set ws"
  shows "windows_ok (create_window wid nm org starts ends patch_s ledger confirm_by now ws)"
proof -
  have draft: "windows_ok (ws @ [d])"
    if "w_id d = wid" "w_status d = (if needs_confirmation starts ends then Pending_confirmation else initial_status starts now)"
      "w_starts_at d = starts" "w_ends_at d = ends" for d
    using assms that by (auto simp: windows_ok_def gate_ok_def)
  show ?thesis
  proof (cases "confirm_by \<noteq> None \<and> needs_confirmation starts ends")
    case True
    then obtain by_ref where "confirm_by = Some by_ref"
      by blast
    with True show ?thesis
      unfolding create_window_def Let_def
      by (auto simp: draft split: sum.splits intro!: windows_ok_confirm [OF draft])
  next
    case False
    then show ?thesis
      using draft by (auto simp: create_window_def Let_def split: option.splits)
  qed
qed

lemma windows_ok_schedule:
  assumes "windows_ok ws" and "find_window wid ws = Some w"
    and "status = restatus w (needs_confirmation starts ends) starts now ends"
  shows "windows_ok (update_window_schedule wid starts ends patch_s (needs_confirmation starts ends) status now ws)"
  using assms gate_restatus [of ws w wid status starts ends now patch_s] find_windowD [OF assms(2)]
  by (simp add: windows_ok_def) (simp add: update_window_schedule_def ids_update_where)

lemma windows_ok_edit: "windows_ok ws \<Longrightarrow> windows_ok (edit_window wid starts ends patch_s now ws)"
  by (auto simp: edit_window_def Let_def windows_ok_schedule split: option.splits)

lemma windows_ok_extend: "windows_ok ws \<Longrightarrow> extend_window wid ends now ws = Some ws' \<Longrightarrow> windows_ok ws'"
  by (auto simp: extend_window_def Let_def windows_ok_schedule split: option.splits if_splits)

lemma windows_ok_close:
  "windows_ok ws \<Longrightarrow> windows_ok (snd (cancel_window wid now ws))"
  "windows_ok ws \<Longrightarrow> windows_ok (snd (end_window_now wid now ws))"
  by (auto simp: windows_ok_def cancel_window_def end_window_now_def Let_def ids_update_where intro!: gate_update_where)

lemma windows_ok_advance: "windows_ok ws \<Longrightarrow> windows_ok (snd (advance_statuses now ws))"
  by (auto simp: windows_ok_def gate_advance) (simp add: advance_statuses_def ids_update_where Let_def)

lemma tick_windows: "mw_windows (maintenance_windows now st) = snd (advance_statuses now (mw_windows st))"
  by (simp add: maintenance_windows_fold Let_def end_all_frame flush_memory_table split: prod.splits)

lemma reach_windows_ok: "mw_reach st \<Longrightarrow> windows_ok (mw_windows st)"
proof (induction rule: mw_reach.induct)
  case empty
  show ?case
    by (simp add: mw_empty_def windows_ok_def gate_ok_def)
next
  case (end_now st wid now n st')
  have "mw_windows st' = snd (end_window_now wid now (mw_windows st))"
    using end_now.hyps(2) end_one_frame(1) [of now wid "st\<lparr>mw_windows := snd (end_window_now wid now (mw_windows st))\<rparr>"]
    by (auto simp: end_window_route_def surface_window_now_def end_one_def Let_def split: if_splits prod.splits)
  with end_now.IH show ?case
    by (simp add: windows_ok_close)
next
  case (cancel st wid now st')
  then have "mw_windows st' = snd (cancel_window wid now (mw_windows st))"
    by (auto simp: cancel_window_route_def split: if_splits prod.splits)
  with cancel.IH show ?case
    by (simp add: windows_ok_close)
next
  case (extend st wid ends now st')
  then show ?case
    by (auto simp: extend_window_route_def windows_ok_extend)
qed (simp_all add: windows_ok_create windows_ok_confirm windows_ok_edit tick_windows windows_ok_advance)

lemma index_rows_member:
  assumes "row \<in> set (window_index_rows now ws tgts rules)"
  obtains w where "w \<in> set ws" "w_status w \<in> {Scheduled, Active}" "row_id row = w_id w"
    "row_starts_at row = w_starts_at w" "row_ends_at row = w_ends_at w" "row_patch_s row = w_patch_s w"
  using assms by (auto simp: window_index_rows_def)

lemma advance_in_force:
  assumes "w \<in> set (snd (advance_statuses now ws))" and "w_status w \<in> {Scheduled, Active}"
  shows "now < w_ends_at w + w_patch_s w"
proof -
  define over :: "mw_window \<Rightarrow> bool" where "over = (\<lambda>w. w_status w \<in> {Active, Scheduled} \<and> w_ends_at w + w_patch_s w \<le> now)"
  obtain vs f where vs: "snd (advance_statuses now ws) = update_where over f vs" "\<And>w. w_status (f w) = Ended"
    unfolding advance_statuses_def Let_def snd_conv over_def by fastforce
  then have "\<not> over w"
    using assms by (auto simp: update_where_def split: if_splits)
  with assms(2) show ?thesis
    by (auto simp: over_def)
qed

lemma tick_snapshot:
  "mw_snapshot (maintenance_windows now st) =
     from_rows (window_index_rows now (snd (advance_statuses now (mw_windows st)))
       (mw_targets (maintenance_windows now st)) (mw_rules (maintenance_windows now st)))"
  using tick_windows [of now st] by (simp add: maintenance_windows_fold Let_def split: prod.splits)

section \<open>Properties\<close>





section \<open>What the sweep does not surface\<close>

text \<open>\<open>POST .../end\<close> reads the ledger table without flushing the memory first, and then forgets
  the window: a raise observed since the last sweep is dropped. The window below ends at 60 with one
  open raise in memory; no alarm appears, then or at any later sweep.\<close>

definition late_raise :: mw_state where
  "late_raise = mw_empty\<lparr>mw_windows := create_window 1 ''cut'' 1 0 100 0 True None 0 [],
     mw_memory := observe_raise (LedgerKey 1 4 9 ''p'') 4 58 empty_ledger\<rparr>"

lemma take_dirty_empty: "take_dirty \<lparr>entries = [], ledger_dirty = {}\<rparr> = ([], \<lparr>entries = [], ledger_dirty = {}\<rparr>)"
  by (simp add: take_dirty_def List.map_filter_def)

theorem end_now_drops_unflushed_raises:
  "unresolved 1 (mw_memory late_raise) \<noteq> []
   \<and> (\<exists>st. end_window_route 1 60 late_raise = Some (0, st) \<and> mw_alarms st = [] \<and> entries (mw_memory st) = []
        \<and> mw_alarms (maintenance_windows later st) = [])"
proof -
  let ?st = "late_raise\<lparr>mw_windows := snd (end_window_now 1 60 (mw_windows late_raise)),
      mw_memory := \<lparr>entries = [], ledger_dirty = {}\<rparr>\<rparr>"
  have "unresolved 1 (mw_memory late_raise) \<noteq> []"
    by (simp add: late_raise_def unresolved_def observe_raise_def empty_ledger_def new_entry_def entry_unresolved_def Let_def)
  moreover have "end_window_route 1 60 late_raise = Some (0, ?st)"
    by (simp add: end_window_route_def late_raise_def create_window_def needs_confirmation_def CONFIRMATION_THRESHOLD_S_def
        initial_status_def end_window_now_def update_where_def surface_window_now_def surface_window_def mw_empty_def
        unresolved_ledger_def forget_in_memory_def forget_window_def observe_raise_def empty_ledger_def Let_def)
  moreover have "advance_statuses later (mw_windows ?st) = ([], mw_windows ?st)"
    by (simp add: late_raise_def create_window_def needs_confirmation_def CONFIRMATION_THRESHOLD_S_def
        initial_status_def end_window_now_def update_where_def advance_statuses_def Let_def)
  then have "mw_alarms (maintenance_windows later ?st) = []"
    by (simp add: maintenance_windows_fold flush_memory_def take_dirty_empty Let_def late_raise_def mw_empty_def)
  ultimately show ?thesis
    by (intro conjI exI [of _ ?st]) (simp_all add: late_raise_def mw_empty_def)
qed

text \<open>A cancelled window, and an active window that an extension past six hours sends back to
  confirmation, are never reported by \<open>advance_statuses\<close> as ended: the sweep that follows the
  extension expires the window, and the raises they suppressed stay in the ledger unsurfaced.\<close>

lemma update_where_keeps: "w \<in> set ws \<Longrightarrow> \<not> P w \<Longrightarrow> w \<in> set (update_where P f ws)"
  by (force simp: update_where_def)

theorem cancelled_and_expired_never_end:
  assumes "w_status w \<in> {Cancelled, Expired}" and "w \<in> set ws" and "distinct (map w_id ws)"
  shows "w_id w \<notin> set (fst (advance_statuses now ws)) \<and> w \<in> set (snd (advance_statuses now ws))"
proof -
  define vs where "vs = update_where (\<lambda>w. w_status w = Scheduled \<and> w_starts_at w - w_patch_s w \<le> now
                \<and> w_ends_at w + w_patch_s w > now)
            (\<lambda>w. w\<lparr>w_status := Active, w_updated_at := now\<rparr>)
       (update_where (\<lambda>w. w_status w = Pending_confirmation \<and> w_starts_at w - w_patch_s w \<le> now)
            (\<lambda>w. w\<lparr>w_status := Expired, w_updated_at := now\<rparr>) ws)"
  have w: "w \<in> set vs"
    unfolding vs_def using assms(1,2) by (intro update_where_keeps) auto
  have "distinct (map w_id vs)"
    using assms(3) by (simp add: vs_def ids_update_where)
  then have "x = w" if "x \<in> set vs" "w_id x = w_id w" for x
    using that w by (metis distinct_map inj_on_def)
  then have "w_id w \<notin> w_id ` {x \<in> set vs. w_status x \<in> {Active, Scheduled}}"
    using assms(1) by force
  moreover have "w \<in> set (snd (advance_statuses now ws))"
    unfolding advance_statuses_def Let_def snd_conv using assms(1,2)
    by (intro update_where_keeps) auto
  ultimately show ?thesis
    unfolding advance_statuses_def Let_def fst_conv vs_def [symmetric] by auto
qed

theorem extension_past_six_hours_expires:
  "let ws = create_window 1 ''cut'' 1 0 18000 0 True None 0 []
   in map w_status ws = [Active]
     \<and> (\<exists>ws'. extend_window 1 25200 14400 ws = Some ws' \<and> map w_status ws' = [Pending_confirmation]
          \<and> fst (advance_statuses 14405 ws') = [] \<and> map w_status (snd (advance_statuses 14405 ws')) = [Expired])"
proof -
  let ?w = "\<lparr>w_id = 1, w_name = ''cut'', w_organization_id = 1, w_status = Active, w_starts_at = 0, w_ends_at = 18000,
    w_patch_s = 0, w_ledger_enabled = True, w_needs_confirmation = False, w_confirmed_at = None, w_confirmed_by = None,
    w_ended_at = None, w_cancelled_at = None, w_updated_at = 0\<rparr>"
  let ?v = "?w\<lparr>w_status := Pending_confirmation, w_ends_at := 25200, w_needs_confirmation := True, w_updated_at := 14400\<rparr>"
  have c: "create_window 1 ''cut'' 1 0 18000 0 True None 0 [] = [?w]"
    by (simp add: create_window_def needs_confirmation_def CONFIRMATION_THRESHOLD_S_def initial_status_def Let_def)
  have f: "find_window 1 [?w] = Some ?w"
    by (simp add: find_window_def)
  have e: "extend_window 1 25200 14400 [?w] = Some [?v]"
    by (simp add: extend_window_def f LIVE_STATUSES_def needs_confirmation_def CONFIRMATION_THRESHOLD_S_def restatus_def
        update_window_schedule_def update_where_def)
  have "advance_statuses 14405 [?v] = ([], [?v\<lparr>w_status := Expired, w_updated_at := 14405\<rparr>])"
    by (simp add: advance_statuses_def update_where_def)
  with c e show ?thesis
    by (simp add: Let_def)
qed

end
