(* ===== verification/Corr_Learn.thy ===== *)
theory Corr_Learn
  imports Prelude "HOL-Library.AList" "HOL-Library.Product_Lexorder"
begin

text \<open>
  \<open>engine/correlate/learn.py\<close>: the co-occurrence matrices, their lazy forgetting, the affinity they
  give and the feedback that moves them, with the table of edges they are kept in
  (\<open>store/learned.py\<close>). A mass is a real number. A dictionary is an association list with distinct
  keys; a Python set that is iterated is the list of its members without duplicates, since the body
  of each loop writes one key.
\<close>

section \<open>The matrix\<close>

definition LAMBDA :: real where "LAMBDA = 0.05"
definition EPOCH_S :: seconds where "EPOCH_S = 3600"
definition MIN_EDGE_N :: real where "MIN_EDGE_N = 5"
definition SAME_NE_AFFINITY :: real where "SAME_NE_AFFINITY = 0.8"
definition STORM_DAMPING :: real where "STORM_DAMPING = 0.1"
definition STORM_ALARMS :: nat where "STORM_ALARMS = 50"
definition SPLIT_PENALTY :: real where "SPLIT_PENALTY = 0.5"
definition EPOCH_PAIR_CAP :: nat where "EPOCH_PAIR_CAP = 20"

type_synonym edge_key = "int \<times> int"

definition pair_key :: "int \<Rightarrow> int \<Rightarrow> edge_key" where
  "pair_key a b = (if a \<le> b then (a, b) else (b, a))"

record Matrix =
  m_lam :: real
  m_epoch :: int
  m_total :: real
  m_total_e :: int
  m_pairs :: "(edge_key \<times> (real \<times> int)) list"
  m_marginals :: "(int \<times> (real \<times> int)) list"
  m_dirty :: "edge_key set"

definition new_matrix :: Matrix where
  "new_matrix = \<lparr>m_lam = LAMBDA, m_epoch = 0, m_total = 0, m_total_e = 0, m_pairs = [], m_marginals = [], m_dirty = {}\<rparr>"

definition decayed :: "Matrix \<Rightarrow> real \<Rightarrow> int \<Rightarrow> real" where
  "decayed m mass at_epoch = mass * power_int (1 - m_lam m) (m_epoch m - at_epoch)"

definition tick_epoch :: "Matrix \<Rightarrow> Matrix" where
  "tick_epoch m = m\<lparr>m_epoch := m_epoch m + 1\<rparr>"

definition advance_to :: "int \<Rightarrow> Matrix \<Rightarrow> Matrix" where
  "advance_to epoch m = (if epoch > m_epoch m then m\<lparr>m_epoch := epoch\<rparr> else m)"

definition shift_entries :: "int \<Rightarrow> ('a \<times> (real \<times> int)) list \<Rightarrow> ('a \<times> (real \<times> int)) list" where
  "shift_entries shift = map (\<lambda>(k, (m, e)). (k, (m, e + shift)))"

definition rebase :: "int \<Rightarrow> Matrix \<Rightarrow> Matrix" where
  "rebase epoch m =
     (let shift = epoch - m_epoch m
      in if shift = 0 then m
         else m\<lparr>m_epoch := m_epoch m + shift, m_total_e := m_total_e m + shift,
                m_pairs := shift_entries shift (m_pairs m), m_marginals := shift_entries shift (m_marginals m),
                m_dirty := m_dirty m \<union> fst ` set (m_pairs m)\<rparr>)"

definition entry_of :: "Matrix \<Rightarrow> ('a \<times> (real \<times> int)) list \<Rightarrow> 'a \<Rightarrow> real \<times> int" where
  "entry_of m d k = (case map_of d k of None \<Rightarrow> (0, m_epoch m) | Some e \<Rightarrow> e)"

definition observe_occurrence :: "int \<Rightarrow> real \<Rightarrow> Matrix \<Rightarrow> Matrix" where
  "observe_occurrence item weight m =
     (let (mass, at_e) = entry_of m (m_marginals m) item
      in m\<lparr>m_marginals := AList.update item (decayed m mass at_e + weight, m_epoch m) (m_marginals m),
            m_total := decayed m (m_total m) (m_total_e m) + weight, m_total_e := m_epoch m\<rparr>)"

definition observe_pair :: "int \<Rightarrow> int \<Rightarrow> real \<Rightarrow> Matrix \<Rightarrow> Matrix" where
  "observe_pair a b weight m =
     (let key = pair_key a b;
          (mass, at_e) = entry_of m (m_pairs m) key
      in m\<lparr>m_pairs := AList.update key (decayed m mass at_e + weight, m_epoch m) (m_pairs m),
            m_dirty := insert key (m_dirty m)\<rparr>)"

definition pair_mass :: "Matrix \<Rightarrow> int \<Rightarrow> int \<Rightarrow> real" where
  "pair_mass m a b = (let (mass, at_e) = entry_of m (m_pairs m) (pair_key a b) in decayed m mass at_e)"

definition scale_pair :: "int \<Rightarrow> int \<Rightarrow> real \<Rightarrow> Matrix \<Rightarrow> Matrix" where
  "scale_pair a b factor m =
     (let key = pair_key a b
      in case map_of (m_pairs m) key of
           None \<Rightarrow> m
         | Some (mass, at_e) \<Rightarrow> m\<lparr>m_pairs := AList.update key (mass * factor, at_e) (m_pairs m), m_dirty := insert key (m_dirty m)\<rparr>)"

definition npmi :: "Matrix \<Rightarrow> int \<Rightarrow> int \<Rightarrow> real" where
  "npmi m a b =
     (let m_ab = pair_mass m a b;
          total = decayed m (m_total m) (m_total_e m)
      in if m_ab \<le> 0 \<or> total \<le> 0 then 0
         else
           let (m_a, e_a) = entry_of m (m_marginals m) a;
               (m_b, e_b) = entry_of m (m_marginals m) b;
               m_a = decayed m m_a e_a; m_b = decayed m m_b e_b
           in if m_a \<le> 0 \<or> m_b \<le> 0 then 0
              else
                let discount = m_ab / (m_ab + 1);
                    p_ab = min (m_ab / total) 1
                in if p_ab \<ge> 1 - 1 / 10 ^ 9 then discount
                   else
                     let p_a = min (m_a / total) 1; p_b = min (m_b / total) 1;
                         pmi = ln (p_ab / (p_a * p_b))
                     in max 0 (min 1 (pmi / - ln p_ab)) * discount)"

section \<open>The stored edges\<close>

type_synonym edge_table = "(edge_key \<times> (real \<times> real \<times> int)) list"

definition flush_rows :: "Matrix \<Rightarrow> (edge_key \<times> (real \<times> real \<times> int)) list" where
  "flush_rows m = map (\<lambda>(a, b). ((a, b), (npmi m a b, pair_mass m a b, m_epoch m))) (sorted_list_of_set (m_dirty m))"

definition flush_matrix :: "Matrix \<Rightarrow> (edge_key \<times> (real \<times> real \<times> int)) list \<times> Matrix" where
  "flush_matrix m = (flush_rows m, m\<lparr>m_dirty := {}\<rparr>)"

definition upsert_edges :: "(edge_key \<times> (real \<times> real \<times> int)) list \<Rightarrow> edge_table \<Rightarrow> edge_table" where
  "upsert_edges rows t = fold (\<lambda>(k, r). AList.update k r) rows t"

text \<open>The JSON document of \<open>state\<close>, read back number for number.\<close>

record matrix_state =
  st_hourly :: bool
  st_epoch :: int
  st_total :: "real \<times> int"
  st_marginals :: "(int \<times> (real \<times> int)) list"

definition matrix_state_of :: "Matrix \<Rightarrow> matrix_state" where
  "matrix_state_of m = \<lparr>st_hourly = True, st_epoch = m_epoch m, st_total = (m_total m, m_total_e m), st_marginals = m_marginals m\<rparr>"

definition load_state :: "matrix_state \<Rightarrow> edge_table \<Rightarrow> Matrix \<Rightarrow> bool \<times> Matrix" where
  "load_state st edges m =
     (st_hourly st,
      m\<lparr>m_epoch := st_epoch st, m_total := fst (st_total st), m_total_e := snd (st_total st),
        m_marginals := st_marginals st,
        m_pairs := fold (\<lambda>((a, b), (_, n, g)). AList.update (pair_key a b) (n, g)) edges []\<rparr>)"

section \<open>The learner\<close>

type_synonym item = "int \<times> int"

record Learner =
  l_A :: Matrix
  l_E :: Matrix
  l_clocked :: bool

definition new_learner :: Learner where
  "new_learner = \<lparr>l_A = new_matrix, l_E = new_matrix, l_clocked = False\<rparr>"

definition rebase_old :: "int \<Rightarrow> Matrix \<Rightarrow> Matrix" where
  "rebase_old epoch m = (if m_epoch m < epoch - 24 * 365 * 10 then rebase epoch m else m)"

definition learner_advance_to :: "seconds \<Rightarrow> Learner \<Rightarrow> Learner" where
  "learner_advance_to ts l =
     (let epoch = \<lfloor>ts / EPOCH_S\<rfloor>;
          l = (if l_clocked l then l
               else l\<lparr>l_clocked := True, l_A := rebase_old epoch (l_A l), l_E := rebase_old epoch (l_E l)\<rparr>)
      in l\<lparr>l_A := advance_to epoch (l_A l), l_E := advance_to epoch (l_E l)\<rparr>)"

definition observe_activation :: "item \<Rightarrow> Learner \<Rightarrow> Learner" where
  "observe_activation it l =
     l\<lparr>l_A := observe_occurrence (fst it) 1 (l_A l), l_E := observe_occurrence (snd it) 1 (l_E l)\<rparr>"

definition observe_pairs :: "item \<Rightarrow> item list \<Rightarrow> bool \<Rightarrow> Learner \<Rightarrow> Learner" where
  "observe_pairs new others storm l =
     (let weight = (if storm then STORM_DAMPING else 1)
      in l\<lparr>l_A := fold (\<lambda>c. observe_pair (fst new) c weight) (remdups (map fst others)) (l_A l),
            l_E := fold (\<lambda>d. observe_pair (snd new) d weight) (remdups (filter (\<lambda>d. d \<noteq> snd new) (map snd others))) (l_E l)\<rparr>)"

definition class_affinity :: "Learner \<Rightarrow> int \<Rightarrow> int \<Rightarrow> real" where
  "class_affinity l a b = npmi (l_A l) a b"

definition entity_affinity :: "Learner \<Rightarrow> int \<Rightarrow> int \<Rightarrow> int \<Rightarrow> int \<Rightarrow> real" where
  "entity_affinity l a_entity a_ne b_entity b_ne =
     (if a_entity = b_entity then 1
      else if a_ne = b_ne then SAME_NE_AFFINITY
      else if pair_mass (l_E l) a_ne b_ne \<ge> MIN_EDGE_N then npmi (l_E l) a_ne b_ne else 0)"

definition device_affinity :: "Learner \<Rightarrow> int \<Rightarrow> int \<Rightarrow> real" where
  "device_affinity l a b = entity_affinity l a a b b"

text \<open>The pairs of a list, each element with those after it.\<close>

fun later_pairs :: "'a list \<Rightarrow> ('a \<times> 'a) list" where
  "later_pairs [] = []"
| "later_pairs (x # xs) = map (\<lambda>y. (x, y)) xs @ later_pairs xs"

definition learn_epoch :: "item list \<Rightarrow> bool \<Rightarrow> Learner \<Rightarrow> Learner" where
  "learn_epoch members advance_epoch l =
     (let l = (if advance_epoch then l\<lparr>l_A := tick_epoch (l_A l), l_E := tick_epoch (l_E l)\<rparr> else l);
          sample = take EPOCH_PAIR_CAP members;
          weight = (if length members \<ge> STORM_ALARMS then STORM_DAMPING else 1);
          class_pairs = remdups (map (\<lambda>(a, b). pair_key (fst a) (fst b)) (later_pairs sample));
          device_pairs = remdups (map (\<lambda>(a, b). pair_key (snd a) (snd b)) (filter (\<lambda>(a, b). snd a \<noteq> snd b) (later_pairs sample)))
      in l\<lparr>l_A := fold (\<lambda>(a, b). observe_pair a b weight) class_pairs (l_A l),
            l_E := fold (\<lambda>(a, b). observe_pair a b weight) device_pairs (l_E l)\<rparr>)"

definition penalize :: "item list \<Rightarrow> int set option \<Rightarrow> Learner \<Rightarrow> Learner" where
  "penalize members marked l =
     (let sample = take EPOCH_PAIR_CAP members;
          asserted = map (\<lambda>((_, a), (_, b)). (a, b))
            (filter (\<lambda>((i, _), (j, _)). case marked of None \<Rightarrow> True | Some ms \<Rightarrow> (int i \<in> ms) \<noteq> (int j \<in> ms))
              (later_pairs (enumerate 0 sample)));
          class_pairs = remdups (map (\<lambda>(a, b). pair_key (fst a) (fst b)) asserted);
          device_pairs = remdups (map (\<lambda>(a, b). pair_key (snd a) (snd b)) (filter (\<lambda>(a, b). snd a \<noteq> snd b) asserted))
      in l\<lparr>l_A := fold (\<lambda>(a, b). scale_pair a b SPLIT_PENALTY) class_pairs (l_A l),
            l_E := fold (\<lambda>(a, b). scale_pair a b SPLIT_PENALTY) device_pairs (l_E l)\<rparr>)"

section \<open>Forgetting is lazy, and the same as ageing everything at once\<close>

definition mass_of :: "Matrix \<Rightarrow> ('a \<times> (real \<times> int)) list \<Rightarrow> 'a \<Rightarrow> real" where
  "mass_of m d k = (let (mass, at_e) = entry_of m d k in decayed m mass at_e)"

definition marginal :: "Matrix \<Rightarrow> int \<Rightarrow> real" where
  "marginal m i = mass_of m (m_marginals m) i"

definition total_mass :: "Matrix \<Rightarrow> real" where
  "total_mass m = decayed m (m_total m) (m_total_e m)"

text \<open>The reference: a matrix of plain masses, every one of them aged at each epoch.\<close>

record aged =
  ag_epoch :: int
  ag_pairs :: "edge_key \<Rightarrow> real"
  ag_marginals :: "int \<Rightarrow> real"
  ag_total :: real

definition view_of :: "Matrix \<Rightarrow> aged" where
  "view_of m = \<lparr>ag_epoch = m_epoch m, ag_pairs = mass_of m (m_pairs m), ag_marginals = marginal m, ag_total = total_mass m\<rparr>"

definition age :: "nat \<Rightarrow> aged \<Rightarrow> aged" where
  "age k s = \<lparr>ag_epoch = ag_epoch s + int k,
     ag_pairs = (\<lambda>p. ag_pairs s p * (1 - LAMBDA) ^ k),
     ag_marginals = (\<lambda>i. ag_marginals s i * (1 - LAMBDA) ^ k),
     ag_total = ag_total s * (1 - LAMBDA) ^ k\<rparr>"

datatype matrix_op =
    Tick | Advance int | Rebase int | Occurrence int real | Pair int int real | Scale int int real | Flush

fun matrix_step :: "matrix_op \<Rightarrow> Matrix \<Rightarrow> Matrix" where
  "matrix_step Tick m = tick_epoch m"
| "matrix_step (Advance e) m = advance_to e m"
| "matrix_step (Rebase e) m = rebase e m"
| "matrix_step (Occurrence i w) m = observe_occurrence i w m"
| "matrix_step (Pair a b w) m = observe_pair a b w m"
| "matrix_step (Scale a b f) m = scale_pair a b f m"
| "matrix_step Flush m = snd (flush_matrix m)"

fun aged_step :: "matrix_op \<Rightarrow> aged \<Rightarrow> aged" where
  "aged_step Tick s = age 1 s"
| "aged_step (Advance e) s = age (nat (e - ag_epoch s)) s"
| "aged_step (Rebase e) s = s\<lparr>ag_epoch := e\<rparr>"
| "aged_step (Occurrence i w) s =
     s\<lparr>ag_marginals := (ag_marginals s)(i := ag_marginals s i + w), ag_total := ag_total s + w\<rparr>"
| "aged_step (Pair a b w) s = s\<lparr>ag_pairs := (ag_pairs s)(pair_key a b := ag_pairs s (pair_key a b) + w)\<rparr>"
| "aged_step (Scale a b f) s = s\<lparr>ag_pairs := (ag_pairs s)(pair_key a b := ag_pairs s (pair_key a b) * f)\<rparr>"
| "aged_step Flush s = s"

lemma pair_mass_view: "pair_mass m a b = ag_pairs (view_of m) (pair_key a b)"
  by (simp add: pair_mass_def view_of_def mass_of_def)

lemma decayed_now [simp]: "decayed m x (m_epoch m) = x"
  by (simp add: decayed_def)

lemma decayed_later:
  assumes "m_lam m = LAMBDA" and "m_lam m' = LAMBDA" and "m_epoch m' = m_epoch m + int k"
  shows "decayed m' x at_e = decayed m x at_e * (1 - LAMBDA) ^ k"
proof -
  have "power_int (1 - LAMBDA) (m_epoch m + int k - at_e) = power_int (1 - LAMBDA) (m_epoch m - at_e) * (1 - LAMBDA) ^ k"
    using power_int_add [of "1 - LAMBDA" "m_epoch m - at_e" "int k"] by (simp add: LAMBDA_def algebra_simps)
  then show ?thesis
    by (simp add: decayed_def assms)
qed

lemma mass_of_later:
  assumes "m_lam m = LAMBDA" and "m_lam m' = LAMBDA" and "m_epoch m' = m_epoch m + int k"
  shows "mass_of m' d x = mass_of m d x * (1 - LAMBDA) ^ k"
proof -
  have zero: "decayed n 0 e = 0" for n e
    by (simp add: decayed_def)
  show ?thesis
    by (cases "map_of d x") (simp_all add: mass_of_def entry_of_def zero decayed_later [OF assms] split: prod.split)
qed

lemma view_later:
  assumes "m_lam m = LAMBDA"
  shows "view_of (m\<lparr>m_epoch := m_epoch m + int k\<rparr>) = age k (view_of m)"
proof -
  let ?m = "m\<lparr>m_epoch := m_epoch m + int k\<rparr>"
  have lam: "m_lam ?m = LAMBDA" "m_epoch ?m = m_epoch m + int k"
    using assms by simp_all
  have "mass_of ?m (m_pairs m) = (\<lambda>p. mass_of m (m_pairs m) p * (1 - LAMBDA) ^ k)"
    "mass_of ?m (m_marginals m) = (\<lambda>i. mass_of m (m_marginals m) i * (1 - LAMBDA) ^ k)"
    by (intro ext mass_of_later [OF assms lam])+
  then show ?thesis
    using decayed_later [OF assms lam] by (simp add: view_of_def age_def marginal_def total_mass_def fun_eq_iff)
qed

lemma map_of_shift: "map_of (shift_entries s d) k = map_option (\<lambda>(m, e). (m, e + s)) (map_of d k)"
  by (induction d) (auto simp: shift_entries_def)

lemma mass_of_shift:
  assumes "m_lam m' = m_lam m" and "m_epoch m' = m_epoch m + s"
  shows "mass_of m' (shift_entries s d) k = mass_of m d k"
  using assms by (cases "map_of d k") (auto simp: mass_of_def entry_of_def map_of_shift decayed_def)

lemma view_rebase:
  shows "view_of (rebase e m) = (view_of m)\<lparr>ag_epoch := e\<rparr>" and "m_lam (rebase e m) = m_lam m"
  by (simp_all add: rebase_def view_of_def Let_def mass_of_shift marginal_def total_mass_def decayed_def fun_eq_iff)

lemma entry_update [simp]:
  "entry_of m (AList.update k (x, m_epoch m) d) = (entry_of m d)(k := (x, m_epoch m))"
  by (simp add: entry_of_def fun_eq_iff update_conv')

lemma mass_cong: "m_lam m' = m_lam m \<Longrightarrow> m_epoch m' = m_epoch m \<Longrightarrow> mass_of m' d k = mass_of m d k"
  by (cases "map_of d k") (simp_all add: mass_of_def entry_of_def decayed_def)

lemma mass_dirty [simp]: "mass_of (m\<lparr>m_dirty := D\<rparr>) d k = mass_of m d k"
  by (rule mass_cong) simp_all

lemma mass_update: "mass_of m (AList.update k (x, m_epoch m) d) k' = (if k' = k then x else mass_of m d k')"
  by (simp add: mass_of_def)

lemma view_occurrence: "view_of (observe_occurrence i w m) = aged_step (Occurrence i w) (view_of m)"
proof -
  let ?m = "observe_occurrence i w m"
  have m: "m_marginals ?m = AList.update i (marginal m i + w, m_epoch m) (m_marginals m)" "m_pairs ?m = m_pairs m"
    "m_total ?m = total_mass m + w" "m_total_e ?m = m_epoch m" "m_epoch ?m = m_epoch m" "m_lam ?m = m_lam m"
    by (simp_all add: observe_occurrence_def Let_def marginal_def mass_of_def total_mass_def case_prod_beta)
  have "mass_of ?m d k = mass_of m d k" for d :: "('b \<times> real \<times> int) list" and k
    by (rule mass_cong [OF m(6,5)])
  moreover have "mass_of ?m d k = mass_of m d k" for d :: "(int \<times> real \<times> int) list" and k
    by (rule mass_cong [OF m(6,5)])
  moreover have "mass_of ?m (m_pairs m) k = mass_of m (m_pairs m) k" for k
    by (rule mass_cong [OF m(6,5)])
  moreover have "decayed ?m x (m_epoch m) = x" for x
    using decayed_now [of ?m x] by (simp only: m(5))
  ultimately show ?thesis
    by (simp add: view_of_def marginal_def total_mass_def m mass_update fun_eq_iff)
qed

lemma view_pair: "view_of (observe_pair a b w m) = aged_step (Pair a b w) (view_of m)"
proof -
  let ?m = "observe_pair a b w m"
  have m: "m_pairs ?m = AList.update (pair_key a b) (mass_of m (m_pairs m) (pair_key a b) + w, m_epoch m) (m_pairs m)"
    "m_marginals ?m = m_marginals m" "m_total ?m = m_total m" "m_total_e ?m = m_total_e m" "m_epoch ?m = m_epoch m" "m_lam ?m = m_lam m"
    by (simp_all add: observe_pair_def Let_def mass_of_def case_prod_beta)
  have "mass_of ?m d k = mass_of m d k" for d :: "(edge_key \<times> real \<times> int) list" and k
    by (rule mass_cong [OF m(6,5)])
  moreover have "mass_of ?m d k = mass_of m d k" for d :: "(int \<times> real \<times> int) list" and k
    by (rule mass_cong [OF m(6,5)])
  moreover have "decayed ?m x e = decayed m x e" for x e
    by (simp add: decayed_def m)
  ultimately show ?thesis
    by (simp add: view_of_def marginal_def total_mass_def m mass_update fun_eq_iff)
qed

lemma view_scale: "view_of (scale_pair a b f m) = aged_step (Scale a b f) (view_of m)"
proof (cases "map_of (m_pairs m) (pair_key a b)")
  case None
  then have "mass_of m (m_pairs m) (pair_key a b) = 0"
    by (simp add: mass_of_def entry_of_def decayed_def)
  with None show ?thesis
    by (simp add: scale_pair_def Let_def view_of_def fun_eq_iff)
next
  case (Some r)
  let ?m = "scale_pair a b f m"
  have m: "m_pairs ?m = AList.update (pair_key a b) (fst r * f, snd r) (m_pairs m)"
    "m_marginals ?m = m_marginals m" "m_total ?m = m_total m" "m_total_e ?m = m_total_e m" "m_epoch ?m = m_epoch m" "m_lam ?m = m_lam m"
    using Some by (simp_all add: scale_pair_def Let_def case_prod_beta)
  have "mass_of ?m (m_pairs ?m) k = (if k = pair_key a b then mass_of m (m_pairs m) k * f else mass_of m (m_pairs m) k)" for k
    using Some unfolding m(1)
    by (cases "map_of (m_pairs m) k") (auto simp: mass_of_def entry_of_def update_conv' decayed_def m(5,6) case_prod_beta)
  moreover have "mass_of ?m d k = mass_of m d k" for d :: "(int \<times> real \<times> int) list" and k
    by (rule mass_cong [OF m(6,5)])
  moreover have "decayed ?m x e = decayed m x e" for x e
    by (simp add: decayed_def m)
  ultimately show ?thesis
    by (simp add: view_of_def marginal_def total_mass_def m(2-5) fun_eq_iff)
qed

lemma lam_kept: "m_lam (matrix_step c m) = m_lam m"
  by (cases c) (simp_all add: tick_epoch_def advance_to_def view_rebase observe_occurrence_def observe_pair_def
      scale_pair_def flush_matrix_def Let_def case_prod_beta split: option.split)

lemma view_step:
  assumes "m_lam m = LAMBDA"
  shows "view_of (matrix_step c m) = aged_step c (view_of m)"
proof (cases c)
  case Tick
  then show ?thesis
    using view_later [OF assms, of 1] by (simp add: tick_epoch_def)
next
  case (Advance e)
  have "age 0 s = s" for s
    by (simp add: age_def)
  show ?thesis
  proof (cases "e > m_epoch m")
    case True
    then show ?thesis
      using view_later [OF assms, of "nat (e - m_epoch m)"] Advance by (simp add: advance_to_def) (simp add: view_of_def)
  next
    case False
    then show ?thesis
      using Advance \<open>\<And>s. age 0 s = s\<close> by (simp add: advance_to_def) (simp add: view_of_def)
  qed
next
  case Flush
  then show ?thesis
    by (simp add: flush_matrix_def view_of_def marginal_def total_mass_def decayed_def fun_eq_iff)
qed (simp_all only: matrix_step.simps aged_step.simps view_rebase view_occurrence view_pair view_scale)

text \<open>C31: Each mass is stored with the epoch it was last touched in and aged only when it is read. After
  any sequence of the matrix's operations, hours passing, occurrences, pairs, feedback, a change of
  clock, a flush, every pair mass, every marginal and the total are those of a matrix that ages all of
  its masses by the forgetting factor at every epoch. A change of clock keeps every age.\<close>

theorem forgetting_is_lazy:
  "view_of (fold matrix_step cs new_matrix)
    = fold aged_step cs \<lparr>ag_epoch = 0, ag_pairs = (\<lambda>_. 0), ag_marginals = (\<lambda>_. 0), ag_total = 0\<rparr>"
proof -
  have "view_of (fold matrix_step cs m) = fold aged_step cs (view_of m)" if "m_lam m = LAMBDA" for m
    using that by (induction cs arbitrary: m) (simp_all add: view_step lam_kept)
  moreover have "view_of new_matrix = \<lparr>ag_epoch = 0, ag_pairs = (\<lambda>_. 0), ag_marginals = (\<lambda>_. 0), ag_total = 0\<rparr>"
    by (simp add: view_of_def new_matrix_def marginal_def total_mass_def mass_of_def entry_of_def decayed_def fun_eq_iff)
  ultimately show ?thesis
    by (simp add: new_matrix_def)
qed

section \<open>Affinity\<close>

lemma npmi_masses:
  "npmi m a b =
     (let m_ab = pair_mass m a b; total = total_mass m; m_a = marginal m a; m_b = marginal m b
      in if m_ab \<le> 0 \<or> total \<le> 0 \<or> m_a \<le> 0 \<or> m_b \<le> 0 then 0
         else
           let discount = m_ab / (m_ab + 1); p_ab = min (m_ab / total) 1
           in if p_ab \<ge> 1 - 1 / 10 ^ 9 then discount
              else max 0 (min 1 (ln (p_ab / (min (m_a / total) 1 * min (m_b / total) 1)) / - ln p_ab)) * discount)"
  by (simp add: npmi_def Let_def total_mass_def marginal_def mass_of_def case_prod_beta)

lemma npmi_cong: "view_of m = view_of m' \<Longrightarrow> npmi m a b = npmi m' a b"
  unfolding npmi_masses pair_mass_view by (simp add: view_of_def)

lemma npmi_bounds: "0 \<le> npmi m a b \<and> npmi m a b < 1"
proof (cases "pair_mass m a b \<le> 0")
  case True
  then show ?thesis
    by (simp add: npmi_masses)
next
  case False
  let ?d = "pair_mass m a b / (pair_mass m a b + 1)"
  have d: "0 < ?d" "?d < 1"
    using False by (simp_all add: divide_simps)
  have "0 \<le> max 0 (min 1 x) * ?d \<and> max 0 (min 1 x) * ?d < 1" for x :: real
  proof -
    have scaled: "0 \<le> y * z \<and> y * z < 1" if "0 \<le> y" "y \<le> 1" "0 < z" "z < 1" for y z :: real
    proof
      show "0 \<le> y * z"
        using that by (intro mult_nonneg_nonneg) simp_all
      have "y * z \<le> 1 * z"
        by (rule mult_right_mono) (use that in simp_all)
      then show "y * z < 1"
        using that(4) by (simp only: mult_1)
    qed
    show ?thesis
      by (rule scaled) (use d in simp_all)
  qed
  with d show ?thesis
    unfolding npmi_masses Let_def by (auto simp del: max_less_iff_conj)
qed

text \<open>Both affinities the formula reads are between 0 and 1, whatever the matrices hold: after
  feedback a pair can outweigh the total, and the score is clamped. A learned affinity is below 1, so
  only alarms of one entity reach 1; two elements below five co-occurrences have none.\<close>

theorem affinities_are_bounded:
  "0 \<le> class_affinity l a b \<and> class_affinity l a b < 1
    \<and> 0 \<le> entity_affinity l ae an be bn \<and> entity_affinity l ae an be bn \<le> 1
    \<and> (entity_affinity l ae an be bn = 1 \<longleftrightarrow> ae = be)
    \<and> (entity_affinity l ae an be bn = 0 \<or> ae = be \<or> an = bn \<or> pair_mass (l_E l) an bn \<ge> MIN_EDGE_N)"
  using npmi_bounds [of "l_A l" a b] npmi_bounds [of "l_E l" an bn]
  by (auto simp: class_affinity_def entity_affinity_def SAME_NE_AFFINITY_def)

section \<open>What is kept is what was known\<close>

text \<open>The matrix, the table of its edges and the document of its state; \<open>save\<close> writes the table and the
  document, a restart reads them.\<close>

datatype kept_op = Learn matrix_op | Save_Matrix | Restart

type_synonym kept = "Matrix \<times> edge_table \<times> matrix_state option"

definition load_matrix :: "edge_table \<Rightarrow> matrix_state option \<Rightarrow> Matrix" where
  "load_matrix t doc = (case doc of None \<Rightarrow> new_matrix | Some d \<Rightarrow> snd (load_state d t new_matrix))"

fun kept_step :: "kept_op \<Rightarrow> kept \<Rightarrow> kept" where
  "kept_step (Learn c) (m, t, doc) = (if c = Flush then (m, t, doc) else (matrix_step c m, t, doc))"
| "kept_step Save_Matrix (m, t, doc) =
     (let (rows, m) = flush_matrix m in (m, upsert_edges rows t, Some (matrix_state_of m)))"
| "kept_step Restart (m, t, doc) = (load_matrix t doc, t, doc)"

definition kept_ok :: "kept \<Rightarrow> bool" where
  "kept_ok s = (case s of (m, t, doc) \<Rightarrow>
     m_lam m = LAMBDA \<and> distinct (map fst t) \<and> (\<forall>(a, b) \<in> fst ` set (m_pairs m). a \<le> b)
     \<and> fst ` set t \<subseteq> fst ` set (m_pairs m) \<and> m_dirty m \<subseteq> fst ` set (m_pairs m)
     \<and> (\<forall>k x e. map_of (m_pairs m) k = Some (x, e) \<longrightarrow> k \<notin> m_dirty m \<longrightarrow>
          (\<exists>w n g. map_of t k = Some (w, n, g) \<and> decayed m n g = decayed m x e))
     \<and> (doc = None \<longrightarrow> t = []))"

lemma kept_facts:
  assumes "kept_ok (m, t, doc)"
  shows "m_lam m = LAMBDA" "distinct (map fst t)" "\<And>a b. (a, b) \<in> fst ` set (m_pairs m) \<Longrightarrow> a \<le> b"
    "fst ` set t \<subseteq> fst ` set (m_pairs m)" "m_dirty m \<subseteq> fst ` set (m_pairs m)" "finite (m_dirty m)"
    "\<And>k x e. map_of (m_pairs m) k = Some (x, e) \<Longrightarrow> k \<notin> m_dirty m \<Longrightarrow>
          \<exists>w n g. map_of t k = Some (w, n, g) \<and> decayed m n g = decayed m x e"
    "doc = None \<Longrightarrow> t = []"
proof -
  show "m_lam m = LAMBDA" "distinct (map fst t)" "fst ` set t \<subseteq> fst ` set (m_pairs m)"
    "m_dirty m \<subseteq> fst ` set (m_pairs m)" "doc = None \<Longrightarrow> t = []"
    using assms by (simp_all add: kept_ok_def)
  then show "finite (m_dirty m)"
    by (meson finite_imageI finite_set finite_subset)
  show "a \<le> b" if "(a, b) \<in> fst ` set (m_pairs m)" for a b
    using assms that unfolding kept_ok_def by (simp only: prod.case) blast
  show "\<exists>w n g. map_of t k = Some (w, n, g) \<and> decayed m n g = decayed m x e"
    if "map_of (m_pairs m) k = Some (x, e)" "k \<notin> m_dirty m" for k x e
    using assms that unfolding kept_ok_def by (simp only: prod.case) blast
qed

text \<open>An operation that leaves the table alone and marks every pair it touches.\<close>

lemma kept_learn:
  assumes "kept_ok (m, t, doc)" and "m_lam m' = LAMBDA"
    and "\<And>a b. (a, b) \<in> fst ` set (m_pairs m') \<Longrightarrow> (a, b) \<in> fst ` set (m_pairs m) \<or> a \<le> b"
    and "fst ` set (m_pairs m) \<subseteq> fst ` set (m_pairs m')" and "m_dirty m' \<subseteq> fst ` set (m_pairs m')"
    and "m_dirty m \<subseteq> m_dirty m'"
    and "\<And>p. p \<notin> m_dirty m' \<Longrightarrow> map_of (m_pairs m') p = map_of (m_pairs m) p"
    and aged: "\<And>x e n g. m_dirty m' \<noteq> fst ` set (m_pairs m') \<Longrightarrow> decayed m x e = decayed m n g \<Longrightarrow> decayed m' x e = decayed m' n g"
  shows "kept_ok (m', t, doc)"
proof -
  note f = kept_facts [OF assms(1)]
  have "\<exists>w n g. map_of t p = Some (w, n, g) \<and> decayed m' n g = decayed m' x e"
    if "map_of (m_pairs m') p = Some (x, e)" "p \<notin> m_dirty m'" for p x e
  proof -
    have same: "map_of (m_pairs m) p = Some (x, e)" "p \<notin> m_dirty m"
      using that assms(6) assms(7) [OF that(2)] by auto
    have "p \<in> fst ` set (m_pairs m')"
      using that(1) by (metis map_of_eq_None_iff option.distinct(1))
    then have "m_dirty m' \<noteq> fst ` set (m_pairs m')"
      using that(2) by blast
    with f(7) [OF same] aged show ?thesis
      by blast
  qed
  then have kept: "\<forall>p x e. map_of (m_pairs m') p = Some (x, e) \<longrightarrow> p \<notin> m_dirty m' \<longrightarrow>
      (\<exists>w n g. map_of t p = Some (w, n, g) \<and> decayed m' n g = decayed m' x e)"
    by (intro allI impI)
  have ordered: "\<forall>(a, b) \<in> fst ` set (m_pairs m'). a \<le> b"
  proof
    fix q
    assume q: "q \<in> fst ` set (m_pairs m')"
    obtain a b where ab: "q = (a, b)"
      by (cases q)
    from assms(3) [OF q [unfolded ab]] f(3) [of a b] have "a \<le> b"
      by (rule disjE)
    then show "case q of (a, b) \<Rightarrow> a \<le> b"
      unfolding ab prod.case .
  qed
  have "fst ` set t \<subseteq> fst ` set (m_pairs m')"
    by (rule subset_trans [OF f(4) assms(4)])
  with f(2,8) assms(2,5) ordered kept show ?thesis
    unfolding kept_ok_def prod.case by (intro conjI impI)
qed

lemma pair_key_ordered: "case pair_key a b of (x, y) \<Rightarrow> x \<le> y"
  by (simp add: pair_key_def)

lemma pair_key_id: "a \<le> b \<Longrightarrow> pair_key a b = (a, b)"
  by (simp add: pair_key_def)

lemma update_keys: "fst ` set (AList.update k v d) = insert k (fst ` set d)"
  using dom_update [of k v d] by (simp add: dom_map_of_conv_image_fst)

lemma kept_later:
  assumes "kept_ok (m, t, doc)"
  shows "kept_ok (m\<lparr>m_epoch := m_epoch m + int k\<rparr>, t, doc)"
proof (rule kept_learn [OF assms])
  note f = kept_facts [OF assms]
  show "m_lam (m\<lparr>m_epoch := m_epoch m + int k\<rparr>) = LAMBDA"
    using f(1) by simp
  show "decayed (m\<lparr>m_epoch := m_epoch m + int k\<rparr>) x e = decayed (m\<lparr>m_epoch := m_epoch m + int k\<rparr>) n g"
    if "decayed m x e = decayed m n g" for x e n g
    using decayed_later [of m "m\<lparr>m_epoch := m_epoch m + int k\<rparr>" k] f(1) that by simp
  show "m_dirty (m\<lparr>m_epoch := m_epoch m + int k\<rparr>) \<subseteq> fst ` set (m_pairs (m\<lparr>m_epoch := m_epoch m + int k\<rparr>))"
    using f(5) by simp
qed simp_all

lemma kept_rebase:
  assumes "kept_ok (m, t, doc)"
  shows "kept_ok (rebase e m, t, doc)"
proof (cases "e = m_epoch m")
  case True
  then show ?thesis
    using assms by (simp add: rebase_def)
next
  case False
  note f = kept_facts [OF assms]
  let ?m = "rebase e m"
  have keys: "fst ` set (shift_entries s d) = fst ` set d" for s and d :: "(edge_key \<times> real \<times> int) list"
    by (force simp: shift_entries_def image_iff)
  have m: "fst ` set (m_pairs ?m) = fst ` set (m_pairs m)" "m_dirty ?m = m_dirty m \<union> fst ` set (m_pairs m)"
    "m_pairs ?m = shift_entries (e - m_epoch m) (m_pairs m)"
    using False by (simp_all add: rebase_def Let_def keys)
  have all: "m_dirty ?m = fst ` set (m_pairs m)"
    unfolding m(2) using f(5) by (rule Un_absorb1)
  show ?thesis
  proof (rule kept_learn [OF assms])
    show "m_lam ?m = LAMBDA"
      by (simp add: view_rebase f(1))
    show "map_of (m_pairs ?m) p = map_of (m_pairs m) p" if "p \<notin> m_dirty ?m" for p
    proof -
      have "map_of (m_pairs m) p = None"
        using that unfolding all map_of_eq_None_iff .
      then show ?thesis
        by (simp add: m(3) map_of_shift)
    qed
    show "m_dirty m \<subseteq> m_dirty ?m"
      unfolding m(2) by (rule Un_upper1)
  qed (simp_all only: m(1) all simp_thms subset_refl)
qed

text \<open>Writing one pair marks it.\<close>

lemma kept_write:
  assumes "kept_ok (m, t, doc)" and "m_pairs m' = AList.update (pair_key a b) v (m_pairs m)"
    and "m_dirty m' = insert (pair_key a b) (m_dirty m)" and "m_lam m' = m_lam m" and "m_epoch m' = m_epoch m"
  shows "kept_ok (m', t, doc)"
proof (rule kept_learn [OF assms(1)])
  note f = kept_facts [OF assms(1)]
  have keys: "fst ` set (m_pairs m') = insert (pair_key a b) (fst ` set (m_pairs m))"
    by (simp only: assms(2) update_keys)
  show "m_lam m' = LAMBDA"
    by (simp only: assms(4) f(1))
  show "(x, y) \<in> fst ` set (m_pairs m) \<or> x \<le> y" if "(x, y) \<in> fst ` set (m_pairs m')" for x y
    using that pair_key_ordered [of a b] unfolding keys by auto
  show "fst ` set (m_pairs m) \<subseteq> fst ` set (m_pairs m')" "m_dirty m' \<subseteq> fst ` set (m_pairs m')" "m_dirty m \<subseteq> m_dirty m'"
    unfolding keys assms(3) using f(5) by blast+
  show "map_of (m_pairs m') p = map_of (m_pairs m) p" if "p \<notin> m_dirty m'" for p
    using that unfolding assms(2,3) update_conv' by simp
  show "decayed m' x e = decayed m' n g" if "decayed m x e = decayed m n g" for x e n g
    using that by (simp only: decayed_def assms(4,5))
qed

lemma kept_matrix_step:
  assumes "kept_ok (m, t, doc)" and "c \<noteq> Flush"
  shows "kept_ok (matrix_step c m, t, doc)"
proof (cases c)
  case Tick
  with kept_later [OF assms(1), of 1] show ?thesis
    by (simp add: tick_epoch_def)
next
  case (Advance e)
  with kept_later [OF assms(1), of "nat (e - m_epoch m)"] assms(1) show ?thesis
    by (simp add: advance_to_def split: if_splits)
next
  case (Rebase e)
  with kept_rebase [OF assms(1)] show ?thesis
    by simp
next
  case (Occurrence i w)
  have m: "m_pairs (observe_occurrence i w m) = m_pairs m" "m_dirty (observe_occurrence i w m) = m_dirty m"
    "m_lam (observe_occurrence i w m) = m_lam m" "m_epoch (observe_occurrence i w m) = m_epoch m"
    by (simp_all add: observe_occurrence_def Let_def case_prod_beta)
  have d: "decayed (observe_occurrence i w m) = decayed m"
    by (simp add: fun_eq_iff decayed_def m)
  show ?thesis
    unfolding Occurrence matrix_step.simps kept_ok_def prod.case m d by (rule assms(1) [unfolded kept_ok_def prod.case])
next
  case (Pair a b w)
  show ?thesis
    unfolding Pair matrix_step.simps
    by (rule kept_write [OF assms(1)]) (simp_all add: observe_pair_def Let_def case_prod_beta)
next
  case (Scale a b w)
  show ?thesis
  proof (cases "map_of (m_pairs m) (pair_key a b)")
    case None
    then show ?thesis
      using assms(1) by (simp add: Scale scale_pair_def Let_def)
  next
    case (Some r)
    then show ?thesis
      unfolding Scale matrix_step.simps
      by (intro kept_write [OF assms(1)]) (simp_all add: scale_pair_def Let_def case_prod_beta)
  qed
qed (use assms(2) in simp)

lemma upsert_lookup:
  assumes "distinct (map fst rows)"
  shows "map_of (upsert_edges rows t) k = (case map_of rows k of None \<Rightarrow> map_of t k | Some r \<Rightarrow> Some r)"
  using assms
proof (induction rows arbitrary: t)
  case (Cons row rows)
  obtain p r where row: "row = (p, r)"
    by (cases row)
  have "map_of rows p = None"
    using Cons.prems by (simp add: row map_of_eq_None_iff)
  then show ?case
    using Cons.IH [of "AList.update p r t"] Cons.prems
    by (auto simp: upsert_edges_def row update_conv' split: option.split)
qed (simp add: upsert_edges_def)

lemma upsert_distinct: "distinct (map fst t) \<Longrightarrow> distinct (map fst (upsert_edges rows t))"
  unfolding upsert_edges_def by (induction rows arbitrary: t) (simp_all add: distinct_update split: prod.split)

lemma upsert_keys: "fst ` set (upsert_edges rows t) = fst ` set rows \<union> fst ` set t"
proof (induction rows arbitrary: t)
  case (Cons row rows)
  obtain p r where row: "row = (p, r)"
    by (cases row)
  show ?case
    using Cons [of "AList.update p r t"] by (simp add: upsert_edges_def row update_keys)
qed (simp add: upsert_edges_def)

lemma flush_facts:
  assumes "finite (m_dirty m)"
  shows "map fst (flush_rows m) = sorted_list_of_set (m_dirty m)"
    and "map_of (flush_rows m) (a, b) = (if (a, b) \<in> m_dirty m then Some (npmi m a b, pair_mass m a b, m_epoch m) else None)"
proof -
  show keys: "map fst (flush_rows m) = sorted_list_of_set (m_dirty m)"
    unfolding flush_rows_def by (simp add: comp_def case_prod_beta)
  show "map_of (flush_rows m) (a, b) = (if (a, b) \<in> m_dirty m then Some (npmi m a b, pair_mass m a b, m_epoch m) else None)"
  proof (cases "(a, b) \<in> m_dirty m")
    case True
    have "distinct (map fst (flush_rows m))"
      unfolding keys by simp
    moreover have "((a, b), npmi m a b, pair_mass m a b, m_epoch m) \<in> set (flush_rows m)"
      using True assms by (force simp: flush_rows_def)
    ultimately show ?thesis
      using True by (simp add: map_of_is_SomeI)
  next
    case False
    then have "(a, b) \<notin> fst ` set (flush_rows m)"
      using assms unfolding set_map [symmetric] keys by simp
    with False show ?thesis
      by (simp add: map_of_eq_None_iff)
  qed
qed

lemma pair_mass_entry:
  assumes "map_of (m_pairs m) (a, b) = Some (x, e)" and "a \<le> b"
  shows "pair_mass m a b = decayed m x e"
  using assms by (simp add: pair_mass_def pair_key_id entry_of_def)

text \<open>After a save the table says what the matrix holds, pair for pair.\<close>

lemma saved_table:
  assumes "kept_ok (m, t, doc)"
  defines "t' \<equiv> upsert_edges (flush_rows m) t"
  shows "kept_ok (m\<lparr>m_dirty := {}\<rparr>, t', Some doc')"
    and "fst ` set t' = fst ` set (m_pairs m)"
proof -
  note f = kept_facts [OF assms(1)] and fl = flush_facts [OF kept_facts(6) [OF assms(1)]]
  have rows: "distinct (map fst (flush_rows m))"
    by (simp add: fl(1))
  note look = upsert_lookup [OF rows, of t, folded t'_def]
  have entry: "\<exists>w n g. map_of t' p = Some (w, n, g) \<and> decayed m n g = decayed m x e"
    if "map_of (m_pairs m) p = Some (x, e)" for p x e
  proof -
    obtain a b where p: "p = (a, b)"
      by (cases p)
    have "(a, b) \<in> fst ` set (m_pairs m)"
      using that unfolding p by (metis map_of_eq_None_iff option.distinct(1))
    then have ab: "a \<le> b"
      by (rule f(3))
    show ?thesis
    proof (cases "p \<in> m_dirty m")
      case True
      then have "map_of t' p = Some (npmi m a b, pair_mass m a b, m_epoch m)"
        by (simp add: look fl(2) p)
      with pair_mass_entry [OF that [unfolded p] ab] show ?thesis
        by simp
    next
      case False
      then have "map_of t' p = map_of t p"
        by (simp add: look fl(2) p)
      with f(7) [OF that False] show ?thesis
        by simp
    qed
  qed
  have keys: "fst ` set t' = m_dirty m \<union> fst ` set t"
    unfolding t'_def upsert_keys using arg_cong [OF fl(1), of set] f(6) by (simp only: set_map set_sorted_list_of_set)
  have "fst ` set (m_pairs m) \<subseteq> fst ` set t'"
  proof
    fix p
    assume "p \<in> fst ` set (m_pairs m)"
    then obtain x e where "map_of (m_pairs m) p = Some (x, e)"
      by (metis map_of_eq_None_iff not_None_eq prod.exhaust)
    from entry [OF this] show "p \<in> fst ` set t'"
      by (metis map_of_eq_None_iff option.distinct(1))
  qed
  then show all: "fst ` set t' = fst ` set (m_pairs m)"
    using f(4,5) unfolding keys by blast
  have d: "decayed (m\<lparr>m_dirty := {}\<rparr>) = decayed m"
    by (simp add: fun_eq_iff decayed_def)
  have ordered: "\<forall>(a, b) \<in> fst ` set (m_pairs m). a \<le> b"
    using assms(1) unfolding kept_ok_def prod.case by (elim conjE)
  have "\<forall>p x e. map_of (m_pairs m) p = Some (x, e) \<longrightarrow> p \<notin> {} \<longrightarrow>
      (\<exists>w n g. map_of t' p = Some (w, n, g) \<and> decayed m n g = decayed m x e)"
    using entry by (intro allI impI)
  moreover have "distinct (map fst t')"
    unfolding t'_def by (rule upsert_distinct [OF f(2)])
  ultimately show "kept_ok (m\<lparr>m_dirty := {}\<rparr>, t', Some doc')"
    unfolding kept_ok_def prod.case d using f(1) ordered all by (intro conjI) simp_all
qed

lemma load_pairs_lookup:
  assumes "distinct (map fst t)" and "\<And>a b. (a, b) \<in> fst ` set t \<Longrightarrow> a \<le> b"
  shows "map_of (fold (\<lambda>((a, b), (_, n, g)). AList.update (pair_key a b) (n, g)) t d) k =
    (case map_of t k of None \<Rightarrow> map_of d k | Some (_, n, g) \<Rightarrow> Some (n, g))"
  using assms
proof (induction t arbitrary: d)
  case (Cons row t)
  obtain a b w n g where row: "row = ((a, b), (w, n, g))"
    by (metis prod.exhaust)
  have "a \<le> b"
    using Cons.prems(2) [of a b] by (simp add: row)
  then have pk: "pair_key a b = (a, b)"
    by (rule pair_key_id)
  have none: "map_of t (a, b) = None"
    using Cons.prems(1) by (simp add: row map_of_eq_None_iff)
  have "map_of (fold (\<lambda>((a, b), (_, n, g)). AList.update (pair_key a b) (n, g)) t (AList.update (a, b) (n, g) d)) k =
      (case map_of t k of None \<Rightarrow> map_of (AList.update (a, b) (n, g) d) k | Some (_, n, g) \<Rightarrow> Some (n, g))"
    by (rule Cons.IH) (use Cons.prems in \<open>auto simp: row\<close>)
  with none show ?case
    by (auto simp: row pk update_conv' split: option.split)
qed simp

lemma load_facts:
  assumes "kept_ok (m, t, doc)"
  shows "kept_ok (load_matrix t doc, t, doc)"
    and "doc = Some d \<Longrightarrow> map_of (m_pairs (load_matrix t doc)) p = map_option snd (map_of t p)"
proof -
  note f = kept_facts [OF assms]
  have ordered: "a \<le> b" if "(a, b) \<in> fst ` set t" for a b
    using f(4) f(3) [of a b] that by blast
  have look: "map_of (m_pairs (load_matrix t doc)) p = map_option snd (map_of t p)" if "doc = Some d" for p d
    using load_pairs_lookup [OF f(2) ordered, of "[]" p] that
    by (simp add: load_matrix_def load_state_def split: option.splits)
  then show "doc = Some d \<Longrightarrow> map_of (m_pairs (load_matrix t doc)) p = map_option snd (map_of t p)"
    by blast
  show "kept_ok (load_matrix t doc, t, doc)"
  proof (cases doc)
    case None
    then show ?thesis
      using f(8) by (simp add: load_matrix_def kept_ok_def new_matrix_def)
  next
    case (Some d)
    let ?m = "load_matrix t doc"
    have "dom (map_of (m_pairs ?m)) = dom (map_of t)"
      using look [OF Some] by (auto simp: dom_def)
    then have keys: "fst ` set (m_pairs ?m) = fst ` set t"
      by (simp only: dom_map_of_conv_image_fst)
    have m: "m_lam ?m = LAMBDA" "m_dirty ?m = {}"
      using Some by (simp_all add: load_matrix_def load_state_def new_matrix_def)
    have "\<exists>w n g. map_of t p = Some (w, n, g) \<and> decayed ?m n g = decayed ?m x e"
      if "map_of (m_pairs ?m) p = Some (x, e)" for p x e
      using that unfolding look [OF Some] by (cases "map_of t p") auto
    then have "\<forall>p x e. map_of (m_pairs ?m) p = Some (x, e) \<longrightarrow> p \<notin> {} \<longrightarrow>
        (\<exists>w n g. map_of t p = Some (w, n, g) \<and> decayed ?m n g = decayed ?m x e)"
      by (intro allI impI)
    moreover have "\<forall>(a, b) \<in> fst ` set t. a \<le> b"
      using ordered by fast
    ultimately show ?thesis
      unfolding kept_ok_def prod.case keys m using f(2) Some by (intro conjI) simp_all
  qed
qed

lemma kept_reach: "kept_ok s \<Longrightarrow> kept_ok (kept_step c s)"
proof -
  assume ok: "kept_ok s"
  obtain m t doc where s: "s = (m, t, doc)"
    by (metis prod.exhaust)
  show ?thesis
  proof (cases c)
    case (Learn o')
    then show ?thesis
      using ok kept_matrix_step [of m t doc o'] by (simp add: s)
  next
    case Save_Matrix
    then show ?thesis
      using saved_table(1) [OF ok [unfolded s]] by (simp add: s flush_matrix_def)
  next
    case Restart
    then show ?thesis
      using load_facts(1) [OF ok [unfolded s]] by (simp add: s)
  qed
qed

lemma kept_run: "kept_ok s \<Longrightarrow> kept_ok (fold kept_step cs s)"
  by (induction cs arbitrary: s) (simp_all add: kept_reach)


end
