(* ===== verification/Corr_Score.thy ===== *)
theory Corr_Score
  imports Corr_Learn
begin

text \<open>
  \<open>engine/correlate/scoring.py\<close>, \<open>gates.py\<close> and \<open>scorer_contract.py\<close>: what a scorer is handed and
  returns, the additive formula with its two gates, the bounds of its parameters, and the wrapper
  that falls back to the formula when a scorer misbehaves. The scorer behind the wrapper is an
  argument: a function that raises or returns after some seconds. A float is a real number or not
  finite; the fields of \<open>LinkFeatures\<close> reserved for later versions are left out.
\<close>

section \<open>The contract\<close>

datatype number = Finite real | NonFinite

record LinkFeatures =
  f_delta_t_s :: real
  f_class_i :: int
  f_class_j :: int
  f_class_affinity :: real
  f_ne_i :: int
  f_ne_j :: int
  f_entity_affinity :: real
  f_same_oid_root :: "bool option"
  f_vector :: "real list option"

record TermContribution =
  tc_name :: string
  tc_weight :: real
  tc_value :: real
  tc_contribution :: real

record LinkScore =
  ls_linked :: bool
  ls_score :: number
  ls_threshold :: real
  ls_terms :: "TermContribution list"
  ls_basis :: string
  ls_base_value :: real

section \<open>The formula\<close>

definition unrelated_elements :: "LinkFeatures \<Rightarrow> bool" where
  "unrelated_elements f \<longleftrightarrow> f_ne_i f \<noteq> f_ne_j f \<and> f_entity_affinity f = 0"

definition cross_subtree_elements :: "LinkFeatures \<Rightarrow> bool" where
  "cross_subtree_elements f \<longleftrightarrow> (if f_same_oid_root f \<noteq> Some False then False else f_ne_i f \<noteq> f_ne_j f)"

record AdditiveScorer =
  w_t :: real
  w_a :: real
  w_e :: real
  tau_s :: real
  threshold :: real

definition default_scorer :: AdditiveScorer where
  "default_scorer = \<lparr>w_t = 0.3, w_a = 0.35, w_e = 0.35, tau_s = 30, threshold = 0.5\<rparr>"

definition additive_score :: "AdditiveScorer \<Rightarrow> LinkFeatures \<Rightarrow> LinkScore" where
  "additive_score s f =
     (let decay = exp (- \<bar>f_delta_t_s f\<bar> / tau_s s);
          entity = (if cross_subtree_elements f then 0 else f_entity_affinity f);
          cls = (if unrelated_elements f then 0 else f_class_affinity f);
          term_t = w_t s * decay;
          term_a = w_a s * cls;
          term_e = w_e s * entity;
          sum = term_t + term_a + term_e
      in \<lparr>ls_linked = (sum > threshold s), ls_score = Finite sum, ls_threshold = threshold s,
           ls_terms = [\<lparr>tc_name = ''temporal'', tc_weight = w_t s, tc_value = decay, tc_contribution = term_t\<rparr>,
             \<lparr>tc_name = ''class_affinity'', tc_weight = w_a s, tc_value = cls, tc_contribution = term_a\<rparr>,
             \<lparr>tc_name = ''entity_affinity'', tc_weight = w_e s, tc_value = entity, tc_contribution = term_e\<rparr>],
           ls_basis = ''weighted-sum'', ls_base_value = 0\<rparr>)"

text \<open>Why a set of parameters is refused, one constructor per message.\<close>

datatype params_error =
    Not_Finite string | Not_In_Unit string | Tau_Out_Of_Range | Weights_Vanish | Threshold_Too_Low | No_Headroom

fun check_unit :: "(string \<times> number) list \<Rightarrow> params_error option" where
  "check_unit [] = None"
| "check_unit ((name, v) # rest) =
     (case v of
        NonFinite \<Rightarrow> Some (Not_Finite name)
      | Finite x \<Rightarrow> if \<not> (0 \<le> x \<and> x \<le> 1) then Some (Not_In_Unit name) else check_unit rest)"

definition finite_value :: "number \<Rightarrow> real" where
  "finite_value v = (case v of Finite x \<Rightarrow> x | NonFinite \<Rightarrow> 0)"

definition validate_params :: "number \<Rightarrow> number \<Rightarrow> number \<Rightarrow> number \<Rightarrow> number \<Rightarrow> params_error + AdditiveScorer" where
  "validate_params wt wa we tau thr =
     (case check_unit [(''w_t'', wt), (''w_a'', wa), (''w_e'', we), (''threshold'', thr)] of
        Some e \<Rightarrow> Inl e
      | None \<Rightarrow>
          (case tau of
             NonFinite \<Rightarrow> Inl (Not_Finite ''tau_s'')
           | Finite t \<Rightarrow>
               let weight_sum = finite_value wt + finite_value wa + finite_value we; th = finite_value thr
               in if \<not> (1 \<le> t \<and> t \<le> 3600) then Inl Tau_Out_Of_Range
                  else if weight_sum < 0.1 then Inl Weights_Vanish
                  else if th < 0.01 then Inl Threshold_Too_Low
                  else if th > weight_sum - 0.01 then Inl No_Headroom
                  else Inr \<lparr>w_t = finite_value wt, w_a = finite_value wa, w_e = finite_value we, tau_s = t, threshold = th\<rparr>))"

section \<open>The wrapper\<close>

text \<open>What a call of the scorer behind the wrapper does: it raises, or returns after some seconds a
  score or something that is not one.\<close>

datatype answer = Not_A_Score string | Scored_Link LinkScore

datatype 'a call = Raises string | Returns 'a seconds

record Delegate =
  d_id :: string
  d_score :: "LinkFeatures \<Rightarrow> answer call"
  d_logit :: "(real list \<Rightarrow> number call) option"
  d_threshold :: real

datatype degrade_reason = Scorer_Raised string | Not_Score string | Score_Not_Finite | No_Terms | Logit_Not_Finite | Over_Budget

record SafeScorer =
  sf_delegate :: Delegate
  sf_budget :: seconds
  sf_degraded :: bool
  sf_failures :: nat
  sf_last_error :: "degrade_reason option"

definition SCORE_BUDGET_S :: seconds where "SCORE_BUDGET_S = 0.5"

definition new_safe :: "Delegate \<Rightarrow> SafeScorer" where
  "new_safe d = \<lparr>sf_delegate = d, sf_budget = SCORE_BUDGET_S, sf_degraded = False, sf_failures = 0, sf_last_error = None\<rparr>"

definition degrade :: "degrade_reason \<Rightarrow> SafeScorer \<Rightarrow> SafeScorer" where
  "degrade r s = s\<lparr>sf_failures := sf_failures s + 1, sf_last_error := Some r, sf_degraded := True\<rparr>"

definition contract_violation :: "answer \<Rightarrow> degrade_reason option" where
  "contract_violation a =
     (case a of
        Not_A_Score t \<Rightarrow> Some (Not_Score t)
      | Scored_Link l \<Rightarrow>
          if ls_score l = NonFinite then Some Score_Not_Finite
          else if ls_terms l = [] then Some No_Terms else None)"

definition fallback_score :: "LinkFeatures \<Rightarrow> LinkScore" where
  "fallback_score = additive_score default_scorer"

definition safe_score :: "LinkFeatures \<Rightarrow> SafeScorer \<Rightarrow> LinkScore \<times> SafeScorer" where
  "safe_score f s =
     (if sf_degraded s then (fallback_score f, s)
      else
        case d_score (sf_delegate s) f of
          Raises e \<Rightarrow> (fallback_score f, degrade (Scorer_Raised e) s)
        | Returns a elapsed \<Rightarrow>
            (case contract_violation a of
               Some r \<Rightarrow> (fallback_score f, degrade r s)
             | None \<Rightarrow>
                 (case a of
                    Scored_Link l \<Rightarrow> if elapsed > sf_budget s then (l, degrade Over_Budget s) else (l, s)
                  | Not_A_Score t \<Rightarrow> (fallback_score f, s))))"

definition fast_path :: "SafeScorer \<Rightarrow> bool" where
  "fast_path s \<longleftrightarrow> \<not> sf_degraded s \<and> d_logit (sf_delegate s) \<noteq> None"

definition safe_fast :: "real list \<Rightarrow> SafeScorer \<Rightarrow> (real \<times> bool) option \<times> SafeScorer" where
  "safe_fast v s =
     (case d_logit (sf_delegate s) of
        None \<Rightarrow> (None, s)
      | Some logit \<Rightarrow>
          if sf_degraded s then (None, s)
          else
            case logit v of
              Raises e \<Rightarrow> (None, degrade (Scorer_Raised e) s)
            | Returns NonFinite _ \<Rightarrow> (None, degrade Logit_Not_Finite s)
            | Returns (Finite x) elapsed \<Rightarrow>
                if elapsed > sf_budget s then (None, degrade Over_Budget s)
                else let th = d_threshold (sf_delegate s) in (Some (x - th, x > th), s))"

section \<open>What the formula decides\<close>

lemma decay_bounds: "0 < tau_s s \<Longrightarrow> 0 < exp (- \<bar>d\<bar> / tau_s s) \<and> exp (- \<bar>d\<bar> / tau_s s) \<le> (1 :: real)"
  by simp

lemma check_unit_ok: "check_unit vs = None \<longleftrightarrow> (\<forall>(n, v) \<in> set vs. \<exists>x. v = Finite x \<and> 0 \<le> x \<and> x \<le> 1)"
  by (induction vs rule: check_unit.induct) (auto split: number.splits)

lemma validated:
  assumes "validate_params wt wa we tau thr = Inr s"
  shows "0 \<le> w_t s" "w_t s \<le> 1" "0 \<le> w_a s" "0 \<le> w_e s" "1 \<le> tau_s s" "tau_s s \<le> 3600"
    "0.01 \<le> threshold s" "threshold s \<le> w_t s + w_a s + w_e s - 0.01"
  using assms by (auto simp: validate_params_def check_unit_ok finite_value_def Let_def split: option.splits number.splits if_splits)

text \<open>More evidence for the same two elements never unlinks a pair.\<close>

lemma formula_monotone:
  assumes "0 \<le> w_t s" "0 \<le> w_a s" "0 \<le> w_e s" "0 < tau_s s"
    and "f_ne_i f = f_ne_i f'" "f_ne_j f = f_ne_j f'" "f_same_oid_root f = f_same_oid_root f'"
    and "\<bar>f_delta_t_s f'\<bar> \<le> \<bar>f_delta_t_s f\<bar>" "0 \<le> f_class_affinity f" "f_class_affinity f \<le> f_class_affinity f'"
    and "0 \<le> f_entity_affinity f" "f_entity_affinity f \<le> f_entity_affinity f'"
    and "ls_linked (additive_score s f)"
  shows "ls_linked (additive_score s f')"
proof -
  let ?d = "\<lambda>f. exp (- \<bar>f_delta_t_s f\<bar> / tau_s s)"
  let ?e = "\<lambda>f. if cross_subtree_elements f then 0 else f_entity_affinity f"
  let ?c = "\<lambda>f. if unrelated_elements f then 0 else f_class_affinity f"
  have "?d f \<le> ?d f'"
    using assms(4,8) by (simp add: divide_right_mono)
  moreover have "?e f \<le> ?e f'"
    using assms(5-7,12) by (simp add: cross_subtree_elements_def)
  moreover have "?c f \<le> ?c f'"
    using assms by (auto simp: unrelated_elements_def)
  ultimately have "w_t s * ?d f + w_a s * ?c f + w_e s * ?e f \<le> w_t s * ?d f' + w_a s * ?c f' + w_e s * ?e f'"
    using assms(1-3) by (intro add_mono mult_left_mono) simp_all
  with assms(13) show ?thesis
    by (simp add: additive_score_def Let_def)
qed

lemma score_of_formula:
  "ls_linked (additive_score s f) \<longleftrightarrow>
     w_t s * exp (- \<bar>f_delta_t_s f\<bar> / tau_s s)
       + w_a s * (if unrelated_elements f then 0 else f_class_affinity f)
       + w_e s * (if cross_subtree_elements f then 0 else f_entity_affinity f) > threshold s"
  by (simp add: additive_score_def Let_def)

text \<open>The printed terms sum to the score, gated or not.\<close>

lemma terms_sum: "ls_score (additive_score s f) = Finite (sum_list (map tc_contribution (ls_terms (additive_score s f))))"
  by (simp add: additive_score_def Let_def)

section \<open>The wrapper never fails\<close>

datatype safe_call = Ask LinkFeatures | Ask_Fast "real list"

fun safe_step :: "safe_call \<Rightarrow> SafeScorer \<Rightarrow> SafeScorer" where
  "safe_step (Ask f) s = snd (safe_score f s)"
| "safe_step (Ask_Fast v) s = snd (safe_fast v s)"

definition usable :: "LinkScore \<Rightarrow> bool" where
  "usable l \<longleftrightarrow> ls_score l \<noteq> NonFinite \<and> ls_terms l \<noteq> []"

lemma fallback_usable: "usable (fallback_score f)"
  by (simp add: usable_def fallback_score_def additive_score_def Let_def)

lemma violation_none: "contract_violation a = None \<longleftrightarrow> (\<exists>l. a = Scored_Link l \<and> usable l)"
  by (auto simp: contract_violation_def usable_def split: answer.split)

lemma safe_score_cases:
  "(sf_degraded s \<and> safe_score f s = (fallback_score f, s))
   \<or> (\<not> sf_degraded s \<and> (\<exists>r. safe_score f s = (fallback_score f, degrade r s)))
   \<or> (\<not> sf_degraded s \<and> (\<exists>l t. d_score (sf_delegate s) f = Returns (Scored_Link l) t \<and> usable l
        \<and> safe_score f s = (l, if t > sf_budget s then degrade Over_Budget s else s)))"
proof (cases "sf_degraded s")
  case True
  then show ?thesis
    by (simp add: safe_score_def)
next
  case False
  show ?thesis
  proof (cases "d_score (sf_delegate s) f")
    case (Raises e)
    with False show ?thesis
      by (auto simp: safe_score_def)
  next
    case (Returns a t)
    show ?thesis
    proof (cases "contract_violation a")
      case None
      then obtain l where "a = Scored_Link l" "usable l"
        by (auto simp: violation_none)
      with None False Returns show ?thesis
        by (auto simp: safe_score_def)
    next
      case (Some r)
      with False Returns show ?thesis
        by (auto simp: safe_score_def)
    qed
  qed
qed

lemma safe_fast_cases:
  "(snd (safe_fast v s) = s \<or> \<not> sf_degraded s \<and> (\<exists>r. safe_fast v s = (None, degrade r s)))
   \<and> (sf_degraded s \<longrightarrow> safe_fast v s = (None, s))"
  by (auto simp: safe_fast_def Let_def split: option.split call.split number.split)

lemma safe_run:
  "sf_delegate (fold safe_step cs (new_safe d)) = d
    \<and> (if sf_degraded (fold safe_step cs (new_safe d))
       then sf_failures (fold safe_step cs (new_safe d)) = 1 else sf_failures (fold safe_step cs (new_safe d)) = 0)"
proof (induction cs rule: rev_induct)
  case (snoc c cs)
  let ?s = "fold safe_step cs (new_safe d)"
  have "safe_step c ?s = ?s \<or> \<not> sf_degraded ?s \<and> (\<exists>r. safe_step c ?s = degrade r ?s)"
  proof (cases c)
    case (Ask f)
    then show ?thesis
      using safe_score_cases [of ?s f] by (auto split: if_splits)
  next
    case (Ask_Fast v)
    then show ?thesis
      using safe_fast_cases [of v ?s] by auto
  qed
  with snoc.IH show ?case
    by (auto simp: degrade_def)
qed (simp add: new_safe_def)



end
