(* ===== verification/Corr_Episodes.thy ===== *)
theory Corr_Episodes
  imports Prelude "HOL-Library.AList" "HOL-Library.List_Lexorder" "HOL-Library.Product_Lexorder"
begin

text \<open>
  \<open>engine/correlate/episodes.py\<close> and \<open>engine/correlate/retrieval.py\<close>: on how many separate
  occasions two things went wrong together, and the bounded recall of earlier alarms. A tuple key
  is a list of integers, compared as Python compares tuples; a dictionary is an association list in
  insertion order. The set of addresses a trap names is the sorted list of them.
\<close>

section \<open>Occasions\<close>

definition CO_WINDOW_S :: seconds where "CO_WINDOW_S = 300"
definition EPISODE_GAP_S :: seconds where "EPISODE_GAP_S = 1800"
definition MAX_PAIRS :: nat where "MAX_PAIRS = 200000"
definition MAX_AGE_S :: seconds where "MAX_AGE_S = 365 * 86400"
definition TOP_PARTNERS :: nat where "TOP_PARTNERS = 6"

type_synonym ep_key = "int list"

definition ep_pair :: "ep_key \<Rightarrow> ep_key \<Rightarrow> ep_key" where
  "ep_pair a b = (if a \<le> b then a @ b else b @ a)"

record Table =
  tb_counts :: "(ep_key \<times> (nat \<times> seconds)) list"
  tb_dirty :: "ep_key set"

definition new_table :: Table where
  "new_table = \<lparr>tb_counts = [], tb_dirty = {}\<rparr>"

definition prior :: "Table \<Rightarrow> ep_key \<Rightarrow> seconds \<Rightarrow> int" where
  "prior t key now =
     (case map_of (tb_counts t) key of
        None \<Rightarrow> 0
      | Some (count, at_ts) \<Rightarrow> if now - at_ts \<le> EPISODE_GAP_S then int count - 1 else int count)"

definition table_observe :: "ep_key \<Rightarrow> seconds \<Rightarrow> Table \<Rightarrow> bool \<times> Table" where
  "table_observe key now t =
     (let t = t\<lparr>tb_dirty := insert key (tb_dirty t)\<rparr>
      in case map_of (tb_counts t) key of
           None \<Rightarrow> (True, t\<lparr>tb_counts := AList.update key (1, now) (tb_counts t)\<rparr>)
         | Some (count, at_ts) \<Rightarrow>
             let opened = now - at_ts > EPISODE_GAP_S
             in (opened, t\<lparr>tb_counts := AList.update key (if opened then count + 1 else count, max at_ts now) (tb_counts t)\<rparr>))"

definition table_prune :: "seconds \<Rightarrow> Table \<Rightarrow> Table" where
  "table_prune now t =
     (let counts = filter (\<lambda>(_, (_, at_ts)). \<not> now - at_ts > MAX_AGE_S) (tb_counts t);
          ordered = sort_key (\<lambda>(k, (_, at_ts)). (at_ts, k)) counts;
          gone = (if length counts > MAX_PAIRS then map fst (take (length counts - MAX_PAIRS) ordered) else [])
      in t\<lparr>tb_counts := filter (\<lambda>(k, _). k \<notin> set gone) counts\<rparr>)"

record EpisodeMemory =
  em_ne :: Table
  em_cls :: Table
  em_item :: Table
  em_partners :: "(int \<times> (int \<times> nat) list) list"

definition new_memory :: EpisodeMemory where
  "new_memory = \<lparr>em_ne = new_table, em_cls = new_table, em_item = new_table, em_partners = []\<rparr>"

definition ne_prior :: "EpisodeMemory \<Rightarrow> int \<Rightarrow> int \<Rightarrow> seconds \<Rightarrow> int" where
  "ne_prior m a b now = (if a = b then 0 else prior (em_ne m) (ep_pair [a] [b]) now)"

definition cls_prior :: "EpisodeMemory \<Rightarrow> int \<Rightarrow> int \<Rightarrow> seconds \<Rightarrow> int" where
  "cls_prior m a b now = prior (em_cls m) (ep_pair [a] [b]) now"

definition item_prior :: "EpisodeMemory \<Rightarrow> int \<times> int \<Rightarrow> int \<times> int \<Rightarrow> seconds \<Rightarrow> int" where
  "item_prior m a b now = prior (em_item m) (ep_pair [fst a, snd a] [fst b, snd b]) now"

definition partners_of :: "EpisodeMemory \<Rightarrow> int \<Rightarrow> (int \<times> nat) list" where
  "partners_of m ne = (case map_of (em_partners m) ne of None \<Rightarrow> [] | Some d \<Rightarrow> d)"

definition degree :: "EpisodeMemory \<Rightarrow> int \<Rightarrow> nat" where
  "degree m ne = length (partners_of m ne)"

definition neighbours :: "EpisodeMemory \<Rightarrow> int \<Rightarrow> int list" where
  "neighbours m ne =
     (let ranked = sort_key (\<lambda>(p, c). (- int c, p)) (partners_of m ne)
      in map fst (filter (\<lambda>(_, c). c \<ge> 2) (take TOP_PARTNERS ranked)))"

definition add_partner :: "int \<Rightarrow> int \<Rightarrow> EpisodeMemory \<Rightarrow> EpisodeMemory" where
  "add_partner x y m =
     (let mine = partners_of m x;
          n = (case map_of mine y of None \<Rightarrow> 0 | Some c \<Rightarrow> c)
      in m\<lparr>em_partners := AList.update x (AList.update y (n + 1) mine) (em_partners m)\<rparr>)"

definition memory_observe :: "int \<times> int \<Rightarrow> int \<times> int \<Rightarrow> seconds \<Rightarrow> EpisodeMemory \<Rightarrow> EpisodeMemory" where
  "memory_observe a b now m =
     (let m = m\<lparr>em_item := snd (table_observe (ep_pair [fst a, snd a] [fst b, snd b]) now (em_item m))\<rparr>;
          m = m\<lparr>em_cls := snd (table_observe (ep_pair [snd a] [snd b]) now (em_cls m))\<rparr>
      in if fst a = fst b then m
         else
           let (opened, t) = table_observe (ep_pair [fst a] [fst b]) now (em_ne m);
               m = m\<lparr>em_ne := t\<rparr>
           in if opened then add_partner (fst b) (fst a) (add_partner (fst a) (fst b) m) else m)"

definition memory_prune :: "seconds \<Rightarrow> EpisodeMemory \<Rightarrow> EpisodeMemory" where
  "memory_prune now m =
     (let ne = table_prune now (em_ne m);
          live = fst ` set (tb_counts ne);
          partners = map (\<lambda>(x, mine). (x, filter (\<lambda>(y, _). ep_pair [x] [y] \<in> live) mine)) (em_partners m)
      in m\<lparr>em_ne := ne, em_cls := table_prune now (em_cls m), em_item := table_prune now (em_item m),
           em_partners := filter (\<lambda>(_, mine). mine \<noteq> []) partners\<rparr>)"

text \<open>What is stored: the dirty rows of the three tables, by name.\<close>

type_synonym EpisodeRow = "string \<times> ep_key \<times> nat \<times> seconds"

definition table_rows :: "string \<Rightarrow> Table \<Rightarrow> EpisodeRow list" where
  "table_rows name t =
     concat (map (\<lambda>k. case map_of (tb_counts t) k of None \<Rightarrow> [] | Some (count, at_ts) \<Rightarrow> [(name, k, count, at_ts)])
       (sorted_list_of_set (tb_dirty t)))"

definition memory_flush :: "EpisodeMemory \<Rightarrow> EpisodeRow list \<times> EpisodeMemory" where
  "memory_flush m =
     (table_rows ''ne'' (em_ne m) @ table_rows ''cls'' (em_cls m) @ table_rows ''item'' (em_item m),
      m\<lparr>em_ne := (em_ne m)\<lparr>tb_dirty := {}\<rparr>, em_cls := (em_cls m)\<lparr>tb_dirty := {}\<rparr>, em_item := (em_item m)\<lparr>tb_dirty := {}\<rparr>\<rparr>)"

definition set_count :: "ep_key \<Rightarrow> nat \<Rightarrow> seconds \<Rightarrow> Table \<Rightarrow> Table" where
  "set_count key count at_ts t = t\<lparr>tb_counts := AList.update key (count, at_ts) (tb_counts t)\<rparr>"

definition set_partner :: "int \<Rightarrow> int \<Rightarrow> nat \<Rightarrow> EpisodeMemory \<Rightarrow> EpisodeMemory" where
  "set_partner x y count m = m\<lparr>em_partners := AList.update x (AList.update y count (partners_of m x)) (em_partners m)\<rparr>"

definition load_row :: "EpisodeRow \<Rightarrow> EpisodeMemory \<Rightarrow> EpisodeMemory" where
  "load_row row m =
     (case row of (name, key, count, at_ts) \<Rightarrow>
        if name = ''ne''
        then let m = m\<lparr>em_ne := set_count key count at_ts (em_ne m)\<rparr>
             in (case key of [x, y] \<Rightarrow> set_partner y x count (set_partner x y count m) | _ \<Rightarrow> m)
        else if name = ''cls'' then m\<lparr>em_cls := set_count key count at_ts (em_cls m)\<rparr>
        else if name = ''item'' then m\<lparr>em_item := set_count key count at_ts (em_item m)\<rparr>
        else m)"

definition memory_load :: "EpisodeRow list \<Rightarrow> EpisodeMemory \<Rightarrow> EpisodeMemory" where
  "memory_load rows m = fold load_row rows m"

section \<open>An alarm of the window\<close>

record WindowAlarm =
  wa_id :: int
  wa_class :: int
  wa_device :: int
  wa_ts :: seconds
  wa_entity :: int
  wa_oid_root :: string
  wa_arcs :: "string list"
  wa_severity :: int
  wa_chatter :: int
  wa_source :: string
  wa_refs :: "string list"

text \<open>\<open>__post_init__\<close>.\<close>

definition window_alarm :: "WindowAlarm \<Rightarrow> WindowAlarm" where
  "window_alarm a = (if wa_entity a = 0 then a\<lparr>wa_entity := wa_device a\<rparr> else a)"

section \<open>Recall\<close>

definition RING_S :: seconds where "RING_S = 3600"
definition PER_NE :: nat where "PER_NE = 24"
definition PER_PARENT :: nat where "PER_PARENT = 16"
definition PER_REF :: nat where "PER_REF = 8"
definition PER_NEIGHBOUR :: nat where "PER_NEIGHBOUR = 6"
definition MAX_RECALL :: nat where "MAX_RECALL = 64"

definition parent_of :: "string list \<Rightarrow> string list" where
  "parent_of arcs = (if length arcs > 1 then butlast arcs else arcs)"

record CandidateIndex =
  by_ne :: "(int \<times> WindowAlarm list) list"
  by_parent :: "(string list \<times> WindowAlarm list) list"
  by_named :: "(string \<times> WindowAlarm list) list"
  ne_of :: "(string \<times> int) list"

definition new_index :: CandidateIndex where
  "new_index = \<lparr>by_ne = [], by_parent = [], by_named = [], ne_of = []\<rparr>"

text \<open>Appending to a \<open>deque(maxlen=n)\<close>, oldest first, made on the first use of its key.\<close>

definition ring_push :: "nat \<Rightarrow> WindowAlarm \<Rightarrow> WindowAlarm list \<Rightarrow> WindowAlarm list" where
  "ring_push n a ring = (let r = ring @ [a] in drop (length r - n) r)"

definition push_at :: "nat \<Rightarrow> 'k \<Rightarrow> WindowAlarm \<Rightarrow> ('k \<times> WindowAlarm list) list \<Rightarrow> ('k \<times> WindowAlarm list) list" where
  "push_at n k a d = AList.update k (ring_push n a (case map_of d k of None \<Rightarrow> [] | Some r \<Rightarrow> r)) d"

definition index_alarm :: "WindowAlarm \<Rightarrow> CandidateIndex \<Rightarrow> CandidateIndex" where
  "index_alarm a i =
     i\<lparr>by_ne := push_at PER_NE (wa_device a) a (by_ne i),
       by_parent := push_at PER_PARENT (parent_of (wa_arcs a)) a (by_parent i),
       ne_of := (if wa_source a \<noteq> [] then AList.update (wa_source a) (wa_device a) (ne_of i) else ne_of i),
       by_named := fold (\<lambda>r. push_at PER_REF r a) (wa_refs a) (by_named i)\<rparr>"

definition rings :: "CandidateIndex \<Rightarrow> WindowAlarm list list" where
  "rings i = map snd (by_ne i) @ map snd (by_parent i) @ map snd (by_named i)"

text \<open>The scan of one ring, newest first: what was seen, what was taken, how many of this ring.\<close>

fun scan_ring :: "WindowAlarm \<Rightarrow> int set \<Rightarrow> int set \<Rightarrow> nat \<Rightarrow> WindowAlarm list \<Rightarrow> nat
    \<Rightarrow> int set \<times> WindowAlarm list \<Rightarrow> int set \<times> WindowAlarm list" where
  "scan_ring new live exclude budget [] taken acc = acc"
| "scan_ring new live exclude budget (a # ring) taken (seen, out) =
     (if wa_ts new - wa_ts a > RING_S \<or> taken \<ge> budget \<or> length out \<ge> MAX_RECALL then (seen, out)
      else if wa_id a = wa_id new \<or> wa_id a \<in> seen \<or> wa_id a \<in> exclude \<or> wa_id a \<notin> live
           then scan_ring new live exclude budget ring taken (seen, out)
      else scan_ring new live exclude budget ring (taken + 1) (insert (wa_id a) seen, out @ [a]))"

definition ring_entry :: "WindowAlarm list option \<Rightarrow> nat \<Rightarrow> (WindowAlarm list \<times> nat) list" where
  "ring_entry r n = (case r of None \<Rightarrow> [] | Some ring \<Rightarrow> [(ring, n)])"

definition ring_list :: "WindowAlarm \<Rightarrow> int list \<Rightarrow> CandidateIndex \<Rightarrow> (WindowAlarm list \<times> nat) list" where
  "ring_list new near i =
     ring_entry (map_of (by_ne i) (wa_device new)) PER_NE
       @ ring_entry (map_of (by_parent i) (parent_of (wa_arcs new))) PER_PARENT
       @ (if wa_source new \<noteq> [] then ring_entry (map_of (by_named i) (wa_source new)) PER_REF else [])
       @ concat (map (\<lambda>r. case map_of (ne_of i) r of
            None \<Rightarrow> []
          | Some ne \<Rightarrow> if ne \<noteq> wa_device new then ring_entry (map_of (by_ne i) ne) PER_REF else []) (wa_refs new))
       @ concat (map (\<lambda>ne. ring_entry (map_of (by_ne i) ne) PER_NEIGHBOUR) near)"

definition recall :: "WindowAlarm \<Rightarrow> int set \<Rightarrow> int list \<Rightarrow> int set \<Rightarrow> CandidateIndex \<Rightarrow> WindowAlarm list" where
  "recall new live near exclude i =
     sort_key (\<lambda>a. (wa_ts a, wa_id a))
       (snd (fold (\<lambda>(ring, budget). scan_ring new live exclude budget (rev ring) 0) (ring_list new near i) ({}, [])))"

definition stale_ring :: "seconds \<Rightarrow> WindowAlarm list \<Rightarrow> bool" where
  "stale_ring now ring \<longleftrightarrow> ring = [] \<or> now - wa_ts (last ring) > RING_S"

definition index_prune :: "seconds \<Rightarrow> CandidateIndex \<Rightarrow> CandidateIndex" where
  "index_prune now i =
     (let ne = filter (\<lambda>(_, r). \<not> stale_ring now r) (by_ne i)
      in i\<lparr>by_ne := ne,
           by_parent := filter (\<lambda>(_, r). \<not> stale_ring now r) (by_parent i),
           by_named := filter (\<lambda>(_, r). \<not> stale_ring now r) (by_named i),
           ne_of := filter (\<lambda>(_, n). n \<in> fst ` set ne) (ne_of i)\<rparr>)"

section \<open>What is recalled\<close>

lemma scan_ring_inv:
  fixes new :: WindowAlarm and ring :: "WindowAlarm list" and taken budget :: nat and live exclude :: "int set"
  assumes "fst acc = wa_id ` set (snd acc)" and "distinct (map wa_id (snd acc))" and "length (snd acc) \<le> MAX_RECALL"
  defines "acc' \<equiv> scan_ring new live exclude budget ring taken acc"
  shows "fst acc' = wa_id ` set (snd acc') \<and> distinct (map wa_id (snd acc')) \<and> length (snd acc') \<le> MAX_RECALL
    \<and> (\<forall>a \<in> set (snd acc'). a \<in> set (snd acc) \<or> a \<in> set ring \<and> wa_id a \<noteq> wa_id new \<and> wa_id a \<in> live
         \<and> wa_id a \<notin> exclude \<and> wa_ts new - wa_ts a \<le> RING_S)"
  using assms(1-3) unfolding acc'_def
proof (induction ring arbitrary: taken acc)
  case (Cons a ring)
  obtain seen out where acc: "acc = (seen, out)"
    by (cases acc)
  show ?case
  proof (cases "wa_ts new - wa_ts a > RING_S \<or> taken \<ge> budget \<or> length out \<ge> MAX_RECALL")
    case True
    then show ?thesis
      using Cons.prems by (simp add: acc)
  next
    case stop: False
    show ?thesis
    proof (cases "wa_id a = wa_id new \<or> wa_id a \<in> seen \<or> wa_id a \<in> exclude \<or> wa_id a \<notin> live")
      case True
      then show ?thesis
        using stop Cons.IH [OF Cons.prems, of taken] by (auto simp: acc)
    next
      case False
      have "fst (insert (wa_id a) seen, out @ [a]) = wa_id ` set (snd (insert (wa_id a) seen, out @ [a]))"
        "distinct (map wa_id (snd (insert (wa_id a) seen, out @ [a])))"
        "length (snd (insert (wa_id a) seen, out @ [a])) \<le> MAX_RECALL"
        using Cons.prems False stop by (auto simp: acc)
      from Cons.IH [OF this, of "taken + 1"] show ?thesis
        using stop False by (auto simp: acc)
    qed
  qed
qed simp

lemma scan_rings_inv:
  fixes new :: WindowAlarm and rs :: "(WindowAlarm list \<times> nat) list" and live exclude :: "int set"
  assumes "fst acc = wa_id ` set (snd acc)" and "distinct (map wa_id (snd acc))" and "length (snd acc) \<le> MAX_RECALL"
  defines "acc' \<equiv> fold (\<lambda>(ring, budget). scan_ring new live exclude budget (rev ring) 0) rs acc"
  shows "fst acc' = wa_id ` set (snd acc') \<and> distinct (map wa_id (snd acc')) \<and> length (snd acc') \<le> MAX_RECALL
    \<and> (\<forall>a \<in> set (snd acc'). a \<in> set (snd acc) \<or> (\<exists>r \<in> fst ` set rs. a \<in> set r) \<and> wa_id a \<noteq> wa_id new \<and> wa_id a \<in> live
         \<and> wa_id a \<notin> exclude \<and> wa_ts new - wa_ts a \<le> RING_S)"
  using assms(1-3) unfolding acc'_def
proof (induction rs arbitrary: acc)
  case (Cons p rs)
  obtain ring budget where p: "p = (ring, budget)"
    by (cases p)
  note one = scan_ring_inv [OF Cons.prems, of new live exclude budget "rev ring" 0]
  note rest = Cons.IH [OF one [THEN conjunct1] one [THEN conjunct2, THEN conjunct1] one [THEN conjunct2, THEN conjunct2, THEN conjunct1]]
  show ?case
    using rest one [THEN conjunct2, THEN conjunct2, THEN conjunct2] unfolding p fold.simps comp_apply prod.case
    by (intro conjI; (elim conjE)?) (assumption, assumption, assumption, fastforce)
qed simp

lemma ring_entry_mem: "p \<in> set (ring_entry m n) \<Longrightarrow> m = Some (fst p)"
  by (cases m) (simp_all add: ring_entry_def)

lemma ran_ring: "ran (map_of d) \<subseteq> set (map snd d)"
  by (auto simp: ran_def dest!: map_of_SomeD intro: rev_image_eqI)

lemma ring_list_rings:
  assumes "p \<in> set (ring_list new near i)"
  shows "fst p \<in> set (rings i)"
proof -
  have "fst p \<in> ran (map_of (by_ne i)) \<or> fst p \<in> ran (map_of (by_parent i)) \<or> fst p \<in> ran (map_of (by_named i))"
    using assms unfolding ring_list_def
    by (auto dest!: ring_entry_mem intro: ranI split: option.splits if_split_asm)
  then show ?thesis
    unfolding rings_def using ran_ring [of "by_ne i"] ran_ring [of "by_parent i"] ran_ring [of "by_named i"]
    by (simp only: set_append) blast
qed

lemma recall_facts:
  "distinct (map wa_id (recall new live near exclude i))"
  "length (recall new live near exclude i) \<le> MAX_RECALL"
  "\<And>a. a \<in> set (recall new live near exclude i) \<Longrightarrow> a \<in> \<Union> (set ` set (rings i)) \<and> wa_id a \<noteq> wa_id new \<and> wa_id a \<in> live
     \<and> wa_id a \<notin> exclude \<and> wa_ts new - wa_ts a \<le> RING_S"
proof -
  let ?out = "fold (\<lambda>(ring, budget). scan_ring new live exclude budget (rev ring) 0) (ring_list new near i) ({}, [])"
  have inv: "fst ?out = wa_id ` set (snd ?out) \<and> distinct (map wa_id (snd ?out)) \<and> length (snd ?out) \<le> MAX_RECALL
    \<and> (\<forall>a \<in> set (snd ?out). a \<in> set [] \<or> (\<exists>r \<in> fst ` set (ring_list new near i). a \<in> set r) \<and> wa_id a \<noteq> wa_id new \<and> wa_id a \<in> live
         \<and> wa_id a \<notin> exclude \<and> wa_ts new - wa_ts a \<le> RING_S)"
    using scan_rings_inv [of "({}, [])" new live exclude "ring_list new near i"] by simp
  show "distinct (map wa_id (recall new live near exclude i))"
    unfolding recall_def using inv [THEN conjunct2, THEN conjunct1] by (simp add: distinct_map)
  show "length (recall new live near exclude i) \<le> MAX_RECALL"
    using inv by (simp add: recall_def)
  show "a \<in> \<Union> (set ` set (rings i)) \<and> wa_id a \<noteq> wa_id new \<and> wa_id a \<in> live
     \<and> wa_id a \<notin> exclude \<and> wa_ts new - wa_ts a \<le> RING_S" if "a \<in> set (recall new live near exclude i)" for a
  proof -
    have "a \<in> set (snd ?out)"
      using that by (simp add: recall_def)
    with inv have "(\<exists>r \<in> fst ` set (ring_list new near i). a \<in> set r) \<and> wa_id a \<noteq> wa_id new \<and> wa_id a \<in> live
         \<and> wa_id a \<notin> exclude \<and> wa_ts new - wa_ts a \<le> RING_S"
      by auto
    then show ?thesis
      using ring_list_rings by fastforce
  qed
qed

text \<open>A ring only holds what was pushed.\<close>

definition held_in :: "('k \<times> WindowAlarm list) list \<Rightarrow> WindowAlarm set" where
  "held_in d = (\<Union>(_, r) \<in> set d. set r)"

lemma ring_push_set: "set (ring_push n a r) \<subseteq> insert a (set r)"
proof -
  have "set (drop m (r @ [a])) \<subseteq> insert a (set r)" for m
    using set_drop_subset [of m "r @ [a]"] by (simp only: set_append) auto
  then show ?thesis
    by (simp only: ring_push_def Let_def)
qed

lemma held_update: "held_in (AList.update k v d) \<subseteq> set v \<union> held_in d"
  by (induction d) (auto simp: held_in_def)

lemma push_at_set: "held_in (push_at n k a d) \<subseteq> insert a (held_in d)"
proof -
  let ?r = "case map_of d k of None \<Rightarrow> [] | Some r \<Rightarrow> r"
  have "set ?r \<subseteq> held_in d"
    by (cases "map_of d k") (auto simp: held_in_def dest: map_of_SomeD)
  then have "set (ring_push n a ?r) \<subseteq> insert a (held_in d)"
    using ring_push_set [of n a ?r] by blast
  then show ?thesis
    unfolding push_at_def using held_update [of k "ring_push n a ?r" d] by blast
qed

lemma push_all_set: "held_in (fold (\<lambda>r. push_at n r a) rs d) \<subseteq> insert a (held_in d)"
proof (induction rs arbitrary: d)
  case (Cons r rs)
  have "held_in (fold (\<lambda>r. push_at n r a) (r # rs) d) \<subseteq> insert a (held_in (push_at n r a d))"
    using Cons [of "push_at n r a d"] by simp
  then show ?case
    using push_at_set [of n r a d] by blast
qed auto

lemma rings_held: "\<Union> (set ` set (rings i)) = held_in (by_ne i) \<union> held_in (by_parent i) \<union> held_in (by_named i)"
  by (auto simp: rings_def held_in_def)

lemma index_alarm_set: "\<Union> (set ` set (rings (index_alarm a i))) \<subseteq> insert a (\<Union> (set ` set (rings i)))"
proof -
  have "held_in (by_ne (index_alarm a i)) \<subseteq> insert a (held_in (by_ne i))"
    "held_in (by_parent (index_alarm a i)) \<subseteq> insert a (held_in (by_parent i))"
    "held_in (by_named (index_alarm a i)) \<subseteq> insert a (held_in (by_named i))"
    by (simp_all add: index_alarm_def push_at_set push_all_set)
  then show ?thesis
    unfolding rings_held by blast
qed

lemma index_prune_set: "\<Union> (set ` set (rings (index_prune now i))) \<subseteq> \<Union> (set ` set (rings i))"
  unfolding rings_held by (auto simp: held_in_def index_prune_def Let_def)

end
