(* ===== verification/Corr_Features.thy ===== *)
theory Corr_Features
  imports Known_Oids Corr_Learn Corr_Episodes
begin

text \<open>
  \<open>engine/correlate/features.py\<close>: the feature vector of a candidate pair, computed for all the
  candidates of an activation with the lookups they share made once. A trap's addresses are the
  list without duplicates in the order found.
\<close>

definition MAX_DT_S :: real where "MAX_DT_S = 3600"
definition MAX_ARCS :: nat where "MAX_ARCS = 16"
definition UNKNOWN_SEVERITY :: int where "UNKNOWN_SEVERITY = 5"
definition MAX_REFS :: nat where "MAX_REFS = 4"

section \<open>Addresses a trap names\<close>

text \<open>\<open>all(p.isdigit() and len(p) <= 3 and int(p) <= 255 for p in parts)\<close>: the first part that fails
  ends it, and \<open>int\<close> raises on a superscript digit.\<close>

fun octets_ok :: "string list \<Rightarrow> value_error + bool" where
  "octets_ok [] = Inr True"
| "octets_ok (p # ps) =
     (if isdigit p \<and> length p \<le> 3 then
        (case int_of_string p of Inl e \<Rightarrow> Inl e | Inr n \<Rightarrow> if n \<le> 255 then octets_ok ps else Inr False)
      else Inr False)"

fun references_from :: "string list \<Rightarrow> string \<Rightarrow> string list \<Rightarrow> value_error + string list" where
  "references_from [] source found = Inr found"
| "references_from (v # vs) source found =
     (let parts = split_on (CHR ''.'') v
      in if length parts \<noteq> 4 \<or> v = source then references_from vs source found
         else
           case octets_ok parts of
             Inl e \<Rightarrow> Inl e
           | Inr False \<Rightarrow> references_from vs source found
           | Inr True \<Rightarrow>
               let found = (if v \<in> set found then found else found @ [v])
               in if length found \<ge> MAX_REFS then Inr found else references_from vs source found)"

definition references :: "string list \<Rightarrow> string \<Rightarrow> value_error + string list" where
  "references values source = references_from values source []"

section \<open>Shared arcs\<close>

fun common_from :: "nat \<Rightarrow> string list \<Rightarrow> string list \<Rightarrow> nat" where
  "common_from n (x # a) (y # b) = (if x \<noteq> y \<or> n \<ge> MAX_ARCS then n else common_from (n + 1) a b)"
| "common_from n _ _ = n"

definition common_arcs :: "string list \<Rightarrow> string list \<Rightarrow> nat" where
  "common_arcs a b = common_from 0 a b"

section \<open>The vectors\<close>

text \<open>\<open>d.get(k)\<close>, and on a miss \<open>d[k] = value\<close>.\<close>

definition cached :: "'k \<Rightarrow> real \<Rightarrow> ('k \<times> real) list \<Rightarrow> real \<times> ('k \<times> real) list" where
  "cached k compute d = (case map_of d k of Some v \<Rightarrow> (v, d) | None \<Rightarrow> (compute, AList.update k compute d))"

record caches =
  ca_class :: "(int \<times> real) list"
  ca_entity :: "((int \<times> int) \<times> real) list"
  ca_ne :: "(int \<times> real) list"
  ca_cls :: "(int \<times> real) list"
  ca_item :: "((int \<times> int) \<times> real) list"
  ca_degree :: "(int \<times> real) list"

definition vector_step :: "WindowAlarm \<Rightarrow> Learner \<Rightarrow> EpisodeMemory \<Rightarrow> nat \<Rightarrow> WindowAlarm \<Rightarrow> caches \<Rightarrow> real list \<times> caches" where
  "vector_step new learner episodes burst old c =
     (let now = wa_ts new;
          hour = of_int (\<lfloor>now / 3600\<rfloor> mod 24);
          dt = \<bar>wa_ts new - wa_ts old\<bar>;
          severity = (if min (wa_severity new) (wa_severity old) < 0 then UNKNOWN_SEVERITY
                      else max (wa_severity new) (wa_severity old));
          cls = wa_class old; ne = wa_device old;
          (a, c_class) = cached cls (class_affinity learner (wa_class new) cls) (ca_class c);
          (e, c_entity) = cached (wa_entity old, ne)
             (entity_affinity learner (wa_entity new) (wa_device new) (wa_entity old) ne) (ca_entity c);
          (ne_count, c_ne) = cached ne (of_int (ne_prior episodes (wa_device new) ne now)) (ca_ne c);
          (cls_count, c_cls) = cached cls (of_int (cls_prior episodes (wa_class new) cls now)) (ca_cls c);
          (item_count, c_item) = cached (ne, cls)
             (of_int (item_prior episodes (wa_device new, wa_class new) (ne, cls) now)) (ca_item c);
          (hub, c_degree) = cached ne (of_nat (max (degree episodes (wa_device new)) (degree episodes ne))) (ca_degree c)
      in ([if dt < MAX_DT_S then dt else MAX_DT_S,
           if wa_device new = ne then 1 else 0,
           if wa_class new = cls then 1 else 0,
           of_nat (common_arcs (wa_arcs new) (wa_arcs old)),
           a, e, ne_count, cls_count, item_count,
           of_int severity, of_nat burst, of_int (max (wa_chatter new) (wa_chatter old)), hub,
           if (wa_source new \<in> set (wa_refs old) \<or> wa_source old \<in> set (wa_refs new)) \<and> wa_source new \<noteq> [] then 1 else 0,
           hour],
          \<lparr>ca_class = c_class, ca_entity = c_entity, ca_ne = c_ne, ca_cls = c_cls, ca_item = c_item, ca_degree = c_degree\<rparr>))"

fun vectors_from :: "WindowAlarm \<Rightarrow> WindowAlarm list \<Rightarrow> Learner \<Rightarrow> EpisodeMemory \<Rightarrow> nat \<Rightarrow> caches \<Rightarrow> real list list" where
  "vectors_from new [] learner episodes burst c = []"
| "vectors_from new (old # olds) learner episodes burst c =
     (let (v, c) = vector_step new learner episodes burst old c
      in v # vectors_from new olds learner episodes burst c)"

definition no_caches :: caches where
  "no_caches = \<lparr>ca_class = [], ca_entity = [], ca_ne = [], ca_cls = [], ca_item = [], ca_degree = []\<rparr>"

definition vectors :: "WindowAlarm \<Rightarrow> WindowAlarm list \<Rightarrow> Learner \<Rightarrow> EpisodeMemory \<Rightarrow> nat \<Rightarrow> real list list" where
  "vectors new olds learner episodes burst = vectors_from new olds learner episodes burst no_caches"

definition vector :: "WindowAlarm \<Rightarrow> WindowAlarm \<Rightarrow> Learner \<Rightarrow> EpisodeMemory \<Rightarrow> nat \<Rightarrow> real list" where
  "vector new old learner episodes burst = hd (vectors new [old] learner episodes burst)"

lemma vectors_length: "length (vectors new olds l m burst) = length olds"
proof -
  have "length (vectors_from new olds l m burst c) = length olds" for c
    by (induction olds arbitrary: c) (simp_all add: Let_def case_prod_beta)
  then show ?thesis
    by (simp add: vectors_def)
qed

section \<open>The caches change nothing\<close>

definition faithful :: "('k \<Rightarrow> real) \<Rightarrow> ('k \<times> real) list \<Rightarrow> bool" where
  "faithful f d \<longleftrightarrow> (\<forall>k v. map_of d k = Some v \<longrightarrow> v = f k)"

lemma cached_faithful:
  assumes "faithful f d" and "x = f k"
  shows "fst (cached k x d) = f k" and "faithful f (snd (cached k x d))"
  using assms by (auto simp: faithful_def cached_def update_conv' split: option.split)

text \<open>The vector of one pair, every lookup made.\<close>

definition direct_vector :: "WindowAlarm \<Rightarrow> WindowAlarm \<Rightarrow> Learner \<Rightarrow> EpisodeMemory \<Rightarrow> nat \<Rightarrow> real list" where
  "direct_vector new old l m burst =
     [min \<bar>wa_ts new - wa_ts old\<bar> MAX_DT_S,
      of_bool (wa_device new = wa_device old),
      of_bool (wa_class new = wa_class old),
      of_nat (common_arcs (wa_arcs new) (wa_arcs old)),
      class_affinity l (wa_class new) (wa_class old),
      entity_affinity l (wa_entity new) (wa_device new) (wa_entity old) (wa_device old),
      of_int (ne_prior m (wa_device new) (wa_device old) (wa_ts new)),
      of_int (cls_prior m (wa_class new) (wa_class old) (wa_ts new)),
      of_int (item_prior m (wa_device new, wa_class new) (wa_device old, wa_class old) (wa_ts new)),
      of_int (if min (wa_severity new) (wa_severity old) < 0 then UNKNOWN_SEVERITY else max (wa_severity new) (wa_severity old)),
      of_nat burst,
      of_int (max (wa_chatter new) (wa_chatter old)),
      of_nat (max (degree m (wa_device new)) (degree m (wa_device old))),
      of_bool ((wa_source new \<in> set (wa_refs old) \<or> wa_source old \<in> set (wa_refs new)) \<and> wa_source new \<noteq> []),
      of_int (\<lfloor>wa_ts new / 3600\<rfloor> mod 24)]"

definition caches_ok :: "WindowAlarm \<Rightarrow> Learner \<Rightarrow> EpisodeMemory \<Rightarrow> caches \<Rightarrow> bool" where
  "caches_ok new l m c \<longleftrightarrow>
     faithful (class_affinity l (wa_class new)) (ca_class c)
     \<and> faithful (\<lambda>p. entity_affinity l (wa_entity new) (wa_device new) (fst p) (snd p)) (ca_entity c)
     \<and> faithful (\<lambda>ne. of_int (ne_prior m (wa_device new) ne (wa_ts new))) (ca_ne c)
     \<and> faithful (\<lambda>cls. of_int (cls_prior m (wa_class new) cls (wa_ts new))) (ca_cls c)
     \<and> faithful (\<lambda>it. of_int (item_prior m (wa_device new, wa_class new) it (wa_ts new))) (ca_item c)
     \<and> faithful (\<lambda>ne. of_nat (max (degree m (wa_device new)) (degree m ne))) (ca_degree c)"

lemma vector_step_ok:
  assumes "caches_ok new l m c"
  shows "fst (vector_step new l m burst old c) = direct_vector new old l m burst"
    and "caches_ok new l m (snd (vector_step new l m burst old c))"
proof -
  note k = assms [unfolded caches_ok_def]
  note f = cached_faithful [OF k [THEN conjunct1] refl, of "wa_class old"]
    cached_faithful [OF k [THEN conjunct2, THEN conjunct1] refl, of "(wa_entity old, wa_device old)", unfolded fst_conv snd_conv]
    cached_faithful [OF k [THEN conjunct2, THEN conjunct2, THEN conjunct1] refl, of "wa_device old"]
    cached_faithful [OF k [THEN conjunct2, THEN conjunct2, THEN conjunct2, THEN conjunct1] refl, of "wa_class old"]
    cached_faithful [OF k [THEN conjunct2, THEN conjunct2, THEN conjunct2, THEN conjunct2, THEN conjunct1] refl, of "(wa_device old, wa_class old)"]
    cached_faithful [OF k [THEN conjunct2, THEN conjunct2, THEN conjunct2, THEN conjunct2, THEN conjunct2] refl, of "wa_device old"]
  show "fst (vector_step new l m burst old c) = direct_vector new old l m burst"
    unfolding vector_step_def direct_vector_def Let_def case_prod_beta fst_conv by (simp add: f min_def)
  show "caches_ok new l m (snd (vector_step new l m burst old c))"
    unfolding vector_step_def Let_def case_prod_beta snd_conv caches_ok_def caches.select_convs
    by (intro conjI; rule f)
qed

lemma no_caches_ok: "caches_ok new l m no_caches"
  by (simp add: caches_ok_def no_caches_def faithful_def)

text \<open>The vectors of an activation's candidates are computed with one lookup per distinct class,
  element and signature. Each is the vector the pair has on its own: no candidate's vector depends
  on which others it was computed with, nor on their order.\<close>

theorem vectors_are_independent:
  "vectors new olds l m burst = map (\<lambda>old. vector new old l m burst) olds
    \<and> vector new old l m burst = direct_vector new old l m burst"
proof -
  have all: "vectors_from new olds l m burst c = map (\<lambda>old. direct_vector new old l m burst) olds" if "caches_ok new l m c" for c olds
    using that
  proof (induction olds arbitrary: c)
    case (Cons old olds)
    then show ?case
      using vector_step_ok [OF Cons.prems, of burst old] by (simp add: Let_def case_prod_beta)
  qed simp
  have "vectors new olds l m burst = map (\<lambda>old. direct_vector new old l m burst) olds" for olds
    unfolding vectors_def by (rule all [OF no_caches_ok])
  then show ?thesis
    by (simp add: vector_def)
qed

end
