(* ===== verification/Corr_Grouping.thy ===== *)
theory Corr_Grouping
  imports Complex_Main "HOL-Library.AList" "HOL-Library.Product_Lexorder"
begin

text \<open>
  \<open>engine/correlate/grouping.py\<close>: which situation an arriving alarm joins and which situations
  it merges. The evidence between two situations is one two-element list that both of them hold
  (the code: symmetric by identity), so the model has a heap of such cells and dictionaries of
  references to them. A dictionary is an association list in insertion order. Evidence is a real
  number.
\<close>

section \<open>Data\<close>

datatype group_mode = Components | Cluster

record Scored =
  sc_alarm :: int
  sc_evidence :: real
  sc_linked :: bool

record GroupingParams =
  join_bias :: real
  merge_bias :: real
  merge_min_pairs :: int

definition default_params :: GroupingParams where
  "default_params = \<lparr>join_bias = 0, merge_bias = 1, merge_min_pairs = 3\<rparr>"

record Placement =
  pl_join :: "int option"
  pl_merge :: "int list"
  pl_support :: "(int \<times> real \<times> int) list"

type_synonym cell = "real \<times> real"
type_synonym refs = "(int \<times> nat) list"

record Grouper =
  g_mode :: group_mode
  g_params :: GroupingParams
  g_cross :: "(int \<times> refs) list"
  g_cells :: "nat \<Rightarrow> cell"
  g_next :: nat

definition new_grouper :: "group_mode \<Rightarrow> GroupingParams \<Rightarrow> Grouper" where
  "new_grouper mode params = \<lparr>g_mode = mode, g_params = params, g_cross = [], g_cells = (\<lambda>_. (0, 0)), g_next = 0\<rparr>"

text \<open>What a situation holds on another, through the heap.\<close>

definition held :: "Grouper \<Rightarrow> int \<Rightarrow> int \<Rightarrow> cell option" where
  "held g a b = map_option (g_cells g) (Option.bind (map_of (g_cross g) a) (\<lambda>d. map_of d b))"

definition held_or_zero :: "Grouper \<Rightarrow> int \<Rightarrow> int \<Rightarrow> cell" where
  "held_or_zero g a b = (case held g a b of None \<Rightarrow> (0, 0) | Some c \<Rightarrow> c)"

section \<open>The decision\<close>

definition support_add :: "(int \<Rightarrow> int option) \<Rightarrow> Scored \<Rightarrow> (int \<times> cell) list \<Rightarrow> (int \<times> cell) list" where
  "support_add sit_of pair support =
     (case sit_of (sc_alarm pair) of
        None \<Rightarrow> support
      | Some sid \<Rightarrow>
          let (s, n) = (case map_of support sid of None \<Rightarrow> (0, 0) | Some c \<Rightarrow> c)
          in AList.update sid (s + sc_evidence pair, n + 1) support)"

definition support_of :: "Scored list \<Rightarrow> (int \<Rightarrow> int option) \<Rightarrow> (int \<times> cell) list" where
  "support_of scored sit_of = fold (support_add sit_of) scored []"

definition rank_support :: "(int \<times> cell) list \<Rightarrow> (int \<times> real \<times> int) list" where
  "rank_support support =
     sort_key (\<lambda>(sid, mean, n). (- mean, - n, sid)) (map (\<lambda>(sid, s, n). (sid, s / n, \<lfloor>n\<rfloor>)) support)"

definition place_components :: "Scored list \<Rightarrow> (int \<Rightarrow> int option) \<Rightarrow> int option \<Rightarrow> Placement" where
  "place_components scored sit_of own =
     (let sids = set (concat (map (\<lambda>p. if sc_linked p then (case sit_of (sc_alarm p) of None \<Rightarrow> [] | Some s \<Rightarrow> [s]) else []) scored));
          sids = (case own of None \<Rightarrow> sids | Some s \<Rightarrow> insert s sids)
      in if sids = {} then \<lparr>pl_join = None, pl_merge = [], pl_support = []\<rparr>
         else \<lparr>pl_join = Some (Min sids), pl_merge = sorted_list_of_set (sids - {Min sids}), pl_support = []\<rparr>)"

definition merges_with :: "Grouper \<Rightarrow> (int \<times> cell) list \<Rightarrow> int \<Rightarrow> int \<Rightarrow> bool" where
  "merges_with g support join sid =
     (let (hs, hn) = held_or_zero g join sid;
          (ss, sn) = the (map_of support sid);
          total = hs + ss; pairs = hn + sn
      in pairs \<ge> of_int (merge_min_pairs (g_params g)) \<and> total / pairs > merge_bias (g_params g))"

definition place :: "Grouper \<Rightarrow> Scored list \<Rightarrow> (int \<Rightarrow> int option) \<Rightarrow> int option \<Rightarrow> Placement" where
  "place g scored sit_of own =
     (if g_mode g = Components then place_components scored sit_of own
      else
        let support = support_of scored sit_of;
            rank = rank_support support;
            join = (case own of
                      Some s \<Rightarrow> Some s
                    | None \<Rightarrow> (case rank of
                        [] \<Rightarrow> None
                      | (sid, mean, _) # _ \<Rightarrow> if mean > join_bias (g_params g) then Some sid else None));
            merges = (case join of
                        None \<Rightarrow> []
                      | Some j \<Rightarrow> map fst (filter (\<lambda>(sid, _, _). sid \<noteq> j \<and> merges_with g support j sid) rank))
        in \<lparr>pl_join = join, pl_merge = sort merges, pl_support = rank\<rparr>)"

section \<open>The bookkeeping\<close>

definition dict :: "Grouper \<Rightarrow> int \<Rightarrow> refs" where
  "dict g a = (case map_of (g_cross g) a of None \<Rightarrow> [] | Some d \<Rightarrow> d)"

definition set_dict :: "int \<Rightarrow> refs \<Rightarrow> Grouper \<Rightarrow> Grouper" where
  "set_dict a d g = g\<lparr>g_cross := AList.update a d (g_cross g)\<rparr>"

text \<open>\<open>back.pop(src, None)\<close> on the dictionary of a situation that has one.\<close>

definition pop_ref :: "int \<Rightarrow> int \<Rightarrow> Grouper \<Rightarrow> Grouper" where
  "pop_ref a b g =
     (case map_of (g_cross g) a of None \<Rightarrow> g | Some d \<Rightarrow> set_dict a (AList.delete b d) g)"

definition add_to_cell :: "nat \<Rightarrow> cell \<Rightarrow> Grouper \<Rightarrow> Grouper" where
  "add_to_cell r c g =
     g\<lparr>g_cells := (g_cells g)(r := (fst (g_cells g r) + fst c, snd (g_cells g r) + snd c))\<rparr>"

text \<open>One item of the dictionary of the situation that goes.\<close>

definition move_ref :: "int \<Rightarrow> int \<Rightarrow> int \<times> nat \<Rightarrow> Grouper \<Rightarrow> Grouper" where
  "move_ref dst src item g =
     (case item of (other, acc) \<Rightarrow>
        let g = pop_ref other src g
        in if other = dst then g
           else
             case map_of (dict g dst) other of
               None \<Rightarrow>
                 let g = set_dict dst (AList.update other acc (dict g dst)) g
                 in set_dict other (AList.update dst acc (dict g other)) g
             | Some r \<Rightarrow> add_to_cell r (g_cells g acc) g)"

definition fold_into :: "int \<Rightarrow> int \<Rightarrow> Grouper \<Rightarrow> Grouper" where
  "fold_into dst src g =
     (let moved = dict g src;
          g = g\<lparr>g_cross := AList.delete src (g_cross g)\<rparr>;
          g = set_dict dst (dict g dst) g;
          g = fold (move_ref dst src) moved g
      in pop_ref dst src g)"

definition commit_pair :: "int \<Rightarrow> (int \<Rightarrow> int option) \<Rightarrow> Scored \<Rightarrow> Grouper \<Rightarrow> Grouper" where
  "commit_pair sid sit_of pair g =
     (case sit_of (sc_alarm pair) of
        None \<Rightarrow> g
      | Some other \<Rightarrow>
          if other = sid then g
          else
            let (r, g) = (case map_of (dict g sid) other of
                            Some r \<Rightarrow> (r, g)
                          | None \<Rightarrow> (g_next g, set_dict sid (AList.update other (g_next g) (dict g sid))
                                      (g\<lparr>g_cells := (g_cells g)(g_next g := (0, 0)), g_next := g_next g + 1\<rparr>)));
                g = add_to_cell r (sc_evidence pair, 1) g
            in set_dict other (AList.update sid r (dict g other)) g)"

definition commit :: "int \<Rightarrow> Placement \<Rightarrow> Scored list \<Rightarrow> (int \<Rightarrow> int option) \<Rightarrow> Grouper \<Rightarrow> Grouper" where
  "commit sid placement scored sit_of g =
     (if g_mode g = Components then g
      else
        let g = fold (fold_into sid) (pl_merge placement) g;
            g = set_dict sid (dict g sid) g
        in fold (commit_pair sid sit_of) scored g)"

definition merged :: "int \<Rightarrow> int \<Rightarrow> Grouper \<Rightarrow> Grouper" where
  "merged dst src = fold_into dst src"

definition forget :: "int \<Rightarrow> Grouper \<Rightarrow> Grouper" where
  "forget sid g =
     (let others = map fst (dict g sid);
          g = g\<lparr>g_cross := AList.delete sid (g_cross g)\<rparr>
      in fold (\<lambda>other. pop_ref other sid) others g)"

definition prune_evidence :: "int set \<Rightarrow> Grouper \<Rightarrow> Grouper" where
  "prune_evidence live g = fold forget (filter (\<lambda>s. s \<notin> live) (map fst (g_cross g))) g"

section \<open>References and the invariant of the shared cells\<close>

definition rf :: "Grouper \<Rightarrow> int \<Rightarrow> int \<Rightarrow> nat option" where
  "rf g a b = map_of (dict g a) b"

lemma held_rf: "held g a b = map_option (g_cells g) (rf g a b)"
  by (simp add: held_def rf_def dict_def split: option.split)

lemma dict_set [simp]: "dict (set_dict a d g) x = (if x = a then d else dict g x)"
  by (simp add: dict_def set_dict_def update_conv')

lemma rf_set: "rf (set_dict a d g) x y = (if x = a then map_of d y else rf g x y)"
  by (simp add: rf_def)

lemma rf_pop [simp]: "rf (pop_ref a b g) x y = (if x = a \<and> y = b then None else rf g x y)"
proof (cases "map_of (g_cross g) a")
  case None
  then show ?thesis
    by (auto simp: pop_ref_def rf_def dict_def)
next
  case (Some d)
  then have "dict g a = d"
    by (simp add: dict_def)
  with Some show ?thesis
    by (auto simp: pop_ref_def rf_set rf_def delete_conv')
qed

lemma cells_simps [simp]:
  "g_cells (set_dict a d g) = g_cells g" "g_cells (pop_ref a b g) = g_cells g"
  "g_next (set_dict a d g) = g_next g" "g_next (pop_ref a b g) = g_next g" "g_next (add_to_cell r c g) = g_next g"
  "rf (add_to_cell r c g) = rf g" "dict (add_to_cell r c g) = dict g"
  by (simp_all add: set_dict_def pop_ref_def add_to_cell_def rf_def dict_def fun_eq_iff split: option.split)

definition g_ok :: "Grouper \<Rightarrow> bool" where
  "g_ok g \<longleftrightarrow> distinct (map fst (g_cross g)) \<and> (\<forall>a. distinct (map fst (dict g a)))
     \<and> (\<forall>a b r. rf g a b = Some r \<longrightarrow> rf g b a = Some r \<and> a \<noteq> b \<and> r < g_next g)
     \<and> (\<forall>a b c d r. rf g a b = Some r \<longrightarrow> rf g c d = Some r \<longrightarrow> {a, b} = {c, d})"

definition keys_ok :: "Grouper \<Rightarrow> bool" where
  "keys_ok g \<longleftrightarrow> distinct (map fst (g_cross g)) \<and> (\<forall>a. distinct (map fst (dict g a)))"

lemma keys_set [simp]: "keys_ok g \<Longrightarrow> distinct (map fst d) \<Longrightarrow> keys_ok (set_dict a d g)"
  by (simp add: keys_ok_def set_dict_def distinct_update) (simp add: dict_def update_conv')

lemma distinct_delete: "distinct (map fst d) \<Longrightarrow> distinct (map fst (AList.delete k d))"
  by (simp add: AList.delete_eq distinct_map_filter)

lemma keys_pop [simp]:
  assumes "keys_ok g"
  shows "keys_ok (pop_ref a b g)"
proof (cases "map_of (g_cross g) a")
  case (Some d)
  then have "distinct (map fst d)"
    using assms unfolding keys_ok_def by (metis dict_def option.simps(5))
  with Some assms show ?thesis
    by (simp add: pop_ref_def distinct_delete)
qed (simp add: pop_ref_def assms)

lemma keys_cell [simp]: "keys_ok (add_to_cell r c g) = keys_ok g"
  by (simp add: keys_ok_def add_to_cell_def dict_def)

lemma keys_dict: "keys_ok g \<Longrightarrow> distinct (map fst (dict g a))"
  by (simp add: keys_ok_def)

lemma keys_drop:
  assumes "keys_ok g"
  shows "keys_ok (g\<lparr>g_cross := AList.delete s (g_cross g)\<rparr>)"
    and "dict (g\<lparr>g_cross := AList.delete s (g_cross g)\<rparr>) a = (if a = s then [] else dict g a)"
    and "rf (g\<lparr>g_cross := AList.delete s (g_cross g)\<rparr>) a b = (if a = s then None else rf g a b)"
proof -
  show d: "dict (g\<lparr>g_cross := AList.delete s (g_cross g)\<rparr>) a = (if a = s then [] else dict g a)" for a
    by (simp add: dict_def delete_conv')
  show "keys_ok (g\<lparr>g_cross := AList.delete s (g_cross g)\<rparr>)"
    using assms unfolding keys_ok_def d by (simp add: distinct_delete)
  show "rf (g\<lparr>g_cross := AList.delete s (g_cross g)\<rparr>) a b = (if a = s then None else rf g a b)"
    by (simp add: rf_def d)
qed

lemma g_ok_keys: "g_ok g \<longleftrightarrow> keys_ok g
     \<and> (\<forall>a b r. rf g a b = Some r \<longrightarrow> rf g b a = Some r \<and> a \<noteq> b \<and> r < g_next g)
     \<and> (\<forall>a b c d r. rf g a b = Some r \<longrightarrow> rf g c d = Some r \<longrightarrow> {a, b} = {c, d})"
  by (auto simp: g_ok_def keys_ok_def)

lemma new_ok: "g_ok (new_grouper mode params)"
  by (simp add: g_ok_def new_grouper_def dict_def rf_def)

text \<open>Adding two records of evidence.\<close>

fun plus_cell :: "cell option \<Rightarrow> cell option \<Rightarrow> cell option" where
  "plus_cell None b = b"
| "plus_cell (Some a) None = Some a"
| "plus_cell (Some a) (Some b) = Some (fst a + fst b, snd a + snd b)"

section \<open>Folding one situation into another\<close>

text \<open>While a situation is being folded its own dictionary is gone and the others may still refer to it.\<close>

definition folding :: "int \<Rightarrow> refs \<Rightarrow> Grouper \<Rightarrow> bool" where
  "folding src rest g \<longleftrightarrow> keys_ok g \<and> (\<forall>y. rf g src y = None)
     \<and> (\<forall>a b r. a \<noteq> src \<longrightarrow> b \<noteq> src \<longrightarrow> rf g a b = Some r \<longrightarrow> rf g b a = Some r \<and> a \<noteq> b \<and> r < g_next g)
     \<and> (\<forall>a b c d r. b \<noteq> src \<longrightarrow> d \<noteq> src \<longrightarrow> rf g a b = Some r \<longrightarrow> rf g c d = Some r \<longrightarrow> {a, b} = {c, d})
     \<and> distinct (map fst rest) \<and> distinct (map snd rest)
     \<and> (\<forall>(other, acc) \<in> set rest. other \<noteq> src \<and> acc < g_next g \<and> (\<forall>a b. b \<noteq> src \<longrightarrow> rf g a b \<noteq> Some acc))"

lemma folding_facts:
  assumes "folding src rest g"
  shows "keys_ok g" "\<And>y. rf g src y = None"
    "\<And>a b r. a \<noteq> src \<Longrightarrow> b \<noteq> src \<Longrightarrow> rf g a b = Some r \<Longrightarrow> rf g b a = Some r \<and> a \<noteq> b \<and> r < g_next g"
    "\<And>a b c d r. b \<noteq> src \<Longrightarrow> d \<noteq> src \<Longrightarrow> rf g a b = Some r \<Longrightarrow> rf g c d = Some r \<Longrightarrow> {a, b} = {c, d}"
    "distinct (map fst rest)" "distinct (map snd rest)"
    "\<And>other acc. (other, acc) \<in> set rest \<Longrightarrow> other \<noteq> src \<and> acc < g_next g \<and> (\<forall>a b. b \<noteq> src \<longrightarrow> rf g a b \<noteq> Some acc)"
proof -
  note f = assms [unfolded folding_def]
  show "keys_ok g"
    by (rule f [THEN conjunct1])
  show "rf g src y = None" for y
    by (rule f [THEN conjunct2, THEN conjunct1, rule_format])
  show "rf g b a = Some r \<and> a \<noteq> b \<and> r < g_next g" if "a \<noteq> src" "b \<noteq> src" "rf g a b = Some r" for a b r
    by (rule f [THEN conjunct2, THEN conjunct2, THEN conjunct1, rule_format, OF that])
  show "{a, b} = {c, d}" if "b \<noteq> src" "d \<noteq> src" "rf g a b = Some r" "rf g c d = Some r" for a b c d r
    by (rule f [THEN conjunct2, THEN conjunct2, THEN conjunct2, THEN conjunct1, rule_format, OF that])
  show "distinct (map fst rest)" "distinct (map snd rest)"
    using f by simp_all
  show "other \<noteq> src \<and> acc < g_next g \<and> (\<forall>a b. b \<noteq> src \<longrightarrow> rf g a b \<noteq> Some acc)" if "(other, acc) \<in> set rest" for other acc
    using f [THEN conjunct2, THEN conjunct2, THEN conjunct2, THEN conjunct2, THEN conjunct2, THEN conjunct2] that by auto
qed

lemma folding_step:
  assumes "folding src ((other, acc) # rest) g" and "dst \<noteq> src" and "keys_ok g'" and "g_next g' = g_next g"
    and rf': "\<And>x y. rf g' x y = (if x = other \<and> y = src then None
        else if new \<and> (x = dst \<and> y = other \<or> x = other \<and> y = dst) then Some acc else rf g x y)"
    and new: "new \<Longrightarrow> other \<noteq> dst \<and> rf g dst other = None"
  shows "folding src rest g'"
proof -
  note f = folding_facts [OF assms(1)]
  have o: "other \<noteq> src" "acc < g_next g" "\<And>a b. b \<noteq> src \<Longrightarrow> rf g a b \<noteq> Some acc"
    using f(7) [of other acc] by auto
  show ?thesis
    unfolding folding_def
  proof (intro conjI allI impI)
    show "rf g' src y = None" for y
      using f(2) o(1) assms(2) by (simp add: rf')
    show "rf g' b a = Some r" "a \<noteq> b" "r < g_next g'" if "a \<noteq> src" "b \<noteq> src" "rf g' a b = Some r" for a b r
      using that f(3) [of a b r] new o(2) assms(2,4) by (auto simp: rf' split: if_splits)
    show "{a, b} = {c, d}" if "b \<noteq> src" "d \<noteq> src" "rf g' a b = Some r" "rf g' c d = Some r" for a b c d r
      using that f(4) [of b d a r c] o(3) [of b a] o(3) [of d c] by (auto simp: rf' split: if_splits)
    show "distinct (map fst rest)" "distinct (map snd rest)"
      using f(5,6) by simp_all
    show "\<forall>(other', acc') \<in> set rest. other' \<noteq> src \<and> acc' < g_next g' \<and> (\<forall>a b. b \<noteq> src \<longrightarrow> rf g' a b \<noteq> Some acc')"
    proof (intro ballI, clarify)
      fix other' acc'
      assume r: "(other', acc') \<in> set rest"
      then have "acc' \<noteq> acc"
        using f(6) by (auto simp: rev_image_eqI)
      with r f(7) [of other' acc'] show "other' \<noteq> src \<and> acc' < g_next g' \<and> (\<forall>a b. b \<noteq> src \<longrightarrow> rf g' a b \<noteq> Some acc')"
        using assms(4) by (auto simp: rf')
    qed
  qed (rule assms(3))
qed

lemma move_step:
  assumes "folding src ((other, acc) # rest) g" and "dst \<noteq> src"
  defines "g' \<equiv> move_ref dst src (other, acc) g"
  shows "folding src rest g'"
    and "\<And>x y. y \<noteq> src \<Longrightarrow> held g' x y =
      (if other \<noteq> dst \<and> (x = dst \<and> y = other \<or> x = other \<and> y = dst)
       then plus_cell (held g dst other) (Some (g_cells g acc)) else held g x y)"
    and "\<And>x. rf g' x src = (if x = other then None else rf g x src)"
    and "\<And>o' a'. (o', a') \<in> set rest \<Longrightarrow> g_cells g' a' = g_cells g a'"
    and "g_next g' = g_next g"
proof -
  note f = folding_facts [OF assms(1)]
  have o: "other \<noteq> src" "\<And>a b. b \<noteq> src \<Longrightarrow> rf g a b \<noteq> Some acc"
    using f(7) [of other acc] by auto
  let ?p = "pop_ref other src g"
  consider (self) "other = dst" | (fresh) "other \<noteq> dst" "rf g dst other = None" | (both) r where "other \<noteq> dst" "rf g dst other = Some r"
    by fastforce
  then have "folding src rest g' \<and> (\<forall>x y. y \<noteq> src \<longrightarrow> held g' x y =
      (if other \<noteq> dst \<and> (x = dst \<and> y = other \<or> x = other \<and> y = dst)
       then plus_cell (held g dst other) (Some (g_cells g acc)) else held g x y))
    \<and> (\<forall>x. rf g' x src = (if x = other then None else rf g x src))
    \<and> (\<forall>o' a'. (o', a') \<in> set rest \<longrightarrow> g_cells g' a' = g_cells g a') \<and> g_next g' = g_next g"
  proof cases
    case self
    then have g': "g' = ?p"
      by (simp add: g'_def move_ref_def)
    have "folding src rest ?p"
      by (rule folding_step [OF assms(1,2), where new = False]) (simp_all add: f(1))
    then show ?thesis
      by (simp add: g' held_rf self)
  next
    case fresh
    have none: "map_of (dict ?p dst) other = None"
      using fresh o(1) by (simp flip: rf_def)
    have g': "g' = set_dict other (AList.update dst acc (dict (set_dict dst (AList.update other acc (dict ?p dst)) ?p) other))
        (set_dict dst (AList.update other acc (dict ?p dst)) ?p)"
      using fresh(1) none by (simp add: g'_def move_ref_def Let_def)
    have rf': "rf g' x y = (if x = other \<and> y = src then None
        else if True \<and> (x = dst \<and> y = other \<or> x = other \<and> y = dst) then Some acc else rf g x y)" for x y
      using fresh(1) o(1) assms(2) unfolding g' by (auto simp: rf_set update_conv' simp flip: rf_def)
    have "keys_ok g'"
      unfolding g' by (intro keys_set keys_pop f(1)) (simp_all add: distinct_update keys_dict f(1))
    moreover have cells: "g_cells g' = g_cells g" "g_next g' = g_next g"
      by (simp_all add: g')
    ultimately have "folding src rest g'"
      using fresh by (intro folding_step [OF assms(1,2) _ _ rf']) simp_all
    then show ?thesis
      using fresh o(1) assms(2) by (auto simp: held_rf rf' cells)
  next
    case both
    have some: "map_of (dict ?p dst) other = Some r"
      using both o(1) by (simp flip: rf_def)
    have g': "g' = add_to_cell r (g_cells g acc) ?p"
      using both(1) some by (simp add: g'_def move_ref_def Let_def)
    have "folding src rest g'"
      unfolding g' by (rule folding_step [OF assms(1,2), where new = False]) (simp_all add: f(1))
    moreover have only: "rf g x y = Some r \<longleftrightarrow> x = dst \<and> y = other \<or> x = other \<and> y = dst" if "y \<noteq> src" for x y
    proof
      assume "rf g x y = Some r"
      then have "{x, y} = {dst, other}"
        using f(4) [of y other x r dst] that o(1) both(2) by simp
      then show "x = dst \<and> y = other \<or> x = other \<and> y = dst"
        by (auto simp: doubleton_eq_iff)
    next
      assume "x = dst \<and> y = other \<or> x = other \<and> y = dst"
      then show "rf g x y = Some r"
        using f(3) [of dst other r] both(2) o(1) assms(2) by auto
    qed
    moreover have "held g' x y = (if x = dst \<and> y = other \<or> x = other \<and> y = dst
        then plus_cell (held g dst other) (Some (g_cells g acc)) else held g x y)" if "y \<noteq> src" for x y
    proof -
      have cells: "g_cells g' = (g_cells g)(r := (fst (g_cells g r) + fst (g_cells g acc), snd (g_cells g r) + snd (g_cells g acc)))"
        by (simp add: g' add_to_cell_def)
      have refs: "rf g' x y = rf g x y"
        using that by (simp add: g')
      have dst: "held g dst other = Some (g_cells g r)"
        by (simp add: held_rf both)
      show ?thesis
      proof (cases "rf g x y = Some r")
        case True
        with only [OF that, of x] show ?thesis
          unfolding dst by (simp add: held_rf refs cells)
      next
        case False
        then have "held g' x y = held g x y"
          unfolding held_rf refs cells by (cases "rf g x y") simp_all
        moreover have "\<not> (x = dst \<and> y = other \<or> x = other \<and> y = dst)"
          using False only [OF that, of x] by blast
        ultimately show ?thesis
          by (simp only: if_False)
      qed
    qed
    moreover have "a' \<noteq> r" if "(o', a') \<in> set rest" for o' a'
      using f(7) [of o' a'] that both(2) o(1) by auto
    moreover have "rf g' x src = (if x = other then None else rf g x src)" for x
      by (simp add: g')
    moreover have "g_cells g' a' = g_cells g a'" if "a' \<noteq> r" for a'
      using that by (simp add: g' add_to_cell_def)
    moreover have "g_next g' = g_next g"
      by (simp add: g')
    ultimately show ?thesis
      using both(1) by (intro conjI allI impI) (simp_all only: simp_thms if_False if_True)
  qed
  then show "folding src rest g'"
    and "\<And>x y. y \<noteq> src \<Longrightarrow> held g' x y =
      (if other \<noteq> dst \<and> (x = dst \<and> y = other \<or> x = other \<and> y = dst)
       then plus_cell (held g dst other) (Some (g_cells g acc)) else held g x y)"
    and "\<And>x. rf g' x src = (if x = other then None else rf g x src)"
    and "\<And>o' a'. (o', a') \<in> set rest \<Longrightarrow> g_cells g' a' = g_cells g a'" and "g_next g' = g_next g"
    by blast+
qed

lemma plus_none [simp]: "plus_cell a None = a"
  by (cases a) simp_all

lemma held_sym:
  assumes "folding src rest g" and "x \<noteq> src" and "y \<noteq> src"
  shows "held g x y = held g y x"
proof -
  have "rf g x y = Some r \<longleftrightarrow> rf g y x = Some r" for r
    using folding_facts(3) [OF assms(1), of x y r] folding_facts(3) [OF assms(1), of y x r] assms(2,3) by blast
  then show ?thesis
    unfolding held_rf by (metis not_Some_eq)
qed

lemma move_all:
  assumes "folding src rest g" and "dst \<noteq> src"
  defines "g' \<equiv> fold (move_ref dst src) rest g"
  shows "folding src [] g' \<and> g_next g' = g_next g
    \<and> (\<forall>x. rf g' x src = (if x \<in> fst ` set rest then None else rf g x src))
    \<and> (\<forall>x y. x \<noteq> src \<longrightarrow> y \<noteq> src \<longrightarrow> held g' x y =
        (if x = dst \<and> y \<noteq> dst then plus_cell (held g dst y) (map_option (g_cells g) (map_of rest y))
         else if y = dst \<and> x \<noteq> dst then plus_cell (held g dst x) (map_option (g_cells g) (map_of rest x))
         else held g x y))"
  using assms(1) unfolding g'_def
proof (induction rest arbitrary: g)
  case Nil
  then show ?case
    using held_sym [OF Nil] assms(2) by simp
next
  case (Cons item rest)
  obtain other acc where item: "item = (other, acc)"
    by (cases item)
  let ?m = "move_ref dst src (other, acc) g"
  let ?h = "fold (move_ref dst src) rest ?m"
  note F = Cons.prems [unfolded item]
  note step = move_step [OF F assms(2)]
  note ih = Cons.IH [OF step(1)]
  have o: "other \<noteq> src" "map_of rest other = None"
    using folding_facts(7) [OF F, of other acc] folding_facts(5) [OF F] by (auto simp: map_of_eq_None_iff)
  have cells: "map_option (g_cells ?m) (map_of rest y) = map_option (g_cells g) (map_of rest y)" for y
    using step(4) [of y] by (cases "map_of rest y") (auto dest: map_of_SomeD)
  have "held ?h x y =
        (if x = dst \<and> y \<noteq> dst then plus_cell (held g dst y) (map_option (g_cells g) (map_of (item # rest) y))
         else if y = dst \<and> x \<noteq> dst then plus_cell (held g dst x) (map_option (g_cells g) (map_of (item # rest) x))
         else held g x y)" if xy: "x \<noteq> src" "y \<noteq> src" for x y
  proof -
    note ih' = ih [THEN conjunct2, THEN conjunct2, THEN conjunct2, rule_format, OF xy, unfolded cells]
    have m: "held ?m dst z = plus_cell (held g dst z) (if z = other then Some (g_cells g acc) else None)"
      if "z \<noteq> src" "z \<noteq> dst" for z
      using step(2) [OF that(1), of dst] that(2) by (cases "z = other") simp_all
    have n: "plus_cell (held ?m dst z) (map_option (g_cells g) (map_of rest z)) =
        plus_cell (held g dst z) (map_option (g_cells g) (map_of (item # rest) z))" if "z \<noteq> src" "z \<noteq> dst" for z
      unfolding m [OF that] item using o(2) by (cases "z = other") simp_all
    consider (d) "x = dst" "y \<noteq> dst" | (e) "y = dst" "x \<noteq> dst" | (same) "x = dst \<and> y = dst \<or> x \<noteq> dst \<and> y \<noteq> dst"
      by blast
    then show ?thesis
    proof cases
      case d
      then show ?thesis
        using ih' n [OF xy(2)] by (simp only: simp_thms if_True if_False)
    next
      case e
      then show ?thesis
        using ih' n [OF xy(1)] by (simp only: simp_thms if_True if_False)
    next
      case same
      then have "held ?m x y = held g x y"
        using step(2) [OF xy(2), of x] by (simp only: simp_thms if_False) metis
      moreover have no: "\<not> (x = dst \<and> y \<noteq> dst)" "\<not> (y = dst \<and> x \<noteq> dst)"
        using same by blast+
      ultimately show ?thesis
        using ih' by (simp only: if_not_P [OF no(1)] if_not_P [OF no(2)] if_False)
    qed
  qed
  moreover have "rf ?h x src = (if x \<in> fst ` set (item # rest) then None else rf g x src)" for x
    using ih [THEN conjunct2, THEN conjunct2, THEN conjunct1, rule_format, of x] step(3) [of x] by (auto simp: item)
  moreover have "folding src [] ?h" "g_next ?h = g_next g"
    using ih step(5) by simp_all
  ultimately show ?case
    by (simp only: item fold.simps comp_def) (intro conjI allI impI; assumption?; simp)
qed

lemma g_ok_facts:
  assumes "g_ok g"
  shows "keys_ok g" "\<And>a b r. rf g a b = Some r \<Longrightarrow> rf g b a = Some r \<and> a \<noteq> b \<and> r < g_next g"
    "\<And>a b c d r. rf g a b = Some r \<Longrightarrow> rf g c d = Some r \<Longrightarrow> {a, b} = {c, d}"
  using assms unfolding g_ok_keys by blast+

lemma rf_sym: "g_ok g \<Longrightarrow> rf g a b = rf g b a"
  using g_ok_facts(2) by (metis not_Some_eq)

lemma held_symmetric: "g_ok g \<Longrightarrow> held g a b = held g b a"
  by (simp add: held_rf rf_sym)

lemma rf_mem: "keys_ok g \<Longrightarrow> (b, r) \<in> set (dict g a) \<longleftrightarrow> rf g a b = Some r"
  by (simp add: rf_def keys_dict)

lemma drop_folding:
  assumes "g_ok g" and "dst \<noteq> src"
  defines "g0 \<equiv> g\<lparr>g_cross := AList.delete src (g_cross g)\<rparr>"
  defines "g1 \<equiv> set_dict dst (dict g0 dst) g0"
  shows "folding src (dict g src) g1" "\<And>x y. rf g1 x y = (if x = src then None else rf g x y)"
    "g_cells g1 = g_cells g" "g_next g1 = g_next g"
proof -
  note f = g_ok_facts [OF assms(1)]
  note d = keys_drop [OF f(1), of src, folded g0_def]
  show rf1: "rf g1 x y = (if x = src then None else rf g x y)" for x y
    using assms(2) d(3) [of x y] d(2) [of dst] d(2) [of src] by (auto simp: g1_def rf_set rf_def)
  show rest: "g_cells g1 = g_cells g" "g_next g1 = g_next g"
    by (simp_all add: g1_def g0_def)
  have mem: "rf g src o' = Some a'" if "(o', a') \<in> set (dict g src)" for o' a'
    using that by (simp add: rf_mem f(1))
  have one: "o1 = o2" if "rf g src o1 = Some r" "rf g src o2 = Some r" for o1 o2 r
    using f(3) [OF that] f(2) [OF that(1)] f(2) [OF that(2)] by (auto simp: doubleton_eq_iff)
  have refs: "distinct (map snd (dict g src))"
    unfolding distinct_map
  proof (intro conjI inj_onI)
    show "distinct (dict g src)"
      using keys_dict [OF f(1), of src] unfolding distinct_map by blast
    show "p = q" if "p \<in> set (dict g src)" "q \<in> set (dict g src)" "snd p = snd q" for p q
      using that one mem by (metis prod.collapse)
  qed
  show "folding src (dict g src) g1"
    unfolding folding_def
  proof (intro conjI allI impI)
    show "keys_ok g1"
      unfolding g1_def using d(1) by (simp add: keys_dict)
    show "rf g1 src y = None" for y
      by (simp add: rf1)
    show "rf g1 b a = Some r" "a \<noteq> b" "r < g_next g1" if "a \<noteq> src" "b \<noteq> src" "rf g1 a b = Some r" for a b r
      using that f(2) [of a b r] by (simp_all add: rf1 rest)
    show "{a, b} = {c, d}" if "b \<noteq> src" "d \<noteq> src" "rf g1 a b = Some r" "rf g1 c d = Some r" for a b c d r
      using that f(3) [of a b r c d] by (simp add: rf1 split: if_splits)
    show "distinct (map fst (dict g src))" "distinct (map snd (dict g src))"
      by (rule keys_dict [OF f(1)], rule refs)
    show "\<forall>(o', a') \<in> set (dict g src). o' \<noteq> src \<and> a' < g_next g1 \<and> (\<forall>a b. b \<noteq> src \<longrightarrow> rf g1 a b \<noteq> Some a')"
    proof (intro ballI, clarify)
      fix o' a'
      assume m: "(o', a') \<in> set (dict g src)"
      have "rf g1 a b \<noteq> Some a'" if "b \<noteq> src" for a b
        using f(3) [OF mem [OF m], of a b] that by (auto simp: rf1 doubleton_eq_iff)
      then show "o' \<noteq> src \<and> a' < g_next g1 \<and> (\<forall>a b. b \<noteq> src \<longrightarrow> rf g1 a b \<noteq> Some a')"
        using f(2) [OF mem [OF m]] by (auto simp: rest)
    qed
  qed
qed

lemma fold_into_effect:
  assumes "g_ok g" and "dst \<noteq> src"
  shows "g_ok (fold_into dst src g)"
    and "held (fold_into dst src g) x y =
      (if x = src \<or> y = src then None
       else if x = dst \<and> y \<noteq> dst then plus_cell (held g dst y) (held g src y)
       else if y = dst \<and> x \<noteq> dst then plus_cell (held g dst x) (held g src x)
       else held g x y)"
proof -
  let ?g0 = "g\<lparr>g_cross := AList.delete src (g_cross g)\<rparr>"
  let ?g1 = "set_dict dst (dict ?g0 dst) ?g0"
  let ?h = "fold (move_ref dst src) (dict g src) ?g1"
  note f = g_ok_facts [OF assms(1)]
  note d = drop_folding [OF assms]
  note m = move_all [OF d(1) assms(2)]
  note e = folding_facts [OF m [THEN conjunct1]]
  have result: "fold_into dst src g = pop_ref dst src ?h"
    by (simp add: fold_into_def Let_def)
  have absent: "rf g x src = None" if "x \<notin> fst ` set (dict g src)" for x
    unfolding rf_sym [OF assms(1), of x src] using that by (simp add: rf_def map_of_eq_None_iff)
  have to_src: "rf ?h x src = None" for x
    using m [THEN conjunct2, THEN conjunct2, THEN conjunct1, rule_format, of x] absent [of x]
    by (cases "x \<in> fst ` set (dict g src)") (simp_all only: d(2) if_True if_False simp_thms split: if_split)
  have rf': "rf (pop_ref dst src ?h) x y = rf ?h x y" for x y
    using to_src by simp
  show "g_ok (fold_into dst src g)"
    unfolding result g_ok_keys
  proof (intro conjI allI impI)
    show "keys_ok (pop_ref dst src ?h)"
      by (rule keys_pop [OF e(1)])
    show "rf (pop_ref dst src ?h) b a = Some r" "a \<noteq> b" "r < g_next (pop_ref dst src ?h)"
      if "rf (pop_ref dst src ?h) a b = Some r" for a b r
    proof -
      have "rf ?h a b = Some r"
        using that by (simp only: rf')
      moreover have "a \<noteq> src" "b \<noteq> src"
        using that to_src e(2) unfolding rf' by auto
      ultimately show "rf (pop_ref dst src ?h) b a = Some r" "a \<noteq> b" "r < g_next (pop_ref dst src ?h)"
        using e(3) [of a b r] unfolding rf' by simp_all
    qed
    show "{a, b} = {c, d}" if "rf (pop_ref dst src ?h) a b = Some r" "rf (pop_ref dst src ?h) c d = Some r" for a b c d r
    proof -
      have "b \<noteq> src" "d \<noteq> src"
        using that to_src unfolding rf' by auto
      then show ?thesis
        using e(4) [of b d a r c] that unfolding rf' by simp
    qed
  qed
  have keep: "held ?g1 u v = held g u v" if "u \<noteq> src" for u v
    using that by (simp add: held_rf d)
  have lookup: "map_option (g_cells ?g1) (map_of (dict g src) v) = held g src v" for v
    unfolding held_rf d(3) by (simp add: rf_def)
  have "held (pop_ref dst src ?h) u v = held ?h u v" for u v
    unfolding held_rf rf' by simp
  note to_h = this
  have "held ?h x y = None" if "x = src \<or> y = src"
    using that e(2) to_src by (auto simp: held_rf)
  moreover have "held ?h x y =
       (if x = dst \<and> y \<noteq> dst then plus_cell (held g dst y) (held g src y)
       else if y = dst \<and> x \<noteq> dst then plus_cell (held g dst x) (held g src x)
       else held g x y)" if "x \<noteq> src" "y \<noteq> src"
    using m [THEN conjunct2, THEN conjunct2, THEN conjunct2, rule_format, OF that]
    unfolding keep [OF assms(2)] keep [OF that(1)] lookup .
  ultimately show "held (fold_into dst src g) x y =
      (if x = src \<or> y = src then None
       else if x = dst \<and> y \<noteq> dst then plus_cell (held g dst y) (held g src y)
       else if y = dst \<and> x \<noteq> dst then plus_cell (held g dst x) (held g src x)
       else held g x y)"
    unfolding result to_h by presburger
qed

section \<open>Adding the evidence of an activation\<close>

lemma add_pair_effect:
  assumes "g_ok g" and "sid \<noteq> other" and "sit_of (sc_alarm pair) = Some other"
  defines "g' \<equiv> commit_pair sid sit_of pair g"
  shows "g_ok g'" and "held g' x y = (if x = sid \<and> y = other \<or> x = other \<and> y = sid
      then plus_cell (held g sid other) (Some (sc_evidence pair, 1)) else held g x y)"
proof -
  note f = g_ok_facts [OF assms(1)]
  define r where "r = (case rf g sid other of Some r \<Rightarrow> r | None \<Rightarrow> g_next g)"
  have r_some: "r = r'" if "rf g sid other = Some r'" for r'
    using that by (simp add: r_def)
  have only: "rf g u v = Some r \<longleftrightarrow> rf g sid other = Some r \<and> (u = sid \<and> v = other \<or> u = other \<and> v = sid)" for u v
  proof (cases "rf g sid other")
    case None
    then show ?thesis
      using f(2) [of u v r] by (auto simp: r_def)
  next
    case (Some s)
    then have "rf g sid other = Some r"
      by (simp add: r_def)
    then show ?thesis
      using f(2) [of sid other r] f(3) [of u v r sid other] by (auto simp: doubleton_eq_iff)
  qed
  have g': "keys_ok g' \<and> (\<forall>u v. rf g' u v = (if u = sid \<and> v = other \<or> u = other \<and> v = sid then Some r else rf g u v))
      \<and> g_cells g' r = (case rf g sid other of None \<Rightarrow> (sc_evidence pair, 1)
          | Some _ \<Rightarrow> (fst (g_cells g r) + sc_evidence pair, snd (g_cells g r) + 1))
      \<and> (\<forall>q. q \<noteq> r \<longrightarrow> g_cells g' q = g_cells g q) \<and> g_next g \<le> g_next g' \<and> r < g_next g'"
  proof (cases "rf g sid other")
    case None
    define a where "a = g\<lparr>g_cells := (g_cells g)(g_next g := (0, 0)), g_next := g_next g + 1\<rparr>"
    let ?b = "set_dict sid (AList.update other (g_next g) (dict g sid)) a"
    let ?c = "add_to_cell (g_next g) (sc_evidence pair, 1) ?b"
    have a: "rf a = rf g" "dict a = dict g" "keys_ok a" "g_next a = g_next g + 1" "g_cells a = (g_cells g)(g_next g := (0, 0))"
      using f(1) by (simp_all add: rf_def dict_def keys_ok_def fun_eq_iff a_def)
    have "keys_ok ?b"
      by (rule keys_set [OF a(3)]) (rule distinct_update [OF keys_dict [OF f(1)]])
    then have kc: "keys_ok ?c"
      by (simp only: keys_cell)
    have e: "g' = set_dict other (AList.update sid (g_next g) (dict ?c other)) ?c"
      using None assms(2,3) by (simp add: g'_def commit_pair_def Let_def rf_def a_def)
    have "keys_ok g'"
      unfolding e by (rule keys_set [OF kc distinct_update [OF keys_dict [OF kc]]])
    moreover have "rf g' u v = (if u = sid \<and> v = other \<or> u = other \<and> v = sid then Some r else rf g u v)" for u v
      using assms(2) None by (auto simp: e rf_set a update_conv' r_def simp flip: rf_def)
    moreover have "g_cells g' = (g_cells g)(g_next g := (sc_evidence pair, 1))" "g_next g' = g_next g + 1"
      unfolding e by (simp_all add: add_to_cell_def [of "g_next g"] a)
    ultimately show ?thesis
      using None by (simp add: r_def)
  next
    case (Some s)
    then have rs: "r = s" "rf g other sid = Some s" "s < g_next g"
      using f(2) [OF Some] by (simp_all add: r_def)
    have e: "g' = set_dict other (AList.update sid r (dict g other)) (add_to_cell r (sc_evidence pair, 1) g)"
      using Some assms(2,3) rs(1) by (simp add: g'_def commit_pair_def Let_def rf_def)
    have "keys_ok g'"
      unfolding e by (rule keys_set) (simp_all only: keys_cell f(1) distinct_update keys_dict)
    moreover have "rf g' u v = (if u = sid \<and> v = other \<or> u = other \<and> v = sid then Some r else rf g u v)" for u v
      using assms(2) Some rs by (auto simp: e rf_set update_conv' simp flip: rf_def)
    moreover have "g_cells g' = (g_cells g)(r := (fst (g_cells g r) + sc_evidence pair, snd (g_cells g r) + 1))"
      "g_next g' = g_next g"
      by (simp_all add: e add_to_cell_def)
    ultimately show ?thesis
      using Some rs by simp
  qed
  note rf' = g' [THEN conjunct2, THEN conjunct1, rule_format]
    and cell = g' [THEN conjunct2, THEN conjunct2, THEN conjunct1]
    and cells = g' [THEN conjunct2, THEN conjunct2, THEN conjunct2, THEN conjunct1, rule_format]
  show "g_ok g'"
    unfolding g_ok_keys
  proof (intro conjI allI impI)
    show "keys_ok g'"
      using g' by blast
    show "rf g' v u = Some q" "u \<noteq> v" "q < g_next g'" if "rf g' u v = Some q" for u v q
      using that g' f(2) [of u v q] assms(2) unfolding rf' by (auto split: if_splits)
    show "{a, b} = {c, d}" if "rf g' a b = Some q" "rf g' c d = Some q" for a b c d q
      using that f(3) [of a b q c d] only [of a b] only [of c d] unfolding rf'
      by (auto simp: doubleton_eq_iff split: if_splits)
  qed
  show "held g' x y = (if x = sid \<and> y = other \<or> x = other \<and> y = sid
      then plus_cell (held g sid other) (Some (sc_evidence pair, 1)) else held g x y)"
  proof (cases "x = sid \<and> y = other \<or> x = other \<and> y = sid")
    case True
    then have "held g' x y = Some (g_cells g' r)"
      unfolding held_rf rf' by simp
    moreover have "plus_cell (held g sid other) (Some (sc_evidence pair, 1)) = Some (g_cells g' r)"
      unfolding cell held_rf using r_some by (cases "rf g sid other") simp_all
    ultimately show ?thesis
      using True by (simp only: if_True)
  next
    case False
    then have "rf g' x y = rf g x y" "rf g x y \<noteq> Some r"
      using only [of x y] unfolding rf' by auto
    then have "held g' x y = held g x y"
      unfolding held_rf by (cases "rf g x y") (auto simp: cells)
    with False show ?thesis
      by (simp only: if_False)
  qed
qed

section \<open>Forgetting a situation\<close>

lemma pop_all:
  "rf (fold (\<lambda>o'. pop_ref o' s) os g) x y = (if x \<in> set os \<and> y = s then None else rf g x y)"
  "g_cells (fold (\<lambda>o'. pop_ref o' s) os g) = g_cells g" "g_next (fold (\<lambda>o'. pop_ref o' s) os g) = g_next g"
  "keys_ok g \<Longrightarrow> keys_ok (fold (\<lambda>o'. pop_ref o' s) os g)"
  by (induction os arbitrary: g) auto

lemma g_ok_restrict:
  assumes "g_ok g" and "keys_ok g'" and "g_next g' = g_next g"
    and "\<And>x y. rf g' x y = (if x = s \<or> y = s then None else rf g x y)"
  shows "g_ok g'"
  unfolding g_ok_keys
proof (intro conjI allI impI)
  note f = g_ok_facts [OF assms(1)]
  show "rf g' b a = Some r" "a \<noteq> b" "r < g_next g'" if "rf g' a b = Some r" for a b r
    using that f(2) [of a b r] assms(3,4) by (auto split: if_splits)
  show "{a, b} = {c, d}" if "rf g' a b = Some r" "rf g' c d = Some r" for a b c d r
    using that f(3) [of a b r c d] assms(4) by (simp split: if_splits)
qed (rule assms(2))

lemma forget_effect:
  assumes "g_ok g"
  shows "g_ok (forget s g)" and "held (forget s g) x y = (if x = s \<or> y = s then None else held g x y)"
proof -
  let ?d = "g\<lparr>g_cross := AList.delete s (g_cross g)\<rparr>"
  note f = g_ok_facts [OF assms]
  note d = keys_drop [OF f(1), of s]
  have e: "forget s g = fold (\<lambda>o'. pop_ref o' s) (map fst (dict g s)) ?d"
    by (simp add: forget_def Let_def)
  have rf': "rf (forget s g) u v = (if u = s \<or> v = s then None else rf g u v)" for u v
  proof (cases "u \<in> fst ` set (dict g s)")
    case True
    then show ?thesis
      by (simp add: e pop_all d)
  next
    case False
    then have "rf g u s = None"
      unfolding rf_sym [OF assms, of u s] by (simp add: rf_def map_of_eq_None_iff)
    with False show ?thesis
      by (simp add: e pop_all d)
  qed
  have rest: "g_cells (forget s g) = g_cells g" "g_next (forget s g) = g_next g"
    by (simp_all add: e pop_all)
  have "keys_ok (forget s g)"
    unfolding e by (rule pop_all(4) [OF d(1)])
  then show "g_ok (forget s g)"
    by (rule g_ok_restrict [OF assms _ rest(2) rf'])
  show "held (forget s g) x y = (if x = s \<or> y = s then None else held g x y)"
    by (simp add: held_rf rf' rest)
qed

lemma forget_all:
  assumes "g_ok g"
  shows "g_ok (fold forget ss g) \<and> held (fold forget ss g) x y = (if x \<in> set ss \<or> y \<in> set ss then None else held g x y)"
  using assms by (induction ss arbitrary: g) (simp_all add: forget_effect)

lemma held_keys:
  assumes "held g x y = Some c"
  shows "x \<in> set (map fst (g_cross g))"
  using assms map_of_eq_None_iff [of "g_cross g" x] by (cases "map_of (g_cross g) x") (auto simp: held_def)

lemma prune_effect:
  assumes "g_ok g"
  shows "g_ok (prune_evidence live g)" and "held (prune_evidence live g) x y = (if x \<in> live \<and> y \<in> live then held g x y else None)"
proof -
  let ?gone = "filter (\<lambda>s. s \<notin> live) (map fst (g_cross g))"
  note a = forget_all [OF assms, of ?gone]
  show "g_ok (prune_evidence live g)"
    using a [of x y] by (simp add: prune_evidence_def)
  have "held g x y = None" if "x \<notin> set ?gone" "y \<notin> set ?gone" "x \<notin> live \<or> y \<notin> live"
  proof (rule ccontr)
    assume "held g x y \<noteq> None"
    then obtain c where c: "held g x y = Some c"
      by blast
    then have "held g y x = Some c"
      by (simp add: held_symmetric [OF assms, of y x])
    with c that held_keys [of g x y] held_keys [of g y x] show False
      by auto
  qed
  moreover have "\<not> (x \<in> live \<and> y \<in> live)" if "x \<in> set ?gone \<or> y \<in> set ?gone"
    using that by auto
  ultimately show "held (prune_evidence live g) x y = (if x \<in> live \<and> y \<in> live then held g x y else None)"
    using a [of x y] unfolding prune_evidence_def by (metis (no_types, lifting))
qed

section \<open>The specification: evidence on pairs of situations\<close>

type_synonym evidence = "int \<Rightarrow> int \<Rightarrow> cell option"

definition spec_fold :: "int \<Rightarrow> int \<Rightarrow> evidence \<Rightarrow> evidence" where
  "spec_fold dst src e = (\<lambda>x y.
     if x = src \<or> y = src then None
     else if x = dst \<and> y \<noteq> dst then plus_cell (e dst y) (e src y)
     else if y = dst \<and> x \<noteq> dst then plus_cell (e dst x) (e src x)
     else e x y)"

definition spec_pair :: "int \<Rightarrow> (int \<Rightarrow> int option) \<Rightarrow> Scored \<Rightarrow> evidence \<Rightarrow> evidence" where
  "spec_pair sid sit_of pair e = (\<lambda>x y.
     if sit_of (sc_alarm pair) \<noteq> Some sid \<and> (x = sid \<and> Some y = sit_of (sc_alarm pair) \<or> Some x = sit_of (sc_alarm pair) \<and> y = sid)
     then plus_cell (e x y) (Some (sc_evidence pair, 1)) else e x y)"

definition spec_forget :: "int \<Rightarrow> evidence \<Rightarrow> evidence" where
  "spec_forget s e = (\<lambda>x y. if x = s \<or> y = s then None else e x y)"

definition spec_prune :: "int set \<Rightarrow> evidence \<Rightarrow> evidence" where
  "spec_prune live e = (\<lambda>x y. if x \<in> live \<and> y \<in> live then e x y else None)"

text \<open>The calls that change a grouper.\<close>

datatype group_op =
    Commit int Placement "Scored list" "int \<Rightarrow> int option"
  | Merged int int
  | Forget int
  | Prune "int set"

fun group_step :: "group_op \<Rightarrow> Grouper \<Rightarrow> Grouper" where
  "group_step (Commit sid p scored sit_of) g = commit sid p scored sit_of g"
| "group_step (Merged dst src) g = merged dst src g"
| "group_step (Forget s) g = forget s g"
| "group_step (Prune live) g = prune_evidence live g"

fun spec_step :: "group_op \<Rightarrow> evidence \<Rightarrow> evidence" where
  "spec_step (Commit sid p scored sit_of) e = fold (spec_pair sid sit_of) scored (fold (spec_fold sid) (pl_merge p) e)"
| "spec_step (Merged dst src) e = spec_fold dst src e"
| "spec_step (Forget s) e = spec_forget s e"
| "spec_step (Prune live) e = spec_prune live e"

text \<open>A situation is never folded into itself.\<close>

fun op_ok :: "group_op \<Rightarrow> bool" where
  "op_ok (Commit sid p _ _) \<longleftrightarrow> sid \<notin> set (pl_merge p)"
| "op_ok (Merged dst src) \<longleftrightarrow> dst \<noteq> src"
| "op_ok _ \<longleftrightarrow> True"

lemma fold_refines:
  assumes "g_ok g" and "dst \<notin> set gone"
  shows "g_ok (fold (fold_into dst) gone g) \<and> held (fold (fold_into dst) gone g) = fold (spec_fold dst) gone (held g)"
  using assms
proof (induction gone arbitrary: g)
  case (Cons s gone)
  then have "dst \<noteq> s"
    by simp
  note e = fold_into_effect [OF Cons.prems(1) this]
  have "held (fold_into dst s g) = spec_fold dst s (held g)"
    by (intro ext) (simp only: e(2) spec_fold_def)
  with Cons.IH [OF e(1)] Cons.prems(2) show ?case
    by simp
qed simp

lemma pair_refines:
  assumes "g_ok g"
  shows "g_ok (commit_pair sid sit_of pair g) \<and> held (commit_pair sid sit_of pair g) = spec_pair sid sit_of pair (held g)"
proof (cases "sit_of (sc_alarm pair) = None \<or> sit_of (sc_alarm pair) = Some sid")
  case True
  then have "commit_pair sid sit_of pair g = g" "spec_pair sid sit_of pair (held g) = held g"
    by (auto simp: commit_pair_def spec_pair_def fun_eq_iff)
  with assms show ?thesis
    by simp
next
  case False
  then obtain other where o: "sit_of (sc_alarm pair) = Some other" "sid \<noteq> other"
    by auto
  note e = add_pair_effect [OF assms o(2), of sit_of pair, OF o(1)]
  have "held (commit_pair sid sit_of pair g) x y = spec_pair sid sit_of pair (held g) x y" for x y
    unfolding e(2) spec_pair_def using o held_symmetric [OF assms, of sid other] by auto
  with e(1) show ?thesis
    by (simp add: fun_eq_iff)
qed

lemma pairs_refine:
  assumes "g_ok g"
  shows "g_ok (fold (commit_pair sid sit_of) scored g)
    \<and> held (fold (commit_pair sid sit_of) scored g) = fold (spec_pair sid sit_of) scored (held g)"
  using assms by (induction scored arbitrary: g) (simp_all add: pair_refines)

lemma touch_ok:
  assumes "g_ok g"
  shows "g_ok (set_dict a (dict g a) g)" "held (set_dict a (dict g a) g) = held g"
proof -
  have r: "rf (set_dict a (dict g a) g) = rf g"
    by (simp add: fun_eq_iff rf_set) (simp add: rf_def)
  note f = g_ok_facts(1) [OF assms]
  have "keys_ok (set_dict a (dict g a) g)"
    by (rule keys_set [OF f keys_dict [OF f]])
  then show "g_ok (set_dict a (dict g a) g)"
    using assms unfolding g_ok_keys r cells_simps by (rule conjI [OF _ conjunct2])
  show "held (set_dict a (dict g a) g) = held g"
    by (simp add: fun_eq_iff held_rf r)
qed

lemma step_refines:
  assumes "g_ok g" and "op_ok c" and "g_mode g = Cluster"
  shows "g_ok (group_step c g) \<and> held (group_step c g) = spec_step c (held g)"
proof (cases c)
  case (Commit sid p scored sit_of)
  with assms(2) have "sid \<notin> set (pl_merge p)"
    by simp
  note m = fold_refines [OF assms(1) this]
  note t = touch_ok [OF m [THEN conjunct1], of sid]
  show ?thesis
    using pairs_refine [OF t(1), of sid sit_of scored] m t(2) assms(3) by (simp add: Commit commit_def Let_def)
next
  case (Merged dst src)
  with assms fold_refines [OF assms(1), of dst "[src]"] show ?thesis
    by (simp add: merged_def)
qed (use assms forget_effect prune_effect in \<open>auto simp: spec_forget_def spec_prune_def fun_eq_iff\<close>)

lemma mode_kept [simp]:
  "g_mode (set_dict a d g) = g_mode g" "g_mode (pop_ref a b g) = g_mode g" "g_mode (add_to_cell r c g) = g_mode g"
  by (simp_all add: set_dict_def pop_ref_def add_to_cell_def split: option.split)

lemma mode_fold: "(\<And>x g. g_mode (f x g) = g_mode g) \<Longrightarrow> g_mode (fold f xs g) = g_mode g"
  by (induction xs arbitrary: g) simp_all

lemma mode_move: "g_mode (move_ref dst src item g) = g_mode g"
  by (simp add: move_ref_def Let_def split: prod.split option.split)

lemma mode_fold_into: "g_mode (fold_into dst src g) = g_mode g"
  by (simp add: fold_into_def Let_def mode_fold mode_move)

lemma mode_pair: "g_mode (commit_pair sid sit_of p g) = g_mode g"
  by (simp add: commit_pair_def Let_def split: option.split)

lemma mode_forget: "g_mode (forget s g) = g_mode g"
  by (simp add: forget_def Let_def mode_fold)

lemma mode_step: "g_mode (group_step c g) = g_mode g"
  by (cases c) (simp_all add: commit_def merged_def prune_evidence_def Let_def mode_fold mode_fold_into mode_pair mode_forget)

lemma run_refines:
  assumes "\<forall>c \<in> set cs. op_ok c" and "g_ok g" and "g_mode g = Cluster"
  shows "g_ok (fold group_step cs g) \<and> held (fold group_step cs g) = fold spec_step cs (held g)"
  using assms
proof (induction cs arbitrary: g)
  case (Cons c cs)
  then show ?case
    using step_refines [OF Cons.prems(2), of c] Cons.IH [of "group_step c g"] by (simp add: mode_step)
qed simp

text \<open>C27: The evidence two situations share is one list that both hold, and it is moved, added to in
  place and dropped as situations are merged, closed and pruned. Whatever calls a new grouper in
  cluster mode has served, it holds on every pair of situations exactly what the specification on
  pairs gives: each activation's pair evidence added once to the two situations' record, a merge adding
  the records of the one that goes to those of the one that stays, and nothing left about a
  situation that is gone. The record is the same read from either side.\<close>

theorem grouper_refines:
  fixes params :: GroupingParams
  assumes "\<forall>c \<in> set cs. op_ok c"
  defines "g \<equiv> fold group_step cs (new_grouper Cluster params)"
  shows "held g = fold spec_step cs (\<lambda>_ _. None) \<and> (\<forall>a b. held g a b = held g b a)"
proof -
  have "held (new_grouper Cluster params) = (\<lambda>_ _. None)"
    by (simp add: fun_eq_iff held_def new_grouper_def)
  moreover have "g_mode (new_grouper Cluster params) = Cluster"
    by (simp add: new_grouper_def)
  note r = run_refines [OF assms(1) new_ok this, folded g_def]
  ultimately show ?thesis
    using r held_symmetric [OF r [THEN conjunct1]] by (intro conjI allI) (simp_all only: simp_thms)
qed

theorem grouper_refines_witness:
  "let sit = (\<lambda>a. if a = 10 then Some 1 else if a = 20 then Some 2 else Some (3::int));
       pair = (\<lambda>a v. \<lparr>sc_alarm = a, sc_evidence = v, sc_linked = True\<rparr>);
       none = \<lparr>pl_join = None, pl_merge = [], pl_support = []\<rparr>;
       cs = [Commit 3 none [pair 10 2, pair 20 1] sit, Commit 1 none [pair 20 5] sit, Merged 1 2]
   in held (fold group_step cs (new_grouper Cluster default_params)) 1 3 = Some (3, 2)
     \<and> held (fold group_step cs (new_grouper Cluster default_params)) 3 1 = Some (3, 2)
     \<and> held (fold group_step cs (new_grouper Cluster default_params)) 1 2 = None"
proof -
  let ?sit = "\<lambda>a. if a = 10 then Some 1 else if a = 20 then Some 2 else Some (3::int)"
  let ?pair = "\<lambda>a v. \<lparr>sc_alarm = a, sc_evidence = v, sc_linked = True\<rparr>"
  let ?none = "\<lparr>pl_join = None, pl_merge = [], pl_support = []\<rparr>"
  let ?cs = "[Commit 3 ?none [?pair 10 2, ?pair 20 1] ?sit, Commit 1 ?none [?pair 20 5] ?sit, Merged 1 2]"
  have "\<forall>c \<in> set ?cs. op_ok c"
    by simp
  from grouper_refines [OF this, of default_params, THEN conjunct1] show ?thesis
    unfolding Let_def by (simp only:) (simp add: spec_pair_def spec_fold_def)
qed

section \<open>What the decision is\<close>

text \<open>The evidence a situation has for the newcomer.\<close>

definition evidence_for :: "Scored list \<Rightarrow> (int \<Rightarrow> int option) \<Rightarrow> int \<Rightarrow> real list" where
  "evidence_for scored sit_of s = map sc_evidence (filter (\<lambda>p. sit_of (sc_alarm p) = Some s) scored)"

definition mean :: "real list \<Rightarrow> real" where
  "mean xs = sum_list xs / length xs"

lemma support_add_lookup:
  "map_of (support_add sit_of p acc) s = (if sit_of (sc_alarm p) = Some s
     then Some (case map_of acc s of None \<Rightarrow> (sc_evidence p, 1) | Some c \<Rightarrow> (fst c + sc_evidence p, snd c + 1))
     else map_of acc s)"
  by (auto simp: support_add_def update_conv' split: option.split)

lemma support_lookup:
  "map_of (fold (support_add sit_of) scored acc) s =
     (let es = evidence_for scored sit_of s in
      if es = [] then map_of acc s
      else Some (case map_of acc s of None \<Rightarrow> (sum_list es, real (length es)) | Some c \<Rightarrow> (fst c + sum_list es, snd c + real (length es))))"
  by (induction scored arbitrary: acc)
     (auto simp: evidence_for_def Let_def support_add_lookup algebra_simps split: option.split)

lemma support_of_lookup:
  "map_of (support_of scored sit_of) s =
     (if evidence_for scored sit_of s = [] then None
      else Some (sum_list (evidence_for scored sit_of s), real (length (evidence_for scored sit_of s))))"
  by (simp add: support_of_def support_lookup Let_def)

lemma support_distinct: "distinct (map fst acc) \<Longrightarrow> distinct (map fst (fold (support_add sit_of) scored acc))"
proof (induction scored arbitrary: acc)
  case (Cons p scored)
  have "distinct (map fst (support_add sit_of p acc))"
    using Cons.prems by (simp add: support_add_def distinct_update split: option.split prod.split)
  with Cons.IH show ?case
    by simp
qed simp

lemma support_of_distinct: "distinct (map fst (support_of scored sit_of))"
  by (simp add: support_of_def support_distinct)

lemma support_of_mem:
  "(s, c) \<in> set (support_of scored sit_of) \<longleftrightarrow> evidence_for scored sit_of s \<noteq> []
     \<and> c = (sum_list (evidence_for scored sit_of s), real (length (evidence_for scored sit_of s)))"
  unfolding Some_eq_map_of_iff [OF support_of_distinct, symmetric] by (auto simp: support_of_lookup)

definition rank_row :: "Scored list \<Rightarrow> (int \<Rightarrow> int option) \<Rightarrow> int \<Rightarrow> int \<times> real \<times> int" where
  "rank_row scored sit_of s = (s, mean (evidence_for scored sit_of s), int (length (evidence_for scored sit_of s)))"

lemma ranked_set: "set (rank_support (support_of scored sit_of)) = rank_row scored sit_of ` {s. evidence_for scored sit_of s \<noteq> []}"
proof -
  let ?row = "\<lambda>s. (s, sum_list (evidence_for scored sit_of s), real (length (evidence_for scored sit_of s)))"
  have "x \<in> set (support_of scored sit_of) \<longleftrightarrow> x \<in> ?row ` {s. evidence_for scored sit_of s \<noteq> []}" for x
    using support_of_mem [of "fst x" "snd x" scored sit_of] by (cases x) (simp add: image_iff)
  then have "set (support_of scored sit_of) = ?row ` {s. evidence_for scored sit_of s \<noteq> []}"
    by blast
  then show ?thesis
    by (simp add: rank_support_def image_image rank_row_def mean_def)
qed

lemma ranked_distinct: "distinct (map fst (rank_support (support_of scored sit_of)))"
proof -
  have keep: "distinct (map fst (sort_key k xs))" if "distinct (map fst xs)" for k :: "int \<times> real \<times> int \<Rightarrow> real \<times> int \<times> int" and xs
    using that by (simp add: distinct_map)
  show ?thesis
    unfolding rank_support_def by (rule keep) (simp add: comp_def case_prod_beta support_of_distinct)
qed

lemma rank_first:
  assumes "rank_support (support_of scored sit_of) = row # rest" and "evidence_for scored sit_of s \<noteq> []"
  shows "(case row of (j, m, n) \<Rightarrow> (- m, - n, j))
    \<le> (- mean (evidence_for scored sit_of s), - int (length (evidence_for scored sit_of s)), s)"
proof -
  let ?key = "\<lambda>(sid, mean, n). (- mean :: real, - n :: int, sid :: int)"
  have "sorted (map ?key (rank_support (support_of scored sit_of)))"
    by (simp add: rank_support_def)
  moreover have "rank_row scored sit_of s \<in> set (row # rest)"
    using assms(2) unfolding assms(1) [symmetric] ranked_set by blast
  ultimately have "?key row \<le> ?key (rank_row scored sit_of s)"
    unfolding assms(1) by (auto simp del: less_eq_prod_simp)
  then show ?thesis
    by (simp add: rank_row_def)
qed

text \<open>C28: The decision for an alarm that has no situation, in cluster mode: it opens a new one exactly
  when no situation it was scored against has a mean evidence above the join bias; otherwise it
  joins the one with the greatest mean, on equal means the one with more pairs, then the lowest number.
  Joining a situation, or already in one, it asks for the merge of exactly those scored
  situations whose evidence with the joined one, what is held and what this activation adds,
  counts enough pairs and has a mean above the merge bias.\<close>

theorem place_decides:
  fixes scored :: "Scored list" and sit_of :: "int \<Rightarrow> int option" and own :: "int option"
  assumes "g_mode g = Cluster"
  defines "p \<equiv> place g scored sit_of own"
  defines "es \<equiv> evidence_for scored sit_of"
  shows "(own = None \<longrightarrow> (case pl_join p of
            None \<Rightarrow> \<forall>s. es s \<noteq> [] \<longrightarrow> mean (es s) \<le> join_bias (g_params g)
          | Some j \<Rightarrow> es j \<noteq> [] \<and> mean (es j) > join_bias (g_params g)
              \<and> (\<forall>s. es s \<noteq> [] \<longrightarrow> (- mean (es j), - int (length (es j)), j) \<le> (- mean (es s), - int (length (es s)), s))))
    \<and> (own \<noteq> None \<longrightarrow> pl_join p = own)
    \<and> (case pl_join p of
         None \<Rightarrow> pl_merge p = []
       | Some j \<Rightarrow> set (pl_merge p) = {s. s \<noteq> j \<and> es s \<noteq> [] \<and>
            (let h = held_or_zero g j s; pairs = snd h + length (es s)
             in pairs \<ge> of_int (merge_min_pairs (g_params g)) \<and> (fst h + sum_list (es s)) / pairs > merge_bias (g_params g))})
    \<and> sorted (pl_merge p) \<and> distinct (pl_merge p)"
proof -
  let ?rank = "rank_support (support_of scored sit_of)"
  let ?merges = "\<lambda>j. map fst (filter (\<lambda>(sid, _, _). sid \<noteq> j \<and> merges_with g (support_of scored sit_of) j sid) ?rank)"
  have merge: "pl_merge p = (case pl_join p of None \<Rightarrow> [] | Some j \<Rightarrow> sort (?merges j))"
    using assms(1) by (simp add: p_def place_def Let_def split: option.split)
  have join: "pl_join p = (case own of Some s \<Rightarrow> Some s
      | None \<Rightarrow> (case ?rank of [] \<Rightarrow> None | (sid, m, _) # _ \<Rightarrow> if m > join_bias (g_params g) then Some sid else None))"
    using assms(1) by (simp add: p_def place_def Let_def)
  have meets: "merges_with g (support_of scored sit_of) j s \<longleftrightarrow>
      (let h = held_or_zero g j s; pairs = snd h + length (es s)
       in pairs \<ge> of_int (merge_min_pairs (g_params g)) \<and> (fst h + sum_list (es s)) / pairs > merge_bias (g_params g))"
    if "es s \<noteq> []" for j s
    using that by (simp add: merges_with_def support_of_lookup es_def Let_def case_prod_beta)
  have "set (?merges j) = {s. s \<noteq> j \<and> es s \<noteq> [] \<and> merges_with g (support_of scored sit_of) j s}" for j
    unfolding es_def by (force simp: ranked_set rank_row_def image_iff)
  then have sets: "set (?merges j) = {s. s \<noteq> j \<and> es s \<noteq> [] \<and>
      (let h = held_or_zero g j s; pairs = snd h + length (es s)
       in pairs \<ge> of_int (merge_min_pairs (g_params g)) \<and> (fst h + sum_list (es s)) / pairs > merge_bias (g_params g))}" for j
    using meets by blast
  have one: "distinct (?merges j)" for j
    by (rule distinct_map_filter [OF ranked_distinct])
  have "case pl_join p of
          None \<Rightarrow> \<forall>s. es s \<noteq> [] \<longrightarrow> mean (es s) \<le> join_bias (g_params g)
        | Some j \<Rightarrow> es j \<noteq> [] \<and> mean (es j) > join_bias (g_params g)
            \<and> (\<forall>s. es s \<noteq> [] \<longrightarrow> (- mean (es j), - int (length (es j)), j) \<le> (- mean (es s), - int (length (es s)), s))" if "own = None"
  proof (cases ?rank)
    case Nil
    then have "es s = []" for s
      using ranked_set [of scored sit_of] by (auto simp: es_def)
    then show ?thesis
      by (simp add: join that Nil)
  next
    case (Cons row rest)
    then have "row \<in> rank_row scored sit_of ` {s. evidence_for scored sit_of s \<noteq> []}"
      using ranked_set [of scored sit_of] by auto
    then obtain j where j: "es j \<noteq> []" "row = (j, mean (es j), int (length (es j)))"
      by (auto simp: rank_row_def es_def)
    have first: "(- mean (es j), - int (length (es j)), j) \<le> (- mean (es s), - int (length (es s)), s)" if "es s \<noteq> []" for s
      using rank_first [OF Cons, of s] that j unfolding es_def by (simp only: prod.case not_False_eq_True)
    then have most: "mean (es s) \<le> mean (es j)" if "es s \<noteq> []" for s
      using that by (fastforce simp: less_eq_prod_def)
    show ?thesis
    proof (cases "mean (es j) > join_bias (g_params g)")
      case True
      then have "pl_join p = Some j"
        by (simp add: join that Cons j)
      with True j first show ?thesis
        by (simp only: option.case) blast
    next
      case False
      then have "pl_join p = None"
        by (simp add: join that Cons j)
      with False most show ?thesis
        by (simp only: option.case) fastforce
    qed
  qed
  moreover have "pl_join p = own" if "own \<noteq> None"
    using that by (auto simp: join)
  moreover have "case pl_join p of None \<Rightarrow> pl_merge p = []
       | Some j \<Rightarrow> set (pl_merge p) = {s. s \<noteq> j \<and> es s \<noteq> [] \<and>
            (let h = held_or_zero g j s; pairs = snd h + length (es s)
             in pairs \<ge> of_int (merge_min_pairs (g_params g)) \<and> (fst h + sum_list (es s)) / pairs > merge_bias (g_params g))}"
    using sets unfolding merge by (simp only: set_sort split: option.split) simp
  moreover have "sorted (pl_merge p) \<and> distinct (pl_merge p)"
    unfolding merge using one by (simp split: option.split)
  ultimately show ?thesis
    by blast
qed

theorem place_decides_witness:
  "let sit = (\<lambda>a. if a = 10 then Some 1 else Some (2::int));
       pair = (\<lambda>a v. \<lparr>sc_alarm = a, sc_evidence = v, sc_linked = True\<rparr>)
   in pl_join (place (new_grouper Cluster default_params) [pair 10 2, pair 20 1, pair 21 (-3)] sit None) = Some 1
     \<and> pl_merge (place (new_grouper Cluster default_params) [pair 10 2, pair 20 1, pair 21 (-3)] sit None) = []"
proof -
  let ?sit = "\<lambda>a. if a = 10 then Some 1 else Some (2::int)"
  let ?pair = "\<lambda>a v. \<lparr>sc_alarm = a, sc_evidence = v, sc_linked = True\<rparr>"
  let ?s = "[?pair 10 2, ?pair 20 1, ?pair 21 (-3)]"
  let ?g = "new_grouper Cluster default_params"
  let ?p = "place ?g ?s ?sit None"
  have mode: "g_mode ?g = Cluster"
    by (simp add: new_grouper_def)
  note T = place_decides [OF mode, of None ?s ?sit]
  have es: "evidence_for ?s ?sit k = (if k = 1 then [2] else if k = 2 then [1, -3] else [])" for k
    by (simp add: evidence_for_def)
  have par: "join_bias (g_params ?g) = 0" "merge_bias (g_params ?g) = 1" "merge_min_pairs (g_params ?g) = 3"
    by (simp_all add: new_grouper_def default_params_def)
  have join: "pl_join ?p = Some 1"
  proof (cases "pl_join ?p")
    case None
    with T [THEN conjunct1] have "\<forall>k. evidence_for ?s ?sit k \<noteq> [] \<longrightarrow> mean (evidence_for ?s ?sit k) \<le> 0"
      by (simp only: option.case simp_thms par)
    from this [rule_format, of 1] show ?thesis
      by (simp add: es mean_def)
  next
    case (Some j)
    with T [THEN conjunct1] have "evidence_for ?s ?sit j \<noteq> []" "mean (evidence_for ?s ?sit j) > 0"
      by (simp_all only: option.case simp_thms par)
    then have "j = 1"
      by (auto simp: es mean_def split: if_splits)
    with Some show ?thesis
      by simp
  qed
  have "held_or_zero ?g 1 k = (0, 0)" for k
    by (simp add: held_or_zero_def held_def new_grouper_def)
  with T [THEN conjunct2, THEN conjunct2, THEN conjunct1] join have "set (pl_merge ?p) = {}"
    by (simp only: option.case par es Let_def) (auto split: if_splits)
  with join show ?thesis
    unfolding Let_def by (simp only: set_empty simp_thms)
qed

end
