(* ===== verification/Corr_Window.thy ===== *)
theory Corr_Window
  imports Corr_Score Corr_Features Corr_Grouping
begin

text \<open>
  \<open>engine/correlate/pairs.py\<close> and \<open>engine/correlate/correlate.py\<close>: the correlation window, the
  candidates of an arriving alarm, their verdicts, the placement and what is remembered. The
  window is a list, oldest first; the index is an association list; the scorer behind the wrapper
  is an argument of \<open>Corr_Score\<close>. The explanation stored with a link is left out.
\<close>

section \<open>Candidates\<close>

definition WINDOW_S :: seconds where "WINDOW_S = 120"
definition MAX_CANDIDATES :: nat where "MAX_CANDIDATES = 100"
definition MAX_LINKS_PER_ALARM :: nat where "MAX_LINKS_PER_ALARM = 5"
definition MAX_WINDOW_ALARMS :: nat where "MAX_WINDOW_ALARMS = 20000"

text \<open>The loop over the reversed window; \<open>live\<close> is \<open>None\<close> when every entry qualifies.\<close>

fun select_from :: "seconds \<Rightarrow> seconds \<Rightarrow> nat \<Rightarrow> (int \<Rightarrow> bool) option \<Rightarrow> WindowAlarm list \<Rightarrow> WindowAlarm list \<Rightarrow> WindowAlarm list" where
  "select_from now window_s max_c live [] recent = recent"
| "select_from now window_s max_c live (a # older) recent =
     (if now - wa_ts a > window_s then recent
      else if live \<noteq> None \<and> \<not> the live (wa_id a) then select_from now window_s max_c live older recent
      else
        let recent = recent @ [a]
        in if length recent \<ge> max_c then recent else select_from now window_s max_c live older recent)"

definition select_candidates :: "WindowAlarm list \<Rightarrow> seconds \<Rightarrow> seconds \<Rightarrow> nat \<Rightarrow> (int \<Rightarrow> bool) option \<Rightarrow> WindowAlarm list" where
  "select_candidates window now window_s max_c live = rev (select_from now window_s max_c live (rev window) [])"

record EvaluatedPair =
  ev_other :: WindowAlarm
  ev_result :: "LinkScore option"
  ev_vector :: "real list option"
  ev_margin :: real
  ev_accepted :: bool

definition evidence :: "EvaluatedPair \<Rightarrow> real" where
  "evidence p = (case ev_result p of Some l \<Rightarrow> finite_value (ls_score l) - ls_threshold l | None \<Rightarrow> ev_margin p)"

definition linked :: "EvaluatedPair \<Rightarrow> bool" where
  "linked p = (case ev_result p of Some l \<Rightarrow> ls_linked l | None \<Rightarrow> ev_accepted p)"

definition as_scored :: "EvaluatedPair \<Rightarrow> Scored" where
  "as_scored p = \<lparr>sc_alarm = wa_id (ev_other p), sc_evidence = evidence p, sc_linked = linked p\<rparr>"

fun contribution_of :: "TermContribution list \<Rightarrow> string \<Rightarrow> real" where
  "contribution_of [] name = 0"
| "contribution_of (t # ts) name = (if tc_name t = name then tc_contribution t else contribution_of ts name)"

record CorrelationResult =
  cr_links :: "(WindowAlarm \<times> LinkScore) list"
  cr_considered :: "WindowAlarm list"
  cr_storm :: bool
  cr_evaluated :: "EvaluatedPair list"
  cr_placement :: Placement
  cr_recalled :: nat

section \<open>The correlator\<close>

record Correlator =
  co_window_s :: seconds
  co_max_candidates :: nat
  co_max_window :: nat
  co_scorer :: SafeScorer
  co_window :: "WindowAlarm list"
  co_index :: "(int \<times> WindowAlarm) list"
  co_recall :: CandidateIndex
  co_episodes :: EpisodeMemory
  co_grouper :: Grouper
  co_live :: "int set"
  co_overflow :: nat

definition new_correlator :: "nat \<Rightarrow> nat \<Rightarrow> Delegate \<Rightarrow> Correlator" where
  "new_correlator max_c max_w d =
     \<lparr>co_window_s = WINDOW_S, co_max_candidates = max_c, co_max_window = max_w, co_scorer = new_safe d,
      co_window = [], co_index = [], co_recall = new_index, co_episodes = new_memory,
      co_grouper = new_grouper Components default_params, co_live = {}, co_overflow = 0\<rparr>"

text \<open>\<open>grouping\<close> is what the scorer's model says of grouping, when it has one.\<close>

definition set_scorer :: "Delegate \<Rightarrow> GroupingParams option \<Rightarrow> Correlator \<Rightarrow> Correlator" where
  "set_scorer d grouping c =
     c\<lparr>co_scorer := new_safe d,
       co_grouper := (case grouping of
          Some p \<Rightarrow> (co_grouper c)\<lparr>g_mode := Cluster, g_params := p\<rparr>
        | None \<Rightarrow> (co_grouper c)\<lparr>g_mode := Components\<rparr>)\<rparr>"

definition two_stage :: "Correlator \<Rightarrow> bool" where
  "two_stage c = fast_path (co_scorer c)"

fun drop_old :: "seconds \<Rightarrow> seconds \<Rightarrow> WindowAlarm list \<times> (int \<times> WindowAlarm) list \<Rightarrow> WindowAlarm list \<times> (int \<times> WindowAlarm) list" where
  "drop_old now window_s ([], idx) = ([], idx)"
| "drop_old now window_s (a # w, idx) =
     (if now - wa_ts a > window_s then drop_old now window_s (w, AList.delete (wa_id a) idx) else (a # w, idx))"

fun drop_over :: "nat \<Rightarrow> WindowAlarm list \<times> (int \<times> WindowAlarm) list \<times> nat \<Rightarrow> WindowAlarm list \<times> (int \<times> WindowAlarm) list \<times> nat" where
  "drop_over max_w ([], idx, n) = ([], idx, n)"
| "drop_over max_w (a # w, idx, n) =
     (if length (a # w) > max_w
      then drop_over max_w (w, AList.delete (wa_id a) idx, if map_of idx (wa_id a) \<noteq> None then n + 1 else n)
      else (a # w, idx, n))"

definition evict :: "seconds \<Rightarrow> Correlator \<Rightarrow> Correlator" where
  "evict now c =
     (let (w, idx) = drop_old now (co_window_s c) (co_window c, co_index c);
          (w, idx, n) = drop_over (co_max_window c) (w, idx, co_overflow c)
      in c\<lparr>co_window := w, co_index := idx, co_overflow := n\<rparr>)"

definition remove_alarm :: "int \<Rightarrow> Correlator \<Rightarrow> Correlator" where
  "remove_alarm i c = c\<lparr>co_index := AList.delete i (co_index c), co_live := co_live c - {i}\<rparr>"

definition correlator_prune :: "seconds \<Rightarrow> Correlator \<Rightarrow> Correlator" where
  "correlator_prune now c =
     (let r = index_prune now (co_recall c);
          reachable = fst ` set (co_index c) \<union> wa_id ` \<Union> (set ` set (rings r))
      in c\<lparr>co_recall := r, co_episodes := memory_prune now (co_episodes c), co_live := co_live c \<inter> reachable\<rparr>)"

definition take_overflow :: "Correlator \<Rightarrow> nat \<times> Correlator" where
  "take_overflow c = (co_overflow c, c\<lparr>co_overflow := 0\<rparr>)"

definition recent_live :: "seconds \<Rightarrow> Correlator \<Rightarrow> WindowAlarm list" where
  "recent_live now c =
     select_candidates (co_window c) now (co_window_s c) (co_max_candidates c) (Some (\<lambda>i. map_of (co_index c) i \<noteq> None))"

definition link_features :: "WindowAlarm \<Rightarrow> WindowAlarm \<Rightarrow> Learner \<Rightarrow> real list option \<Rightarrow> LinkFeatures" where
  "link_features new old learner vec =
     (let both_known = (wa_oid_root new \<noteq> [] \<and> wa_oid_root old \<noteq> []);
          (ca, ea) = (case vec of
             Some v \<Rightarrow> (v ! 4, v ! 5)
           | None \<Rightarrow> (class_affinity learner (wa_class new) (wa_class old),
                     entity_affinity learner (wa_entity new) (wa_device new) (wa_entity old) (wa_device old)))
      in \<lparr>f_delta_t_s = \<bar>wa_ts new - wa_ts old\<bar>, f_class_i = wa_class new, f_class_j = wa_class old, f_class_affinity = ca,
           f_ne_i = wa_device new, f_ne_j = wa_device old, f_entity_affinity = ea,
           f_same_oid_root = (if both_known then Some (wa_oid_root new = wa_oid_root old) else None), f_vector = vec\<rparr>)"

definition score_link :: "WindowAlarm \<Rightarrow> WindowAlarm \<Rightarrow> Learner \<Rightarrow> Correlator \<Rightarrow> LinkScore \<times> Correlator" where
  "score_link new old learner c =
     (let vec = (if two_stage c then Some (vector new old learner (co_episodes c) (length (co_index c))) else None);
          (r, s) = safe_score (link_features new old learner vec) (co_scorer c)
      in (r, c\<lparr>co_scorer := s\<rparr>))"

text \<open>One candidate; \<open>vec\<close> is its vector when there are two stages.\<close>

definition evaluate_one :: "WindowAlarm \<Rightarrow> Learner \<Rightarrow> WindowAlarm \<times> real list option \<Rightarrow> SafeScorer \<Rightarrow> EvaluatedPair \<times> SafeScorer" where
  "evaluate_one new learner cand s =
     (case cand of
        (old, Some vec) \<Rightarrow>
          (let (fast, s) = safe_fast vec s
           in case fast of
                Some (margin, accepted) \<Rightarrow>
                  (\<lparr>ev_other = old, ev_result = None, ev_vector = Some vec, ev_margin = margin, ev_accepted = accepted\<rparr>, s)
              | None \<Rightarrow>
                  (let (r, s) = safe_score (link_features new old learner (Some vec)) s
                   in (\<lparr>ev_other = old, ev_result = Some r, ev_vector = Some vec, ev_margin = 0, ev_accepted = False\<rparr>, s)))
      | (old, None) \<Rightarrow>
          (let (r, s) = safe_score (link_features new old learner None) s
           in (\<lparr>ev_other = old, ev_result = Some r, ev_vector = None, ev_margin = 0, ev_accepted = False\<rparr>, s)))"

fun evaluate_all :: "WindowAlarm \<Rightarrow> Learner \<Rightarrow> (WindowAlarm \<times> real list option) list \<Rightarrow> SafeScorer \<Rightarrow> EvaluatedPair list \<times> SafeScorer" where
  "evaluate_all new learner [] s = ([], s)"
| "evaluate_all new learner (x # xs) s =
     (let (p, s) = evaluate_one new learner x s; (ps, s) = evaluate_all new learner xs s in (p # ps, s))"

fun explain_all :: "WindowAlarm \<Rightarrow> Learner \<Rightarrow> EvaluatedPair list \<Rightarrow> SafeScorer \<Rightarrow> (WindowAlarm \<times> LinkScore) list \<times> SafeScorer" where
  "explain_all new learner [] s = ([], s)"
| "explain_all new learner (p # ps) s =
     (let (r, s) = (case ev_result p of
          Some r \<Rightarrow> (r, s)
        | None \<Rightarrow> safe_score (link_features new (ev_other p) learner (ev_vector p)) s);
          (ls, s) = explain_all new learner ps s
      in ((ev_other p, r) # ls, s))"

definition kept_pairs :: "EvaluatedPair list \<Rightarrow> EvaluatedPair list" where
  "kept_pairs ps = take MAX_LINKS_PER_ALARM (sort_key (\<lambda>p. - evidence p) (filter linked ps))"

definition candidates_of :: "WindowAlarm \<Rightarrow> Correlator \<Rightarrow> WindowAlarm list \<times> WindowAlarm list" where
  "candidates_of new c =
     (let window = recent_live (wa_ts new) c;
          extra = (if two_stage c
                   then recall new (co_live c) (neighbours (co_episodes c) (wa_device new)) (wa_id ` set window) (co_recall c)
                   else [])
      in (window, extra))"

definition admit :: "WindowAlarm \<Rightarrow> WindowAlarm list \<Rightarrow> bool \<Rightarrow> Correlator \<Rightarrow> Correlator" where
  "admit new candidates teaches c =
     (let key = (wa_device new, wa_class new);
          close = filter (\<lambda>o'. wa_ts new - wa_ts o' \<le> CO_WINDOW_S) candidates;
          episodes = (if teaches
                      then fold (\<lambda>o'. memory_observe key (wa_device o', wa_class o') (wa_ts new)) close (co_episodes c)
                      else co_episodes c)
      in c\<lparr>co_episodes := episodes, co_window := co_window c @ [new], co_index := AList.update (wa_id new) new (co_index c),
           co_live := insert (wa_id new) (co_live c), co_recall := index_alarm new (co_recall c)\<rparr>)"

definition process :: "WindowAlarm \<Rightarrow> Learner \<Rightarrow> (int \<Rightarrow> int option) \<Rightarrow> int option \<Rightarrow> bool \<Rightarrow> Correlator \<Rightarrow> CorrelationResult \<times> Correlator" where
  "process new learner sit_of own teaches c =
     (let c = remove_alarm (wa_id new) (evict (wa_ts new) c);
          burst = length (co_index c);
          (window, extra) = candidates_of new c;
          candidates = window @ extra;
          vecs = (if two_stage c then map Some (vectors new candidates learner (co_episodes c) burst)
                  else map (\<lambda>_. None) candidates);
          (evaluated, s) = evaluate_all new learner (zip candidates vecs) (co_scorer c);
          (links, s) = explain_all new learner (kept_pairs evaluated) s;
          placement = place (co_grouper c) (map as_scored evaluated) sit_of own;
          c = admit new candidates teaches (c\<lparr>co_scorer := s\<rparr>)
      in (\<lparr>cr_links = links, cr_considered = window, cr_storm = (burst \<ge> STORM_ALARMS), cr_evaluated = evaluated,
           cr_placement = placement, cr_recalled = length extra\<rparr>, c))"

definition correlator_commit :: "int \<Rightarrow> CorrelationResult \<Rightarrow> (int \<Rightarrow> int option) \<Rightarrow> Correlator \<Rightarrow> Correlator" where
  "correlator_commit sid outcome sit_of c =
     c\<lparr>co_grouper := commit sid (cr_placement outcome) (map as_scored (cr_evaluated outcome)) sit_of (co_grouper c)\<rparr>"

section \<open>The window's candidates\<close>

lemma select_from_filter:
  assumes "length recent < max_c" and "sorted (rev (map wa_ts w))"
  shows "select_from now window_s max_c live w recent =
    recent @ take (max_c - length recent) (filter (\<lambda>a. now - wa_ts a \<le> window_s \<and> (live = None \<or> the live (wa_id a))) w)"
  using assms
proof (induction w arbitrary: recent)
  case (Cons a w)
  let ?in = "\<lambda>a. now - wa_ts a \<le> window_s \<and> (live = None \<or> the live (wa_id a))"
  have older: "sorted (rev (map wa_ts w))" "\<forall>b \<in> set w. wa_ts b \<le> wa_ts a"
    using Cons.prems(2) by (auto simp: sorted_append)
  consider (out) "now - wa_ts a > window_s" | (dead) "now - wa_ts a \<le> window_s" "live \<noteq> None" "\<not> the live (wa_id a)"
    | (keep) "?in a"
    by (meson not_le)
  then show ?case
  proof cases
    case out
    then have "\<forall>b \<in> set (a # w). \<not> ?in b"
      using older(2) by fastforce
    then have "filter ?in (a # w) = []"
      by (simp only: filter_False)
    with out show ?thesis
      by (simp only: select_from.simps if_True take_Nil append_Nil2)
  next
    case dead
    then show ?thesis
      using Cons.IH [OF Cons.prems(1) older(1)] by auto
  next
    case keep
    show ?thesis
    proof (cases "length (recent @ [a]) \<ge> max_c")
      case True
      then have "max_c - length recent = 1"
        using Cons.prems(1) by simp
      with True keep show ?thesis
        by auto
    next
      case False
      then have "max_c - length recent = Suc (max_c - length (recent @ [a]))"
        by simp
      with False keep Cons.IH [of "recent @ [a]", OF _ older(1)] show ?thesis
        by auto
    qed
  qed
qed simp

lemma take_rev_filter: "rev (take n (filter P (rev xs))) = drop (length (filter P xs) - n) (filter P xs)"
  by (simp add: rev_filter [symmetric] rev_take)

lemma select_from_mem:
  assumes "a \<in> set (select_from now window_s max_c live w recent)"
  shows "a \<in> set recent \<or> a \<in> set w \<and> now - wa_ts a \<le> window_s \<and> (live = None \<or> the live (wa_id a))"
  using assms
proof (induction w arbitrary: recent)
  case (Cons b w)
  show ?case
  proof (cases "now - wa_ts b > window_s \<or> live \<noteq> None \<and> \<not> the live (wa_id b) \<or> length (recent @ [b]) \<ge> max_c")
    case True
    then show ?thesis
      using Cons by (auto simp: Let_def split: if_splits)
  next
    case False
    then have b: "now - wa_ts b \<le> window_s \<and> (live = None \<or> the live (wa_id b))"
      by (meson not_le)
    have "select_from now window_s max_c live (b # w) recent = select_from now window_s max_c live w (recent @ [b])"
      using False by (auto simp: Let_def)
    with Cons.prems have "a \<in> set (select_from now window_s max_c live w (recent @ [b]))"
      by (simp only:)
    from Cons.IH [OF this] b show ?thesis
      by auto
  qed
qed simp

lemma select_from_length: "length recent < max 1 max_c \<Longrightarrow> length (select_from now window_s max_c live w recent) \<le> max 1 max_c"
  by (induction w arbitrary: recent) (auto simp: Let_def)

lemma recent_live_facts:
  "length (recent_live now c) \<le> max 1 (co_max_candidates c)"
  "\<And>a. a \<in> set (recent_live now c) \<Longrightarrow> a \<in> set (co_window c) \<and> now - wa_ts a \<le> co_window_s c \<and> map_of (co_index c) (wa_id a) \<noteq> None"
  using select_from_length [of "[]" "co_max_candidates c"] select_from_mem [of _ _ _ _ _ "rev (co_window c)" "[]"]
  by (fastforce simp: recent_live_def select_candidates_def)+

section \<open>What a process step leaves\<close>

lemma drop_old_facts:
  "\<exists>gone. w = gone @ fst (drop_old now s (w, idx)) \<and> snd (drop_old now s (w, idx)) = fold (\<lambda>a. AList.delete (wa_id a)) gone idx
     \<and> (\<forall>a \<in> set gone. now - wa_ts a > s)"
proof (induction w arbitrary: idx)
  case (Cons a w)
  show ?case
  proof (cases "now - wa_ts a > s")
    case True
    from Cons [of "AList.delete (wa_id a) idx"] obtain gone where
      g: "w = gone @ fst (drop_old now s (w, AList.delete (wa_id a) idx))"
        "snd (drop_old now s (w, AList.delete (wa_id a) idx)) = fold (\<lambda>a. AList.delete (wa_id a)) gone (AList.delete (wa_id a) idx)"
        "\<forall>a \<in> set gone. now - wa_ts a > s"
      by blast
    show ?thesis
      by (rule exI [of _ "a # gone"]) (use True g in simp)
  next
    case False
    then show ?thesis
      by (intro exI [of _ "[]"]) simp
  qed
qed simp

lemma drop_over_facts:
  "\<exists>gone. w = gone @ fst (drop_over m (w, idx, n)) \<and> fst (snd (drop_over m (w, idx, n))) = fold (\<lambda>a. AList.delete (wa_id a)) gone idx
     \<and> length (fst (drop_over m (w, idx, n))) \<le> m"
proof (induction w arbitrary: idx n)
  case (Cons a w)
  let ?n = "if map_of idx (wa_id a) \<noteq> None then n + 1 else n"
  show ?case
  proof (cases "length (a # w) > m")
    case True
    from Cons [of "AList.delete (wa_id a) idx" ?n] obtain gone where
      g: "w = gone @ fst (drop_over m (w, AList.delete (wa_id a) idx, ?n))"
        "fst (snd (drop_over m (w, AList.delete (wa_id a) idx, ?n))) = fold (\<lambda>a. AList.delete (wa_id a)) gone (AList.delete (wa_id a) idx)"
        "length (fst (drop_over m (w, AList.delete (wa_id a) idx, ?n))) \<le> m"
      by blast
    show ?thesis
      by (rule exI [of _ "a # gone"]) (use True g in simp)
  next
    case False
    then show ?thesis
      by (intro exI [of _ "[]"]) simp
  qed
qed simp

lemma deleted_lookup:
  "map_of (fold (\<lambda>a. AList.delete (wa_id a)) gone idx) i = (if i \<in> wa_id ` set gone then None else map_of idx i)"
  by (induction gone arbitrary: idx) (auto simp: delete_conv')

lemma evict_facts:
  "\<exists>gone. co_window c = gone @ co_window (evict now c)
     \<and> (\<forall>i. map_of (co_index (evict now c)) i = (if i \<in> wa_id ` set gone then None else map_of (co_index c) i))
     \<and> length (co_window (evict now c)) \<le> co_max_window c"
  "co_live (evict now c) = co_live c" "co_recall (evict now c) = co_recall c" "co_max_window (evict now c) = co_max_window c"
  "co_window_s (evict now c) = co_window_s c" "co_max_candidates (evict now c) = co_max_candidates c"
proof -
  obtain w1 i1 where o: "drop_old now (co_window_s c) (co_window c, co_index c) = (w1, i1)"
    by (metis surj_pair)
  obtain w2 i2 n2 where v: "drop_over (co_max_window c) (w1, i1, co_overflow c) = (w2, i2, n2)"
    by (metis prod.exhaust)
  have e: "co_window (evict now c) = w2" "co_index (evict now c) = i2"
    by (simp_all add: evict_def o v)
  obtain g1 where g1: "co_window c = g1 @ w1" "i1 = fold (\<lambda>a. AList.delete (wa_id a)) g1 (co_index c)"
    using drop_old_facts [of "co_window c" now "co_window_s c" "co_index c"] unfolding o by auto
  obtain g2 where g2: "w1 = g2 @ w2" "i2 = fold (\<lambda>a. AList.delete (wa_id a)) g2 i1" "length w2 \<le> co_max_window c"
    using drop_over_facts [of w1 "co_max_window c" i1 "co_overflow c"] unfolding v by auto
  have "map_of i2 i = (if i \<in> wa_id ` set (g1 @ g2) then None else map_of (co_index c) i)" for i
    unfolding g2(2) g1(2) deleted_lookup by auto
  then show "\<exists>gone. co_window c = gone @ co_window (evict now c)
     \<and> (\<forall>i. map_of (co_index (evict now c)) i = (if i \<in> wa_id ` set gone then None else map_of (co_index c) i))
     \<and> length (co_window (evict now c)) \<le> co_max_window c"
    unfolding e using g1(1) g2(1,3) by (intro exI [of _ "g1 @ g2"]) simp
qed (simp_all add: evict_def Let_def case_prod_beta)

lemma evaluate_others: "map ev_other (fst (evaluate_all new learner xs s)) = map fst xs"
proof (induction xs arbitrary: s)
  case (Cons x xs)
  have "ev_other (fst (evaluate_one new learner x s)) = fst x"
    by (simp add: evaluate_one_def Let_def case_prod_beta split: option.split prod.split)
  with Cons show ?case
    by (simp add: Let_def case_prod_beta)
qed simp

lemma explain_length: "length (fst (explain_all new learner ps s)) = length ps"
  by (induction ps arbitrary: s) (simp_all add: Let_def case_prod_beta)

text \<open>The correlator as \<open>process\<close> decides over it, and what it leaves.\<close>

definition before :: "WindowAlarm \<Rightarrow> Correlator \<Rightarrow> Correlator" where
  "before new c = remove_alarm (wa_id new) (evict (wa_ts new) c)"

lemma process_facts:
  fixes new :: WindowAlarm and learner :: Learner and sit_of :: "int \<Rightarrow> int option" and own :: "int option"
    and teaches :: bool and c :: Correlator
  defines "b \<equiv> before new c" and "r \<equiv> fst (process new learner sit_of own teaches c)"
    and "c' \<equiv> snd (process new learner sit_of own teaches c)"
  shows "cr_considered r = recent_live (wa_ts new) b"
    and "map ev_other (cr_evaluated r) = fst (candidates_of new b) @ snd (candidates_of new b)"
    and "fst (candidates_of new b) = recent_live (wa_ts new) b"
    and "cr_recalled r = length (snd (candidates_of new b))"
    and "length (cr_links r) \<le> MAX_LINKS_PER_ALARM"
    and "co_window c' = co_window b @ [new]" and "co_index c' = AList.update (wa_id new) new (co_index b)"
    and "co_live c' = insert (wa_id new) (co_live b)" and "co_recall c' = index_alarm new (co_recall b)"
    and "co_max_window c' = co_max_window b" and "co_max_candidates c' = co_max_candidates b" and "co_window_s c' = co_window_s b"
proof -
  obtain window extra where cand: "candidates_of new b = (window, extra)"
    by (metis surj_pair)
  let ?vecs = "if two_stage b then map Some (vectors new (window @ extra) learner (co_episodes b) (length (co_index b)))
      else map (\<lambda>_. None) (window @ extra)"
  obtain ps s1 where ev: "evaluate_all new learner (zip (window @ extra) ?vecs) (co_scorer b) = (ps, s1)"
    by (metis surj_pair)
  obtain ls s2 where ex: "explain_all new learner (kept_pairs ps) s1 = (ls, s2)"
    by (metis surj_pair)
  have p: "process new learner sit_of own teaches c =
      (\<lparr>cr_links = ls, cr_considered = window, cr_storm = (length (co_index b) \<ge> STORM_ALARMS), cr_evaluated = ps,
        cr_placement = place (co_grouper b) (map as_scored ps) sit_of own, cr_recalled = length extra\<rparr>,
       admit new (window @ extra) teaches (b\<lparr>co_scorer := s2\<rparr>))"
    unfolding process_def Let_def before_def [symmetric] b_def [symmetric] cand prod.case ev ex by simp
  have r: "r = \<lparr>cr_links = ls, cr_considered = window, cr_storm = (length (co_index b) \<ge> STORM_ALARMS), cr_evaluated = ps,
        cr_placement = place (co_grouper b) (map as_scored ps) sit_of own, cr_recalled = length extra\<rparr>"
    and c': "c' = admit new (window @ extra) teaches (b\<lparr>co_scorer := s2\<rparr>)"
    by (simp_all only: r_def c'_def p fst_conv snd_conv)
  have w: "window = recent_live (wa_ts new) b"
    using cand by (simp add: candidates_of_def Let_def)
  have "length ?vecs = length (window @ extra)"
    by (simp add: vectors_length)
  then have "map fst (zip (window @ extra) ?vecs) = window @ extra"
    by (simp only: map_fst_zip)
  then have "map ev_other ps = window @ extra"
    using evaluate_others [of new learner "zip (window @ extra) ?vecs" "co_scorer b"] unfolding ev by simp
  then show "map ev_other (cr_evaluated r) = fst (candidates_of new b) @ snd (candidates_of new b)"
    by (simp add: r cand)
  have "length ls \<le> MAX_LINKS_PER_ALARM"
    using explain_length [of new learner "kept_pairs ps" s1] unfolding ex by (simp add: kept_pairs_def)
  then show "length (cr_links r) \<le> MAX_LINKS_PER_ALARM"
    by (simp add: r)
  show "cr_considered r = recent_live (wa_ts new) b" "fst (candidates_of new b) = recent_live (wa_ts new) b"
    "cr_recalled r = length (snd (candidates_of new b))"
    by (simp_all add: r cand w)
  show "co_window c' = co_window b @ [new]" "co_index c' = AList.update (wa_id new) new (co_index b)"
    "co_live c' = insert (wa_id new) (co_live b)" "co_recall c' = index_alarm new (co_recall b)"
    "co_max_window c' = co_max_window b" "co_max_candidates c' = co_max_candidates b" "co_window_s c' = co_window_s b"
    by (simp_all add: c' admit_def Let_def)
qed

section \<open>Histories\<close>

datatype corr_op =
    Process WindowAlarm Learner "int \<Rightarrow> int option" "int option" bool
  | Remove int
  | Prune_Memories seconds
  | Set_Scorer Delegate "GroupingParams option"
  | Take_Overflow
  | Commit_Placement int CorrelationResult "int \<Rightarrow> int option"
  | Regroup group_op

fun corr_step :: "corr_op \<Rightarrow> Correlator \<Rightarrow> Correlator" where
  "corr_step (Process new l sit own teaches) c = snd (process new l sit own teaches c)"
| "corr_step (Remove i) c = remove_alarm i c"
| "corr_step (Prune_Memories now) c = correlator_prune now c"
| "corr_step (Set_Scorer d g) c = set_scorer d g c"
| "corr_step Take_Overflow c = snd (take_overflow c)"
| "corr_step (Commit_Placement sid r sit) c = correlator_commit sid r sit c"
| "corr_step (Regroup o') c = c\<lparr>co_grouper := group_step o' (co_grouper c)\<rparr>"

text \<open>The alarms a history activated, and the numbers of those it has not removed since.\<close>

fun activations :: "corr_op list \<Rightarrow> WindowAlarm set" where
  "activations [] = {}"
| "activations (Process new _ _ _ _ # ops) = insert new (activations ops)"
| "activations (_ # ops) = activations ops"

fun still_on :: "corr_op \<Rightarrow> int set \<Rightarrow> int set" where
  "still_on (Process new _ _ _ _) s = insert (wa_id new) s"
| "still_on (Remove i) s = s - {i}"
| "still_on _ s = s"

definition corr_ok :: "WindowAlarm set \<Rightarrow> int set \<Rightarrow> nat \<Rightarrow> nat \<Rightarrow> Correlator \<Rightarrow> bool" where
  "corr_ok acts on max_c max_w c \<longleftrightarrow>
     set (co_window c) \<subseteq> acts \<and> \<Union> (set ` set (rings (co_recall c))) \<subseteq> acts
     \<and> co_live c \<subseteq> on \<and> dom (map_of (co_index c)) \<subseteq> co_live c
     \<and> (\<forall>i a. map_of (co_index c) i = Some a \<longrightarrow> a \<in> set (co_window c) \<and> wa_id a = i)
     \<and> length (co_window c) \<le> max_w + 1
     \<and> co_max_window c = max_w \<and> co_max_candidates c = max_c \<and> co_window_s c = WINDOW_S"

lemma corr_facts:
  assumes "corr_ok acts on max_c max_w c"
  shows "set (co_window c) \<subseteq> acts" "\<Union> (set ` set (rings (co_recall c))) \<subseteq> acts" "co_live c \<subseteq> on"
    "dom (map_of (co_index c)) \<subseteq> co_live c"
    "\<And>i a. map_of (co_index c) i = Some a \<Longrightarrow> a \<in> set (co_window c) \<and> wa_id a = i"
    "length (co_window c) \<le> max_w + 1" "co_max_window c = max_w" "co_max_candidates c = max_c" "co_window_s c = WINDOW_S"
  using assms unfolding corr_ok_def by auto

lemma before_ok:
  assumes "corr_ok acts on max_c max_w c"
  shows "corr_ok acts (on - {wa_id new}) max_c max_w (before new c)" and "length (co_window (before new c)) \<le> max_w"
proof -
  note f = corr_facts [OF assms]
  obtain gone where g: "co_window c = gone @ co_window (evict (wa_ts new) c)"
      "\<And>i. map_of (co_index (evict (wa_ts new) c)) i = (if i \<in> wa_id ` set gone then None else map_of (co_index c) i)"
      "length (co_window (evict (wa_ts new) c)) \<le> co_max_window c"
    using evict_facts(1) [of c "wa_ts new"] by blast
  note e = evict_facts(2-6) [of "wa_ts new" c]
  have b: "co_window (before new c) = co_window (evict (wa_ts new) c)" "co_live (before new c) = co_live c - {wa_id new}"
    "co_recall (before new c) = co_recall c" "co_max_window (before new c) = co_max_window c"
    "co_window_s (before new c) = co_window_s c" "co_max_candidates (before new c) = co_max_candidates c"
    by (simp_all add: before_def remove_alarm_def e)
  have idx: "map_of (co_index (before new c)) i = (if i = wa_id new \<or> i \<in> wa_id ` set gone then None else map_of (co_index c) i)" for i
    by (simp add: before_def remove_alarm_def delete_conv' g(2))
  show "length (co_window (before new c)) \<le> max_w"
    using g(3) f(7) by (simp add: b)
  have "a \<in> set (co_window (before new c)) \<and> wa_id a = i" if "map_of (co_index (before new c)) i = Some a" for i a
  proof -
    have i: "map_of (co_index c) i = Some a" "i \<notin> wa_id ` set gone"
      using that unfolding idx by (auto split: if_splits)
    have "a \<in> set gone \<union> set (co_window (before new c))" "wa_id a = i"
      using f(5) [OF i(1)] arg_cong [OF g(1), of set] unfolding b by auto
    with i(2) show ?thesis
      by auto
  qed
  moreover have "set (co_window (before new c)) \<subseteq> acts"
    using f(1) arg_cong [OF g(1), of set] unfolding b by auto
  moreover have "dom (map_of (co_index (before new c))) \<subseteq> co_live (before new c)"
    using f(4) idx unfolding b by (auto simp: dom_def split: if_splits)
  ultimately show "corr_ok acts (on - {wa_id new}) max_c max_w (before new c)"
    unfolding corr_ok_def using f(2,3,7-9) g(3) by (intro conjI) (auto simp: b)
qed

lemma corr_step_ok:
  assumes "corr_ok acts on max_c max_w c"
  shows "corr_ok (acts \<union> activations [x]) (still_on x on) max_c max_w (corr_step x c)"
proof (cases x)
  case (Process new l sit own teaches)
  note b = before_ok [OF assms, of new]
  note f = corr_facts [OF b(1)] and p = process_facts [where new = new and c = c]
  let ?c = "snd (process new l sit own teaches c)"
  have "a \<in> set (co_window ?c) \<and> wa_id a = i" if "map_of (co_index ?c) i = Some a" for i a
    using that f(5) [of i a] unfolding p update_conv' by (auto split: if_splits)
  moreover have "dom (map_of (co_index ?c)) \<subseteq> co_live ?c"
    using f(4) unfolding p update_conv' by auto
  moreover have "\<Union> (set ` set (rings (co_recall ?c))) \<subseteq> insert new acts"
    using f(2) index_alarm_set [of new "co_recall (before new c)"] unfolding p by blast
  moreover have "set (co_window ?c) \<subseteq> insert new acts" "co_live ?c \<subseteq> insert (wa_id new) on" "length (co_window ?c) \<le> max_w + 1"
    using f(1,3) b(2) unfolding p by auto
  ultimately show ?thesis
    unfolding corr_ok_def Process using f(7-9) p(10-12) by (intro conjI) auto
next
  case (Remove i)
  then show ?thesis
    using corr_facts [OF assms] by (auto simp: corr_ok_def remove_alarm_def delete_conv' split: if_splits)
next
  case (Prune_Memories now)
  have "dom (map_of (co_index c)) = fst ` set (co_index c)"
    by (simp add: dom_map_of_conv_image_fst)
  then show ?thesis
    using corr_facts [OF assms] index_prune_set [of now "co_recall c"]
    unfolding corr_ok_def Prune_Memories correlator_prune_def corr_step.simps activations.simps still_on.simps Let_def Un_empty_right
    by (intro conjI) (simp_all, blast+)
qed (use assms in \<open>auto simp: corr_ok_def set_scorer_def take_overflow_def correlator_commit_def\<close>)

lemma corr_reach: "corr_ok (activations ops) (fold still_on ops {}) max_c max_w (fold corr_step ops (new_correlator max_c max_w d))"
proof (induction ops rule: rev_induct)
  case Nil
  show ?case
    by (simp add: corr_ok_def new_correlator_def new_index_def rings_def)
next
  case (snoc x ops)
  have "activations (ops @ [x]) = activations ops \<union> activations [x]" for ops
    by (induction ops rule: activations.induct) auto
  with corr_step_ok [OF snoc.IH, of x] show ?case
    by simp
qed


text \<open>A window entry, on one element, for examples.\<close>

definition plain_alarm :: "int \<Rightarrow> seconds \<Rightarrow> WindowAlarm" where
  "plain_alarm i t = \<lparr>wa_id = i, wa_class = 1, wa_device = 10, wa_ts = t, wa_entity = 10, wa_oid_root = [], wa_arcs = [],
     wa_severity = -1, wa_chatter = 0, wa_source = [], wa_refs = []\<rparr>"

definition no_scorer :: Delegate where
  "no_scorer = \<lparr>d_id = ''additive'', d_score = (\<lambda>f. Returns (Scored_Link (fallback_score f)) 0), d_logit = None, d_threshold = 0\<rparr>"

definition arrive :: "WindowAlarm \<Rightarrow> corr_op" where
  "arrive a = Process a new_learner (\<lambda>_. None) None True"

text \<open>The states the examples pass through: the window and the index after each arrival.\<close>

lemma arrive_state:
  "co_window (corr_step (arrive a) c) = co_window (before a c) @ [a]"
  "co_index (corr_step (arrive a) c) = AList.update (wa_id a) a (co_index (before a c))"
  "co_window_s (corr_step (arrive a) c) = co_window_s c" "co_max_window (corr_step (arrive a) c) = co_max_window c"
  "co_max_candidates (corr_step (arrive a) c) = co_max_candidates c"
  by (simp_all add: arrive_def process_facts before_def remove_alarm_def evict_facts)

lemma before_state:
  "co_window (before a c) = fst (drop_over (co_max_window c) (fst (drop_old (wa_ts a) (co_window_s c) (co_window c, co_index c)),
      snd (drop_old (wa_ts a) (co_window_s c) (co_window c, co_index c)), co_overflow c))"
  "co_index (before a c) = AList.delete (wa_id a) (fst (snd (drop_over (co_max_window c)
      (fst (drop_old (wa_ts a) (co_window_s c) (co_window c, co_index c)),
      snd (drop_old (wa_ts a) (co_window_s c) (co_window c, co_index c)), co_overflow c))))"
  by (simp_all add: before_def remove_alarm_def evict_def Let_def case_prod_beta)

lemma remove_state:
  "co_window (corr_step (Remove i) c) = co_window c" "co_index (corr_step (Remove i) c) = AList.delete i (co_index c)"
  "co_window_s (corr_step (Remove i) c) = co_window_s c" "co_max_window (corr_step (Remove i) c) = co_max_window c"
  "co_max_candidates (corr_step (Remove i) c) = co_max_candidates c"
  by (simp_all add: remove_alarm_def)

lemma start_state:
  "co_window (new_correlator m w d) = []" "co_index (new_correlator m w d) = []"
  "co_window_s (new_correlator m w d) = 120" "co_max_window (new_correlator m w d) = w" "co_max_candidates (new_correlator m w d) = m"
  by (simp_all add: new_correlator_def WINDOW_S_def)

lemma plain_simps:
  "wa_id (plain_alarm i t) = i" "wa_ts (plain_alarm i t) = t" "plain_alarm i t = plain_alarm j u \<longleftrightarrow> i = j \<and> t = u"
  by (auto simp: plain_alarm_def)

text \<open>An alarm that clears and comes back leaves its old entry in the window. The old entry is alive
  again, because the index is asked for the number alone: a later alarm is compared with it twice, the
  second time with a time that is not the one of its activation.\<close>

lemma returned_alarm_is_compared_twice:
  "recent_live 110 (fold corr_step [arrive (plain_alarm 1 0), Remove 1, arrive (plain_alarm 1 100)] (new_correlator 100 20000 no_scorer))
     = [plain_alarm 1 0, plain_alarm 1 100]"
  by (simp add: recent_live_def select_candidates_def arrive_state before_state remove_state start_state plain_simps
      del: corr_step.simps)

text \<open>And when the old entry leaves the window, the alarm that is on leaves the index with it: it is 21
  seconds old and no longer a candidate.\<close>

lemma stale_entry_hides_a_live_alarm:
  "cr_considered (fst (process (plain_alarm 2 121) new_learner (\<lambda>_. None) None True
     (fold corr_step [arrive (plain_alarm 1 0), Remove 1, arrive (plain_alarm 1 100)] (new_correlator 100 20000 no_scorer)))) = []"
  by (simp add: process_facts(1) recent_live_def select_candidates_def arrive_state before_state remove_state start_state plain_simps
      del: corr_step.simps)


end
