(* ===== verification/Noc_Cases.thy ===== *)
theory Noc_Cases
  imports Known_Oids
begin

text \<open>
  \<open>engine/noc/cases.py\<close>: the vocabularies of a NOC case, its transition table and what it must
  carry to make a move. Statuses and acts are the strings of the code, so an unknown act is an
  error as there. An em dash in a label is written \<open>--\<close>. A \<open>CaseError\<close> carries its HTTP
  status; its sentence is left out.
\<close>

datatype case_error = CaseError (http_status: nat)

definition STATUSES :: "(string \<times> string) list" where
  "STATUSES =
    [(''new'', ''New''), (''auto'', ''Automated checks''), (''queue'', ''NOC queue''),
     (''working'', ''Working''), (''pending_customer'', ''Pending customer''),
     (''pending_fiber_provider'', ''Pending carrier / fiber provider''),
     (''pending_maintenance'', ''Pending scheduled maintenance''),
     (''pending_dispatch'', ''Pending dispatch (technician)''),
     (''pending_device_access'', ''Pending access to the device''),
     (''pending_connectivity'', ''Pending connectivity (no ping / SNMP / SSH)''),
     (''pending_vendor'', ''Pending equipment vendor''),
     (''pending_site_access'', ''Pending site access approval''),
     (''pending_field_tech'', ''Pending field technician on site''),
     (''pending_rca'', ''Pending root cause analysis''),
     (''pending_monitoring'', ''Pending monitoring (watching for stability)''),
     (''validate'', ''Validate resolution''), (''resolved'', ''Resolved''), (''closed'', ''Closed'')]"

definition PENDING :: "string set" where
  "PENDING = set (filter (prefix ''pending_'') (map fst STATUSES))"

definition LIVE :: "string set" where
  "LIVE = set (map fst STATUSES) - {''resolved'', ''closed''}"

definition UNOWNED :: "string set" where
  "UNOWNED = {''new'', ''auto'', ''queue''}"

definition PRIORITIES :: "(string \<times> string) list" where
  "PRIORITIES =
    [(''critical'', ''Critical''), (''major'', ''Major''), (''minor'', ''Minor'')]"

definition CYCLE_REASONS :: "(string \<times> string) list" where
  "CYCLE_REASONS =
    [(''opened'', ''The situation was opened''), (''automation'', ''Automated checks did not conclude''),
     (''customer_post'', ''A person posted on the feed while it was pending''),
     (''next_update'', ''Its next update came''), (''released'', ''Its owner put it back''),
     (''escalated'', ''Escalated past the agents to the NOC team''),
     (''alarm'', ''An alarm of its situation raised again or joined while it was pending''),
     (''access'', ''The agents were given access to one of its devices'')]"

definition RESOLUTIONS :: "(string \<times> string) list" where
  "RESOLUTIONS =
    [(''noc'', ''Resolved by the NOC''), (''automation'', ''Resolved by an automated check''),
     (''cleared'', ''The situation cleared before anyone took the case''),
     (''merged'', ''The situation was merged into another'')]"

definition CAUSES :: "(string \<times> string) list" where
  "CAUSES =
    [(''planned_maintenance'', ''Planned maintenance''),
     (''unplanned_maintenance'', ''Unscheduled maintenance''),
     (''signal_interference'', ''Signal interference''), (''force_majeure'', ''Force majeure / weather''),
     (''cleared_before_isolation'', ''Cleared before isolation''),
     (''no_trouble_found'', ''No trouble found''), (''duplicate'', ''Duplicate case''),
     (''hardware'', ''Hardware failure''), (''software'', ''Software / firmware''),
     (''cpe'', ''Customer premises equipment''), (''configuration'', ''Configuration / management''),
     (''decommissioned'', ''Decommissioned''), (''disconnected'', ''Deliberately disconnected''),
     (''turn_up'', ''Turn-up''), (''power_commercial'', ''Power -- commercial''),
     (''power_ups'', ''Power -- UPS / batteries''), (''hvac'', ''HVAC / temperature''),
     (''client_fiber_cut'', ''Client fiber / cable cut''),
     (''carrier_fiber_cut'', ''Carrier fiber / cable cut''), (''client_circuit'', ''Client circuit issue''),
     (''carrier_circuit'', ''Carrier circuit issue''), (''overutilization'', ''Overutilization''),
     (''security_event'', ''Security event''), (''human_error'', ''Human error''),
     (''no_client_response'', ''No client response''),
     (''client_requested_closure'', ''Client requested closure''), (''other'', ''Other'')]"

definition FIELD_LIMITS :: "(string \<times> string \<times> nat) list" where
  "FIELD_LIMITS =
    [(''title'', ''Title'', 120), (''description'', ''Description'', 4000),
     (''executive_summary'', ''Executive summary'', 200), (''current_analysis'', ''Current analysis'', 8000),
     (''noc_next_step'', ''NOC next step'', 4000), (''customer_next_step'', ''Customer next step'', 4000),
     (''solution'', ''Solution'', 8000)]"

definition FOR_PENDING :: "string list" where
  "FOR_PENDING = [''title'', ''description'', ''executive_summary'', ''current_analysis'', ''noc_next_step'',
       ''customer_next_step'', ''next_update_at'']"

definition FOR_RESOLVED :: "string list" where
  "FOR_RESOLVED = [''title'', ''description'', ''executive_summary'', ''current_analysis'', ''cause'', ''solution'']"

definition priority_of :: "string option \<Rightarrow> string" where
  "priority_of severity =
     (case severity of
        None \<Rightarrow> ''minor''
      | Some s \<Rightarrow> if s \<in> {''critical'', ''major''} then s else ''minor'')"

definition super_state :: "string \<Rightarrow> string" where
  "super_state status = (if status \<in> PENDING then ''pending'' else if status = ''new'' then ''queue'' else status)"

text \<open>The text fields of a case by name, and its next update.\<close>

record case_view =
  view_text :: "string \<rightharpoonup> string"
  view_next_update :: "seconds option"

definition lacks :: "case_view \<Rightarrow> seconds \<Rightarrow> string \<Rightarrow> bool" where
  "lacks c now name =
     (if name = ''next_update_at''
      then (case view_next_update c of None \<Rightarrow> True | Some t \<Rightarrow> t \<le> now)
      else (case view_text c name of None \<Rightarrow> True | Some v \<Rightarrow> strip v = []))"

definition missing :: "case_view \<Rightarrow> string \<Rightarrow> seconds \<Rightarrow> string list" where
  "missing c target now = filter (lacks c now) (if target = ''resolved'' then FOR_RESOLVED else FOR_PENDING)"

definition documented :: "case_view \<Rightarrow> seconds \<Rightarrow> bool" where
  "documented c now \<longleftrightarrow> missing c ''pending_customer'' now = []"

section \<open>The transition table\<close>

definition act_from :: "string \<Rightarrow> string set option" where
  "act_from act =
     map_of
       [(''take'', {''new'', ''auto'', ''queue'', ''working'', ''validate''} \<union> PENDING),
        (''release'', {''working'', ''validate''}),
        (''pend'', {''working''} \<union> PENDING),
        (''resolve'', {''working'', ''validate''} \<union> PENDING),
        (''dispatch'', {''new''}),
        (''automate'', {''new''}),
        (''requeue'', {''auto''} \<union> PENDING),
        (''validate'', {''working''} \<union> PENDING),
        (''auto_resolve'', {''new'', ''auto'', ''queue''}),
        (''auto_pend'', {''auto''}),
        (''close'', {''resolved''})] act"

definition act_to :: "string \<Rightarrow> string option" where
  "act_to act =
     map_of
       [(''take'', ''working''),
        (''release'', ''queue''),
        (''resolve'', ''resolved''),
        (''dispatch'', ''queue''),
        (''automate'', ''auto''),
        (''requeue'', ''queue''),
        (''validate'', ''validate''),
        (''auto_resolve'', ''resolved''),
        (''close'', ''closed'')] act"

text \<open>\<open>pend\<close> and \<open>auto_pend\<close> name their status in \<open>to\<close>. Every other act of the table has its
  status in the second table; a missing one is Python's \<open>KeyError\<close>, an outcome of its own.\<close>

definition transition :: "string \<Rightarrow> string \<Rightarrow> string option \<Rightarrow> case_error + string option" where
  "transition act status to =
     (case act_from act of
        None \<Rightarrow> Inl (CaseError 409)
      | Some allowed \<Rightarrow>
          if status \<notin> allowed then Inl (CaseError 409)
          else if act \<in> {''pend'', ''auto_pend''}
          then (case to of
                  None \<Rightarrow> Inl (CaseError 400)
                | Some t \<Rightarrow> if t \<in> PENDING then Inr (Some t) else Inl (CaseError 400))
          else Inr (act_to act))"

section \<open>Facts on the vocabularies\<close>

lemma PENDING_members:
  "PENDING = {''pending_customer'', ''pending_fiber_provider'', ''pending_maintenance'', ''pending_dispatch'', ''pending_device_access'', ''pending_connectivity'', ''pending_vendor'', ''pending_site_access'', ''pending_field_tech'', ''pending_rca'', ''pending_monitoring''}"
  by (simp add: PENDING_def STATUSES_def)

lemma not_PENDING [simp]:
  "''new'' \<notin> PENDING" "''auto'' \<notin> PENDING" "''queue'' \<notin> PENDING" "''working'' \<notin> PENDING"
  "''validate'' \<notin> PENDING" "''resolved'' \<notin> PENDING" "''closed'' \<notin> PENDING"
  by (simp_all add: PENDING_members)

lemmas act_defs = act_from_def act_to_def

lemma missing_Nil:
  "missing c target now = [] \<longleftrightarrow> (\<forall>name \<in> set (if target = ''resolved'' then FOR_RESOLVED else FOR_PENDING). \<not> lacks c now name)"
  by (auto simp: missing_def filter_empty_conv)

section \<open>Properties\<close>

definition acts :: "string set" where
  "acts = {''take'', ''release'', ''pend'', ''resolve'', ''dispatch'', ''automate'', ''requeue'', ''validate'',
     ''auto_resolve'', ''auto_pend'', ''close''}"

lemma act_from_dom: "act_from act \<noteq> None \<longleftrightarrow> act \<in> acts"
  unfolding act_from_def map_of_eq_None_iff acts_def by simp

lemma act_from_closed: "act_from act = Some allowed \<Longrightarrow> ''closed'' \<notin> allowed"
  unfolding act_from_def by (drule map_of_SomeD) auto

lemma act_to_some: "act \<in> acts \<Longrightarrow> act \<notin> {''pend'', ''auto_pend''} \<Longrightarrow>
    \<exists>t. act_to act = Some t \<and> t \<in> {''working'', ''queue'', ''resolved'', ''auto'', ''validate'', ''closed''}
      \<and> (t = ''working'' \<longleftrightarrow> act = ''take'')"
  unfolding acts_def act_to_def by auto

lemma transition_cases:
  "transition act status to =
     (if act \<notin> acts \<or> status \<notin> the (act_from act) then Inl (CaseError 409)
      else if act \<in> {''pend'', ''auto_pend''}
      then (if to \<in> Some ` PENDING then Inr to else Inl (CaseError 400))
      else Inr (act_to act))"
proof -
  have pending: "(case to of None \<Rightarrow> Inl (CaseError 400) | Some t \<Rightarrow> if t \<in> PENDING then Inr (Some t) else Inl (CaseError 400))
      = (if to \<in> Some ` PENDING then Inr to else Inl (CaseError 400))"
    by (cases to) auto
  show ?thesis
    unfolding transition_def pending using act_from_dom [of act] by (cases "act_from act") simp_all
qed

lemma transition_closed: "transition act ''closed'' to = Inl (CaseError 409)"
  unfolding transition_def
proof (cases "act_from act")
  case (Some allowed)
  with act_from_closed [OF Some] show "(case act_from act of None \<Rightarrow> Inl (CaseError 409) | Some allowed \<Rightarrow>
          if ''closed'' \<notin> allowed then Inl (CaseError 409)
          else if act \<in> {''pend'', ''auto_pend''}
          then (case to of None \<Rightarrow> Inl (CaseError 400) | Some t \<Rightarrow> if t \<in> PENDING then Inr (Some t) else Inl (CaseError 400))
          else Inr (act_to act)) = Inl (CaseError 409)"
    by (simp only: option.case if_True not_False_eq_True)
qed simp

lemma transition_pend:
  assumes "transition act status to = Inr t" and "act \<in> {''pend'', ''auto_pend''}"
  shows "\<exists>s. t = Some s \<and> s \<in> PENDING \<and> act \<noteq> ''take'' \<and> s \<noteq> ''working''"
proof -
  have "to \<in> Some ` PENDING" "t = to"
    using assms(1) unfolding transition_cases if_P [OF assms(2)] by (simp_all split: if_splits)
  moreover have "act \<noteq> ''take''"
    using assms(2) by auto
  ultimately show ?thesis
    using not_PENDING(4) by (metis imageE)
qed

lemma transition_act:
  assumes "transition act status to = Inr t" and "act \<notin> {''pend'', ''auto_pend''}"
  shows "act \<in> acts \<and> t = act_to act"
  using assms(1) unfolding transition_cases if_not_P [OF assms(2)] by (simp split: if_splits)

text \<open>What a move answers. For every act, status and target: an act outside the table, or a status the
  act may not start from, is refused with 409; a pending target outside the pending statuses is
  refused with 400; otherwise the result is the pending status named, or the act's own status, and it
  is always one of the statuses. No case leaves \<open>closed\<close>, and only \<open>take\<close> makes a case worked.\<close>

theorem transition_outcomes:
  "transition act status to =
     (if act \<notin> acts \<or> status \<notin> the (act_from act) then Inl (CaseError 409)
      else if act \<in> {''pend'', ''auto_pend''}
      then (if to \<in> Some ` PENDING then Inr to else Inl (CaseError 400))
      else Inr (act_to act))
   \<and> transition act ''closed'' to = Inl (CaseError 409)
   \<and> (\<forall>t. transition act status to = Inr t \<longrightarrow>
        (\<exists>s. t = Some s \<and> (s \<in> PENDING \<or> s \<in> {''working'', ''queue'', ''resolved'', ''auto'', ''validate'', ''closed''})
           \<and> (s = ''working'' \<longleftrightarrow> act = ''take'')))"
proof (intro conjI allI impI)
  fix t
  assume t: "transition act status to = Inr t"
  show "\<exists>s. t = Some s \<and> (s \<in> PENDING \<or> s \<in> {''working'', ''queue'', ''resolved'', ''auto'', ''validate'', ''closed''})
           \<and> (s = ''working'' \<longleftrightarrow> act = ''take'')"
  proof (cases "act \<in> {''pend'', ''auto_pend''}")
    case True
    with transition_pend [OF t] show ?thesis
      by metis
  next
    case False
    then show ?thesis
      using transition_act [OF t False] act_to_some [OF _ False] by metis
  qed
qed (rule transition_cases, rule transition_closed)

theorem transition_outcomes_witness:
  "transition ''take'' ''queue'' None = Inr (Some ''working'')
   \<and> transition ''fly'' ''queue'' None = Inl (CaseError 409)
   \<and> transition ''take'' ''closed'' None = Inl (CaseError 409)"
proof (intro conjI)
  show "transition ''fly'' ''queue'' None = Inl (CaseError 409)"
    using transition_outcomes [THEN conjunct1, of "''fly''" "''queue''" None] by (simp add: acts_def)
  show "transition ''take'' ''closed'' None = Inl (CaseError 409)"
    by (rule transition_outcomes [THEN conjunct2, THEN conjunct1])
  show "transition ''take'' ''queue'' None = Inr (Some ''working'')"
    by (simp add: transition_def act_defs)
qed

end
