(* ===== verification/Noc_Store.thy ===== *)
theory Noc_Store
  imports Noc_Cases "HOL-Library.Product_Lexorder" "HOL-Library.List_Lexorder" "HOL-Library.Char_ord"
begin

text \<open>
  \<open>store/noc_cases.py\<close>, \<open>store/noc_routing.py\<close>, the write of \<open>store/noc_feed.py\<close> and the
  queued wake-ups of \<open>store/noc_agents.py\<close>, with the triggers of the migrations that keep the
  restore and the pause clock. A table is the list of its rows in insertion order; an \<open>UPDATE\<close>
  maps over it. What the Broker shows for a situation is a column of the state that the store only
  reads.
\<close>

section \<open>Rows\<close>

record noc_case =
  c_sid :: int
  c_status :: string
  c_priority :: string
  c_text :: "string \<rightharpoonup> string"
  c_next_update :: "seconds option"
  c_owner :: "(string \<times> string \<times> string) option"
  c_opened_at :: seconds
  c_status_at :: seconds
  c_resolution :: "string option"
  c_resolved_at :: "seconds option"
  c_resolved_by :: "string option"
  c_alarms_cleared :: bool
  c_version :: int
  c_updated_at :: seconds
  c_updated_by :: "string option"
  c_priority_by :: "string option"
  c_restored_at :: "seconds option"
  c_paused_s :: seconds
  c_paused_at :: "seconds option"
  c_agent_id :: "int option"
  c_assigned_at :: "seconds option"
  c_tier :: int
  c_escalated_at :: "seconds option"
  c_with_people :: bool

record noc_cycle =
  y_id :: int
  y_sid :: int
  y_reason :: string
  y_priority :: string
  entered_at :: seconds
  taken_at :: "seconds option"
  taken_by :: "string option"
  documented_at :: "seconds option"
  left_at :: "seconds option"
  ended_at :: "seconds option"

record noc_agent =
  ag_id :: int
  ag_name :: string
  ag_status :: string
  ag_tier :: int
  ag_reports_to :: "int option"
  ag_entry :: bool
  ag_wake_on_assignment :: bool
  ag_adapter :: string
  ag_escalate_after :: "int option"
  ag_heartbeat :: int
  ag_run_timeout :: int
  ag_last_run_at :: "seconds option"
  ag_budget_cents :: int
  ag_spent_cents :: real
  ag_spend_month :: string
  ag_reason :: "string option"

record noc_run =
  run_id :: int
  run_agent :: int
  run_trigger :: string
  run_situation :: "int option"
  run_status :: string
  run_queued_at :: seconds
  run_started_at :: "seconds option"
  run_ended_at :: "seconds option"
  run_by :: string
  run_summary :: string
  run_error :: string
  run_input :: int
  run_output :: int
  run_cost :: real
  run_tool_calls :: int

record run_step =
  st_run :: int
  st_at :: seconds
  st_kind :: string
  st_name :: string
  st_ok :: bool
  st_detail :: string

record author =
  au_ref :: string
  au_name :: string
  au_kind :: string
  au_role :: "string option"

record noc_post_row =
  po_id :: int
  po_sid :: int
  po_author :: author
  po_visibility :: string
  po_kind :: string
  po_body :: string
  po_at :: seconds
  po_readers :: "int list"

record noc_db =
  n_cases :: "noc_case list"
  n_cycles :: "noc_cycle list"
  n_next_cycle :: int
  n_posts :: "noc_post_row list"
  n_next_post :: int
  n_summaries :: "((int \<times> int) \<times> string) list"
  n_agents :: "(int \<times> noc_agent) list"
  n_runs :: "noc_run list"
  n_next_run :: int
  n_steps :: "run_step list"
  n_heard :: "((int \<times> int) \<times> (bool \<times> int \<times> seconds option)) list"
  n_severity :: "int \<rightharpoonup> string"

definition noc_empty :: noc_db where
  "noc_empty = \<lparr>n_cases = [], n_cycles = [], n_next_cycle = 1, n_posts = [], n_next_post = 1, n_summaries = [], n_agents = [], n_runs = [],
     n_next_run = 1, n_steps = [], n_heard = [], n_severity = Map.empty\<rparr>"

section \<open>Triggers\<close>

text \<open>\<open>noc_case_pause_clock\<close>: waiting on someone else is not charged.\<close>

definition pause_clock :: "noc_case \<Rightarrow> noc_case \<Rightarrow> noc_case" where
  "pause_clock old new =
     (let new = (case c_paused_at old of
                   None \<Rightarrow> new
                 | Some since \<Rightarrow> new\<lparr>c_paused_s := c_paused_s old + max 0 (c_status_at new - since), c_paused_at := None\<rparr>)
      in if prefix ''pending_'' (c_status new) then new\<lparr>c_paused_at := Some (c_status_at new)\<rparr> else new)"

text \<open>\<open>noc_case_restore_clock\<close>: the first instant the case is over, until it is live again.\<close>

definition restore_clock :: "noc_case \<Rightarrow> noc_case" where
  "restore_clock new =
     (if c_status new \<in> {''validate'', ''resolved'', ''closed''}
      then new\<lparr>c_restored_at := (case c_restored_at new of None \<Rightarrow> Some (c_status_at new) | Some t \<Rightarrow> Some t)\<rparr>
      else new\<lparr>c_restored_at := None\<rparr>)"

definition status_triggers :: "noc_case \<Rightarrow> noc_case \<Rightarrow> noc_case" where
  "status_triggers old new = (if c_status old = c_status new then new else restore_clock (pause_clock old new))"

section \<open>Reads\<close>

definition find_case :: "int \<Rightarrow> noc_db \<Rightarrow> noc_case option" where
  "find_case sid db = find (\<lambda>c. c_sid c = sid) (n_cases db)"

section \<open>Writes on the case row\<close>

definition update_case :: "int \<Rightarrow> (noc_case \<Rightarrow> noc_case) \<Rightarrow> noc_db \<Rightarrow> noc_db" where
  "update_case sid f db =
     db\<lparr>n_cases := map (\<lambda>c. if c_sid c = sid then status_triggers c (f c) else c) (n_cases db)\<rparr>"

definition touch :: "seconds \<Rightarrow> string \<Rightarrow> noc_case \<Rightarrow> noc_case" where
  "touch now actor c = c\<lparr>c_version := c_version c + 1, c_updated_at := now, c_updated_by := Some actor\<rparr>"

text \<open>The situation opens: the trigger \<open>noc_case_open\<close>.\<close>

definition open_case :: "int \<Rightarrow> string option \<Rightarrow> seconds \<Rightarrow> noc_db \<Rightarrow> noc_db" where
  "open_case sid severity opened db =
     (if find_case sid db \<noteq> None then db
      else db\<lparr>n_cases := n_cases db @
        [\<lparr>c_sid = sid, c_status = ''new'', c_priority = priority_of severity, c_text = Map.empty, c_next_update = None,
          c_owner = None, c_opened_at = opened, c_status_at = opened, c_resolution = None, c_resolved_at = None,
          c_resolved_by = None, c_alarms_cleared = False, c_version = 1, c_updated_at = opened, c_updated_by = None,
          c_priority_by = None, c_restored_at = None, c_paused_s = 0, c_paused_at = None, c_agent_id = None,
          c_assigned_at = None, c_tier = 1, c_escalated_at = None, c_with_people = False\<rparr>]\<rparr>)"

record case_fields =
  f_text :: "(string \<times> string) list"
  f_priority :: "string option"
  f_next_update :: "seconds option option"

definition EDITABLE :: "string list" where
  "EDITABLE = [''title'', ''description'', ''executive_summary'', ''current_analysis'', ''noc_next_step'',
     ''customer_next_step'', ''next_update_at'', ''priority'']"

definition cycle_priority :: "int \<Rightarrow> string \<Rightarrow> noc_db \<Rightarrow> noc_db" where
  "cycle_priority sid priority db =
     db\<lparr>n_cycles := map (\<lambda>y. if y_sid y = sid \<and> taken_at y = None \<and> ended_at y = None
                             then y\<lparr>y_priority := priority\<rparr> else y) (n_cycles db)\<rparr>"

definition noc_case_set_fields :: "int \<Rightarrow> case_fields \<Rightarrow> seconds \<Rightarrow> string \<Rightarrow> noc_db \<Rightarrow> noc_db" where
  "noc_case_set_fields sid fs now actor db =
     (let texts = filter (\<lambda>(name, _). name \<in> set EDITABLE) (f_text fs)
      in if texts = [] \<and> f_priority fs = None \<and> f_next_update fs = None then db
         else
           let db = update_case sid (\<lambda>c. touch now actor
                 (c\<lparr>c_text := c_text c ++ map_of (rev texts),
                    c_next_update := (case f_next_update fs of None \<Rightarrow> c_next_update c | Some t \<Rightarrow> t),
                    c_priority := (case f_priority fs of None \<Rightarrow> c_priority c | Some p \<Rightarrow> p),
                    c_priority_by := (case f_priority fs of None \<Rightarrow> c_priority_by c | Some _ \<Rightarrow> Some actor)\<rparr>)) db
           in case f_priority fs of None \<Rightarrow> db | Some p \<Rightarrow> cycle_priority sid p db)"

definition noc_case_raise_priority :: "int \<Rightarrow> string \<Rightarrow> seconds \<Rightarrow> noc_db \<Rightarrow> noc_db" where
  "noc_case_raise_priority sid priority now db =
     cycle_priority sid priority (update_case sid (\<lambda>c. touch now ''system'' (c\<lparr>c_priority := priority\<rparr>)) db)"

definition noc_case_set_summary :: "int \<Rightarrow> int \<Rightarrow> string \<Rightarrow> noc_db \<Rightarrow> noc_db" where
  "noc_case_set_summary sid org summary db =
     (if summary = [] then db\<lparr>n_summaries := AList.delete (sid, org) (n_summaries db)\<rparr>
      else db\<lparr>n_summaries := AList.update (sid, org) summary (n_summaries db)\<rparr>)"

definition noc_case_move ::
  "int \<Rightarrow> string \<Rightarrow> seconds \<Rightarrow> string \<Rightarrow> (string \<times> string \<times> string) option \<Rightarrow> bool \<Rightarrow> noc_db \<Rightarrow> noc_db" where
  "noc_case_move sid status now actor owner keep_owner db =
     update_case sid (\<lambda>c. touch now actor
       (c\<lparr>c_status := status, c_status_at := now,
          c_owner := (case owner of Some o' \<Rightarrow> Some o' | None \<Rightarrow> if keep_owner then c_owner c else None)\<rparr>)) db"

text \<open>Into the queue: the row, and a new cycle; the answer is the case's priority (\<open>None\<close> stands
  for the failed assertion on a case that does not exist).\<close>

definition noc_case_enqueue :: "int \<Rightarrow> string \<Rightarrow> seconds \<Rightarrow> noc_db \<Rightarrow> string option \<times> noc_db" where
  "noc_case_enqueue sid reason now db =
     (case find_case sid db of
        None \<Rightarrow> (None, db)
      | Some c \<Rightarrow>
          let db = update_case sid (\<lambda>c. touch now ''system'' (c\<lparr>c_status := ''queue'', c_status_at := now, c_owner := None\<rparr>)) db;
              entered = (if reason = ''opened'' then c_opened_at c else now)
          in (Some (c_priority c),
              db\<lparr>n_cycles := n_cycles db @ [\<lparr>y_id = n_next_cycle db, y_sid = sid, y_reason = reason,
                     y_priority = c_priority c, entered_at = entered, taken_at = None, taken_by = None,
                     documented_at = None, left_at = None, ended_at = None\<rparr>],
                 n_next_cycle := n_next_cycle db + 1\<rparr>))"

definition noc_case_resolve ::
  "int \<Rightarrow> seconds \<Rightarrow> string \<Rightarrow> string \<Rightarrow> string \<Rightarrow> string \<Rightarrow> bool \<Rightarrow> noc_db \<Rightarrow> noc_db" where
  "noc_case_resolve sid now actor resolution cause solution alarms_cleared db =
     update_case sid (\<lambda>c. touch now actor
       (c\<lparr>c_status := ''resolved'', c_status_at := now, c_resolution := Some resolution,
          c_text := (c_text c)(''cause'' \<mapsto> cause, ''solution'' \<mapsto> solution),
          c_alarms_cleared := alarms_cleared, c_resolved_at := Some now, c_resolved_by := Some actor\<rparr>)) db"

definition noc_case_assign :: "int \<Rightarrow> int option \<Rightarrow> seconds \<Rightarrow> int option \<Rightarrow> bool \<Rightarrow> bool \<Rightarrow> noc_db \<Rightarrow> noc_db" where
  "noc_case_assign sid agent now tier escalated with_people db =
     update_case sid (\<lambda>c. c\<lparr>c_agent_id := agent, c_assigned_at := Some now,
        c_tier := (case tier of None \<Rightarrow> c_tier c | Some t \<Rightarrow> max (c_tier c) t),
        c_escalated_at := (if escalated then Some now else c_escalated_at c), c_with_people := with_people,
        c_version := c_version c + 1, c_updated_at := now\<rparr>) db"

section \<open>Cycles\<close>

text \<open>\<open>_latest_cycle\<close> and the update of that one row.\<close>

definition untaken :: "noc_cycle \<Rightarrow> bool" where
  "untaken y \<longleftrightarrow> taken_at y = None \<and> ended_at y = None"

definition undocumented :: "noc_cycle \<Rightarrow> bool" where
  "undocumented y \<longleftrightarrow> taken_at y \<noteq> None \<and> documented_at y = None \<and> left_at y = None"

definition being_worked :: "noc_cycle \<Rightarrow> bool" where
  "being_worked y \<longleftrightarrow> taken_at y \<noteq> None \<and> left_at y = None"

definition latest_cycle :: "int \<Rightarrow> (noc_cycle \<Rightarrow> bool) \<Rightarrow> noc_db \<Rightarrow> int option" where
  "latest_cycle sid P db =
     (case sort_key (\<lambda>i. - i) (map y_id (filter (\<lambda>y. y_sid y = sid \<and> P y) (n_cycles db))) of
        [] \<Rightarrow> None | i # _ \<Rightarrow> Some i)"

definition update_latest :: "int \<Rightarrow> (noc_cycle \<Rightarrow> bool) \<Rightarrow> (noc_cycle \<Rightarrow> noc_cycle) \<Rightarrow> noc_db \<Rightarrow> noc_db" where
  "update_latest sid P f db =
     (case latest_cycle sid P db of
        None \<Rightarrow> db
      | Some i \<Rightarrow> db\<lparr>n_cycles := map (\<lambda>y. if y_id y = i then f y else y) (n_cycles db)\<rparr>)"

definition noc_cycle_taken :: "int \<Rightarrow> seconds \<Rightarrow> string \<Rightarrow> noc_db \<Rightarrow> noc_db" where
  "noc_cycle_taken sid now actor = update_latest sid untaken (\<lambda>y. y\<lparr>taken_at := Some now, taken_by := Some actor\<rparr>)"

definition noc_cycle_documented :: "int \<Rightarrow> seconds \<Rightarrow> noc_db \<Rightarrow> noc_db" where
  "noc_cycle_documented sid now = update_latest sid undocumented (\<lambda>y. y\<lparr>documented_at := Some now\<rparr>)"

definition noc_cycle_left :: "int \<Rightarrow> seconds \<Rightarrow> noc_db \<Rightarrow> noc_db" where
  "noc_cycle_left sid now = update_latest sid being_worked (\<lambda>y. y\<lparr>left_at := Some now\<rparr>)"

definition noc_cycle_withdrawn :: "int \<Rightarrow> seconds \<Rightarrow> noc_db \<Rightarrow> noc_db" where
  "noc_cycle_withdrawn sid now = update_latest sid untaken (\<lambda>y. y\<lparr>ended_at := Some now\<rparr>)"

section \<open>The feed and the wake-ups\<close>

definition noc_post :: "int list \<Rightarrow> int \<Rightarrow> author \<Rightarrow> string \<Rightarrow> string \<Rightarrow> string \<Rightarrow> seconds \<Rightarrow> noc_db \<Rightarrow> noc_db" where
  "noc_post readers sid who visibility kind body now db =
     db\<lparr>n_posts := n_posts db @ [\<lparr>po_id = n_next_post db, po_sid = sid, po_author = who, po_visibility = visibility, po_kind = kind,
          po_body = body, po_at = now, po_readers = sort (remdups readers)\<rparr>],
        n_next_post := n_next_post db + 1\<rparr>"

definition noc_wake :: "int \<Rightarrow> string \<Rightarrow> int option \<Rightarrow> string \<Rightarrow> seconds \<Rightarrow> noc_db \<Rightarrow> noc_db" where
  "noc_wake agent trigger sid by now db =
     (let queued = (\<lambda>r. run_agent r = agent \<and> run_status r = ''queued'')
      in if list_ex queued (n_runs db)
         then db\<lparr>n_runs := map (\<lambda>r. if queued r
                then r\<lparr>run_situation := (case run_situation r of None \<Rightarrow> sid | Some s \<Rightarrow> Some s)\<rparr> else r) (n_runs db)\<rparr>
         else db\<lparr>n_runs := n_runs db @ [\<lparr>run_id = n_next_run db, run_agent = agent, run_trigger = trigger,
                run_situation = sid, run_status = ''queued'', run_queued_at = now, run_started_at = None,
                run_ended_at = None, run_by = by, run_summary = [], run_error = [], run_input = 0, run_output = 0,
                run_cost = 0, run_tool_calls = 0\<rparr>], n_next_run := n_next_run db + 1\<rparr>)"

section \<open>The loop's questions\<close>

definition noc_cases_in :: "string \<Rightarrow> nat \<Rightarrow> noc_db \<Rightarrow> int list" where
  "noc_cases_in status limit db =
     take limit (map c_sid (sort_key (\<lambda>c. (c_status_at c, c_sid c)) (filter (\<lambda>c. c_status c = status) (n_cases db))))"

definition noc_cases_due :: "seconds \<Rightarrow> nat \<Rightarrow> noc_db \<Rightarrow> int list" where
  "noc_cases_due now limit db =
     take limit (map c_sid (sort_key (\<lambda>c. (the (c_next_update c), c_sid c))
       (filter (\<lambda>c. prefix ''pending_'' (c_status c) \<and> (\<exists>t. c_next_update c = Some t \<and> t \<le> now)) (n_cases db))))"

definition noc_cases_resolved_before :: "seconds \<Rightarrow> nat \<Rightarrow> noc_db \<Rightarrow> int list" where
  "noc_cases_resolved_before before limit db =
     take limit (map c_sid (sort_key (\<lambda>c. (the (c_resolved_at c), c_sid c))
       (filter (\<lambda>c. c_status c = ''resolved'' \<and> (\<exists>t. c_resolved_at c = Some t \<and> t < before)) (n_cases db))))"

definition noc_cases_auto_priority :: "nat \<Rightarrow> noc_db \<Rightarrow> int list" where
  "noc_cases_auto_priority limit db =
     take limit (sort (map c_sid (filter (\<lambda>c. c_priority_by c = None \<and> c_priority c \<noteq> ''critical''
        \<and> c_status c \<notin> {''resolved'', ''closed''}) (n_cases db))))"

end
