(* ===== verification/Noc_Ops.thy ===== *)
theory Noc_Ops
  imports Noc_Store
begin

text \<open>
  \<open>engine/noc/case_ops.py\<close>: the acts on a case. An act that raises is the left injection and
  writes nothing; the caller read the case under the lock, so the case given is the row of the
  store. Every act writes its event on the feed.
\<close>

record actor =
  ac_ref :: string
  ac_name :: string
  ac_kind :: string
  ac_role :: "string option"

definition actor_author :: "actor \<Rightarrow> author" where
  "actor_author a = \<lparr>au_ref = ac_ref a, au_name = ac_name a, au_kind = ac_kind a, au_role = ac_role a\<rparr>"

definition SYSTEM :: actor where
  "SYSTEM = \<lparr>ac_ref = ''system'', ac_name = ''NetCoreNOC'', ac_kind = ''system'', ac_role = None\<rparr>"

definition case_event :: "int \<Rightarrow> string \<Rightarrow> seconds \<Rightarrow> actor \<Rightarrow> noc_db \<Rightarrow> noc_db" where
  "case_event sid body now who = noc_post [] sid (actor_author who) ''internal'' ''event'' (take 8000 body) now"

definition owns :: "noc_case \<Rightarrow> actor \<Rightarrow> bool \<Rightarrow> bool" where
  "owns c who admin \<longleftrightarrow> admin \<or> map_option fst (c_owner c) = Some (ac_ref who)"

definition label :: "(string \<times> string) list \<Rightarrow> string \<Rightarrow> string" where
  "label table k = (case map_of table k of None \<Rightarrow> k | Some v \<Rightarrow> v)"

fun comma :: "string list \<Rightarrow> string" where
  "comma [] = []"
| "comma [x] = x"
| "comma (x # y # xs) = x @ '', '' @ comma (y # xs)"

text \<open>\<open>" ".join(text.split())\<close>.\<close>

fun words :: "string \<Rightarrow> string \<Rightarrow> string list" where
  "words acc [] = (if acc = [] then [] else [rev acc])"
| "words acc (ch # cs) =
     (if is_space ch then (if acc = [] then words [] cs else rev acc # words [] cs) else words (ch # acc) cs)"

definition squeeze :: "string \<Rightarrow> string" where
  "squeeze text = join_on (CHR '' '') (words [] text)"

definition view :: "noc_case \<Rightarrow> case_view" where
  "view c = \<lparr>view_text = c_text c, view_next_update = c_next_update c\<rparr>"

definition merged_view :: "noc_case \<Rightarrow> case_fields \<Rightarrow> case_view" where
  "merged_view c fs = \<lparr>view_text = c_text c ++ map_of (rev (f_text fs)),
     view_next_update = (case f_next_update fs of None \<Rightarrow> c_next_update c | Some t \<Rightarrow> t)\<rparr>"

section \<open>Priority\<close>

definition rank :: "string \<Rightarrow> int option" where
  "rank p = map_of [(''critical'', 0), (''major'', 1), (''minor'', 2)] p"

definition reprioritize :: "int \<Rightarrow> seconds \<Rightarrow> noc_db \<Rightarrow> string option \<times> noc_db" where
  "reprioritize sid now db =
     (case find_case sid db of
        None \<Rightarrow> (None, db)
      | Some c \<Rightarrow>
          if c_priority_by c \<noteq> None then (None, db)
          else
            let worst = n_severity db sid; derived = priority_of worst
            in if the (rank derived) \<ge> the (rank (c_priority c)) then (None, db)
               else (Some derived,
                     case_event sid (''Priority raised to '' @ label PRIORITIES derived @ '': the situation is ''
                         @ (case worst of None \<Rightarrow> ''None'' | Some w \<Rightarrow> w) @ '' on the Broker.'') now SYSTEM
                       (noc_case_raise_priority sid derived now db)))"

section \<open>Acts of a person or an agent\<close>

definition take_case :: "noc_case \<Rightarrow> actor \<Rightarrow> seconds \<Rightarrow> noc_db \<Rightarrow> case_error + noc_db" where
  "take_case c who now db =
     (let sid = c_sid c; status = c_status c
      in if map_option fst (c_owner c) = Some (ac_ref who) \<and> status = ''working'' then Inr db
         else
           case transition ''take'' status None of
             Inl e \<Rightarrow> Inl e
           | Inr _ \<Rightarrow>
               let db = (if status \<in> {''new'', ''auto''}
                         then snd (noc_case_enqueue sid (if status = ''new'' then ''opened'' else ''automation'') now
                                (snd (reprioritize sid now db)))
                         else db);
                   db = noc_case_move sid ''working'' now (ac_ref who) (Some (ac_ref who, ac_name who, ac_kind who)) True db;
                   db = (if status \<in> UNOWNED then noc_cycle_taken sid now (ac_ref who) db else db);
                   took = ac_name who @ '' took the case''
                     @ (case c_owner c of
                          Some (_, before, _) \<Rightarrow> if before \<noteq> [] \<and> status = ''working'' then '' from '' @ before else []
                        | None \<Rightarrow> [])
               in Inr (case_event sid (took @ ''.'') now who db))"

definition release_case :: "noc_case \<Rightarrow> actor \<Rightarrow> seconds \<Rightarrow> bool \<Rightarrow> string \<Rightarrow> noc_db \<Rightarrow> case_error + noc_db" where
  "release_case c who now admin note db =
     (let sid = c_sid c
      in if \<not> owns c who admin then Inl (CaseError 403)
         else
           case transition ''release'' (c_status c) None of
             Inl e \<Rightarrow> Inl e
           | Inr _ \<Rightarrow>
               let db = noc_cycle_left sid now db;
                   db = snd (noc_case_enqueue sid ''released'' now db)
               in Inr (case_event sid (strip (ac_name who @ '' put the case back in the NOC queue. '' @ note)) now who db))"

definition over_limit :: "string \<times> string \<Rightarrow> bool" where
  "over_limit f = (case f of (name, v) \<Rightarrow>
     (case map_of FIELD_LIMITS name of None \<Rightarrow> False | Some (_, limit) \<Rightarrow> length v > limit))"

definition changed_names :: "case_fields \<Rightarrow> string list" where
  "changed_names fs =
     sort (map fst (f_text fs) @ (if f_priority fs = None then [] else [''priority''])
       @ (if f_next_update fs = None then [] else [''next_update_at'']))"

definition changed_label :: "case_fields \<Rightarrow> string \<Rightarrow> string" where
  "changed_label fs name =
     (case map_of FIELD_LIMITS name of
        Some (lab, _) \<Rightarrow> lower lab
      | None \<Rightarrow>
          if name = ''next_update_at'' then ''next update''
          else if name = ''priority''
          then ''priority to '' @ (case map_of PRIORITIES (case f_priority fs of None \<Rightarrow> ''None'' | Some p \<Rightarrow> p) of
                                   None \<Rightarrow> [] | Some l \<Rightarrow> l)
          else name)"

definition update_customer ::
  "noc_case \<Rightarrow> actor \<Rightarrow> seconds \<Rightarrow> case_fields \<Rightarrow> (int \<times> string) list \<Rightarrow> int set \<Rightarrow> noc_db
    \<Rightarrow> case_error + case_view \<times> noc_db" where
  "update_customer c who now fs summaries organizations db =
     (let sid = c_sid c
      in if c_status c \<in> {''resolved'', ''closed''} then Inl (CaseError 409)
         else if list_ex over_limit (f_text fs) then Inl (CaseError 400)
         else if f_priority fs \<noteq> None \<and> the (f_priority fs) \<notin> fst ` set PRIORITIES then Inl (CaseError 400)
         else if (case f_next_update fs of Some (Some t) \<Rightarrow> t \<le> now | _ \<Rightarrow> False) then Inl (CaseError 400)
         else if list_ex (\<lambda>(org, _). org \<notin> organizations) summaries then Inl (CaseError 400)
         else if list_ex (\<lambda>(_, text). length text > 200) summaries then Inl (CaseError 400)
         else
           let db = noc_case_set_fields sid fs now (ac_ref who) db;
               db = fold (\<lambda>(org, text). noc_case_set_summary sid org (strip text)) (sort_key fst summaries) db;
               merged = merged_view c fs;
               db = (if c_status c = ''working'' \<and> documented merged now then noc_cycle_documented sid now db else db);
               changed = map (changed_label fs) (changed_names fs)
                 @ (if summaries = [] then [] else [''an organization's executive summary''])
           in Inr (merged, case_event sid (ac_name who @ '' updated the '' @ comma changed @ ''.'') now who db))"

text \<open>The body of a sent update (\<open>feed.customer_update\<close>, which formats a calendar date) is an
  argument.\<close>

definition send_update :: "(noc_case \<Rightarrow> string) \<Rightarrow> noc_case \<Rightarrow> actor \<Rightarrow> seconds \<Rightarrow> noc_db \<Rightarrow> case_error + noc_db" where
  "send_update body c who now db =
     (let sid = c_sid c
      in if c_status c = ''closed'' then Inl (CaseError 409)
         else if missing (view c) ''pending_customer'' now \<noteq> [] then Inl (CaseError 409)
         else Inr (case_event sid (ac_name who @ '' sent the customer update to the customer.'') now who
                (noc_post [] sid (actor_author who) ''all'' ''post'' (body c) now db)))"

definition pend_case :: "noc_case \<Rightarrow> actor \<Rightarrow> seconds \<Rightarrow> string \<Rightarrow> bool \<Rightarrow> string \<Rightarrow> noc_db \<Rightarrow> case_error + noc_db" where
  "pend_case c who now status admin note db =
     (let sid = c_sid c
      in if \<not> owns c who admin then Inl (CaseError 403)
         else
           case transition ''pend'' (c_status c) (Some status) of
             Inl e \<Rightarrow> Inl e
           | Inr to \<Rightarrow>
               if missing (view c) (the to) now \<noteq> [] then Inl (CaseError 409)
               else
                 let db = (if c_status c = ''working'' then noc_cycle_left sid now (noc_cycle_documented sid now db) else db);
                     db = noc_case_move sid (the to) now (ac_ref who) None True db;
                     text = ac_name who @ '' set the case to '' @ label STATUSES (the to) @ '' until its next update.''
                 in Inr (case_event sid (strip (text @ '' '' @ note)) now who db))"

definition resolve_case ::
  "noc_case \<Rightarrow> actor \<Rightarrow> seconds \<Rightarrow> string \<Rightarrow> string \<Rightarrow> bool \<Rightarrow> bool \<Rightarrow> string \<Rightarrow> noc_db \<Rightarrow> case_error + noc_db" where
  "resolve_case c who now cause solution alarms_cleared admin resolution db =
     (let sid = c_sid c
      in if resolution = ''noc'' \<and> \<not> owns c who admin then Inl (CaseError 403)
         else
           case transition (if resolution = ''noc'' then ''resolve'' else ''auto_resolve'') (c_status c) None of
             Inl e \<Rightarrow> Inl e
           | Inr _ \<Rightarrow>
               if cause \<notin> fst ` set CAUSES then Inl (CaseError 400)
               else if length solution > 8000 then Inl (CaseError 400)
               else if missing (\<lparr>view_text = (c_text c)(''cause'' \<mapsto> cause, ''solution'' \<mapsto> solution),
                                 view_next_update = c_next_update c\<rparr>) ''resolved'' now \<noteq> []
                    \<and> resolution = ''noc'' then Inl (CaseError 409)
               else
                 let db = (if c_status c = ''working'' then noc_cycle_left sid now (noc_cycle_documented sid now db) else db);
                     db = noc_cycle_withdrawn sid now db;
                     db = noc_case_resolve sid now (ac_ref who) resolution cause (strip solution) alarms_cleared db;
                     cleared = (if alarms_cleared then '' Its alarms were verified clear on the device and cleared.'' else [])
                 in Inr (case_event sid (ac_name who @ '' resolved the case: '' @ label CAUSES cause @ ''.'' @ cleared) now who db))"

section \<open>Acts of the loop and of automation\<close>

definition WORKING_AGENT :: "string set" where
  "WORKING_AGENT = {''idle'', ''running'', ''error''}"

definition back_to_agent :: "int \<Rightarrow> seconds \<Rightarrow> noc_db \<Rightarrow> string \<times> noc_db" where
  "back_to_agent sid now db =
     (case find_case sid db of
        None \<Rightarrow> ([], db)
      | Some c \<Rightarrow>
          (case c_agent_id c of
             None \<Rightarrow> ([], db)
           | Some a \<Rightarrow>
               if c_with_people c then ([], db)
               else
                 (case map_of (n_agents db) a of
                    None \<Rightarrow> ([], db)
                  | Some ag \<Rightarrow>
                      if ag_status ag \<notin> WORKING_AGENT then ([], db)
                      else
                        let db = noc_case_assign sid (Some (ag_id ag)) now None False False db
                        in if ag_wake_on_assignment ag \<and> ag_adapter ag \<noteq> ''external''
                           then (ag_name ag @ '' is woken to work it again.'',
                                 noc_wake (ag_id ag) ''assignment'' (Some sid) ''system'' now db)
                           else (''It is with '' @ ag_name ag @ '' again.'', db))))"

definition requeue :: "int \<Rightarrow> string \<Rightarrow> seconds \<Rightarrow> string \<Rightarrow> noc_db \<Rightarrow> noc_db" where
  "requeue sid reason now note db =
     (let db = snd (reprioritize sid now db);
          db = snd (noc_case_enqueue sid reason now db);
          (back, db) = back_to_agent sid now db
      in case_event sid (squeeze (''Back in the NOC queue: '' @ label CYCLE_REASONS reason @ ''. '' @ note @ '' '' @ back))
           now SYSTEM db)"

definition dispatch :: "int \<Rightarrow> seconds \<Rightarrow> bool \<Rightarrow> noc_db \<Rightarrow> noc_db" where
  "dispatch sid now automate db =
     (let db = snd (reprioritize sid now db)
      in if automate
         then case_event sid ''Automated checks started.'' now SYSTEM (noc_case_move sid ''auto'' now ''system'' None True db)
         else
           let (priority, db) = noc_case_enqueue sid ''opened'' now db
           in case_event sid (''Entered the NOC queue ('' @ label PRIORITIES (the priority) @ '').'') now SYSTEM db)"

definition TEXT_FIELDS :: "string set" where
  "TEXT_FIELDS = fst ` set FIELD_LIMITS"

definition auto_pend ::
  "noc_case \<Rightarrow> actor \<Rightarrow> seconds \<Rightarrow> string \<Rightarrow> (string \<times> string) list \<Rightarrow> seconds \<Rightarrow> string \<Rightarrow> noc_db
    \<Rightarrow> case_error + bool \<times> noc_db" where
  "auto_pend c who now status upd wait_s note db =
     (let sid = c_sid c
      in case transition ''auto_pend'' (c_status c) (Some status) of
           Inl e \<Rightarrow> Inl e
         | Inr to \<Rightarrow>
             let fs = \<lparr>f_text = filter (\<lambda>(k, _). k \<in> TEXT_FIELDS) upd, f_priority = None,
                       f_next_update = Some (Some (now + wait_s))\<rparr>;
                 lacking = missing (merged_view c fs) (the to) now
             in if lacking \<noteq> []
                then Inr (False, requeue sid ''automation'' now (''Its update lacked '' @ comma lacking @ ''.'') db)
                else
                  let db = noc_case_set_fields sid fs now (ac_ref who) db;
                      db = noc_case_move sid (the to) now (ac_ref who) None True db;
                      text = ac_name who @ '' set the case to '' @ label STATUSES (the to) @ '' until its next update.''
                  in Inr (True, case_event sid (strip (text @ '' '' @ note)) now who db))"

definition validate_case :: "int \<Rightarrow> seconds \<Rightarrow> string \<Rightarrow> noc_db \<Rightarrow> noc_db" where
  "validate_case sid now why db =
     case_event sid (''The situation resolved: '' @ why @ ''. Confirm the service is restored, then resolve the case.'')
       now SYSTEM (noc_case_move sid ''validate'' now ''system'' None True (noc_cycle_left sid now db))"

definition auto_resolve :: "int \<Rightarrow> seconds \<Rightarrow> string \<Rightarrow> string \<Rightarrow> noc_db \<Rightarrow> noc_db" where
  "auto_resolve sid now resolution why db =
     (let db = noc_cycle_left sid now (noc_cycle_withdrawn sid now db);
          cause = (if resolution = ''merged'' then ''duplicate'' else ''cleared_before_isolation'')
      in case_event sid (''Resolved without the NOC: '' @ why @ ''.'') now SYSTEM
           (noc_case_resolve sid now ''system'' resolution cause why False db))"

definition close_case :: "int \<Rightarrow> seconds \<Rightarrow> noc_db \<Rightarrow> noc_db" where
  "close_case sid now db =
     case_event sid ''Closed: resolved a day ago with nothing since.'' now SYSTEM
       (noc_case_move sid ''closed'' now ''system'' None True db)"

end
