(* ===== verification/Noc_Invariant.thy ===== *)
theory Noc_Invariant
  imports Noc_Ops
begin

text \<open>
  The invariant of the case table and its queue cycles, and that every act keeps it: a queued case
  has exactly one cycle whose take clock runs and no other case has one, a cycle is being worked
  only while its case is, an owner is there while the case is worked and never while it is unowned,
  and the pause and restore clocks are set exactly in the statuses they measure.
\<close>

named_theorems noc_frame \<open>what a primitive write leaves of the rows and the cycle counts\<close>

section \<open>Counts of cycles\<close>

definition count_cycles :: "int \<Rightarrow> (noc_cycle \<Rightarrow> bool) \<Rightarrow> noc_db \<Rightarrow> nat" where
  "count_cycles sid P db = length (filter (\<lambda>y. y_sid y = sid \<and> P y) (n_cycles db))"

definition ids_ok :: "noc_db \<Rightarrow> bool" where
  "ids_ok db \<longleftrightarrow> distinct (map y_id (n_cycles db)) \<and> (\<forall>y \<in> set (n_cycles db). y_id y < n_next_cycle db)
     \<and> (\<forall>y \<in> set (n_cycles db). left_at y \<noteq> None \<longrightarrow> taken_at y \<noteq> None)"

lemma length_filter_update:
  "distinct (map y_id ys) \<Longrightarrow> y \<in> set ys \<Longrightarrow>
   length (filter P (map (\<lambda>x. if y_id x = y_id y then f x else x) ys)) + (if P y then 1 else 0)
     = length (filter P ys) + (if P (f y) then 1 else 0)"
proof (induction ys)
  case (Cons x xs)
  have other: "map (\<lambda>z. if y_id z = y_id y then f z else z) xs = xs" if "y_id y \<notin> y_id ` set xs"
    using that by (intro map_idI) (metis image_eqI)
  show ?case
  proof (cases "x = y")
    case True
    then have "y_id y \<notin> y_id ` set xs"
      using Cons.prems by auto
    with True other show ?thesis
      by simp
  next
    case False
    then have "y \<in> set xs" "y_id x \<noteq> y_id y"
      using Cons.prems by (auto simp: image_iff)
    with Cons show ?thesis
      by simp
  qed
qed simp

lemma latest_cycle_Some:
  assumes "latest_cycle sid P db = Some i"
  obtains y where "y \<in> set (n_cycles db)" "y_id y = i" "y_sid y = sid" "P y"
proof -
  let ?l = "sort_key (\<lambda>i. - i) (map y_id (filter (\<lambda>y. y_sid y = sid \<and> P y) (n_cycles db)))"
  obtain rest where "?l = i # rest"
    using assms unfolding latest_cycle_def by (cases ?l) simp_all
  then have "i \<in> set ?l"
    by (simp only: list.set) simp
  then show ?thesis
    using that unfolding set_sort by auto
qed

lemma latest_cycle_None:
  assumes "latest_cycle sid P db = None"
  shows "count_cycles sid P db = 0"
proof -
  let ?l = "sort_key (\<lambda>i. - i) (map y_id (filter (\<lambda>y. y_sid y = sid \<and> P y) (n_cycles db)))"
  have "?l = []"
    using assms unfolding latest_cycle_def by (cases ?l) simp_all
  then have "length (sort_key (\<lambda>i. - i) (map y_id (filter (\<lambda>y. y_sid y = sid \<and> P y) (n_cycles db)))) = 0"
    by (simp only: list.size)
  then show ?thesis
    by (simp add: count_cycles_def)
qed

lemma count_pos: "y \<in> set (n_cycles db) \<Longrightarrow> y_sid y = sid \<Longrightarrow> P y \<Longrightarrow> 0 < count_cycles sid P db"
  by (auto simp: count_cycles_def filter_empty_conv)

lemma count_update_latest:
  assumes "ids_ok db" and "\<And>y. y_sid (f y) = y_sid y"
    and "\<And>y. y \<in> set (n_cycles db) \<Longrightarrow> P y \<Longrightarrow> Q y = a" and "\<And>y. y \<in> set (n_cycles db) \<Longrightarrow> P y \<Longrightarrow> Q (f y) = b"
  shows "count_cycles s Q (update_latest sid P f db) =
    (if s = sid \<and> 0 < count_cycles sid P db
     then count_cycles s Q db + (if b then 1 else 0) - (if a then 1 else 0) else count_cycles s Q db)"
proof (cases "latest_cycle sid P db")
  case None
  then show ?thesis
    using latest_cycle_None [OF None] by (simp add: update_latest_def)
next
  case (Some i)
  then obtain y where y: "y \<in> set (n_cycles db)" "y_id y = i" "y_sid y = sid" "P y"
    by (rule latest_cycle_Some)
  have pos: "0 < count_cycles sid P db"
    using y by (auto intro: count_pos)
  have eq: "count_cycles s Q (update_latest sid P f db) + (if y_sid y = s \<and> Q y then 1 else 0)
      = count_cycles s Q db + (if y_sid (f y) = s \<and> Q (f y) then 1 else 0)"
    using length_filter_update [of "n_cycles db" y "\<lambda>y. y_sid y = s \<and> Q y" f] assms(1) y(1,2)
    by (simp add: count_cycles_def update_latest_def Some ids_ok_def)
  show ?thesis
    using eq pos y(3) assms(2) assms(3,4) [OF y(1,4)] by (auto split: if_splits)
qed

lemma ids_ok_update_latest:
  assumes "ids_ok db" and "\<And>y. y_id (f y) = y_id y" and "\<And>y. y \<in> set (n_cycles db) \<Longrightarrow> P y \<Longrightarrow> taken_at (f y) \<noteq> None \<or> left_at (f y) = None"
    and "\<And>y. taken_at y \<noteq> None \<Longrightarrow> taken_at (f y) \<noteq> None"
  shows "ids_ok (update_latest sid P f db)"
proof (cases "latest_cycle sid P db")
  case None
  with assms(1) show ?thesis
    by (simp add: update_latest_def)
next
  case (Some i)
  then obtain y where y: "y \<in> set (n_cycles db)" "y_id y = i" "P y"
    by (rule latest_cycle_Some)
  have only: "x = y" if "x \<in> set (n_cycles db)" "y_id x = i" for x
    using that y assms(1) unfolding ids_ok_def by (metis distinct_map inj_on_def)
  have ids: "map y_id (map (\<lambda>y. if y_id y = i then f y else y) (n_cycles db)) = map y_id (n_cycles db)"
    using assms(2) by auto
  show ?thesis
    unfolding ids_ok_def update_latest_def Some option.case
  proof (intro conjI ballI impI)
    show "distinct (map y_id (n_cycles (db\<lparr>n_cycles := map (\<lambda>y. if y_id y = i then f y else y) (n_cycles db)\<rparr>)))"
      using assms(1) ids by (simp add: ids_ok_def del: map_map)
  next
    fix z
    assume "z \<in> set (n_cycles (db\<lparr>n_cycles := map (\<lambda>y. if y_id y = i then f y else y) (n_cycles db)\<rparr>))"
    then obtain x where x: "x \<in> set (n_cycles db)" "z = (if y_id x = i then f x else x)"
      by auto
    then show "y_id z < n_next_cycle (db\<lparr>n_cycles := map (\<lambda>y. if y_id y = i then f y else y) (n_cycles db)\<rparr>)"
      using assms(1,2) by (auto simp: ids_ok_def)
    assume "left_at z \<noteq> None"
    then show "taken_at z \<noteq> None"
      using x assms(1) only [OF x(1)] assms(3) [OF y(1,3)] by (auto simp: ids_ok_def split: if_splits)
  qed
qed

lemma cycle_ids [noc_frame]:
  assumes "ids_ok db"
  shows "ids_ok (noc_cycle_taken sid now a db)" "ids_ok (noc_cycle_documented sid now db)"
    "ids_ok (noc_cycle_left sid now db)" "ids_ok (noc_cycle_withdrawn sid now db)"
  unfolding noc_cycle_taken_def noc_cycle_documented_def noc_cycle_left_def noc_cycle_withdrawn_def
  using assms by (auto simp: undocumented_def being_worked_def untaken_def ids_ok_def [of db]
      intro!: ids_ok_update_latest)

lemma untaken_not_left: "ids_ok db \<Longrightarrow> y \<in> set (n_cycles db) \<Longrightarrow> untaken y \<Longrightarrow> left_at y = None"
  by (auto simp: ids_ok_def untaken_def)

lemma cycle_writes [noc_frame]:
  assumes "ids_ok db"
  shows "count_cycles s untaken (noc_cycle_taken sid now a db) =
      (if s = sid then count_cycles s untaken db - 1 else count_cycles s untaken db)"
    and "count_cycles s being_worked (noc_cycle_taken sid now a db) =
      (if s = sid \<and> 0 < count_cycles s untaken db
       then count_cycles s being_worked db + 1 else count_cycles s being_worked db)"
    and "count_cycles s untaken (noc_cycle_documented sid now db) = count_cycles s untaken db"
    and "count_cycles s being_worked (noc_cycle_documented sid now db) = count_cycles s being_worked db"
    and "count_cycles s untaken (noc_cycle_left sid now db) = count_cycles s untaken db"
    and "count_cycles s being_worked (noc_cycle_left sid now db) =
      (if s = sid then count_cycles s being_worked db - 1 else count_cycles s being_worked db)"
    and "count_cycles s untaken (noc_cycle_withdrawn sid now db) =
      (if s = sid then count_cycles s untaken db - 1 else count_cycles s untaken db)"
    and "count_cycles s being_worked (noc_cycle_withdrawn sid now db) = count_cycles s being_worked db"
proof -
  note upd = count_update_latest [OF assms]
  show "count_cycles s untaken (noc_cycle_taken sid now a db) =
      (if s = sid then count_cycles s untaken db - 1 else count_cycles s untaken db)"
    unfolding noc_cycle_taken_def by (subst upd [where a = True and b = False]) (auto simp: untaken_def)
  show "count_cycles s being_worked (noc_cycle_taken sid now a db) =
      (if s = sid \<and> 0 < count_cycles s untaken db
       then count_cycles s being_worked db + 1 else count_cycles s being_worked db)"
    unfolding noc_cycle_taken_def
    by (subst upd [where a = False and b = True]) (auto simp: untaken_def being_worked_def dest: untaken_not_left [OF assms])
  show "count_cycles s untaken (noc_cycle_documented sid now db) = count_cycles s untaken db"
    unfolding noc_cycle_documented_def
    by (subst upd [where a = False and b = False]) (auto simp: untaken_def undocumented_def)
  show "count_cycles s being_worked (noc_cycle_documented sid now db) = count_cycles s being_worked db"
    unfolding noc_cycle_documented_def
    by (subst upd [where a = True and b = True]) (auto simp: being_worked_def undocumented_def)
  show "count_cycles s untaken (noc_cycle_left sid now db) = count_cycles s untaken db"
    unfolding noc_cycle_left_def
    by (subst upd [where a = False and b = False]) (auto simp: untaken_def being_worked_def)
  show "count_cycles s being_worked (noc_cycle_left sid now db) =
      (if s = sid then count_cycles s being_worked db - 1 else count_cycles s being_worked db)"
    unfolding noc_cycle_left_def
    by (subst upd [where a = True and b = False]) (auto simp: being_worked_def)
  show "count_cycles s untaken (noc_cycle_withdrawn sid now db) =
      (if s = sid then count_cycles s untaken db - 1 else count_cycles s untaken db)"
    unfolding noc_cycle_withdrawn_def by (subst upd [where a = True and b = False]) (auto simp: untaken_def)
  show "count_cycles s being_worked (noc_cycle_withdrawn sid now db) = count_cycles s being_worked db"
    unfolding noc_cycle_withdrawn_def
    by (subst upd [where a = False and b = False]) (auto simp: untaken_def being_worked_def)
qed

section \<open>Rows and frames\<close>

definition statuses :: "string set" where
  "statuses = fst ` set STATUSES"

lemma statuses_members [simp]:
  "''new'' \<in> statuses" "''auto'' \<in> statuses" "''queue'' \<in> statuses" "''working'' \<in> statuses"
  "''validate'' \<in> statuses" "''resolved'' \<in> statuses" "''closed'' \<in> statuses" "s \<in> PENDING \<Longrightarrow> s \<in> statuses"
  by (simp_all add: statuses_def STATUSES_def PENDING_members) auto

lemma pending_prefix: "s \<in> statuses \<Longrightarrow> prefix ''pending_'' s \<longleftrightarrow> s \<in> PENDING"
  by (auto simp: statuses_def PENDING_def)

definition clocks_ok :: "noc_case \<Rightarrow> bool" where
  "clocks_ok c \<longleftrightarrow> c_status c \<in> statuses \<and> (c_paused_at c \<noteq> None \<longleftrightarrow> c_status c \<in> PENDING)
     \<and> (c_restored_at c \<noteq> None \<longleftrightarrow> c_status c \<in> {''validate'', ''resolved'', ''closed''})"

lemma trigger_fields [simp]:
  "c_sid (status_triggers c d) = c_sid d" "c_status (status_triggers c d) = c_status d"
  "c_owner (status_triggers c d) = c_owner d" "c_priority (status_triggers c d) = c_priority d"
  "c_priority_by (status_triggers c d) = c_priority_by d" "c_next_update (status_triggers c d) = c_next_update d"
  "c_text (status_triggers c d) = c_text d" "c_agent_id (status_triggers c d) = c_agent_id d"
  "c_with_people (status_triggers c d) = c_with_people d" "c_opened_at (status_triggers c d) = c_opened_at d"
  by (simp_all add: status_triggers_def restore_clock_def pause_clock_def Let_def split: option.splits)

lemma trigger_clocks:
  assumes "clocks_ok c" and "c_paused_at d = c_paused_at c" and "c_restored_at d = c_restored_at c"
    and "c_status d \<in> statuses"
  shows "clocks_ok (status_triggers c d)"
proof (cases "c_status c = c_status d")
  case True
  with assms show ?thesis
    by (simp add: status_triggers_def clocks_ok_def)
next
  case False
  have p: "c_paused_at (restore_clock (pause_clock c d)) = (if c_status d \<in> PENDING then Some (c_status_at d) else None)"
    using assms pending_prefix [of "c_status d"] by (auto simp: pause_clock_def restore_clock_def Let_def split: option.splits)
  have r: "c_restored_at (restore_clock (pause_clock c d)) \<noteq> None \<longleftrightarrow> c_status d \<in> {''validate'', ''resolved'', ''closed''}"
    by (simp add: pause_clock_def restore_clock_def Let_def split: option.splits)
  have s: "c_status (restore_clock (pause_clock c d)) = c_status d"
    by (simp add: pause_clock_def restore_clock_def Let_def split: option.splits)
  show ?thesis
    using False assms(4) by (simp add: status_triggers_def clocks_ok_def p s) (use r in simp)
qed

text \<open>What the invariant says of a case: its status, whether it has an owner, and how many of its
  cycles are untaken and being worked.\<close>

definition sig :: "int \<Rightarrow> noc_db \<Rightarrow> (string \<times> bool) option" where
  "sig s db = map_option (\<lambda>c. (c_status c, c_owner c \<noteq> None)) (find_case s db)"

definition sig_ok :: "(string \<times> bool) option \<Rightarrow> nat \<Rightarrow> nat \<Rightarrow> bool" where
  "sig_ok sg u w \<longleftrightarrow>
     (case sg of
        None \<Rightarrow> u = 0 \<and> w = 0
      | Some (status, owned) \<Rightarrow>
          (status \<in> UNOWNED \<longrightarrow> \<not> owned) \<and> (status = ''working'' \<longrightarrow> owned)
          \<and> u = (if status = ''queue'' then 1 else 0) \<and> w \<le> (if status = ''working'' then 1 else 0))"

definition clocks_inv :: "noc_db \<Rightarrow> bool" where
  "clocks_inv db \<longleftrightarrow> (\<forall>s c. find_case s db = Some c \<longrightarrow> clocks_ok c)"

definition noc_inv :: "noc_db \<Rightarrow> bool" where
  "noc_inv db \<longleftrightarrow> ids_ok db \<and> clocks_inv db
     \<and> (\<forall>s. sig_ok (sig s db) (count_cycles s untaken db) (count_cycles s being_worked db))"

lemma find_case_update [noc_frame]:
  assumes "\<And>c. c_sid (f c) = c_sid c"
  shows "find_case s (update_case sid f db) =
    (if s = sid then map_option (\<lambda>c. status_triggers c (f c)) (find_case s db) else find_case s db)"
proof -
  have "find (\<lambda>c. c_sid c = s) (map (\<lambda>c. if c_sid c = sid then status_triggers c (f c) else c) cs) =
    (if s = sid then map_option (\<lambda>c. status_triggers c (f c)) (find (\<lambda>c. c_sid c = s) cs) else find (\<lambda>c. c_sid c = s) cs)" for cs
    using assms by (induction cs) auto
  then show ?thesis
    by (simp add: find_case_def update_case_def)
qed

lemma update_case_cycles [noc_frame]:
  "count_cycles s P (update_case sid f db) = count_cycles s P db" "ids_ok (update_case sid f db) = ids_ok db"
  by (simp_all add: count_cycles_def ids_ok_def update_case_def)

lemma find_case_cycles [noc_frame]:
  "find_case s (noc_cycle_taken sid now a db) = find_case s db" "find_case s (noc_cycle_documented sid now db) = find_case s db"
  "find_case s (noc_cycle_left sid now db) = find_case s db" "find_case s (noc_cycle_withdrawn sid now db) = find_case s db"
  "find_case s (cycle_priority sid p db) = find_case s db"
  by (simp_all add: find_case_def noc_cycle_taken_def noc_cycle_documented_def noc_cycle_left_def noc_cycle_withdrawn_def
      cycle_priority_def update_latest_def split: option.splits)

lemma side_writes [noc_frame]:
  "find_case s (noc_post rs sid a v k b now db) = find_case s db" "count_cycles s P (noc_post rs sid a v k b now db) = count_cycles s P db"
  "ids_ok (noc_post rs sid a v k b now db) = ids_ok db"
  "find_case s (noc_wake ag tr si by now db) = find_case s db" "count_cycles s P (noc_wake ag tr si by now db) = count_cycles s P db"
  "ids_ok (noc_wake ag tr si by now db) = ids_ok db"
  "find_case s (noc_case_set_summary sid org t db) = find_case s db"
  "count_cycles s P (noc_case_set_summary sid org t db) = count_cycles s P db"
  "ids_ok (noc_case_set_summary sid org t db) = ids_ok db"
  by (simp_all add: find_case_def count_cycles_def ids_ok_def noc_post_def noc_wake_def noc_case_set_summary_def Let_def)

lemma cycle_priority_counts [noc_frame]:
  "count_cycles s untaken (cycle_priority sid p db) = count_cycles s untaken db"
  "count_cycles s being_worked (cycle_priority sid p db) = count_cycles s being_worked db"
  "ids_ok (cycle_priority sid p db) = ids_ok db"
proof -
  let ?f = "\<lambda>y. if y_sid y = sid \<and> taken_at y = None \<and> ended_at y = None then y\<lparr>y_priority := p\<rparr> else y"
  have len: "length (filter Q (map ?f ys)) = length (filter Q ys)" if "\<And>y. Q (?f y) = Q y" for Q ys
    using that by (induction ys) auto
  have cyc: "n_cycles (cycle_priority sid p db) = map ?f (n_cycles db)" "n_next_cycle (cycle_priority sid p db) = n_next_cycle db"
    by (simp_all add: cycle_priority_def)
  show "count_cycles s untaken (cycle_priority sid p db) = count_cycles s untaken db"
    unfolding count_cycles_def cyc by (rule len) (simp add: untaken_def)
  show "count_cycles s being_worked (cycle_priority sid p db) = count_cycles s being_worked db"
    unfolding count_cycles_def cyc by (rule len) (simp add: being_worked_def)
  have ids: "map y_id (map ?f ys) = map y_id ys" for ys
    by simp
  have all: "(\<forall>y \<in> set (map ?f ys). Q y) = (\<forall>y \<in> set ys. Q y)" if "\<And>y. Q (?f y) = Q y" for Q ys
    using that by (induction ys) auto
  show "ids_ok (cycle_priority sid p db) = ids_ok db"
    unfolding ids_ok_def cyc ids
    by (intro arg_cong2 [where f = "(\<and>)"] refl all) (simp_all)
qed

lemma event_writes [noc_frame]:
  "find_case s (case_event sid b now a db) = find_case s db" "count_cycles s P (case_event sid b now a db) = count_cycles s P db"
  "ids_ok (case_event sid b now a db) = ids_ok db"
  by (simp_all add: case_event_def noc_frame)

lemma enqueue_writes [noc_frame]:
  "find_case s (snd (noc_case_enqueue sid reason now db)) =
     (if s = sid then map_option (\<lambda>c. status_triggers c (touch now ''system''
        (c\<lparr>c_status := ''queue'', c_status_at := now, c_owner := None\<rparr>))) (find_case s db) else find_case s db)"
  "count_cycles s untaken (snd (noc_case_enqueue sid reason now db)) =
     count_cycles s untaken db + (if s = sid \<and> find_case sid db \<noteq> None then 1 else 0)"
  "count_cycles s being_worked (snd (noc_case_enqueue sid reason now db)) = count_cycles s being_worked db"
  "ids_ok db \<Longrightarrow> ids_ok (snd (noc_case_enqueue sid reason now db))"
proof -
  have row: "find_case s (db'\<lparr>n_cycles := a, n_next_cycle := b\<rparr>) = find_case s db'" for db' a b s
    by (simp add: find_case_def)
  show "find_case s (snd (noc_case_enqueue sid reason now db)) =
     (if s = sid then map_option (\<lambda>c. status_triggers c (touch now ''system''
        (c\<lparr>c_status := ''queue'', c_status_at := now, c_owner := None\<rparr>))) (find_case s db) else find_case s db)"
    by (auto simp: noc_case_enqueue_def Let_def row find_case_update touch_def split: option.splits)
  show "count_cycles s untaken (snd (noc_case_enqueue sid reason now db)) =
     count_cycles s untaken db + (if s = sid \<and> find_case sid db \<noteq> None then 1 else 0)"
    "count_cycles s being_worked (snd (noc_case_enqueue sid reason now db)) = count_cycles s being_worked db"
    by (auto simp: noc_case_enqueue_def Let_def count_cycles_def untaken_def being_worked_def update_case_def split: option.splits)
  show "ids_ok db \<Longrightarrow> ids_ok (snd (noc_case_enqueue sid reason now db))"
    by (fastforce simp: noc_case_enqueue_def Let_def ids_ok_def update_case_def split: option.splits)
qed

lemma sig_cong: "find_case s db = find_case s db' \<Longrightarrow> sig s db = sig s db'"
  by (simp add: sig_def)

lemma clocks_cong: "(\<And>s. find_case s db = find_case s db') \<Longrightarrow> clocks_inv db = clocks_inv db'"
  by (simp add: clocks_inv_def)

lemma sig_same [noc_frame]:
  "sig s (noc_cycle_taken sid now a db) = sig s db" "sig s (noc_cycle_documented sid now db) = sig s db"
  "sig s (noc_cycle_left sid now db) = sig s db" "sig s (noc_cycle_withdrawn sid now db) = sig s db"
  "sig s (cycle_priority sid p db) = sig s db" "sig s (noc_post rs sid au v k b now db) = sig s db"
  "sig s (noc_wake ag tr si by now db) = sig s db" "sig s (noc_case_set_summary sid org t db) = sig s db"
  "sig s (case_event sid b now who db) = sig s db"
  by (simp_all add: sig_def noc_frame)

lemma clocks_same [noc_frame]:
  "clocks_inv (noc_cycle_taken sid now a db) = clocks_inv db" "clocks_inv (noc_cycle_documented sid now db) = clocks_inv db"
  "clocks_inv (noc_cycle_left sid now db) = clocks_inv db" "clocks_inv (noc_cycle_withdrawn sid now db) = clocks_inv db"
  "clocks_inv (cycle_priority sid p db) = clocks_inv db" "clocks_inv (noc_post rs sid au v k b now db) = clocks_inv db"
  "clocks_inv (noc_wake ag tr si by now db) = clocks_inv db" "clocks_inv (noc_case_set_summary sid org t db) = clocks_inv db"
  "clocks_inv (case_event sid b now who db) = clocks_inv db"
  by (simp_all add: clocks_inv_def noc_frame)

lemma clocks_update:
  assumes "clocks_inv db" and "\<And>c. c_sid (f c) = c_sid c" and "\<And>c. c_paused_at (f c) = c_paused_at c"
    and "\<And>c. c_restored_at (f c) = c_restored_at c" and "\<And>c. c_status c \<in> statuses \<Longrightarrow> c_status (f c) \<in> statuses"
  shows "clocks_inv (update_case sid f db)"
  using assms by (auto simp: clocks_inv_def find_case_update intro!: trigger_clocks) (auto simp: clocks_ok_def)

lemma move_writes [noc_frame]:
  "sig s (noc_case_move sid status now a owner keep db) =
     (if s = sid then map_option (\<lambda>(_, owned). (status, owner \<noteq> None \<or> keep \<and> owned)) (sig s db) else sig s db)"
  "count_cycles s P (noc_case_move sid status now a owner keep db) = count_cycles s P db"
  "ids_ok (noc_case_move sid status now a owner keep db) = ids_ok db"
  "clocks_inv db \<Longrightarrow> status \<in> statuses \<Longrightarrow> clocks_inv (noc_case_move sid status now a owner keep db)"
proof -
  show "sig s (noc_case_move sid status now a owner keep db) =
     (if s = sid then map_option (\<lambda>(_, owned). (status, owner \<noteq> None \<or> keep \<and> owned)) (sig s db) else sig s db)"
    by (cases "find_case s db"; cases owner) (auto simp: sig_def noc_case_move_def find_case_update touch_def)
  show "clocks_inv db \<Longrightarrow> status \<in> statuses \<Longrightarrow> clocks_inv (noc_case_move sid status now a owner keep db)"
    unfolding noc_case_move_def by (intro clocks_update) (simp_all add: touch_def)
qed (simp_all add: noc_case_move_def update_case_cycles)

lemma resolve_writes [noc_frame]:
  "sig s (noc_case_resolve sid now a res cause sol cl db) =
     (if s = sid then map_option (\<lambda>(_, owned). (''resolved'', owned)) (sig s db) else sig s db)"
  "count_cycles s P (noc_case_resolve sid now a res cause sol cl db) = count_cycles s P db"
  "ids_ok (noc_case_resolve sid now a res cause sol cl db) = ids_ok db"
  "clocks_inv db \<Longrightarrow> clocks_inv (noc_case_resolve sid now a res cause sol cl db)"
proof -
  show "sig s (noc_case_resolve sid now a res cause sol cl db) =
     (if s = sid then map_option (\<lambda>(_, owned). (''resolved'', owned)) (sig s db) else sig s db)"
    by (cases "find_case s db") (auto simp: sig_def noc_case_resolve_def find_case_update touch_def)
  show "clocks_inv db \<Longrightarrow> clocks_inv (noc_case_resolve sid now a res cause sol cl db)"
    unfolding noc_case_resolve_def by (intro clocks_update) (simp_all add: touch_def)
qed (simp_all add: noc_case_resolve_def update_case_cycles)

lemma sig_update_same:
  assumes "\<And>c. c_sid (f c) = c_sid c" and "\<And>c. c_status (f c) = c_status c" and "\<And>c. c_owner (f c) = c_owner c"
  shows "sig s (update_case sid f db) = sig s db"
  using assms by (cases "find_case s db") (auto simp: sig_def find_case_update)

lemma assign_writes [noc_frame]:
  "sig s (noc_case_assign sid ag now tier esc wp db) = sig s db"
  "count_cycles s P (noc_case_assign sid ag now tier esc wp db) = count_cycles s P db"
  "ids_ok (noc_case_assign sid ag now tier esc wp db) = ids_ok db"
  "clocks_inv db \<Longrightarrow> clocks_inv (noc_case_assign sid ag now tier esc wp db)"
proof -
  show "sig s (noc_case_assign sid ag now tier esc wp db) = sig s db"
    unfolding noc_case_assign_def by (rule sig_update_same) simp_all
  show "clocks_inv db \<Longrightarrow> clocks_inv (noc_case_assign sid ag now tier esc wp db)"
    unfolding noc_case_assign_def by (intro clocks_update) simp_all
qed (simp_all add: noc_case_assign_def update_case_cycles)

lemma raise_writes [noc_frame]:
  "sig s (noc_case_raise_priority sid p now db) = sig s db"
  "count_cycles s untaken (noc_case_raise_priority sid p now db) = count_cycles s untaken db"
  "count_cycles s being_worked (noc_case_raise_priority sid p now db) = count_cycles s being_worked db"
  "ids_ok (noc_case_raise_priority sid p now db) = ids_ok db"
  "clocks_inv db \<Longrightarrow> clocks_inv (noc_case_raise_priority sid p now db)"
proof -
  show "sig s (noc_case_raise_priority sid p now db) = sig s db"
    by (cases "find_case s db") (auto simp: sig_def noc_case_raise_priority_def noc_frame touch_def)
  show "clocks_inv db \<Longrightarrow> clocks_inv (noc_case_raise_priority sid p now db)"
    unfolding noc_case_raise_priority_def by (simp only: noc_frame) (intro clocks_update, simp_all add: touch_def)
qed (simp_all add: noc_case_raise_priority_def noc_frame)

lemma fields_writes [noc_frame]:
  "sig s (noc_case_set_fields sid fs now a db) = sig s db"
  "count_cycles s untaken (noc_case_set_fields sid fs now a db) = count_cycles s untaken db"
  "count_cycles s being_worked (noc_case_set_fields sid fs now a db) = count_cycles s being_worked db"
  "ids_ok (noc_case_set_fields sid fs now a db) = ids_ok db"
  "clocks_inv db \<Longrightarrow> clocks_inv (noc_case_set_fields sid fs now a db)"
proof -
  show "sig s (noc_case_set_fields sid fs now a db) = sig s db"
    by (simp add: noc_case_set_fields_def noc_frame Let_def touch_def sig_update_same split: option.splits)
  show "clocks_inv db \<Longrightarrow> clocks_inv (noc_case_set_fields sid fs now a db)"
    by (auto simp: noc_case_set_fields_def noc_frame Let_def touch_def split: option.splits intro!: clocks_update)
qed (simp_all add: noc_case_set_fields_def noc_frame Let_def split: option.splits)

lemma enqueue_sig [noc_frame]:
  "sig s (snd (noc_case_enqueue sid reason now db)) =
     (if s = sid then map_option (\<lambda>_. (''queue'', False)) (sig s db) else sig s db)"
  "clocks_inv db \<Longrightarrow> clocks_inv (snd (noc_case_enqueue sid reason now db))"
proof -
  show "sig s (snd (noc_case_enqueue sid reason now db)) =
     (if s = sid then map_option (\<lambda>_. (''queue'', False)) (sig s db) else sig s db)"
    by (cases "find_case s db") (auto simp: sig_def enqueue_writes touch_def)
  assume c: "clocks_inv db"
  have "clocks_inv (update_case sid (\<lambda>c. touch now ''system'' (c\<lparr>c_status := ''queue'', c_status_at := now, c_owner := None\<rparr>)) db)"
    using c by (rule clocks_update) (simp_all add: touch_def)
  moreover have "find_case s (snd (noc_case_enqueue sid reason now db)) =
      (if find_case sid db = None then find_case s db else find_case s
        (update_case sid (\<lambda>c. touch now ''system'' (c\<lparr>c_status := ''queue'', c_status_at := now, c_owner := None\<rparr>)) db))" for s
    by (auto simp: enqueue_writes find_case_update touch_def)
  ultimately show "clocks_inv (snd (noc_case_enqueue sid reason now db))"
    using c by (simp add: clocks_inv_def)
qed

lemma reprioritize_writes [noc_frame]:
  "sig s (snd (reprioritize sid now db)) = sig s db"
  "count_cycles s untaken (snd (reprioritize sid now db)) = count_cycles s untaken db"
  "count_cycles s being_worked (snd (reprioritize sid now db)) = count_cycles s being_worked db"
  "ids_ok (snd (reprioritize sid now db)) = ids_ok db"
  "clocks_inv db \<Longrightarrow> clocks_inv (snd (reprioritize sid now db))"
  by (simp_all add: reprioritize_def Let_def noc_frame split: option.splits)

lemma back_to_agent_writes [noc_frame]:
  "sig s (snd (back_to_agent sid now db)) = sig s db"
  "count_cycles s P (snd (back_to_agent sid now db)) = count_cycles s P db"
  "ids_ok (snd (back_to_agent sid now db)) = ids_ok db"
  "clocks_inv db \<Longrightarrow> clocks_inv (snd (back_to_agent sid now db))"
  by (simp_all add: back_to_agent_def Let_def noc_frame split: option.splits)

lemma summaries_writes [noc_frame]:
  "sig s (fold (\<lambda>(org, text). noc_case_set_summary sid org (strip text)) xs db) = sig s db"
  "count_cycles s P (fold (\<lambda>(org, text). noc_case_set_summary sid org (strip text)) xs db) = count_cycles s P db"
  "ids_ok (fold (\<lambda>(org, text). noc_case_set_summary sid org (strip text)) xs db) = ids_ok db"
  "clocks_inv (fold (\<lambda>(org, text). noc_case_set_summary sid org (strip text)) xs db) = clocks_inv db"
  by (induction xs arbitrary: db) (auto simp: noc_frame)

lemma find_case_sig: "find_case s db \<noteq> None \<longleftrightarrow> sig s db \<noteq> None"
  by (simp add: sig_def)

end
