(* ===== verification/Noc_Loop.thy ===== *)
theory Noc_Loop
  imports Noc_Ops
begin

text \<open>
  \<open>engine/noc/hearing.py\<close> with the write of \<open>store/noc_hearing.py\<close>, \<open>engine/noc/access.py\<close>,
  the requeue of a post (\<open>feed.requeues\<close>), and one pass of \<open>engine/noc/case_loop.py\<close>. The pass
  reads its lists without the lock and acts under it: the lists are arguments of the locked part, so
  what is proved of it holds for lists that are out of date.
\<close>

section \<open>Hearing\<close>

definition MAX_NAMED :: nat where
  "MAX_NAMED = 6"

definition QUIET_S :: seconds where
  "QUIET_S = 300"

record heard_alarm =
  ha_case_status :: string
  ha_id :: int
  ha_active :: bool
  ha_raised :: int
  ha_flapping :: bool
  ha_what :: string
  ha_element :: string
  ha_instance :: string
  ha_elsewhere :: "int option"
  ha_since :: bool

type_synonym heard = "bool \<times> int \<times> seconds option"
type_synonym moved = "int \<times> bool \<times> int \<times> seconds option"

record News =
  joined :: "heard_alarm list"
  raised :: "heard_alarm list"
  cleared :: "heard_alarm list"
  moved_alarms :: "moved list"

definition worse :: "News \<Rightarrow> bool" where
  "worse n \<longleftrightarrow> joined n \<noteq> [] \<or> raised n \<noteq> []"

definition says :: "News \<Rightarrow> bool" where
  "says n \<longleftrightarrow> joined n \<noteq> [] \<or> raised n \<noteq> [] \<or> cleared n \<noteq> []"

definition no_news :: News where
  "no_news = \<lparr>joined = [], raised = [], cleared = [], moved_alarms = []\<rparr>"

definition hear_alarm :: "(int \<times> heard) list \<Rightarrow> bool \<Rightarrow> seconds \<Rightarrow> heard_alarm \<Rightarrow> News \<Rightarrow> News" where
  "hear_alarm known pending now alarm n =
     (let aid = ha_id alarm; active = ha_active alarm; count = ha_raised alarm
      in case map_of known aid of
           None \<Rightarrow> n\<lparr>joined := joined n @ (if active then [alarm] else []),
                    moved_alarms := moved_alarms n @ [(aid, active, count, if active then Some now else None)]\<rparr>
         | Some (was, before, told) \<Rightarrow>
             if was = active \<and> before = count then n
             else
               let back = (\<not> was \<and> count > before)
               in if (case told of None \<Rightarrow> False | Some t \<Rightarrow> now - t < QUIET_S) \<and> \<not> (back \<and> pending) then n
                  else if back
                  then n\<lparr>raised := raised n @ [alarm\<lparr>ha_since := \<not> active\<rparr>],
                         moved_alarms := moved_alarms n @ [(aid, active, count, Some now)]\<rparr>
                  else if was \<and> \<not> active
                  then n\<lparr>cleared := cleared n @ [alarm], moved_alarms := moved_alarms n @ [(aid, active, count, Some now)]\<rparr>
                  else n\<lparr>moved_alarms := moved_alarms n @ [(aid, active, count, told)]\<rparr>)"

definition news :: "(int \<times> heard) list \<Rightarrow> heard_alarm list \<Rightarrow> seconds \<Rightarrow> News" where
  "news known alarms now =
     (if known = []
      then no_news\<lparr>moved_alarms := map (\<lambda>a. (ha_id a, ha_active a, ha_raised a, None)) alarms\<rparr>
      else
        let pending = (alarms \<noteq> [] \<and> ha_case_status (hd alarms) \<in> PENDING)
        in fold (hear_alarm known pending now) alarms no_news)"

definition hearing_plan :: "(int \<times> heard_alarm list) list \<Rightarrow> (int \<rightharpoonup> (int \<times> heard) list) \<Rightarrow> seconds \<Rightarrow> (int \<times> News) list" where
  "hearing_plan states known now =
     filter (\<lambda>(_, found). moved_alarms found \<noteq> [])
       (map (\<lambda>(sid, alarms). (sid, news (case known sid of None \<Rightarrow> [] | Some h \<Rightarrow> h) alarms now)) states)"

definition named_alarm :: "heard_alarm \<Rightarrow> string" where
  "named_alarm a =
     (let where_at = (if ha_instance a = [] then [] else '' ('' @ ha_instance a @ '')'');
          said = (if ha_flapping a then [''flapping''] else []) @ (if ha_since a then [''cleared since''] else [])
            @ (case ha_elsewhere a of None \<Rightarrow> [] | Some s \<Rightarrow> if s = 0 then [] else [''now in situation #'' @ digits (nat s)])
      in ha_what a @ '' on '' @ ha_element a @ where_at @ (if said = [] then [] else '' ['' @ comma said @ '']''))"

fun semicolons :: "string list \<Rightarrow> string" where
  "semicolons [] = []"
| "semicolons [x] = x"
| "semicolons (x # y # xs) = x @ ''; '' @ semicolons (y # xs)"

definition sentence :: "News \<Rightarrow> string" where
  "sentence n =
     (let part = (\<lambda>word rows. if rows = [] then [] else
            [word @ '': '' @ comma (map named_alarm (take MAX_NAMED rows))
              @ (if length rows > MAX_NAMED then '' and '' @ digits (length rows - MAX_NAMED) @ '' more'' else [])])
      in ''Its alarms on the Broker -- ''
         @ semicolons (part ''joined'' (joined n) @ part ''raised again'' (raised n) @ part ''cleared'' (cleared n)) @ ''.'')"

definition noc_case_hear :: "int \<Rightarrow> moved list \<Rightarrow> noc_db \<Rightarrow> noc_db" where
  "noc_case_hear sid moved db =
     db\<lparr>n_heard := fold (\<lambda>(aid, active, count, told). AList.update (sid, aid) (active, count, told)) moved (n_heard db)\<rparr>"

datatype heard_outcome = Requeued | Told

definition hearing_apply :: "int \<Rightarrow> News \<Rightarrow> seconds \<Rightarrow> noc_db \<Rightarrow> heard_outcome option \<times> noc_db" where
  "hearing_apply sid found now db =
     (case find_case sid db of
        None \<Rightarrow> (None, db)
      | Some c \<Rightarrow>
          if c_status c \<in> {''new'', ''auto'', ''resolved'', ''closed''} then (None, db)
          else
            let db = noc_case_hear sid (moved_alarms found) db
            in if \<not> says found then (None, db)
               else
                 let db = case_event sid (sentence found) now SYSTEM db
                 in if worse found \<and> c_status c \<in> PENDING then (Some Requeued, requeue sid ''alarm'' now [] db)
                    else (Some Told, db))"

section \<open>Access and posts\<close>

definition WAITING :: "string list" where
  "WAITING = [''pending_connectivity'', ''pending_device_access'']"

text \<open>\<open>noc_cases_awaiting\<close> joins the alarms of the case: the cases with an alarm from the host are
  an argument.\<close>

definition access_granted :: "(int \<Rightarrow> bool) \<Rightarrow> string \<Rightarrow> seconds \<Rightarrow> noc_db \<Rightarrow> int list \<times> noc_db" where
  "access_granted from_host host now db =
     (let woken = sort (filter (\<lambda>sid. from_host sid \<and> (case find_case sid db of None \<Rightarrow> False | Some c \<Rightarrow> c_status c \<in> set WAITING))
        (remdups (map c_sid (n_cases db))))
      in (woken, fold (\<lambda>sid. requeue sid ''access'' now (''A credential for '' @ host @ '' is now usable by the agents.'')) woken db))"

definition requeues :: "noc_case \<Rightarrow> string \<Rightarrow> string option \<Rightarrow> bool" where
  "requeues c author_kind author_ref \<longleftrightarrow>
     author_kind = ''person'' \<and> c_status c \<in> PENDING \<and> (author_ref = None \<or> author_ref \<noteq> map_option fst (c_owner c))"

definition post_on_case :: "int list \<Rightarrow> noc_case \<Rightarrow> actor \<Rightarrow> string \<Rightarrow> string \<Rightarrow> seconds \<Rightarrow> noc_db \<Rightarrow> noc_db" where
  "post_on_case readers c who visibility body now db =
     (let db = noc_post readers (c_sid c) (actor_author who) visibility ''post'' (if strip body = [] then body else strip body) now db
      in if requeues c (ac_kind who) (Some (ac_ref who))
         then requeue (c_sid c) ''customer_post'' now (ac_name who @ '' posted.'') db else db)"

section \<open>One pass of the loop\<close>

definition CLOSE_AFTER_S :: seconds where
  "CLOSE_AFTER_S = 24 * 3600"

definition WHY_RESOLVED :: "(string \<times> string) list" where
  "WHY_RESOLVED =
    [(''operator'', ''an operator closed it''), (''self_cleared'', ''every alarm cleared, the network fixed it''),
     (''idle'', ''it went quiet and timed out''), (''merged'', ''it was merged into another situation''),
     (''manual_clear'', ''an operator hand-cleared the last active alarm''),
     (''unattributed'', ''it closed before this appliance recorded why'')]"

record tick_counts =
  t_dispatched :: nat
  t_requeued :: nat
  t_validate :: nat
  t_resolved :: nat
  t_closed :: nat
  t_raised :: nat
  t_told :: nat

definition no_counts :: tick_counts where
  "no_counts = \<lparr>t_dispatched = 0, t_requeued = 0, t_validate = 0, t_resolved = 0, t_closed = 0, t_raised = 0, t_told = 0\<rparr>"

definition tick_rising :: "seconds \<Rightarrow> int \<Rightarrow> tick_counts \<times> noc_db \<Rightarrow> tick_counts \<times> noc_db" where
  "tick_rising now sid s =
     (case s of (n, db) \<Rightarrow>
        let (r, db) = reprioritize sid now db in (if r = None then n else n\<lparr>t_raised := t_raised n + 1\<rparr>, db))"

definition tick_news :: "seconds \<Rightarrow> int \<times> News \<Rightarrow> tick_counts \<times> noc_db \<Rightarrow> tick_counts \<times> noc_db" where
  "tick_news now item s =
     (case (item, s) of ((sid, found), (n, db)) \<Rightarrow>
        let (r, db) = hearing_apply sid found now db
        in (case r of None \<Rightarrow> n | Some Requeued \<Rightarrow> n\<lparr>t_requeued := t_requeued n + 1\<rparr> | Some Told \<Rightarrow> n\<lparr>t_told := t_told n + 1\<rparr>, db))"

definition tick_fresh :: "(int \<Rightarrow> noc_db \<Rightarrow> bool) \<Rightarrow> seconds \<Rightarrow> int \<Rightarrow> tick_counts \<times> noc_db \<Rightarrow> tick_counts \<times> noc_db" where
  "tick_fresh automation now sid s =
     (case s of (n, db) \<Rightarrow>
        (case find_case sid db of
           None \<Rightarrow> (n, db)
         | Some c \<Rightarrow>
             if c_status c \<noteq> ''new'' then (n, db)
             else (n\<lparr>t_dispatched := t_dispatched n + 1\<rparr>, dispatch sid now (automation sid db) db)))"

definition tick_due :: "seconds \<Rightarrow> int \<Rightarrow> tick_counts \<times> noc_db \<Rightarrow> tick_counts \<times> noc_db" where
  "tick_due now sid s =
     (case s of (n, db) \<Rightarrow>
        (case find_case sid db of
           None \<Rightarrow> (n, db)
         | Some c \<Rightarrow>
             if c_status c \<notin> PENDING \<or> (case c_next_update c of None \<Rightarrow> True | Some t \<Rightarrow> t > now) then (n, db)
             else (n\<lparr>t_requeued := t_requeued n + 1\<rparr>, requeue sid ''next_update'' now [] db)))"

text \<open>A row of \<open>noc_cases_orphaned\<close>: the case and how its situation resolved.\<close>

definition tick_orphaned :: "seconds \<Rightarrow> int \<times> string option \<Rightarrow> tick_counts \<times> noc_db \<Rightarrow> tick_counts \<times> noc_db" where
  "tick_orphaned now row s =
     (case (row, s) of ((sid, resolution), (n, db)) \<Rightarrow>
        (case find_case sid db of
           None \<Rightarrow> (n, db)
         | Some c \<Rightarrow>
             if c_status c \<in> {''resolved'', ''closed'', ''validate''} then (n, db)
             else
               let said = (case map_of WHY_RESOLVED (case resolution of None \<Rightarrow> ''None'' | Some r \<Rightarrow> r) of
                             Some w \<Rightarrow> w
                           | None \<Rightarrow> (case resolution of None \<Rightarrow> ''closed'' | Some r \<Rightarrow> if r = [] then ''closed'' else r))
               in if resolution = Some ''merged''
                  then (n\<lparr>t_resolved := t_resolved n + 1\<rparr>, auto_resolve sid now ''merged'' ''its situation was merged'' db)
                  else if c_status c \<in> UNOWNED
                  then (n\<lparr>t_resolved := t_resolved n + 1\<rparr>,
                        auto_resolve sid now ''cleared'' (''the situation resolved: '' @ said) db)
                  else (n\<lparr>t_validate := t_validate n + 1\<rparr>, validate_case sid now said db)))"

definition tick_stale :: "seconds \<Rightarrow> int \<Rightarrow> tick_counts \<times> noc_db \<Rightarrow> tick_counts \<times> noc_db" where
  "tick_stale now sid s =
     (case s of (n, db) \<Rightarrow>
        (case find_case sid db of
           None \<Rightarrow> (n, db)
         | Some c \<Rightarrow>
             if c_status c = ''resolved'' then (n\<lparr>t_closed := t_closed n + 1\<rparr>, close_case sid now db) else (n, db)))"

record tick_reads =
  tr_fresh :: "int list"
  tr_due :: "int list"
  tr_orphaned :: "(int \<times> string option) list"
  tr_stale :: "int list"
  tr_rising :: "int list"
  tr_states :: "(int \<times> heard_alarm list) list"
  tr_heard :: "int \<rightharpoonup> (int \<times> heard) list"

text \<open>The reads of a pass; the orphaned rows and the alarm states join the Broker's tables and are
  arguments.\<close>

definition tick_read :: "seconds \<Rightarrow> bool \<Rightarrow> (int \<times> string option) list \<Rightarrow> (int \<times> heard_alarm list) list \<Rightarrow> noc_db \<Rightarrow> tick_reads" where
  "tick_read now reprio orphaned states db =
     \<lparr>tr_fresh = noc_cases_in ''new'' 200 db, tr_due = noc_cases_due now 200 db, tr_orphaned = orphaned,
      tr_stale = noc_cases_resolved_before (now - CLOSE_AFTER_S) 200 db,
      tr_rising = (if reprio then noc_cases_auto_priority 200 db else []),
      tr_states = (if reprio then states else []),
      tr_heard = (\<lambda>sid. if sid \<in> fst ` set (if reprio then states else [])
         then Some (map (\<lambda>((_, aid), h). (aid, h)) (filter (\<lambda>((s, _), _). s = sid) (n_heard db))) else None)\<rparr>"

definition tick_locked :: "(int \<Rightarrow> noc_db \<Rightarrow> bool) \<Rightarrow> seconds \<Rightarrow> seconds \<Rightarrow> tick_reads \<Rightarrow> noc_db \<Rightarrow> tick_counts \<times> noc_db" where
  "tick_locked automation read_at now reads db =
     (let rising = filter (\<lambda>sid. sid \<notin> set (tr_fresh reads)) (tr_rising reads);
          found = hearing_plan (tr_states reads) (tr_heard reads) read_at;
          s = (no_counts, db);
          s = fold (tick_rising now) rising s;
          s = fold (tick_news now) found s;
          s = fold (tick_fresh automation now) (tr_fresh reads) s;
          s = fold (tick_due now) (tr_due reads) s;
          s = fold (tick_orphaned now) (tr_orphaned reads) s
      in fold (tick_stale now) (tr_stale reads) s)"

end
