(* ===== verification/Noc_Org.thy ===== *)
theory Noc_Org
  imports Noc_Ops
begin

text \<open>
  The chain a case climbs: \<open>cycle\<close>, \<open>chain\<close> and \<open>subtree\<close> of \<open>engine/noc/agents.py\<close> and
  \<open>engine/noc/routing.py\<close>. The walk of \<open>escalate\<close> has no guard of its own against a loop of
  managers, so it is a partial function whose result is \<open>None\<close> when it does not return; that it
  returns is proved for every organization that \<open>cycle\<close> lets be built.
\<close>

type_synonym organization = "(int \<times> noc_agent) list"

definition manager_of :: "organization \<Rightarrow> int \<Rightarrow> int option" where
  "manager_of agents a = Option.bind (map_of agents a) ag_reports_to"

function cycle_from :: "organization \<Rightarrow> int set \<Rightarrow> int option \<Rightarrow> bool" where
  "cycle_from agents seen current =
     (case current of
        None \<Rightarrow> False
      | Some c \<Rightarrow> if c \<in> seen then True else cycle_from agents (insert c seen) (manager_of agents c))"
  by auto
termination
proof (relation "measure (\<lambda>(agents, seen, current).
    case current of None \<Rightarrow> 0 | Some c \<Rightarrow> Suc (card (fst ` set agents - seen)))")
  fix agents :: organization and seen :: "int set" and current c
  assume "current = Some c" and new: "c \<notin> seen"
  show "((agents, insert c seen, manager_of agents c), agents, seen, current)
      \<in> measure (\<lambda>(agents, seen, current). case current of None \<Rightarrow> 0 | Some c \<Rightarrow> Suc (card (fst ` set agents - seen)))"
  proof (cases "manager_of agents c")
    case None
    with \<open>current = Some c\<close> show ?thesis by simp
  next
    case (Some b)
    then have "c \<in> fst ` set agents"
      by (auto simp: manager_of_def bind_eq_Some_conv dest: map_of_SomeD intro: rev_image_eqI)
    then have "card (fst ` set agents - insert c seen) < card (fst ` set agents - seen)"
      using new by (intro psubset_card_mono) auto
    with Some \<open>current = Some c\<close> show ?thesis by simp
  qed
qed simp

declare cycle_from.simps [simp del]

definition cycle :: "organization \<Rightarrow> int \<Rightarrow> int option \<Rightarrow> bool" where
  "cycle agents agent_id reports_to = cycle_from agents {agent_id} reports_to"

function chain_from :: "organization \<Rightarrow> int \<Rightarrow> int list \<Rightarrow> int option \<Rightarrow> int list" where
  "chain_from agents agent_id out current =
     (case current of
        None \<Rightarrow> out
      | Some c \<Rightarrow>
          if c \<in> set out \<or> c = agent_id then out
          else chain_from agents agent_id (out @ [c]) (manager_of agents c))"
  by auto
termination
proof (relation "measure (\<lambda>(agents, agent_id, out, current).
    case current of None \<Rightarrow> 0 | Some c \<Rightarrow> Suc (card (fst ` set agents - set out)))")
  fix agents :: organization and agent_id :: int and out current c
  assume "current = Some c" and new: "\<not> (c \<in> set out \<or> c = agent_id)"
  show "((agents, agent_id, out @ [c], manager_of agents c), agents, agent_id, out, current)
      \<in> measure (\<lambda>(agents, agent_id, out, current). case current of None \<Rightarrow> 0 | Some c \<Rightarrow> Suc (card (fst ` set agents - set out)))"
  proof (cases "manager_of agents c")
    case None
    with \<open>current = Some c\<close> show ?thesis by simp
  next
    case (Some b)
    then have "c \<in> fst ` set agents"
      by (auto simp: manager_of_def bind_eq_Some_conv dest: map_of_SomeD intro: rev_image_eqI)
    then have "card (fst ` set agents - set (out @ [c])) < card (fst ` set agents - set out)"
      using new by (intro psubset_card_mono) auto
    with Some \<open>current = Some c\<close> show ?thesis by simp
  qed
qed simp

declare chain_from.simps [simp del]

definition chain :: "organization \<Rightarrow> int \<Rightarrow> int list" where
  "chain agents agent_id = chain_from agents agent_id [] (manager_of agents agent_id)"

section \<open>Routing\<close>

partial_function (option) climb :: "organization \<Rightarrow> int option \<Rightarrow> noc_agent option option" where
  "climb everyone boss =
     (case boss of
        None \<Rightarrow> Some None
      | Some b \<Rightarrow>
          (case map_of everyone b of
             None \<Rightarrow> Some None
           | Some manager \<Rightarrow>
               if ag_status manager \<in> WORKING_AGENT then Some (Some manager)
               else climb everyone (ag_reports_to manager)))"

definition assign :: "noc_case \<Rightarrow> noc_agent \<Rightarrow> actor \<Rightarrow> seconds \<Rightarrow> string \<Rightarrow> int option \<Rightarrow> bool \<Rightarrow> string \<Rightarrow> noc_db
    \<Rightarrow> case_error + noc_db" where
  "assign c agent who now trigger tier escalated note db =
     (let sid = c_sid c
      in if c_status c \<in> {''resolved'', ''closed''} then Inl (CaseError 409)
         else if ag_status agent \<notin> WORKING_AGENT then Inl (CaseError 409)
         else
           let level = max (if c_tier c = 0 then 1 else c_tier c)
                 (case tier of None \<Rightarrow> ag_tier agent | Some t \<Rightarrow> if t = 0 then ag_tier agent else t);
               db = noc_case_assign sid (Some (ag_id agent)) now (Some level) escalated False db;
               text = strip ((if escalated then ''Escalated'' else ''Assigned'') @ '' to '' @ ag_name agent
                 @ '' -- With NOC Tier '' @ digits (nat level) @ ''. '' @ note);
               db = case_event sid text now who db
           in Inr (if ag_wake_on_assignment agent \<and> ag_adapter agent \<noteq> ''external''
                   then noc_wake (ag_id agent) trigger (Some sid) (ac_ref who) now db else db))"

definition with_people :: "noc_case \<Rightarrow> actor \<Rightarrow> seconds \<Rightarrow> string \<Rightarrow> noc_db \<Rightarrow> noc_db" where
  "with_people c who now why db =
     (let sid = c_sid c;
          db = (if c_status c = ''working'' \<and> (\<exists>r n. c_owner c = Some (r, n, ''agent''))
                then snd (noc_case_enqueue sid ''escalated'' now (noc_cycle_left sid now db)) else db);
          db = noc_case_assign sid None now None True True db
      in case_event sid (''Escalated to the NOC team: '' @ why) now who db)"

text \<open>\<open>None\<close>: the walk up does not return.\<close>

definition escalate :: "noc_case \<Rightarrow> organization \<Rightarrow> actor \<Rightarrow> seconds \<Rightarrow> string \<Rightarrow> noc_db
    \<Rightarrow> (case_error + string \<times> noc_db) option" where
  "escalate c everyone who now why db =
     (let boss = (case c_agent_id c of None \<Rightarrow> None | Some a \<Rightarrow> manager_of everyone a)
      in case climb everyone boss of
           None \<Rightarrow> None
         | Some None \<Rightarrow> Some (Inr (''the NOC team'', with_people c who now why db))
         | Some (Some manager) \<Rightarrow>
             let tier = min 4 ((if c_tier c = 0 then 1 else c_tier c) + 1)
             in Some (case assign c manager who now ''escalation'' (Some (max tier (ag_tier manager))) True why db of
                        Inl e \<Rightarrow> Inl e
                      | Inr db \<Rightarrow> Inr (ag_name manager, db)))"

definition pick_entry :: "organization \<Rightarrow> (int \<rightharpoonup> int) \<Rightarrow> noc_agent option" where
  "pick_entry everyone loads =
     (let load = (\<lambda>a. (case loads (ag_id a) of None \<Rightarrow> 0 | Some n \<Rightarrow> n, ag_id a))
      in case sort_key load (filter (\<lambda>a. ag_entry a \<and> ag_status a \<in> WORKING_AGENT) (map snd everyone)) of
           [] \<Rightarrow> None | a # _ \<Rightarrow> Some a)"

definition tier_label :: "int option \<Rightarrow> bool \<Rightarrow> string" where
  "tier_label tier with_team =
     (if with_team then ''With the NOC team''
      else ''With NOC Tier '' @ digits (nat (case tier of None \<Rightarrow> 1 | Some t \<Rightarrow> if t = 0 then 1 else t)))"

section \<open>The organization is a forest\<close>

definition reports :: "organization \<Rightarrow> (int \<times> int) set" where
  "reports agents = {(a, b). manager_of agents a = Some b}"

definition set_manager :: "organization \<Rightarrow> int \<Rightarrow> int option \<Rightarrow> organization" where
  "set_manager agents a boss =
     (case map_of agents a of None \<Rightarrow> agents | Some ag \<Rightarrow> AList.update a (ag\<lparr>ag_reports_to := boss\<rparr>) agents)"

lemma reports_dom: "(a, b) \<in> reports agents \<Longrightarrow> a \<in> fst ` set agents"
  by (auto simp: reports_def manager_of_def bind_eq_Some_conv dest: map_of_SomeD intro: rev_image_eqI)

lemma finite_reports: "finite (reports agents)"
proof -
  have "reports agents \<subseteq> (\<lambda>a. (a, the (manager_of agents a))) ` (fst ` set agents)"
  proof
    fix p
    assume p: "p \<in> reports agents"
    obtain a b where "p = (a, b)"
      by (cases p)
    with p reports_dom [of a b agents] show "p \<in> (\<lambda>a. (a, the (manager_of agents a))) ` (fst ` set agents)"
      by (auto simp: reports_def)
  qed
  then show ?thesis
    by (rule finite_subset) simp
qed

lemma cycle_from_iff:
  "acyclic (reports agents) \<Longrightarrow>
   cycle_from agents seen current \<longleftrightarrow> (\<exists>c x. current = Some c \<and> (c, x) \<in> (reports agents)\<^sup>* \<and> x \<in> seen)"
proof (induction agents seen current rule: cycle_from.induct)
  case (1 agents seen current)
  show ?case
  proof (cases current)
    case None
    then show ?thesis by (simp add: cycle_from.simps)
  next
    case (Some c)
    show ?thesis
    proof (cases "c \<in> seen")
      case True
      with Some show ?thesis
        by (auto simp: cycle_from.simps)
    next
      case False
      have IH: "cycle_from agents (insert c seen) (manager_of agents c) \<longleftrightarrow>
          (\<exists>d x. manager_of agents c = Some d \<and> (d, x) \<in> (reports agents)\<^sup>* \<and> x \<in> insert c seen)"
        by (rule 1(1) [OF Some False 1(2)])
      have no_loop: "(d, c) \<notin> (reports agents)\<^sup>*" if "manager_of agents c = Some d" for d
      proof
        assume "(d, c) \<in> (reports agents)\<^sup>*"
        moreover have "(c, d) \<in> reports agents"
          using that by (simp add: reports_def)
        ultimately have "(c, c) \<in> (reports agents)\<^sup>+"
          by (rule rtrancl_into_trancl2 [rotated])
        then show False
          using 1(2) by (simp add: acyclic_def)
      qed
      have "(\<exists>d x. manager_of agents c = Some d \<and> (d, x) \<in> (reports agents)\<^sup>* \<and> x \<in> insert c seen) \<longleftrightarrow>
          (\<exists>x. (c, x) \<in> (reports agents)\<^sup>* \<and> x \<in> seen)"
      proof
        assume "\<exists>d x. manager_of agents c = Some d \<and> (d, x) \<in> (reports agents)\<^sup>* \<and> x \<in> insert c seen"
        then obtain d x where d: "manager_of agents c = Some d" "(d, x) \<in> (reports agents)\<^sup>*" "x \<in> insert c seen"
          by blast
        then have "x \<in> seen" "(c, d) \<in> reports agents"
          using no_loop by (auto simp: reports_def)
        with d(2) show "\<exists>x. (c, x) \<in> (reports agents)\<^sup>* \<and> x \<in> seen"
          by (meson converse_rtrancl_into_rtrancl)
      next
        assume "\<exists>x. (c, x) \<in> (reports agents)\<^sup>* \<and> x \<in> seen"
        then obtain x where x: "(c, x) \<in> (reports agents)\<^sup>*" "x \<in> seen"
          by blast
        with False have "x \<noteq> c" by auto
        with x(1) obtain d where "(c, d) \<in> reports agents" "(d, x) \<in> (reports agents)\<^sup>*"
          by (metis converse_rtranclE)
        with x(2) show "\<exists>d x. manager_of agents c = Some d \<and> (d, x) \<in> (reports agents)\<^sup>* \<and> x \<in> insert c seen"
          by (auto simp: reports_def)
      qed
      with IH Some False show ?thesis
        by (simp add: cycle_from.simps [of agents seen "Some c"])
    qed
  qed
qed

lemma reports_set_manager:
  assumes "a \<in> fst ` set agents"
  shows "reports (set_manager agents a boss) =
    (reports agents - {a} \<times> UNIV) \<union> (case boss of None \<Rightarrow> {} | Some b \<Rightarrow> {(a, b)})"
proof -
  obtain ag where ag: "map_of agents a = Some ag"
    using assms by (cases "map_of agents a") (auto simp: map_of_eq_None_iff)
  have m: "manager_of (set_manager agents a boss) x = (if x = a then boss else manager_of agents x)" for x
    by (simp add: manager_of_def set_manager_def ag update_conv')
  show ?thesis
    by (auto simp: reports_def m split: option.splits if_splits)
qed

lemma rtrancl_avoid:
  assumes "(r, a) \<in> R\<^sup>*"
  shows "(r, a) \<in> (R - {a} \<times> UNIV)\<^sup>*"
  using assms
proof (induction rule: converse_rtrancl_induct)
  case (step y z)
  then show ?case
    by (cases "y = a") (auto intro: converse_rtrancl_into_rtrancl)
qed simp

lemma cycle_guard:
  assumes "acyclic (reports agents)" and "a \<in> fst ` set agents"
  shows "\<not> cycle agents a boss \<longleftrightarrow> acyclic (reports (set_manager agents a boss))"
proof (cases boss)
  case None
  then have "acyclic (reports (set_manager agents a boss))"
    using assms by (auto simp: reports_set_manager intro: acyclic_subset)
  with None show ?thesis
    by (simp add: cycle_def cycle_from.simps)
next
  case (Some b)
  let ?R = "reports agents - {a} \<times> UNIV"
  have ac: "acyclic ?R"
    using assms(1) by (rule acyclic_subset) blast
  have "cycle agents a boss \<longleftrightarrow> (b, a) \<in> (reports agents)\<^sup>*"
    using cycle_from_iff [OF assms(1), of "{a}" boss] by (auto simp: cycle_def Some)
  also have "\<dots> \<longleftrightarrow> (b, a) \<in> ?R\<^sup>*"
    using rtrancl_avoid [of b a "reports agents"] rtrancl_mono [of ?R "reports agents"] by blast
  finally show ?thesis
    using reports_set_manager [OF assms(2), of boss] ac acyclic_insert [of a b ?R] by (simp add: Some)
qed

lemma climb_returns:
  assumes "acyclic (reports agents)"
  shows "\<exists>m. climb agents boss = Some m"
proof -
  have "wf ((reports agents)\<inverse>)"
    using finite_acyclic_wf_converse [OF finite_reports assms] .
  then have "\<exists>m. climb agents (Some b) = Some m" for b
  proof (induction b rule: wf_induct_rule)
    case (less b)
    show ?case
    proof (cases "map_of agents b")
      case None
      then show ?thesis by (simp add: climb.simps)
    next
      case (Some ag)
      show ?thesis
      proof (cases "ag_reports_to ag")
        case None
        with Some show ?thesis
          by (simp add: climb.simps)
      next
        case (Some d)
        with \<open>map_of agents b = Some ag\<close> have "(d, b) \<in> (reports agents)\<inverse>"
          by (simp add: reports_def manager_of_def)
        with less.IH [of d] Some \<open>map_of agents b = Some ag\<close> show ?thesis
          by (simp add: climb.simps [of agents "Some b"])
      qed
    qed
  qed
  then show ?thesis
    by (cases boss) (auto simp: climb.simps)
qed

text \<open>Every organization built from the empty one by hiring agents who have no subordinates yet and by
  changes of manager that \<open>cycle\<close> accepts.\<close>

inductive built :: "organization \<Rightarrow> bool" where
  nobody: "built []"
| hired: "built agents \<Longrightarrow> a \<notin> fst ` set agents \<Longrightarrow> a \<notin> Range (reports agents) \<Longrightarrow> \<not> cycle agents a (ag_reports_to ag)
    \<Longrightarrow> built ((a, ag) # agents)"
| moved: "built agents \<Longrightarrow> a \<in> fst ` set agents \<Longrightarrow> \<not> cycle agents a boss \<Longrightarrow> built (set_manager agents a boss)"
| changed: "built agents \<Longrightarrow> map_of agents a = Some ag \<Longrightarrow> ag_reports_to ag' = ag_reports_to ag
    \<Longrightarrow> built (AList.update a ag' agents)"

lemma built_acyclic: "built agents \<Longrightarrow> acyclic (reports agents)"
proof (induction rule: built.induct)
  case nobody
  show ?case
    by (simp add: reports_def manager_of_def acyclic_def)
next
  case (hired agents a ag)
  have r: "reports ((a, ag) # agents) = reports agents \<union> (case ag_reports_to ag of None \<Rightarrow> {} | Some b \<Rightarrow> {(a, b)})"
    using hired.hyps(2) reports_dom [of a _ agents]
    by (auto simp: reports_def manager_of_def split: option.splits if_splits)
  show ?case
  proof (cases "ag_reports_to ag")
    case None
    with r hired.IH show ?thesis by simp
  next
    case (Some b)
    then have "(b, a) \<notin> (reports agents)\<^sup>*"
      using cycle_from_iff [OF hired.IH, of "{a}" "ag_reports_to ag"] hired.hyps(4) by (auto simp: cycle_def)
    with r Some hired.IH show ?thesis
      by (simp add: acyclic_insert)
  qed
next
  case (moved agents a boss)
  then show ?case
    by (simp add: cycle_guard)
next
  case (changed agents a ag ag')
  then have "reports (AList.update a ag' agents) = reports agents"
    by (auto simp: reports_def manager_of_def update_conv' split: if_splits)
  with changed.IH show ?case by simp
qed

section \<open>Properties\<close>

text \<open>\<open>cycle\<close> refuses exactly the changes of manager that would make a loop. In an organization
  without loops, for an agent of it and any new manager (or none), the check is false exactly when the
  organization after the change has no loop.\<close>

theorem cycle_refuses_exactly_loops:
  assumes "acyclic (reports agents)" and "a \<in> fst ` set agents"
  shows "\<not> cycle agents a boss \<longleftrightarrow> acyclic (reports (set_manager agents a boss))"
  using assms by (rule cycle_guard)

definition agent_row :: "int \<Rightarrow> int option \<Rightarrow> string \<Rightarrow> noc_agent" where
  "agent_row a boss status = \<lparr>ag_id = a, ag_name = ''agent'', ag_status = status, ag_tier = 1, ag_reports_to = boss,
     ag_entry = True, ag_wake_on_assignment = True, ag_adapter = ''claude'', ag_escalate_after = None,
     ag_heartbeat = 0, ag_run_timeout = 3600, ag_last_run_at = None, ag_budget_cents = 0, ag_spent_cents = 0,
     ag_spend_month = [], ag_reason = None\<rparr>"

theorem cycle_refuses_exactly_loops_witness:
  "\<not> acyclic (reports (set_manager [(1, agent_row 1 None ''idle''), (2, agent_row 2 (Some 1) ''idle'')] 1 (Some 2)))"
proof -
  let ?o = "[(1, agent_row 1 None ''idle''), (2, agent_row 2 (Some 1) ''idle'')]"
  have "reports ?o = {(2, 1)}"
    by (auto simp: reports_def manager_of_def agent_row_def split: if_splits)
  then have ac: "acyclic (reports ?o)"
    by (simp add: acyclic_insert) (simp add: acyclic_def)
  have "cycle ?o 1 (Some 2)"
    by (simp add: cycle_def cycle_from.simps manager_of_def agent_row_def)
  with cycle_refuses_exactly_loops [OF ac, of 1 "Some 2"] show ?thesis
    by simp
qed

text \<open>C23: an escalation always returns. In every organization built by hiring and by changes of manager
  that \<open>cycle\<close> accepted, whatever the statuses of the agents, the walk up the chain ends, so
  \<open>escalate\<close> has a result.\<close>

theorem escalate_returns:
  assumes "built everyone"
  shows "\<exists>result. escalate c everyone who now why db = Some result"
proof -
  obtain m where "climb everyone (case c_agent_id c of None \<Rightarrow> None | Some a \<Rightarrow> manager_of everyone a) = Some m"
    using climb_returns [OF built_acyclic [OF assms]] by blast
  then show ?thesis
    by (cases m) (simp_all add: escalate_def Let_def)
qed

theorem escalate_returns_witness:
  "\<forall>c who now why db. \<exists>result. escalate c [(1, agent_row 1 None ''paused'')] who now why db = Some result"
proof -
  have "built [(1, agent_row 1 None ''paused'')]"
    by (rule built.hired [OF built.nobody])
      (simp_all add: reports_def manager_of_def cycle_def cycle_from.simps agent_row_def)
  then show ?thesis
    by (intro allI escalate_returns)
qed

end
