(* ===== verification/Noc_Runs.thy ===== *)
theory Noc_Runs
  imports Noc_Org
begin

text \<open>
  The agents' runs: the run rows of \<open>store/noc_agents.py\<close> and the agent loop of
  \<open>engine/noc/agent_loop.py\<close>. The loop reads without the lock and acts under it, so what it read
  is an argument of the locked part, as for the case loop. What a runner or a delivery answers (code
  that talks to a provider or to an agent elsewhere) is an argument.
\<close>

section \<open>Agents\<close>

definition update_agent :: "int \<Rightarrow> (noc_agent \<Rightarrow> noc_agent) \<Rightarrow> noc_db \<Rightarrow> noc_db" where
  "update_agent a f db = db\<lparr>n_agents := map (\<lambda>(k, ag). (k, if k = a then f ag else ag)) (n_agents db)\<rparr>"

definition noc_set_agent_status :: "int \<Rightarrow> string \<Rightarrow> string option \<Rightarrow> noc_db \<Rightarrow> noc_db" where
  "noc_set_agent_status a status reason =
     update_agent a (\<lambda>ag. ag\<lparr>ag_status := status,
       ag_reason := (if status \<in> {''paused'', ''error''} then reason else None)\<rparr>)"

definition noc_agent_spend :: "int \<Rightarrow> real \<Rightarrow> string \<Rightarrow> noc_db \<Rightarrow> real \<times> noc_db" where
  "noc_agent_spend a cents month db =
     (let db = update_agent a (\<lambda>ag. ag\<lparr>ag_spent_cents := (if ag_spend_month ag = month then ag_spent_cents ag + cents else cents),
                  ag_spend_month := month\<rparr>) db
      in (case map_of (n_agents db) a of None \<Rightarrow> 0 | Some ag \<Rightarrow> ag_spent_cents ag, db))"

definition noc_agents_heartbeat_due :: "seconds \<Rightarrow> noc_db \<Rightarrow> int list" where
  "noc_agents_heartbeat_due now db =
     sort (map ag_id (filter (\<lambda>ag. ag_heartbeat ag > 0 \<and> ag_status ag = ''idle'' \<and> ag_adapter ag \<noteq> ''external''
       \<and> (case ag_last_run_at ag of None \<Rightarrow> True | Some t \<Rightarrow> t + of_int (ag_heartbeat ag) \<le> now)) (map snd (n_agents db))))"

section \<open>Runs\<close>

definition find_run :: "int \<Rightarrow> noc_db \<Rightarrow> noc_run option" where
  "find_run r db = find (\<lambda>x. run_id x = r) (n_runs db)"

definition update_run :: "int \<Rightarrow> (noc_run \<Rightarrow> noc_run) \<Rightarrow> noc_db \<Rightarrow> noc_db" where
  "update_run r f db = db\<lparr>n_runs := map (\<lambda>x. if run_id x = r then f x else x) (n_runs db)\<rparr>"

text \<open>An agent that starts a run is running, unless it was paused or retired.\<close>

definition agent_started :: "int \<Rightarrow> seconds \<Rightarrow> noc_db \<Rightarrow> noc_db" where
  "agent_started a now =
     update_agent a (\<lambda>ag. if ag_status ag \<in> {''idle'', ''error''}
       then ag\<lparr>ag_status := ''running'', ag_last_run_at := Some now\<rparr> else ag)"

definition noc_agent_run_external :: "int \<Rightarrow> seconds \<Rightarrow> noc_db \<Rightarrow> int \<times> noc_db" where
  "noc_agent_run_external a now db =
     (n_next_run db,
      agent_started a now (db\<lparr>n_runs := n_runs db @ [\<lparr>run_id = n_next_run db, run_agent = a, run_trigger = ''external'',
         run_situation = None, run_status = ''running'', run_queued_at = now, run_started_at = Some now,
         run_ended_at = None, run_by = ''mcp'', run_summary = [], run_error = [], run_input = 0, run_output = 0,
         run_cost = 0, run_tool_calls = 0\<rparr>], n_next_run := n_next_run db + 1\<rparr>))"

definition noc_agent_run_active :: "int \<Rightarrow> noc_db \<Rightarrow> noc_run option" where
  "noc_agent_run_active a db =
     (case sort_key (\<lambda>r. - run_id r) (filter (\<lambda>r. run_agent r = a \<and> run_status r = ''running'') (n_runs db)) of
        [] \<Rightarrow> None | r # _ \<Rightarrow> Some r)"

definition noc_agent_runs_ready :: "nat \<Rightarrow> noc_db \<Rightarrow> noc_run list" where
  "noc_agent_runs_ready limit db =
     take limit (sort_key run_id (filter (\<lambda>r. run_status r = ''queued''
        \<and> (case map_of (n_agents db) (run_agent r) of None \<Rightarrow> False | Some ag \<Rightarrow> ag_status ag \<in> {''idle'', ''error''})
        \<and> \<not> list_ex (\<lambda>x. run_agent x = run_agent r \<and> run_status x = ''running'') (n_runs db)) (n_runs db)))"

definition noc_agent_run_start :: "int \<Rightarrow> seconds \<Rightarrow> noc_db \<Rightarrow> noc_db" where
  "noc_agent_run_start r now db =
     (let db = update_run r (\<lambda>x. x\<lparr>run_status := ''running'', run_started_at := Some now\<rparr>) db
      in case find_run r db of None \<Rightarrow> db | Some x \<Rightarrow> agent_started (run_agent x) now db)"

definition noc_agent_run_finish ::
  "int \<Rightarrow> string \<Rightarrow> seconds \<Rightarrow> string \<Rightarrow> string \<Rightarrow> int \<times> int \<times> real \<Rightarrow> noc_db \<Rightarrow> bool \<times> noc_db" where
  "noc_agent_run_finish r status now summary err usage db =
     (case find_run r db of
        None \<Rightarrow> (False, db)
      | Some x \<Rightarrow>
          if run_status x \<notin> {''queued'', ''running''} then (False, db)
          else
            (True, update_agent (run_agent x) (\<lambda>ag. if ag_status ag = ''running'' then ag\<lparr>ag_status := ''idle''\<rparr> else ag)
              (update_run r (\<lambda>x. x\<lparr>run_status := status, run_ended_at := Some now, run_summary := take 8000 summary,
                 run_error := take 2000 err, run_input := run_input x + fst usage,
                 run_output := run_output x + fst (snd usage), run_cost := run_cost x + snd (snd usage)\<rparr>) db)))"

definition noc_agent_run_step :: "int \<Rightarrow> string \<Rightarrow> string \<Rightarrow> bool \<Rightarrow> string \<Rightarrow> seconds \<Rightarrow> noc_db \<Rightarrow> noc_db" where
  "noc_agent_run_step r kind name ok detail now db =
     (let db = db\<lparr>n_steps := n_steps db @ [\<lparr>st_run = r, st_at = now, st_kind = kind, st_name = take 120 name, st_ok = ok,
                 st_detail = take 4000 detail\<rparr>]\<rparr>
      in if kind = ''tool'' then update_run r (\<lambda>x. x\<lparr>run_tool_calls := run_tool_calls x + 1\<rparr>) db else db)"

text \<open>A run that has no start time is never overdue: the comparison with a missing value is not true.\<close>

definition last_step :: "int \<Rightarrow> noc_db \<Rightarrow> seconds option" where
  "last_step r db =
     (case map st_at (filter (\<lambda>s. st_run s = r) (n_steps db)) of [] \<Rightarrow> None | t # ts \<Rightarrow> Some (fold max ts t))"

definition noc_agent_runs_overdue :: "seconds \<Rightarrow> noc_db \<Rightarrow> noc_run list" where
  "noc_agent_runs_overdue now db =
     filter (\<lambda>r. run_status r = ''running''
       \<and> (case map_of (n_agents db) (run_agent r) of
            None \<Rightarrow> False
          | Some ag \<Rightarrow>
              (if run_trigger r = ''external''
               then (case (case last_step (run_id r) db of None \<Rightarrow> run_started_at r | Some t \<Rightarrow> Some t) of
                       None \<Rightarrow> False | Some t \<Rightarrow> now > t + 300)
               else (case run_started_at r of None \<Rightarrow> False | Some t \<Rightarrow> now > t + of_int (ag_run_timeout ag))))) (n_runs db)"

section \<open>The agent loop\<close>

definition ESCALATE_EVERY_S :: "string \<Rightarrow> int" where
  "ESCALATE_EVERY_S p = (if p = ''critical'' then 1800 else if p = ''major'' then 3600 else 7200)"

definition escalate_after :: "noc_agent \<Rightarrow> string \<Rightarrow> int" where
  "escalate_after ag priority =
     (case ag_escalate_after ag of None \<Rightarrow> ESCALATE_EVERY_S priority | Some n \<Rightarrow> if n = 0 then ESCALATE_EVERY_S priority else n)"

definition noc_cases_unrouted :: "nat \<Rightarrow> noc_db \<Rightarrow> int list" where
  "noc_cases_unrouted limit db =
     take limit (map c_sid (sort_key (\<lambda>c. (c_status_at c, c_sid c))
       (filter (\<lambda>c. c_status c = ''queue'' \<and> c_agent_id c = None \<and> \<not> c_with_people c) (n_cases db))))"

definition noc_cases_routed :: "nat \<Rightarrow> noc_db \<Rightarrow> noc_case list" where
  "noc_cases_routed limit db =
     take limit (sort_key (\<lambda>c. (the (c_assigned_at c), c_sid c))
       (filter (\<lambda>c. c_agent_id c \<noteq> None \<and> c_status c \<in> {''new'', ''auto'', ''queue'', ''working''}) (n_cases db)))"

definition noc_agent_loads :: "noc_db \<Rightarrow> int \<rightharpoonup> int" where
  "noc_agent_loads db = (\<lambda>a.
     (case filter (\<lambda>c. c_agent_id c = Some a \<and> c_status c \<notin> {''resolved'', ''closed''}) (n_cases db) of
        [] \<Rightarrow> None | cs \<Rightarrow> Some (int (length cs))))"

definition climb_reason :: "noc_case \<Rightarrow> organization \<Rightarrow> seconds \<Rightarrow> string option" where
  "climb_reason c everyone now =
     (if prefix ''user:'' (case c_owner c of None \<Rightarrow> [] | Some (ref, _) \<Rightarrow> ref) then None
      else
        case map_of everyone (the (c_agent_id c)) of
          None \<Rightarrow> Some ''its agent left the NOC''
        | Some ag \<Rightarrow>
            if ag_status ag = ''paused'' then Some (ag_name ag @ '' is paused'')
            else
              let limit = escalate_after ag (c_priority c)
              in if now - the (c_assigned_at c) > of_int limit
                 then Some (''not concluded by '' @ ag_name ag @ '' within '' @ digits (nat (limit div 60)) @ '' minutes'')
                 else None)"

record agent_reads =
  ar_everyone :: organization
  ar_unrouted :: "int list"
  ar_climbing :: "(noc_case \<times> string) list"
  ar_due :: "int list"
  ar_overdue :: "noc_run list"
  ar_loads :: "int \<rightharpoonup> int"

definition hired_agents :: "noc_db \<Rightarrow> organization" where
  "hired_agents db = filter (\<lambda>(_, ag). ag_status ag \<noteq> ''terminated'') (n_agents db)"

definition agent_tick_read :: "seconds \<Rightarrow> noc_db \<Rightarrow> agent_reads" where
  "agent_tick_read now db =
     (let everyone = hired_agents db
      in \<lparr>ar_everyone = everyone, ar_unrouted = (if everyone = [] then [] else noc_cases_unrouted 100 db),
          ar_climbing = concat (map (\<lambda>c. case climb_reason c everyone now of None \<Rightarrow> [] | Some why \<Rightarrow> [(c, why)])
            (noc_cases_routed 500 db)),
          ar_due = noc_agents_heartbeat_due now db, ar_overdue = noc_agent_runs_overdue now db,
          ar_loads = noc_agent_loads db\<rparr>)"

definition route_one :: "organization \<Rightarrow> seconds \<Rightarrow> int \<Rightarrow> (int \<rightharpoonup> int) \<times> noc_db \<Rightarrow> case_error + ((int \<rightharpoonup> int) \<times> noc_db)" where
  "route_one everyone now sid s =
     (case s of (loads, db) \<Rightarrow>
        (case (pick_entry everyone loads, find_case sid db) of
           (Some entry, Some c) \<Rightarrow>
             if c_status c \<noteq> ''queue'' \<or> (case c_agent_id c of None \<Rightarrow> False | Some a \<Rightarrow> a \<noteq> 0) then Inr (loads, db)
             else (case assign c entry SYSTEM now ''assignment'' None False ''Routed from the queue.'' db of
                     Inl e \<Rightarrow> Inl e
                   | Inr db \<Rightarrow> Inr (loads(ag_id entry \<mapsto> (case loads (ag_id entry) of None \<Rightarrow> 0 | Some n \<Rightarrow> n) + 1), db))
         | _ \<Rightarrow> Inr (loads, db)))"

definition climb_one :: "organization \<Rightarrow> seconds \<Rightarrow> noc_case \<times> string \<Rightarrow> noc_db \<Rightarrow> (case_error + noc_db) option" where
  "climb_one everyone now row db =
     (case find_case (c_sid (fst row)) db of
        None \<Rightarrow> Some (Inr db)
      | Some c \<Rightarrow>
          if c_agent_id c \<noteq> c_agent_id (fst row) \<or> c_with_people c then Some (Inr db)
          else map_option (map_sum id snd) (escalate c everyone SYSTEM now (snd row) db))"

fun routed_all :: "organization \<Rightarrow> seconds \<Rightarrow> int list \<Rightarrow> (int \<rightharpoonup> int) \<times> noc_db \<Rightarrow> case_error + ((int \<rightharpoonup> int) \<times> noc_db)" where
  "routed_all everyone now [] s = Inr s"
| "routed_all everyone now (sid # sids) s =
     (case route_one everyone now sid s of Inl e \<Rightarrow> Inl e | Inr s' \<Rightarrow> routed_all everyone now sids s')"

fun climbed_all :: "organization \<Rightarrow> seconds \<Rightarrow> (noc_case \<times> string) list \<Rightarrow> noc_db \<Rightarrow> (case_error + noc_db) option" where
  "climbed_all everyone now [] db = Some (Inr db)"
| "climbed_all everyone now (row # rows) db =
     (case climb_one everyone now row db of
        None \<Rightarrow> None
      | Some (Inl e) \<Rightarrow> Some (Inl e)
      | Some (Inr db') \<Rightarrow> climbed_all everyone now rows db')"

definition time_out :: "seconds \<Rightarrow> noc_run \<Rightarrow> noc_db \<Rightarrow> noc_db" where
  "time_out now r db =
     (let (ended, db) = noc_agent_run_finish (run_id r) ''timed_out'' now [] ''past the agent's time limit'' (0, 0, 0) db
      in if ended then noc_agent_run_step (run_id r) ''error'' ''timeout'' False [] now db else db)"

text \<open>The locked part of \<open>tick\<close>: an error is not caught, and ends the pass.\<close>

definition agent_tick_locked :: "seconds \<Rightarrow> agent_reads \<Rightarrow> noc_db \<Rightarrow> (case_error + noc_db) option" where
  "agent_tick_locked now reads db =
     (case routed_all (ar_everyone reads) now (ar_unrouted reads) (ar_loads reads, db) of
        Inl e \<Rightarrow> Some (Inl e)
      | Inr (_, db) \<Rightarrow>
          (case climbed_all (ar_everyone reads) now (ar_climbing reads) db of
             None \<Rightarrow> None
           | Some (Inl e) \<Rightarrow> Some (Inl e)
           | Some (Inr db) \<Rightarrow>
               let db = fold (\<lambda>a. noc_wake a ''timer'' None ''system'' now) (ar_due reads) db;
                   db = fold (time_out now) (ar_overdue reads) db
               in Some (Inr db)))"

section \<open>Starting and ending runs\<close>

definition IN_PROCESS :: "string set" where
  "IN_PROCESS = {''claude'', ''openai''}"

text \<open>The locked section of \<open>start_ready\<close> for one run read as ready; the flag says whether a task
  is started for it. \<open>available\<close> says which runners are installed.\<close>

definition start_run :: "(string \<Rightarrow> bool) \<Rightarrow> organization \<Rightarrow> int set \<Rightarrow> seconds \<Rightarrow> noc_run \<Rightarrow> noc_db \<Rightarrow> bool \<times> noc_db" where
  "start_run available everyone running now r db =
     (case map_of everyone (run_agent r) of
        None \<Rightarrow> (False, db)
      | Some ag \<Rightarrow>
          if run_id r \<in> running then (False, db)
          else if ag_adapter ag \<in> IN_PROCESS \<and> \<not> available (ag_adapter ag)
          then (False, snd (noc_agent_run_finish (run_id r) ''failed'' now [] ''the adapter is not available'' (0, 0, 0) db))
          else (True, noc_agent_run_step (run_id r) ''wake'' (run_trigger r) True (run_trigger r) now
                  (noc_agent_run_start (run_id r) now db)))"

record run_outcome =
  o_status :: string
  o_summary :: string
  o_error :: string
  o_usage :: "int \<times> int \<times> real"

definition end_in_process :: "seconds \<Rightarrow> string \<Rightarrow> noc_run \<Rightarrow> noc_agent \<Rightarrow> run_outcome \<Rightarrow> noc_db \<Rightarrow> noc_db" where
  "end_in_process now month r ag out db =
     (let db = snd (noc_agent_run_finish (run_id r) (o_status out) now (o_summary out) (o_error out) (o_usage out) db);
          (spent, db) = noc_agent_spend (ag_id ag) (snd (snd (o_usage out))) month db
      in if ag_budget_cents ag \<noteq> 0 \<and> spent \<ge> of_int (ag_budget_cents ag)
         then noc_set_agent_status (ag_id ag) ''paused'' (Some ''its monthly budget is spent'') db else db)"

definition end_webhook :: "seconds \<Rightarrow> noc_run \<Rightarrow> noc_agent \<Rightarrow> bool \<Rightarrow> string \<Rightarrow> noc_db \<Rightarrow> noc_db" where
  "end_webhook now r ag ok detail db =
     (let db = noc_agent_run_step (run_id r) ''wake'' ''webhook'' ok detail now db
      in if ok then db
         else noc_set_agent_status (ag_id ag) ''error'' (Some (''wake-up failed: '' @ detail))
                (snd (noc_agent_run_finish (run_id r) ''failed'' now [] detail (0, 0, 0) db)))"

text \<open>A tool call over MCP joins the agent's running run, or opens one of its own.\<close>

definition record_call :: "int \<Rightarrow> string \<Rightarrow> bool \<Rightarrow> string \<Rightarrow> seconds \<Rightarrow> noc_db \<Rightarrow> noc_db" where
  "record_call a tool ok detail now db =
     (case noc_agent_run_active a db of
        Some r \<Rightarrow> noc_agent_run_step (run_id r) ''tool'' tool ok detail now db
      | None \<Rightarrow> let (r, db) = noc_agent_run_external a now db in noc_agent_run_step r ''tool'' tool ok detail now db)"

end
