(* ===== verification/Noc_Reach.thy ===== *)
theory Noc_Reach
  imports Noc_Invariant Noc_Loop Noc_Runs
begin

text \<open>
  That every act of the API, of the agents, of automation and of
  the loops keeps the invariant of the case store.
  Each act is given the row of the case, as its caller reads it under the lock; the loop's
  pass is given lists that may be out of date.
\<close>

section \<open>Each act keeps the invariant\<close>

lemma inv_at:
  assumes "noc_inv db" and "find_case sid db = Some c"
  shows "ids_ok db" "clocks_inv db" "sig sid db = Some (c_status c, c_owner c \<noteq> None)"
    "c_status c \<in> UNOWNED \<Longrightarrow> c_owner c = None" "c_status c = ''working'' \<Longrightarrow> c_owner c \<noteq> None"
    "count_cycles sid untaken db = (if c_status c = ''queue'' then 1 else 0)"
    "count_cycles sid being_worked db \<le> (if c_status c = ''working'' then 1 else 0)"
proof -
  have sig: "sig sid db = Some (c_status c, c_owner c \<noteq> None)"
    using assms(2) by (simp add: sig_def)
  have "sig_ok (Some (c_status c, c_owner c \<noteq> None)) (count_cycles sid untaken db) (count_cycles sid being_worked db)"
    using assms(1) unfolding noc_inv_def sig [symmetric] by blast
  then have ok: "(c_status c \<in> UNOWNED \<longrightarrow> \<not> c_owner c \<noteq> None) \<and> (c_status c = ''working'' \<longrightarrow> c_owner c \<noteq> None)
      \<and> count_cycles sid untaken db = (if c_status c = ''queue'' then 1 else 0)
      \<and> count_cycles sid being_worked db \<le> (if c_status c = ''working'' then 1 else 0)"
    unfolding sig_ok_def option.case prod.case .
  show "sig sid db = Some (c_status c, c_owner c \<noteq> None)"
    by (rule sig)
  show "c_status c \<in> UNOWNED \<Longrightarrow> c_owner c = None" "c_status c = ''working'' \<Longrightarrow> c_owner c \<noteq> None"
    "count_cycles sid untaken db = (if c_status c = ''queue'' then 1 else 0)"
    "count_cycles sid being_worked db \<le> (if c_status c = ''working'' then 1 else 0)"
    using ok by blast+
  show "ids_ok db" "clocks_inv db"
    using assms(1) unfolding noc_inv_def by blast+
qed

lemma inv_step:
  assumes "noc_inv db" and "ids_ok db'" and "clocks_inv db'"
    and "\<And>s. s \<noteq> sid \<Longrightarrow> sig s db' = sig s db"
    and "\<And>s. s \<noteq> sid \<Longrightarrow> count_cycles s untaken db' = count_cycles s untaken db"
    and "\<And>s. s \<noteq> sid \<Longrightarrow> count_cycles s being_worked db' = count_cycles s being_worked db"
    and "sig_ok (sig sid db') (count_cycles sid untaken db') (count_cycles sid being_worked db')"
  shows "noc_inv db'"
  unfolding noc_inv_def
proof (intro conjI allI)
  fix s
  show "sig_ok (sig s db') (count_cycles s untaken db') (count_cycles s being_worked db')"
    using assms(1,4-7) by (cases "s = sid") (simp_all add: noc_inv_def)
qed (fact assms)+

lemma inv_same:
  assumes "noc_inv db" and "ids_ok db'" and "clocks_inv db'" and "\<And>s. sig s db' = sig s db"
    and "\<And>s. count_cycles s untaken db' = count_cycles s untaken db"
    and "\<And>s. count_cycles s being_worked db' = count_cycles s being_worked db"
  shows "noc_inv db'"
  using assms by (simp add: noc_inv_def)

lemma reprioritize_inv: "noc_inv db \<Longrightarrow> noc_inv (snd (reprioritize sid now db))"
  by (rule inv_same) (simp_all add: noc_frame noc_inv_def)

lemma event_inv: "noc_inv db \<Longrightarrow> noc_inv (case_event sid b now who db)"
  by (rule inv_same) (simp_all add: noc_frame noc_inv_def)

lemma post_inv: "noc_inv db \<Longrightarrow> noc_inv (noc_post rs sid a v k b now db)"
  by (rule inv_same) (simp_all add: noc_frame noc_inv_def)

lemma wake_inv: "noc_inv db \<Longrightarrow> noc_inv (noc_wake ag tr si by now db)"
  by (rule inv_same) (simp_all add: noc_frame noc_inv_def)

lemma assign_inv: "noc_inv db \<Longrightarrow> noc_inv (noc_case_assign sid ag now tier esc wp db)"
  by (rule inv_same) (simp_all add: noc_frame noc_inv_def)

lemma fields_inv: "noc_inv db \<Longrightarrow> noc_inv (noc_case_set_fields sid fs now a db)"
  by (rule inv_same) (simp_all add: noc_frame noc_inv_def)

lemma documented_inv: "noc_inv db \<Longrightarrow> noc_inv (noc_cycle_documented sid now db)"
  by (rule inv_same) (simp_all add: noc_frame noc_inv_def)

lemma summaries_inv: "noc_inv db \<Longrightarrow> noc_inv (fold (\<lambda>(org, text). noc_case_set_summary sid org (strip text)) xs db)"
  by (rule inv_same) (simp_all add: noc_frame noc_inv_def)

lemma back_to_agent_inv: "noc_inv db \<Longrightarrow> noc_inv (snd (back_to_agent sid now db))"
  by (rule inv_same) (simp_all add: noc_frame noc_inv_def)

lemmas same_inv = reprioritize_inv event_inv post_inv wake_inv assign_inv fields_inv documented_inv summaries_inv
  back_to_agent_inv

lemma find_snoc: "find P (xs @ [x]) = (case find P xs of None \<Rightarrow> if P x then Some x else None | Some y \<Rightarrow> Some y)"
  by (induction xs) auto

lemma inv_opened:
  assumes "noc_inv db"
  shows "noc_inv (open_case sid severity opened db)"
proof (cases "find_case sid db")
  case None
  have counts: "count_cycles s P (open_case sid severity opened db) = count_cycles s P db"
    "ids_ok (open_case sid severity opened db) = ids_ok db" for s P
    by (simp_all add: open_case_def count_cycles_def ids_ok_def)
  have rows: "find_case s (open_case sid severity opened db) =
      (if s = sid then find_case s (open_case sid severity opened db) else find_case s db)" for s
    by (auto simp: open_case_def find_case_def find_snoc split: option.splits)
  have new: "\<exists>c. find_case sid (open_case sid severity opened db) = Some c \<and> c_status c = ''new'' \<and> c_owner c = None
      \<and> c_paused_at c = None \<and> c_restored_at c = None"
    using None by (auto simp: open_case_def find_case_def find_snoc)
  have zero: "count_cycles sid untaken db = 0" "count_cycles sid being_worked db = 0"
    using assms None by (simp_all add: noc_inv_def sig_def) (auto simp: sig_ok_def dest!: spec [where x = sid])
  show ?thesis
  proof (rule inv_step [OF assms, where sid = sid])
    show "clocks_inv (open_case sid severity opened db)"
      unfolding clocks_inv_def
    proof (intro allI impI)
      fix s c
      assume c: "find_case s (open_case sid severity opened db) = Some c"
      show "clocks_ok c"
      proof (cases "s = sid")
        case True
        with c new show ?thesis
          by (auto simp: clocks_ok_def)
      next
        case False
        with c rows [of s] have "find_case s db = Some c"
          by simp
        with assms show ?thesis
          by (simp add: noc_inv_def clocks_inv_def)
      qed
    qed
    show "sig_ok (sig sid (open_case sid severity opened db))
        (count_cycles sid untaken (open_case sid severity opened db))
        (count_cycles sid being_worked (open_case sid severity opened db))"
      using new zero by (auto simp: counts sig_def sig_ok_def)
    show "sig s (open_case sid severity opened db) = sig s db" if "s \<noteq> sid" for s
      using rows [of s] that by (simp add: sig_def)
    show "ids_ok (open_case sid severity opened db)"
      using assms by (simp add: counts noc_inv_def)
  qed (simp_all add: counts)
next
  case (Some c)
  with assms show ?thesis
    by (simp add: open_case_def)
qed

text \<open>Into the queue, from a status with no untaken cycle and no cycle being worked.\<close>

lemma sig_ok_status: "sig_ok (Some (st, owned)) u w \<longleftrightarrow>
    (st \<in> UNOWNED \<longrightarrow> \<not> owned) \<and> (st = ''working'' \<longrightarrow> owned)
    \<and> u = (if st = ''queue'' then 1 else 0) \<and> w \<le> (if st = ''working'' then 1 else 0)"
  by (simp add: sig_ok_def)

lemma inv_enqueued:
  assumes "noc_inv db" and "find_case sid db = Some c" and "c_status c \<noteq> ''queue''" and "c_status c \<noteq> ''working''"
  shows "noc_inv (snd (noc_case_enqueue sid reason now db))"
proof -
  note at = inv_at [OF assms(1,2)]
  show ?thesis
    by (rule inv_step [OF assms(1), where sid = sid])
      (use at assms(2-4) in \<open>simp_all add: noc_frame sig_ok_status\<close>)
qed

lemma inv_left_enqueued:
  assumes "noc_inv db" and "find_case sid db = Some c" and "c_status c \<noteq> ''queue''"
  shows "noc_inv (snd (noc_case_enqueue sid reason now (noc_cycle_left sid now db)))"
proof -
  note at = inv_at [OF assms(1,2)]
  show ?thesis
    by (rule inv_step [OF assms(1), where sid = sid])
      (use at assms(2,3) in \<open>simp_all add: noc_frame sig_ok_status split: if_splits\<close>)
qed

lemma reprioritize_status: "find_case sid db = Some c \<Longrightarrow>
    \<exists>c'. find_case sid (snd (reprioritize sid now db)) = Some c' \<and> c_status c' = c_status c"
  using reprioritize_writes(1) [of sid sid now db]
  by (cases "find_case sid (snd (reprioritize sid now db))") (simp_all add: sig_def)

lemma requeue_inv:
  assumes "noc_inv db" and "find_case sid db = Some c" and "c_status c \<noteq> ''queue''" and "c_status c \<noteq> ''working''"
  shows "noc_inv (requeue sid reason now note db)"
proof -
  obtain c' where c': "find_case sid (snd (reprioritize sid now db)) = Some c'" "c_status c' = c_status c"
    using reprioritize_status [OF assms(2)] by blast
  have "noc_inv (snd (noc_case_enqueue sid reason now (snd (reprioritize sid now db))))"
    by (rule inv_enqueued [OF reprioritize_inv [OF assms(1)] c'(1)]) (simp_all add: c'(2) assms(3,4))
  from event_inv [OF back_to_agent_inv [OF this]] show ?thesis
    by (simp add: requeue_def Let_def case_prod_beta)
qed

lemma inv_moved:
  assumes "noc_inv db" and "find_case sid db = Some c" and "st \<in> statuses" and "st \<noteq> ''queue''" and "c_status c \<noteq> ''queue''"
    and "count_cycles sid being_worked db \<le> (if st = ''working'' then 1 else 0)"
    and "st \<in> UNOWNED \<longrightarrow> owner = None \<and> c_owner c = None" and "st = ''working'' \<longrightarrow> owner \<noteq> None \<or> c_owner c \<noteq> None"
  shows "noc_inv (noc_case_move sid st now a owner True db)"
proof -
  note at = inv_at [OF assms(1,2)]
  show ?thesis
    by (rule inv_step [OF assms(1), where sid = sid])
      (use at(1-3,6) assms(2-) in \<open>simp_all add: noc_frame sig_ok_status\<close>)
qed

lemma dispatch_inv:
  assumes "noc_inv db" and "find_case sid db = Some c" and "c_status c = ''new''"
  shows "noc_inv (dispatch sid now automate db)"
proof -
  obtain c' where c': "find_case sid (snd (reprioritize sid now db)) = Some c'" "c_status c' = c_status c"
    using reprioritize_status [OF assms(2)] by blast
  have inv: "noc_inv (snd (reprioritize sid now db))"
    by (rule reprioritize_inv [OF assms(1)])
  have enq: "noc_inv (snd (noc_case_enqueue sid ''opened'' now (snd (reprioritize sid now db))))"
    by (rule inv_enqueued [OF inv c'(1)]) (simp_all add: c'(2) assms(3))
  have mv: "noc_inv (noc_case_move sid ''auto'' now ''system'' None True (snd (reprioritize sid now db)))"
    using inv_at [OF inv c'(1)] by (intro inv_moved [OF inv c'(1)]) (simp_all add: c'(2) assms(3) UNOWNED_def)
  show ?thesis
    using event_inv [OF enq] event_inv [OF mv] by (simp add: dispatch_def Let_def case_prod_beta)
qed

lemma validate_inv:
  assumes "noc_inv db" and "find_case sid db = Some c" and "c_status c \<noteq> ''queue''"
  shows "noc_inv (validate_case sid now why db)"
proof -
  note at = inv_at [OF assms(1,2)]
  have "noc_inv (noc_case_move sid ''validate'' now ''system'' None True (noc_cycle_left sid now db))"
    by (rule inv_step [OF assms(1), where sid = sid])
      (use at assms(2,3) in \<open>simp_all add: noc_frame sig_ok_status UNOWNED_def split: if_splits\<close>)
  then show ?thesis
    unfolding validate_case_def by (rule event_inv)
qed

lemma auto_resolve_inv:
  assumes "noc_inv db" and "find_case sid db = Some c"
  shows "noc_inv (auto_resolve sid now res why db)"
proof -
  note at = inv_at [OF assms(1,2)]
  have "noc_inv (noc_case_resolve sid now ''system'' res cause why False (noc_cycle_left sid now (noc_cycle_withdrawn sid now db)))"
    for cause
    by (rule inv_step [OF assms(1), where sid = sid])
      (use at assms(2) in \<open>simp_all add: noc_frame sig_ok_status UNOWNED_def split: if_splits\<close>)
  then show ?thesis
    unfolding auto_resolve_def Let_def by (rule event_inv)
qed

lemma close_inv:
  assumes "noc_inv db" and "find_case sid db = Some c" and "c_status c = ''resolved''"
  shows "noc_inv (close_case sid now db)"
  unfolding close_case_def using inv_at [OF assms(1,2)]
  by (intro event_inv inv_moved [OF assms(1,2)]) (simp_all add: assms(3) UNOWNED_def)

lemma find_case_sid: "find_case sid db = Some c \<Longrightarrow> c_sid c = sid"
  by (auto simp: find_case_def find_Some_iff)

lemma taken_from_queue_inv:
  assumes "noc_inv db" and "find_case sid db = Some c" and "c_status c = ''queue''"
  shows "noc_inv (noc_cycle_taken sid now a (noc_case_move sid ''working'' now a (Some who) True db))"
proof -
  note at = inv_at [OF assms(1,2)]
  show ?thesis
    by (rule inv_step [OF assms(1), where sid = sid])
      (use at assms(2,3) in \<open>simp_all add: noc_frame sig_ok_status UNOWNED_def split: if_splits\<close>)
qed

lemma taken_inv:
  assumes "noc_inv db" and "find_case sid db = Some c" and "take_case c who now db = Inr db'"
  shows "noc_inv db'"
proof -
  let ?who = "(ac_ref who, ac_name who, ac_kind who)"
  have sid: "c_sid c = sid"
    using assms(2) by (rule find_case_sid)
  have queued: "noc_inv (noc_cycle_taken sid now (ac_ref who) (noc_case_move sid ''working'' now (ac_ref who) (Some ?who) True
      (snd (noc_case_enqueue sid r now (snd (reprioritize sid now db))))))" if "c_status c \<in> {''new'', ''auto''}" for r
  proof -
    let ?db = "snd (noc_case_enqueue sid r now (snd (reprioritize sid now db)))"
    obtain c' where c': "find_case sid (snd (reprioritize sid now db)) = Some c'" "c_status c' = c_status c"
      using reprioritize_status [OF assms(2)] by blast
    have inv: "noc_inv ?db"
      using that by (intro inv_enqueued [OF reprioritize_inv [OF assms(1)] c'(1)]) (auto simp: c'(2))
    have "find_case sid ?db = Some (status_triggers c' (touch now ''system''
        (c'\<lparr>c_status := ''queue'', c_status_at := now, c_owner := None\<rparr>)))"
      by (simp add: enqueue_writes c'(1))
    from taken_from_queue_inv [OF inv this] show ?thesis
      by (simp add: touch_def)
  qed
  have moved: "noc_inv (noc_case_move sid ''working'' now (ac_ref who) (Some ?who) True db)" if "c_status c \<noteq> ''queue''"
    using that inv_at [OF assms(1,2)] by (intro inv_moved [OF assms(1,2)]) (simp_all add: UNOWNED_def split: if_splits)
  have from_queue: "noc_inv (noc_cycle_taken sid now (ac_ref who) (noc_case_move sid ''working'' now (ac_ref who) (Some ?who) True db))"
    if "c_status c = ''queue''"
    using that by (rule taken_from_queue_inv [OF assms(1,2)])
  show ?thesis
    using assms(1,3) queued moved from_queue
    by (auto simp: take_case_def Let_def sid UNOWNED_def split: if_splits sum.splits intro!: event_inv)
qed

lemma released_inv:
  assumes "noc_inv db" and "find_case sid db = Some c" and "release_case c who now admin note db = Inr db'"
  shows "noc_inv db'"
proof -
  have sid: "c_sid c = sid"
    using assms(2) by (rule find_case_sid)
  have "c_status c \<noteq> ''queue''"
    using assms(3) by (auto simp: release_case_def Let_def transition_def act_from_def split: if_splits)
  from event_inv [OF inv_left_enqueued [OF assms(1,2) this]] show ?thesis
    using assms(3) by (auto simp: release_case_def Let_def sid split: if_splits sum.splits)
qed

lemma updated_inv:
  assumes "noc_inv db" and "update_customer c who now fs summaries orgs db = Inr (v, db')"
  shows "noc_inv db'"
  using assms by (auto simp: update_customer_def Let_def split: if_splits intro!: same_inv)

lemma sent_inv:
  assumes "noc_inv db" and "send_update body c who now db = Inr db'"
  shows "noc_inv db'"
  using assms by (auto simp: send_update_def Let_def split: if_splits intro!: same_inv)

lemma left_documented_inv:
  assumes "noc_inv db" and "find_case sid db = Some c" and "st \<in> PENDING" and "c_status c \<noteq> ''queue''"
  shows "noc_inv (noc_case_move sid st now a None True
    (if c_status c = ''working'' then noc_cycle_left sid now (noc_cycle_documented sid now db) else db))"
proof -
  note at = inv_at [OF assms(1,2)]
  have st: "st \<in> statuses" "st \<noteq> ''queue''" "st \<noteq> ''working''" "st \<notin> UNOWNED"
    using assms(3) by (auto simp: UNOWNED_def)
  show ?thesis
    by (rule inv_step [OF assms(1), where sid = sid])
      (use at assms(2,4) st in \<open>simp_all add: noc_frame sig_ok_status split: if_splits\<close>)
qed

lemma pend_from:
  assumes "transition act (c_status c) (Some status) = Inr to" and "act \<in> {''pend'', ''auto_pend''}"
  shows "to = Some status" "status \<in> PENDING" "c_status c \<noteq> ''queue''" "act = ''auto_pend'' \<Longrightarrow> c_status c = ''auto''"
proof -
  obtain s where s: "to = Some s" "s \<in> PENDING"
    using transition_pend [OF assms] by blast
  have cases: "(if act \<notin> acts \<or> c_status c \<notin> the (act_from act) then Inl (CaseError 409)
      else if Some status \<in> Some ` PENDING then Inr (Some status) else Inl (CaseError 400)) = (Inr to :: case_error + string option)"
    using assms(1) unfolding transition_cases if_P [OF assms(2)] .
  then have "to = Some status" and allowed: "c_status c \<in> the (act_from act)"
    by (simp_all split: if_splits)
  then show "to = Some status" "status \<in> PENDING"
    using s by simp_all
  show "c_status c \<noteq> ''queue''" "act = ''auto_pend'' \<Longrightarrow> c_status c = ''auto''"
    using allowed assms(2) by (auto simp: act_from_def)
qed

lemma pended_inv:
  assumes "noc_inv db" and "find_case sid db = Some c" and "pend_case c who now status admin note db = Inr db'"
  shows "noc_inv db'"
proof -
  have sid: "c_sid c = sid"
    using assms(2) by (rule find_case_sid)
  obtain to where to: "transition ''pend'' (c_status c) (Some status) = Inr to"
    using assms(3) by (auto simp: pend_case_def Let_def split: if_splits sum.splits)
  note from_to = pend_from [OF to, simplified]
  have "db' = case_event sid (strip ((ac_name who @ '' set the case to '' @ label STATUSES status @ '' until its next update.'') @ '' '' @ note))
      now who (noc_case_move sid status now (ac_ref who) None True
        (if c_status c = ''working'' then noc_cycle_left sid now (noc_cycle_documented sid now db) else db))"
    using assms(3) by (simp add: pend_case_def Let_def sid to from_to(1) split: if_splits)
  then show ?thesis
    using event_inv [OF left_documented_inv [OF assms(1,2) from_to(2,3)]] by simp
qed

lemma resolved_inv:
  assumes "noc_inv db" and "find_case sid db = Some c"
    and "resolve_case c who now cause solution verified admin resolution db = Inr db'"
  shows "noc_inv db'"
proof -
  have sid: "c_sid c = sid"
    using assms(2) by (rule find_case_sid)
  note at = inv_at [OF assms(1,2)]
  have "noc_inv (noc_case_resolve sid now a res cause sol cl (noc_cycle_withdrawn sid now
      (if c_status c = ''working'' then noc_cycle_left sid now (noc_cycle_documented sid now db) else db)))" for a res sol cl
    by (rule inv_step [OF assms(1), where sid = sid])
      (use at assms(2) in \<open>simp_all add: noc_frame sig_ok_status UNOWNED_def split: if_splits\<close>)
  from event_inv [OF this] show ?thesis
    using assms(3) by (auto simp: resolve_case_def Let_def sid split: if_splits sum.splits)
qed

lemma auto_pended_inv:
  assumes "noc_inv db" and "find_case sid db = Some c" and "auto_pend c who now status upd wait_s note db = Inr (ok, db')"
  shows "noc_inv db'"
proof -
  have sid: "c_sid c = sid"
    using assms(2) by (rule find_case_sid)
  obtain to where to: "transition ''auto_pend'' (c_status c) (Some status) = Inr to"
    using assms(3) by (auto simp: auto_pend_def Let_def split: sum.splits)
  note from_to = pend_from [OF to, simplified]
  have requeued: "noc_inv (requeue sid ''automation'' now n db)" for n
    by (rule requeue_inv [OF assms(1,2)]) (simp_all add: from_to)
  have moved: "noc_inv (noc_case_move sid status now a None True (noc_case_set_fields sid fs now a db))" for a fs
  proof -
    have inv: "noc_inv (noc_case_set_fields sid fs now a db)"
      by (rule fields_inv [OF assms(1)])
    obtain c' where c': "find_case sid (noc_case_set_fields sid fs now a db) = Some c'" "c_status c' = c_status c"
      using fields_writes(1) [of sid sid fs now a db] assms(2)
      by (cases "find_case sid (noc_case_set_fields sid fs now a db)") (simp_all add: sig_def)
    show ?thesis
      using from_to(2,4) inv_at(7) [OF inv c'(1)]
      by (intro inv_moved [OF inv c'(1)]) (auto simp: c'(2) UNOWNED_def split: if_splits)
  qed
  show ?thesis
    using assms(3) requeued event_inv [OF moved] by (auto simp: auto_pend_def Let_def sid to from_to(1) split: if_splits)
qed

lemma assigned_inv:
  assumes "noc_inv db" and "assign c agent who now trigger tier escalated note db = Inr db'"
  shows "noc_inv db'"
  using assms by (auto simp: assign_def Let_def split: if_splits intro!: same_inv)

lemma with_people_inv:
  assumes "noc_inv db" and "find_case sid db = Some c"
  shows "noc_inv (with_people (c\<lparr>c_agent_id := a\<rparr>) who now why db)"
  using assms inv_left_enqueued [OF assms] find_case_sid [OF assms(2)]
  by (auto simp: with_people_def Let_def intro!: same_inv)

lemma escalated_inv:
  assumes "noc_inv db" and "find_case sid db = Some c" and "escalate (c\<lparr>c_agent_id := a\<rparr>) everyone who now why db = Some (Inr (w, db'))"
  shows "noc_inv db'"
  using assms with_people_inv [OF assms(1,2)]
  by (auto simp: escalate_def Let_def split: option.splits sum.splits intro: assigned_inv)

lemma post_on_case_inv:
  assumes "noc_inv db" and "find_case sid db = Some c"
  shows "noc_inv (post_on_case rs c who vis body now db)"
proof -
  have "noc_inv (requeue sid r now n (noc_post rs sid au vis k b now db))" if "c_status c \<in> PENDING" for rs r n au b k
    by (rule requeue_inv [OF post_inv [OF assms(1)]]) (use that assms(2) in \<open>auto simp: noc_frame\<close>)
  then show ?thesis
    using assms(1) find_case_sid [OF assms(2)] by (auto simp: post_on_case_def Let_def requeues_def intro!: same_inv)
qed

section \<open>The loops\<close>

lemma fold_keeps: "(\<And>x s. P s \<Longrightarrow> P (f x s)) \<Longrightarrow> P s \<Longrightarrow> P (fold f xs s)"
  by (induction xs arbitrary: s) auto

lemma hear_inv: "noc_inv db \<Longrightarrow> noc_inv (noc_case_hear sid m db)"
  by (simp add: noc_inv_def noc_case_hear_def ids_ok_def clocks_inv_def sig_def find_case_def count_cycles_def)

lemma hear_row: "find_case s (noc_case_hear sid m db) = find_case s db"
  by (simp add: noc_case_hear_def find_case_def)

lemma hearing_inv:
  assumes "noc_inv db"
  shows "noc_inv (snd (hearing_apply sid found now db))"
proof (cases "find_case sid db")
  case (Some c)
  have "noc_inv (requeue sid r now n (case_event sid t now SYSTEM (noc_case_hear sid m db)))" if "c_status c \<in> PENDING" for r n t m
    by (rule requeue_inv [OF event_inv [OF hear_inv [OF assms]]]) (use that Some in \<open>auto simp: noc_frame hear_row\<close>)
  with Some show ?thesis
    using assms by (auto simp: hearing_apply_def Let_def intro!: same_inv hear_inv)
qed (simp add: hearing_apply_def assms)

lemma tick_parts_inv:
  assumes "noc_inv (snd s)"
  shows "noc_inv (snd (tick_rising now sid s))" "noc_inv (snd (tick_news now item s))"
    "noc_inv (snd (tick_fresh automation now sid s))" "noc_inv (snd (tick_due now sid s))"
    "noc_inv (snd (tick_orphaned now row s))" "noc_inv (snd (tick_stale now sid s))"
proof -
  obtain n db where s: "s = (n, db)"
    by (cases s)
  then have inv: "noc_inv db"
    using assms by simp
  show "noc_inv (snd (tick_rising now sid s))"
    using reprioritize_inv [OF inv] by (simp add: s tick_rising_def Let_def case_prod_beta)
  show "noc_inv (snd (tick_news now item s))"
    using hearing_inv [OF inv] by (cases item) (simp add: s tick_news_def Let_def case_prod_beta)
  show "noc_inv (snd (tick_fresh automation now sid s))"
    using inv dispatch_inv [OF inv] by (auto simp: s tick_fresh_def split: option.splits)
  show "noc_inv (snd (tick_due now sid s))"
    using inv by (auto simp: s tick_due_def split: option.splits intro!: requeue_inv [OF inv])
  show "noc_inv (snd (tick_orphaned now row s))"
  proof (cases row)
    case (Pair sid' res)
    show ?thesis
      using inv by (auto simp: s Pair tick_orphaned_def Let_def UNOWNED_def split: option.splits
          intro!: auto_resolve_inv [OF inv] validate_inv [OF inv])
  qed
  show "noc_inv (snd (tick_stale now sid s))"
    using inv close_inv [OF inv] by (auto simp: s tick_stale_def split: option.splits)
qed

lemma tick_inv:
  assumes "noc_inv db"
  shows "noc_inv (snd (tick_locked automation read_at now reads db))"
  unfolding tick_locked_def Let_def
  by (intro fold_keeps [where P = "\<lambda>s. noc_inv (snd s)"] tick_parts_inv) (simp_all add: assms)

lemma reprioritize_other: "s \<noteq> sid \<Longrightarrow> find_case s (snd (reprioritize sid now db)) = find_case s db"
  by (simp add: reprioritize_def Let_def noc_frame noc_case_raise_priority_def touch_def split: option.split)

lemma back_to_agent_other: "s \<noteq> sid \<Longrightarrow> find_case s (snd (back_to_agent sid now db)) = find_case s db"
  by (simp add: back_to_agent_def Let_def noc_frame noc_case_assign_def split: option.split)

lemma requeue_other: "s \<noteq> sid \<Longrightarrow> find_case s (requeue sid r now t db) = find_case s db"
  by (simp only: requeue_def Let_def case_prod_beta event_writes back_to_agent_other enqueue_writes reprioritize_other
      if_False simp_thms)

lemma requeued_all_inv:
  assumes "noc_inv d" and "distinct xs" and "\<forall>sid \<in> set xs. \<exists>c. find_case sid d = Some c \<and> c_status c \<in> PENDING"
  shows "noc_inv (fold (\<lambda>sid. requeue sid r now t) xs d)"
  using assms
proof (induction xs arbitrary: d)
  case (Cons x xs)
  then obtain c where c: "find_case x d = Some c" "c_status c \<in> PENDING"
    by auto
  have "c_status c \<noteq> ''queue''" "c_status c \<noteq> ''working''"
    using c(2) not_PENDING by metis+
  then have "noc_inv (requeue x r now t d)"
    by (rule requeue_inv [OF Cons.prems(1) c(1)])
  moreover have "\<forall>sid \<in> set xs. \<exists>c. find_case sid (requeue x r now t d) = Some c \<and> c_status c \<in> PENDING"
  proof
    fix sid
    assume "sid \<in> set xs"
    then have "sid \<noteq> x"
      using Cons.prems(2) by auto
    then show "\<exists>c. find_case sid (requeue x r now t d) = Some c \<and> c_status c \<in> PENDING"
      using Cons.prems(3) \<open>sid \<in> set xs\<close> unfolding requeue_other [OF \<open>sid \<noteq> x\<close>] by simp
  qed
  ultimately show ?case
    using Cons.IH [of "requeue x r now t d"] Cons.prems(2) by (simp only: fold_Cons comp_apply distinct.simps simp_thms)
qed simp

lemma access_inv:
  assumes "noc_inv db"
  shows "noc_inv (snd (access_granted from_host host now db))"
proof -
  have "\<exists>c. find_case sid db = Some c \<and> c_status c \<in> PENDING"
    if "case find_case sid db of None \<Rightarrow> False | Some c \<Rightarrow> c_status c \<in> set WAITING" for sid
    using that by (cases "find_case sid db") (auto simp: WAITING_def PENDING_members)
  then show ?thesis
    unfolding access_granted_def Let_def snd_conv
    by (intro requeued_all_inv assms) (simp_all del: fold_simps)
qed

lemma run_writes_inv:
  assumes "noc_inv db"
  shows "noc_inv (update_agent a f db)" "noc_inv (update_run r g db)" "noc_inv (noc_agent_run_step r k n ok d now db)"
    "noc_inv (snd (noc_agent_run_external a now db))" "noc_inv (noc_agent_run_start r now db)"
    "noc_inv (snd (noc_agent_run_finish r st now su er us db))" "noc_inv (snd (noc_agent_spend a cents month db))"
proof -
  have agent: "noc_inv (update_agent a f d) = noc_inv d" for a f d
    by (simp add: update_agent_def noc_inv_def ids_ok_def clocks_inv_def sig_def find_case_def count_cycles_def)
  have run: "noc_inv (update_run r g d) = noc_inv d" for r g d
    by (simp add: update_run_def noc_inv_def ids_ok_def clocks_inv_def sig_def find_case_def count_cycles_def)
  have step: "noc_inv (d\<lparr>n_steps := x\<rparr>) = noc_inv d" for d x
    by (simp add: noc_inv_def ids_ok_def clocks_inv_def sig_def find_case_def count_cycles_def)
  have ext: "noc_inv (d\<lparr>n_runs := x, n_next_run := y\<rparr>) = noc_inv d" for d x y
    by (simp add: noc_inv_def ids_ok_def clocks_inv_def sig_def find_case_def count_cycles_def)
  show "noc_inv (update_agent a f db)" "noc_inv (update_run r g db)" "noc_inv (noc_agent_run_step r k n ok d now db)"
    "noc_inv (snd (noc_agent_run_external a now db))" "noc_inv (noc_agent_run_start r now db)"
    "noc_inv (snd (noc_agent_run_finish r st now su er us db))" "noc_inv (snd (noc_agent_spend a cents month db))"
    using assms by (simp_all add: agent run step ext noc_agent_run_step_def noc_agent_run_external_def agent_started_def
        noc_agent_run_start_def noc_agent_run_finish_def noc_agent_spend_def Let_def split: option.splits)
qed

lemma route_one_inv:
  assumes "noc_inv (snd s)" and "route_one everyone now sid s = Inr s'"
  shows "noc_inv (snd s')"
  using assms by (cases s) (auto simp: route_one_def split: option.splits if_splits sum.splits intro: assigned_inv)

lemma routed_all_inv: "noc_inv (snd s) \<Longrightarrow> routed_all everyone now sids s = Inr s' \<Longrightarrow> noc_inv (snd s')"
  by (induction sids arbitrary: s) (auto split: sum.splits dest: route_one_inv)

lemma map_sum_Inr: "map_sum f g z = Inr y \<Longrightarrow> (\<And>x. z = Inr x \<Longrightarrow> g x = y \<Longrightarrow> P) \<Longrightarrow> P"
  by (cases z) auto

lemma climb_one_inv:
  assumes "noc_inv db" and "climb_one everyone now row db = Some (Inr db')"
  shows "noc_inv db'"
proof (cases "find_case (c_sid (fst row)) db")
  case (Some c)
  show ?thesis
  proof (cases "c_agent_id c \<noteq> c_agent_id (fst row) \<or> c_with_people c")
    case False
    then obtain w where "escalate c everyone SYSTEM now (snd row) db = Some (Inr (w, db'))"
      using assms(2) Some False by (cases "escalate c everyone SYSTEM now (snd row) db")
        (auto simp: climb_one_def split: sum.splits elim: map_sum_Inr)
    moreover have "c\<lparr>c_agent_id := c_agent_id c\<rparr> = c"
      by simp
    ultimately show ?thesis
      using escalated_inv [OF assms(1) Some] by metis
  qed (use assms Some in \<open>simp add: climb_one_def\<close>)
qed (use assms in \<open>simp add: climb_one_def\<close>)

lemma climbed_all_inv: "noc_inv db \<Longrightarrow> climbed_all everyone now rows db = Some (Inr db') \<Longrightarrow> noc_inv db'"
  by (induction rows arbitrary: db) (auto split: option.splits sum.splits dest: climb_one_inv)

lemma time_out_inv: "noc_inv db \<Longrightarrow> noc_inv (time_out now r db)"
  using run_writes_inv(6) by (auto simp: time_out_def Let_def case_prod_beta intro!: run_writes_inv(3))

lemma agent_tick_inv:
  assumes "noc_inv db" and "agent_tick_locked now reads db = Some (Inr db')"
  shows "noc_inv db'"
proof -
  obtain loads d1 d2 where r: "routed_all (ar_everyone reads) now (ar_unrouted reads) (ar_loads reads, db) = Inr (loads, d1)"
      "climbed_all (ar_everyone reads) now (ar_climbing reads) d1 = Some (Inr d2)"
      "db' = fold (time_out now) (ar_overdue reads) (fold (\<lambda>a. noc_wake a ''timer'' None ''system'' now) (ar_due reads) d2)"
    using assms(2) by (auto simp: agent_tick_locked_def Let_def split: sum.splits option.splits prod.splits)
  have "noc_inv d2"
    using climbed_all_inv [OF _ r(2)] routed_all_inv [OF _ r(1)] assms(1) by simp
  then show ?thesis
    unfolding r(3) by (intro fold_keeps [where P = noc_inv] time_out_inv wake_inv) simp_all
qed

lemma run_acts_inv:
  assumes "noc_inv db"
  shows "noc_inv (snd (start_run av everyone running now r db))" "noc_inv (end_in_process now month r ag out db)"
    "noc_inv (end_webhook now r ag ok detail db)" "noc_inv (record_call a tool ok detail now db)"
proof -
  note w = run_writes_inv
  show "noc_inv (snd (start_run av everyone running now r db))"
    using assms by (auto simp: start_run_def split: option.splits intro!: w)
  show "noc_inv (end_in_process now month r ag out db)"
    using assms by (auto simp: end_in_process_def Let_def case_prod_beta noc_set_agent_status_def intro!: w)
  show "noc_inv (end_webhook now r ag ok detail db)"
    using assms by (auto simp: end_webhook_def Let_def noc_set_agent_status_def intro!: w)
  show "noc_inv (record_call a tool ok detail now db)"
    using assms by (auto simp: record_call_def case_prod_beta split: option.splits intro!: w)
qed

end
