(* ===== verification/Noc_Wake.thy ===== *)
theory Noc_Wake
  imports Noc_Reach
begin

text \<open>
  Wake-ups are merged: no act, loop or report leaves an agent with two queued runs.
\<close>

section \<open>One queued run per agent\<close>

named_theorems run_frame \<open>writes that leave the runs as they are\<close>

definition queued_runs :: "int \<Rightarrow> noc_db \<Rightarrow> nat" where
  "queued_runs a db = length (filter (\<lambda>r. run_agent r = a \<and> run_status r = ''queued'') (n_runs db))"

definition queued_once :: "noc_db \<Rightarrow> bool" where
  "queued_once db \<longleftrightarrow> (\<forall>a. queued_runs a db \<le> 1)"

lemma runs_same [run_frame]:
  "n_runs (update_case sid f db) = n_runs db" "n_runs (cycle_priority sid p db) = n_runs db"
  "n_runs (noc_case_move sid st now a ow keep db) = n_runs db" "n_runs (noc_case_resolve sid now a res ca sol cl db) = n_runs db"
  "n_runs (noc_case_assign sid ag now ti es wp db) = n_runs db" "n_runs (noc_case_raise_priority sid p now db) = n_runs db"
  "n_runs (noc_case_set_fields sid fs now a db) = n_runs db" "n_runs (noc_case_set_summary sid org t db) = n_runs db"
  "n_runs (noc_post rs sid au v k b now db) = n_runs db" "n_runs (case_event sid b now w db) = n_runs db"
  "n_runs (update_latest sid P g db) = n_runs db" "n_runs (snd (noc_case_enqueue sid r now db)) = n_runs db"
  "n_runs (noc_case_hear sid m db) = n_runs db" "n_runs (update_agent aid h db) = n_runs db"
  by (simp_all add: update_case_def cycle_priority_def noc_case_move_def noc_case_resolve_def noc_case_assign_def
      noc_case_raise_priority_def noc_case_set_fields_def noc_case_set_summary_def noc_post_def case_event_def
      update_latest_def noc_case_enqueue_def noc_case_hear_def update_agent_def Let_def split: option.splits)

lemma runs_cycles [run_frame]:
  "n_runs (noc_cycle_taken sid now a db) = n_runs db" "n_runs (noc_cycle_documented sid now db) = n_runs db"
  "n_runs (noc_cycle_left sid now db) = n_runs db" "n_runs (noc_cycle_withdrawn sid now db) = n_runs db"
  "n_runs (snd (reprioritize sid now db)) = n_runs db" "n_runs (open_case sid sev op db) = n_runs db"
  "n_runs (fold (\<lambda>(org, text). noc_case_set_summary sid org (strip text)) xs db) = n_runs db"
proof -
  show "n_runs (fold (\<lambda>(org, text). noc_case_set_summary sid org (strip text)) xs db) = n_runs db"
    by (induction xs arbitrary: db) (auto simp: run_frame)
qed (simp_all add: noc_cycle_taken_def noc_cycle_documented_def noc_cycle_left_def noc_cycle_withdrawn_def
    reprioritize_def open_case_def Let_def run_frame split: option.splits)

lemma queued_cong: "n_runs db' = n_runs db \<Longrightarrow> queued_once db \<Longrightarrow> queued_once db'"
  by (simp add: queued_once_def queued_runs_def)

lemma wake_queued:
  assumes "queued_once db"
  shows "queued_once (noc_wake ag tr sid by now db)"
proof (cases "list_ex (\<lambda>r. run_agent r = ag \<and> run_status r = ''queued'') (n_runs db)")
  case True
  define f :: "noc_run \<Rightarrow> noc_run" where "f = (\<lambda>r. if run_agent r = ag \<and> run_status r = ''queued''
      then r\<lparr>run_situation := (case run_situation r of None \<Rightarrow> sid | Some s \<Rightarrow> Some s)\<rparr> else r)"
  have same: "run_agent (f r) = run_agent r" "run_status (f r) = run_status r" for r
    by (simp_all add: f_def)
  have "length (filter (\<lambda>r. run_agent r = a \<and> run_status r = ''queued'') (map f rs))
      = length (filter (\<lambda>r. run_agent r = a \<and> run_status r = ''queued'') rs)" for a rs
    by (induction rs) (simp_all add: same)
  moreover have "n_runs (noc_wake ag tr sid by now db) = map f (n_runs db)"
    using True by (simp add: noc_wake_def Let_def f_def)
  ultimately show ?thesis
    using assms unfolding queued_once_def queued_runs_def by (simp only: simp_thms)
next
  case False
  then have "queued_runs ag db = 0"
    by (auto simp: queued_runs_def list_ex_iff filter_empty_conv)
  with False assms show ?thesis
    by (simp add: queued_once_def queued_runs_def noc_wake_def Let_def)
qed

lemma update_run_queued:
  assumes "queued_once db" and "\<And>x. run_agent (f x) = run_agent x" and "\<And>x. run_status (f x) = ''queued'' \<Longrightarrow> run_status x = ''queued''"
  shows "queued_once (update_run r f db)"
proof -
  have "length (filter (\<lambda>x. run_agent x = a \<and> run_status x = ''queued'') (map (\<lambda>x. if run_id x = r then f x else x) rs))
      \<le> length (filter (\<lambda>x. run_agent x = a \<and> run_status x = ''queued'') rs)" for a rs
  proof (induction rs)
    case (Cons x rs)
    then show ?case
      using assms(2,3) [of x] by auto
  qed simp
  then have "queued_runs a (update_run r f db) \<le> queued_runs a db" for a
    by (simp del: filter_map length_map add: queued_runs_def update_run_def)
  with assms(1) show ?thesis
    unfolding queued_once_def by (meson le_trans)
qed

lemma case_writes_queued:
  assumes "queued_once db"
  shows "queued_once (snd (back_to_agent sid now db))" "queued_once (requeue sid r now t db)"
    "queued_once (dispatch sid now au db)" "queued_once (validate_case sid now t db)"
    "queued_once (auto_resolve sid now res t db)" "queued_once (close_case sid now db)"
    "queued_once (snd (hearing_apply sid found now db))" "queued_once (with_people c who now t db)"
proof -
  have agent: "queued_once (snd (back_to_agent sid now d))" if "queued_once d" for d
    using that by (auto simp: back_to_agent_def Let_def split: option.splits
        intro!: wake_queued elim: queued_cong [rotated] simp: run_frame)
  have back_in: "queued_once (requeue sid r now t d)" if "queued_once d" for r t d
  proof -
    have "queued_once (snd (noc_case_enqueue sid r now (snd (reprioritize sid now d))))"
      by (rule queued_cong [OF _ that]) (simp add: run_frame)
    from agent [OF this] show ?thesis
      unfolding requeue_def Let_def case_prod_beta by (rule queued_cong [rotated]) (simp add: run_frame)
  qed
  show "queued_once (snd (back_to_agent sid now db))" "queued_once (requeue sid r now t db)"
    by (rule agent [OF assms], rule back_in [OF assms])
  show "queued_once (dispatch sid now au db)" "queued_once (validate_case sid now t db)"
    "queued_once (auto_resolve sid now res t db)" "queued_once (close_case sid now db)" "queued_once (with_people c who now t db)"
    by (rule queued_cong [OF _ assms], simp add: dispatch_def validate_case_def auto_resolve_def close_case_def
        with_people_def Let_def case_prod_beta run_frame)+
  have told: "queued_once (case_event sid b now w (noc_case_hear sid m db))" for b w m
    by (rule queued_cong [OF _ assms]) (simp add: run_frame)
  have heard: "queued_once (noc_case_hear sid m db)" for m
    by (rule queued_cong [OF _ assms]) (simp add: run_frame)
  show "queued_once (snd (hearing_apply sid found now db))"
    by (simp add: hearing_apply_def Let_def assms told heard back_in split: option.splits)
qed

lemma queued_person_acts:
  assumes "queued_once db"
  shows "take_case c who now db = Inr db' \<Longrightarrow> queued_once db'" "release_case c who now admin t db = Inr db' \<Longrightarrow> queued_once db'"
    "update_customer c who now fs summaries orgs db = Inr (v, db') \<Longrightarrow> queued_once db'"
    "send_update body c who now db = Inr db' \<Longrightarrow> queued_once db'"
    "pend_case c who now status admin t db = Inr db' \<Longrightarrow> queued_once db'"
    "resolve_case c who now cause solution verified admin resolution db = Inr db' \<Longrightarrow> queued_once db'"
proof -
  note same = queued_cong [OF _ assms]
  show "take_case c who now db = Inr db' \<Longrightarrow> queued_once db'"
    by (rule same) (auto simp: take_case_def Let_def run_frame split: if_splits sum.splits)
  show "release_case c who now admin t db = Inr db' \<Longrightarrow> queued_once db'"
    by (rule same) (auto simp: release_case_def Let_def run_frame split: if_splits sum.splits)
  show "update_customer c who now fs summaries orgs db = Inr (v, db') \<Longrightarrow> queued_once db'"
    by (rule same) (auto simp: update_customer_def Let_def run_frame split: if_splits)
  show "send_update body c who now db = Inr db' \<Longrightarrow> queued_once db'"
    by (rule same) (auto simp: send_update_def Let_def run_frame split: if_splits)
  show "pend_case c who now status admin t db = Inr db' \<Longrightarrow> queued_once db'"
    by (rule same) (auto simp: pend_case_def Let_def run_frame split: if_splits sum.splits)
  show "resolve_case c who now cause solution verified admin resolution db = Inr db' \<Longrightarrow> queued_once db'"
    by (rule same) (auto simp: resolve_case_def Let_def run_frame split: if_splits sum.splits)
qed

lemma queued_routes:
  assumes "queued_once db"
  shows "assign c agent who now trigger tier esc t db = Inr db' \<Longrightarrow> queued_once db'"
    "escalate c everyone who now t db = Some (Inr (w, db')) \<Longrightarrow> queued_once db'"
    "queued_once (post_on_case rs c who vis body now db)"
    "auto_pend c who now status upd wait_s t db = Inr (ok, db') \<Longrightarrow> queued_once db'"
proof -
  have base: "queued_once (case_event s b now who (noc_case_assign s ag now ti es wp db))" for s b ag ti es wp
    by (rule queued_cong [OF _ assms]) (simp add: run_frame)
  have routed: "queued_once db'" if "assign c agent who now trigger tier esc t db = Inr db'" for agent trigger tier esc
    using that by (auto simp: assign_def Let_def split: if_splits intro!: wake_queued base)
  show "assign c agent who now trigger tier esc t db = Inr db' \<Longrightarrow> queued_once db'"
    by (rule routed)
  show "escalate c everyone who now t db = Some (Inr (w, db')) \<Longrightarrow> queued_once db'"
    using assms by (auto simp: escalate_def Let_def split: option.splits sum.splits intro: routed case_writes_queued)
  have posted: "queued_once (noc_post rs sid au v k b now db)" for rs sid au v k b
    by (rule queued_cong [OF _ assms]) (simp add: run_frame)
  have pended: "queued_once (case_event s b now who (noc_case_move s st now a ow keep (noc_case_set_fields s fs now a db)))"
    for s b st a ow keep fs
    by (rule queued_cong [OF _ assms]) (simp add: run_frame)
  show "queued_once (post_on_case rs c who vis body now db)"
    using posted case_writes_queued(2) [OF posted] by (simp add: post_on_case_def Let_def)
  show "auto_pend c who now status upd wait_s t db = Inr (ok, db') \<Longrightarrow> queued_once db'"
    using pended case_writes_queued(2) [OF assms] by (auto simp: auto_pend_def Let_def split: sum.splits if_splits)
qed

lemma queued_tick:
  assumes "queued_once (snd s)"
  shows "queued_once (snd (tick_rising now sid s))" "queued_once (snd (tick_news now item s))"
    "queued_once (snd (tick_fresh automation now sid s))" "queued_once (snd (tick_due now sid s))"
    "queued_once (snd (tick_orphaned now row s))" "queued_once (snd (tick_stale now sid s))"
proof -
  obtain n db where s: "s = (n, db)"
    by (cases s)
  then have q: "queued_once db"
    using assms by simp
  show "queued_once (snd (tick_rising now sid s))"
    by (rule queued_cong [OF _ q]) (simp add: s tick_rising_def Let_def case_prod_beta run_frame)
  show "queued_once (snd (tick_news now item s))"
    using case_writes_queued(7) [OF q] by (cases item) (simp add: s tick_news_def Let_def case_prod_beta)
  show "queued_once (snd (tick_fresh automation now sid s))"
    by (simp add: s tick_fresh_def q case_writes_queued split: option.splits)
  show "queued_once (snd (tick_due now sid s))"
    by (simp add: s tick_due_def q case_writes_queued split: option.splits)
  show "queued_once (snd (tick_orphaned now row s))"
    by (cases row) (simp add: s tick_orphaned_def Let_def q case_writes_queued split: option.splits)
  show "queued_once (snd (tick_stale now sid s))"
    by (simp add: s tick_stale_def q case_writes_queued split: option.splits)
qed

lemma queued_runs_writes:
  assumes "queued_once db" and "st \<noteq> ''queued''"
  shows "queued_once (noc_agent_run_step r k n ok d now db)" "queued_once (snd (noc_agent_run_external a now db))"
    "queued_once (noc_agent_run_start r now db)" "queued_once (snd (noc_agent_run_finish r st now su er us db))"
    "queued_once (update_agent a f db)" "queued_once (snd (noc_agent_spend a cents month db))"
proof -
  have agent: "queued_once (update_agent a f d)" if "queued_once d" for a f d
    by (rule queued_cong [OF _ that]) (simp add: run_frame)
  have step: "queued_once (db\<lparr>n_steps := x\<rparr>)" for x
    by (rule queued_cong [OF _ assms(1)]) simp
  show "queued_once (noc_agent_run_step r k n ok d now db)"
    using step by (auto simp: noc_agent_run_step_def Let_def intro!: update_run_queued)
  have ext: "queued_once (db\<lparr>n_runs := n_runs db @ [x], n_next_run := y\<rparr>)" if "run_status x \<noteq> ''queued''" for x y
    using assms(1) that by (simp add: queued_once_def queued_runs_def)
  show "queued_once (snd (noc_agent_run_external a now db))"
    unfolding noc_agent_run_external_def agent_started_def snd_conv by (intro agent ext) simp
  show "queued_once (noc_agent_run_start r now db)"
    unfolding noc_agent_run_start_def Let_def agent_started_def
    by (auto split: option.splits intro!: agent update_run_queued assms(1))
  show "queued_once (snd (noc_agent_run_finish r st now su er us db))"
    using assms(2) unfolding noc_agent_run_finish_def by (auto split: option.splits intro!: agent update_run_queued assms(1))
  show "queued_once (update_agent a f db)" "queued_once (snd (noc_agent_spend a cents month db))"
    by (simp_all add: agent assms(1) noc_agent_spend_def Let_def)
qed

lemma tick_queued:
  assumes "queued_once db"
  shows "queued_once (snd (tick_locked automation read_at now reads db))"
  unfolding tick_locked_def Let_def
  by (intro fold_keeps [where P = "\<lambda>s. queued_once (snd s)"] queued_tick) (simp_all only: snd_conv assms)

lemma access_queued:
  assumes "queued_once db"
  shows "queued_once (snd (access_granted from_host host now db))"
  unfolding access_granted_def Let_def snd_conv
  by (rule fold_keeps [where P = queued_once]) (rule case_writes_queued(2), assumption, rule assms)

lemma route_one_queued:
  assumes "queued_once (snd s)" and "route_one everyone now sid s = Inr s'"
  shows "queued_once (snd s')"
  using assms by (cases s) (auto simp: route_one_def split: option.splits if_splits sum.splits dest: queued_routes(1))

lemma routed_all_queued: "queued_once (snd s) \<Longrightarrow> routed_all everyone now sids s = Inr s' \<Longrightarrow> queued_once (snd s')"
  by (induction sids arbitrary: s) (auto split: sum.splits dest: route_one_queued)

lemma climb_one_queued:
  assumes "queued_once db" and "climb_one everyone now row db = Some (Inr db')"
  shows "queued_once db'"
  using assms
  by (auto simp: climb_one_def split: option.splits if_splits elim!: map_sum_Inr dest: queued_routes(2))

lemma climbed_all_queued: "queued_once db \<Longrightarrow> climbed_all everyone now rows db = Some (Inr db') \<Longrightarrow> queued_once db'"
  by (induction rows arbitrary: db) (auto split: option.splits sum.splits dest: climb_one_queued)

lemma time_out_queued:
  assumes "queued_once db"
  shows "queued_once (time_out now r db)"
proof -
  have fin: "queued_once (snd (noc_agent_run_finish (run_id r) ''timed_out'' now su er us db))" for su er us
    by (rule queued_runs_writes(4) [OF assms]) simp
  have step: "queued_once d \<Longrightarrow> queued_once (noc_agent_run_step q k n ok t now d)" for d q k n ok t
    by (rule queued_runs_writes(1) [where st = "[]"]) simp_all
  show ?thesis
    unfolding time_out_def Let_def case_prod_beta by (simp only: fin step split: if_split) simp
qed

lemma agent_tick_queued:
  assumes "queued_once db" and "agent_tick_locked now areads db = Some (Inr db')"
  shows "queued_once db'"
proof -
  obtain loads d1 d2 where r: "routed_all (ar_everyone areads) now (ar_unrouted areads) (ar_loads areads, db) = Inr (loads, d1)"
      "climbed_all (ar_everyone areads) now (ar_climbing areads) d1 = Some (Inr d2)"
      "db' = fold (time_out now) (ar_overdue areads) (fold (\<lambda>a. noc_wake a ''timer'' None ''system'' now) (ar_due areads) d2)"
    using assms(2) by (auto simp: agent_tick_locked_def Let_def split: sum.splits option.splits prod.splits)
  have "queued_once d2"
    using climbed_all_queued [OF _ r(2)] routed_all_queued [OF _ r(1)] assms(1) by simp
  then show ?thesis
    unfolding r(3) by (intro fold_keeps [where P = queued_once] time_out_queued wake_queued)
qed

lemma queued_run_acts:
  assumes "queued_once db"
  shows "queued_once (snd (start_run av everyone running now r db))" "queued_once (record_call a tool ok detail now db)"
    "queued_once (end_webhook now r ag ok detail db)"
    "o_status out \<noteq> ''queued'' \<Longrightarrow> queued_once (end_in_process now month r ag out db)"
proof -
  note w = queued_runs_writes [where st = "''failed''", simplified]
  show "queued_once (snd (start_run av everyone running now r db))"
    using assms by (auto simp: start_run_def split: option.splits intro!: w)
  show "queued_once (record_call a tool ok detail now db)"
    using assms by (auto simp: record_call_def case_prod_beta split: option.splits intro!: w)
  show "queued_once (end_webhook now r ag ok detail db)"
    using assms by (auto simp: end_webhook_def Let_def noc_set_agent_status_def intro!: w)
  show "o_status out \<noteq> ''queued'' \<Longrightarrow> queued_once (end_in_process now month r ag out db)"
    using assms by (auto simp: end_in_process_def Let_def case_prod_beta noc_set_agent_status_def intro!: w queued_runs_writes)
qed

end
