(* ===== verification/Noc_System.thy ===== *)
theory Noc_System
  imports Noc_Wake
begin

text \<open>
  The reachable states of the NOC: every act of the API, of the agents, of automation and of the
  loops, from the empty store, with what the Broker shows and the organization changing at any time,
  and the properties that hold in all of them.
\<close>

section \<open>Reachable states\<close>

text \<open>The status a run ends with is one of \<open>succeeded\<close>, \<open>failed\<close>, \<open>timed_out\<close> and
  \<open>cancelled\<close>.\<close>

definition ended_status :: "string set" where
  "ended_status = {''succeeded'', ''failed'', ''timed_out'', ''cancelled''}"

inductive noc_step :: "noc_db \<Rightarrow> noc_db \<Rightarrow> bool" where
  opened: "noc_step db (open_case sid severity at_time db)"
| broker: "noc_step db (db\<lparr>n_severity := sev\<rparr>)"
| organization: "noc_step db (db\<lparr>n_agents := agents\<rparr>)"
| taken: "find_case sid db = Some c \<Longrightarrow> take_case c who now db = Inr db' \<Longrightarrow> noc_step db db'"
| released: "find_case sid db = Some c \<Longrightarrow> release_case c who now admin t db = Inr db' \<Longrightarrow> noc_step db db'"
| updated: "find_case sid db = Some c \<Longrightarrow> update_customer c who now fs summaries orgs db = Inr (v, db') \<Longrightarrow> noc_step db db'"
| sent: "find_case sid db = Some c \<Longrightarrow> send_update body c who now db = Inr db' \<Longrightarrow> noc_step db db'"
| pended: "find_case sid db = Some c \<Longrightarrow> pend_case c who now status admin t db = Inr db' \<Longrightarrow> noc_step db db'"
| resolved: "find_case sid db = Some c \<Longrightarrow> resolve_case c who now cause solution verified admin resolution db = Inr db'
    \<Longrightarrow> noc_step db db'"
| auto_pended: "find_case sid db = Some c \<Longrightarrow> auto_pend c who now status upd wait_s t db = Inr (ok, db') \<Longrightarrow> noc_step db db'"
| automation_ended: "find_case sid db = Some c \<Longrightarrow> c_status c = ''auto'' \<Longrightarrow> noc_step db (requeue sid ''automation'' now t db)"
| posted: "find_case sid db = Some c \<Longrightarrow> noc_step db (post_on_case readers c who vis body now db)"
| assigned: "find_case sid db = Some c \<Longrightarrow> assign c agent who now trigger tier esc t db = Inr db' \<Longrightarrow> noc_step db db'"
| handed_over: "find_case sid db = Some c \<Longrightarrow> noc_step db (with_people c who now t db)"
| escalated: "find_case sid db = Some c \<Longrightarrow> escalate (c\<lparr>c_agent_id := a\<rparr>) everyone who now t db = Some (Inr (w, db'))
    \<Longrightarrow> noc_step db db'"
| granted: "noc_step db (snd (access_granted from_host host now db))"
| case_pass: "noc_step db (snd (tick_locked automation read_at now reads db))"
| agent_pass: "agent_tick_locked now areads db = Some (Inr db') \<Longrightarrow> noc_step db db'"
| invoked: "noc_step db (noc_wake a ''on_demand'' si by_ref now db)"
| started: "noc_step db (snd (start_run av everyone running now r db))"
| called: "noc_step db (record_call a tool ok detail now db)"
| reported: "st \<in> ended_status \<Longrightarrow> noc_step db (snd (noc_agent_run_finish r_id st now su er us db))"
| ran: "o_status out \<in> ended_status \<Longrightarrow> noc_step db (end_in_process now month r ag out db)"
| delivered: "noc_step db (end_webhook now r ag ok detail db)"

inductive noc_reach :: "noc_db \<Rightarrow> bool" where
  empty: "noc_reach noc_empty"
| step: "noc_reach db \<Longrightarrow> noc_step db db' \<Longrightarrow> noc_reach db'"

lemma ended_not_queued: "st \<in> ended_status \<Longrightarrow> st \<noteq> ''queued''"
  by (auto simp: ended_status_def)

lemma inv_columns:
  "noc_inv (db\<lparr>n_severity := sev\<rparr>) = noc_inv db" "noc_inv (db\<lparr>n_agents := agents\<rparr>) = noc_inv db"
  by (simp_all add: noc_inv_def ids_ok_def clocks_inv_def sig_def find_case_def count_cycles_def)

lemma step_keeps_inv: "noc_step db db' \<Longrightarrow> noc_inv db \<Longrightarrow> noc_inv db'"
proof (induction rule: noc_step.induct)
  case opened
  then show ?case by (rule inv_opened)
next
  case broker
  then show ?case by (simp only: inv_columns)
next
  case organization
  then show ?case by (simp only: inv_columns)
next
  case taken
  then show ?case by (rule taken_inv [rotated])
next
  case released
  then show ?case by (rule released_inv [rotated])
next
  case updated
  then show ?case by (blast intro: updated_inv)
next
  case sent
  then show ?case by (blast intro: sent_inv)
next
  case pended
  then show ?case by (rule pended_inv [rotated])
next
  case resolved
  then show ?case by (rule resolved_inv [rotated])
next
  case auto_pended
  then show ?case by (rule auto_pended_inv [rotated])
next
  case (automation_ended sid db c now t)
  show ?case
    by (rule requeue_inv [OF automation_ended(3,1)]) (simp_all add: automation_ended(2))
next
  case (posted sid db c readers who vis body now)
  then show ?case by (intro post_on_case_inv)
next
  case assigned
  then show ?case by (blast intro: assigned_inv)
next
  case (handed_over sid db c who now t)
  then show ?case using with_people_inv [of db sid c "c_agent_id c" who now t] by simp
next
  case escalated
  then show ?case by (rule escalated_inv [rotated])
next
  case granted
  then show ?case by (rule access_inv)
next
  case case_pass
  then show ?case by (rule tick_inv)
next
  case agent_pass
  then show ?case by (rule agent_tick_inv [rotated])
next
  case invoked
  then show ?case by (rule wake_inv)
next
  case started
  then show ?case by (rule run_acts_inv(1))
next
  case called
  then show ?case by (rule run_acts_inv(4))
next
  case reported
  then show ?case by (blast intro: run_writes_inv(6))
next
  case ran
  then show ?case by (blast intro: run_acts_inv(2))
next
  case delivered
  then show ?case by (rule run_acts_inv(3))
qed

lemma step_keeps_queued: "noc_step db db' \<Longrightarrow> queued_once db \<Longrightarrow> queued_once db'"
proof (induction rule: noc_step.induct)
  case opened
  then show ?case by (elim queued_cong [rotated]) (simp only: run_frame)
next
  case broker
  then show ?case by (elim queued_cong [rotated]) simp
next
  case organization
  then show ?case by (elim queued_cong [rotated]) simp
next
  case taken
  then show ?case by (blast intro: queued_person_acts(1))
next
  case released
  then show ?case by (blast intro: queued_person_acts(2))
next
  case updated
  then show ?case by (blast intro: queued_person_acts(3))
next
  case sent
  then show ?case by (blast intro: queued_person_acts(4))
next
  case pended
  then show ?case by (blast intro: queued_person_acts(5))
next
  case resolved
  then show ?case by (blast intro: queued_person_acts(6))
next
  case auto_pended
  then show ?case by (blast intro: queued_routes(4))
next
  case automation_ended
  then show ?case by (blast intro: case_writes_queued(2))
next
  case posted
  then show ?case by (blast intro: queued_routes(3))
next
  case assigned
  then show ?case by (blast intro: queued_routes(1))
next
  case handed_over
  then show ?case by (blast intro: case_writes_queued(8))
next
  case escalated
  then show ?case by (blast intro: queued_routes(2))
next
  case granted
  then show ?case by (rule access_queued)
next
  case case_pass
  then show ?case by (rule tick_queued)
next
  case agent_pass
  then show ?case by (blast intro: agent_tick_queued)
next
  case invoked
  then show ?case by (rule wake_queued)
next
  case started
  then show ?case by (rule queued_run_acts(1))
next
  case called
  then show ?case by (rule queued_run_acts(2))
next
  case reported
  then show ?case by (rule queued_runs_writes(4) [OF _ ended_not_queued, rotated])
next
  case ran
  then show ?case by (rule queued_run_acts(4) [OF _ ended_not_queued, rotated])
next
  case delivered
  then show ?case by (rule queued_run_acts(3))
qed

lemma reach_inv: "noc_reach db \<Longrightarrow> noc_inv db \<and> queued_once db"
proof (induction rule: noc_reach.induct)
  case empty
  show ?case
    by (simp add: noc_inv_def noc_empty_def ids_ok_def clocks_inv_def sig_def sig_ok_def find_case_def count_cycles_def
        queued_once_def queued_runs_def)
next
  case (step db db')
  then show ?case
    using step_keeps_inv step_keeps_queued by blast
qed

section \<open>Properties of the reachable states\<close>

text \<open>C21: the clocks and the owner of a case agree with its status in every reachable state. A queued case
  has exactly one cycle whose take clock runs and no other case has one; at most one cycle of a case
  is being worked, and only while the case is; an unowned status has no owner and a worked case has
  one; the pause clock runs exactly in the pending statuses and the restore clock is stopped exactly
  in \<open>validate\<close>, \<open>resolved\<close> and \<open>closed\<close>. A case that does not exist has no cycle.\<close>

theorem case_clocks_agree:
  assumes "noc_reach db"
  shows "case find_case sid db of
      None \<Rightarrow> count_cycles sid untaken db = 0 \<and> count_cycles sid being_worked db = 0
    | Some c \<Rightarrow> c_status c \<in> statuses
        \<and> count_cycles sid untaken db = (if c_status c = ''queue'' then 1 else 0)
        \<and> count_cycles sid being_worked db \<le> (if c_status c = ''working'' then 1 else 0)
        \<and> (c_status c \<in> UNOWNED \<longrightarrow> c_owner c = None) \<and> (c_status c = ''working'' \<longrightarrow> c_owner c \<noteq> None)
        \<and> (c_paused_at c \<noteq> None \<longleftrightarrow> c_status c \<in> PENDING)
        \<and> (c_restored_at c \<noteq> None \<longleftrightarrow> c_status c \<in> {''validate'', ''resolved'', ''closed''})"
proof (cases "find_case sid db")
  case None
  have "sig sid db = None"
    using None by (simp add: sig_def)
  with reach_inv [OF assms, THEN conjunct1, unfolded noc_inv_def, THEN conjunct2, THEN conjunct2, THEN spec, of sid]
  have "sig_ok None (count_cycles sid untaken db) (count_cycles sid being_worked db)"
    by (simp only:)
  with None show ?thesis
    by (simp add: sig_ok_def)
next
  case (Some c)
  note inv = reach_inv [OF assms, THEN conjunct1]
  note ci = inv_at(2) [OF inv Some, unfolded clocks_inv_def, rule_format, OF Some, unfolded clocks_ok_def]
  show ?thesis
    unfolding Some option.case
    by (rule conjI [OF ci [THEN conjunct1] conjI [OF inv_at(6) [OF inv Some] conjI [OF inv_at(7) [OF inv Some]
          conjI [OF impI [OF inv_at(4) [OF inv Some]] conjI [OF impI [OF inv_at(5) [OF inv Some]]
          ci [THEN conjunct2]]]]]], assumption+)
qed

text \<open>A reachable state: one situation opened and dispatched to the queue by a pass of the loop.\<close>

definition only_fresh :: "int list \<Rightarrow> tick_reads" where
  "only_fresh sids = \<lparr>tr_fresh = sids, tr_due = [], tr_orphaned = [], tr_stale = [], tr_rising = [], tr_states = [], tr_heard = Map.empty\<rparr>"

definition one_queued :: noc_db where
  "one_queued = snd (tick_locked (\<lambda>_ _. False) 10 10 (only_fresh [7]) (open_case 7 (Some ''critical'') 0 noc_empty))"

lemma one_queued_reach: "noc_reach one_queued"
  unfolding one_queued_def by (rule noc_reach.step [OF noc_reach.step [OF noc_reach.empty noc_step.opened] noc_step.case_pass])

lemma one_queued_case: "\<exists>c. find_case 7 one_queued = Some c \<and> c_status c = ''queue''"
proof -
  let ?db = "open_case 7 (Some ''critical'') 0 noc_empty"
  obtain c where c: "find_case 7 ?db = Some c" "c_status c = ''new''" "c_priority c = ''critical''"
    by (simp add: open_case_def noc_empty_def find_case_def priority_of_def)
  have "snd (reprioritize 7 10 ?db) = ?db"
    using c by (simp add: reprioritize_def Let_def rank_def open_case_def noc_empty_def priority_of_def)
  then have eq: "one_queued = dispatch 7 10 False ?db"
    using c by (simp add: one_queued_def only_fresh_def tick_locked_def Let_def hearing_plan_def tick_fresh_def)
  then show ?thesis
    unfolding eq dispatch_def Let_def case_prod_beta if_False event_writes
      \<open>snd (reprioritize 7 10 ?db) = ?db\<close> enqueue_writes
    using c by (simp add: touch_def)
qed

theorem case_clocks_agree_witness: "count_cycles 7 untaken one_queued = 1 \<and> count_cycles 7 being_worked one_queued = 0"
proof -
  obtain c where "find_case 7 one_queued = Some c" "c_status c = ''queue''"
    using one_queued_case by blast
  with case_clocks_agree [OF one_queued_reach, of 7] show ?thesis
    by simp
qed

text \<open>C22: wake-ups are merged. In every reachable state an agent has at most one queued run, whatever wakes it:
  the heartbeat, an assignment, an escalation, a case returning to it, or a person.\<close>

theorem one_queued_run_per_agent:
  assumes "noc_reach db"
  shows "length (filter (\<lambda>r. run_agent r = a \<and> run_status r = ''queued'') (n_runs db)) \<le> 1"
  by (rule reach_inv [OF assms, THEN conjunct2, unfolded queued_once_def queued_runs_def, rule_format])

theorem one_queued_run_per_agent_witness:
  "length (filter (\<lambda>r. run_agent r = 1 \<and> run_status r = ''queued'')
     (n_runs (noc_wake 1 ''on_demand'' (Some 7) ''user:1'' 20 (noc_wake 1 ''on_demand'' None ''user:1'' 10 noc_empty)))) \<le> 1"
  by (rule one_queued_run_per_agent [OF noc_reach.step [OF noc_reach.step [OF noc_reach.empty noc_step.invoked] noc_step.invoked]])

section \<open>What an act leaves\<close>

lemma touch_fields [simp]:
  "c_status (touch now a c) = c_status c" "c_owner (touch now a c) = c_owner c" "c_next_update (touch now a c) = c_next_update c"
  "c_text (touch now a c) = c_text c" "c_priority (touch now a c) = c_priority c" "c_priority_by (touch now a c) = c_priority_by c"
  "c_sid (touch now a c) = c_sid c" "c_restored_at (touch now a c) = c_restored_at c" "c_status_at (touch now a c) = c_status_at c"
  "c_paused_at (touch now a c) = c_paused_at c" "c_resolution (touch now a c) = c_resolution c"
  by (simp_all add: touch_def)

lemma moved_row:
  assumes "find_case sid db = Some c"
  shows "\<exists>c'. find_case sid (noc_case_move sid st now a owner True db) = Some c' \<and> c_status c' = st
    \<and> c_next_update c' = c_next_update c \<and> c_text c' = c_text c
    \<and> c_owner c' = (case owner of None \<Rightarrow> c_owner c | Some w \<Rightarrow> Some w)"
  using assms by (simp add: noc_case_move_def noc_frame)

lemma not_lacking:
  "\<not> lacks v now name \<longleftrightarrow>
    (if name = ''next_update_at'' then \<exists>t. view_next_update v = Some t \<and> now < t
     else \<exists>x. view_text v name = Some x \<and> strip x \<noteq> [])"
  by (auto simp: lacks_def split: option.splits)

lemma missing_pending:
  assumes "missing v target now = []" and "target \<noteq> ''resolved''"
  shows "(\<exists>t. view_next_update v = Some t \<and> now < t) \<and>
    (\<forall>name \<in> set FOR_PENDING - {''next_update_at''}. \<exists>x. view_text v name = Some x \<and> strip x \<noteq> [])"
proof -
  have ok: "\<not> lacks v now name" if "name \<in> set FOR_PENDING" for name
    using assms that by (simp add: missing_Nil)
  have "''next_update_at'' \<in> set FOR_PENDING"
    by (simp add: FOR_PENDING_def)
  from ok [OF this] have "\<exists>t. view_next_update v = Some t \<and> now < t"
    by (simp add: not_lacking)
  moreover have "\<exists>x. view_text v name = Some x \<and> strip x \<noteq> []" if "name \<in> set FOR_PENDING - {''next_update_at''}" for name
    using ok [of name] that by (simp add: not_lacking)
  ultimately show ?thesis
    by simp
qed

lemma missing_resolved:
  assumes "missing v ''resolved'' now = []"
  shows "\<forall>name \<in> set FOR_RESOLVED. \<exists>x. view_text v name = Some x \<and> strip x \<noteq> []"
proof
  fix name
  assume n: "name \<in> set FOR_RESOLVED"
  then have "\<not> lacks v now name" "name \<noteq> ''next_update_at''"
    using assms by (simp_all add: missing_Nil) (auto simp: FOR_RESOLVED_def)
  then show "\<exists>x. view_text v name = Some x \<and> strip x \<noteq> []"
    by (simp add: not_lacking)
qed


text \<open>Resolving stops every clock. When \<open>resolve\<close> succeeds for the NOC, the actor owned the case or
  manages the NOC and the title, the description, the summary, the analysis, a known cause and the
  solution are all there; whoever resolves, the case is resolved, its restore clock is stopped and no
  cycle of it is left running or worked.\<close>

theorem resolved_stops_clocks:
  assumes "noc_reach db" and "find_case sid db = Some c"
    and "resolve_case c who now cause solution verified admin resolution db = Inr db'"
  shows "(resolution = ''noc'' \<longrightarrow> (admin \<or> map_option fst (c_owner c) = Some (ac_ref who))
        \<and> (\<forall>name \<in> {''title'', ''description'', ''executive_summary'', ''current_analysis''}.
              \<exists>x. c_text c name = Some x \<and> strip x \<noteq> []) \<and> strip solution \<noteq> [])
    \<and> cause \<in> fst ` set CAUSES
    \<and> (\<exists>c'. find_case sid db' = Some c' \<and> c_status c' = ''resolved'' \<and> c_restored_at c' \<noteq> None)
    \<and> count_cycles sid untaken db' = 0 \<and> count_cycles sid being_worked db' = 0"
proof -
  have sid: "c_sid c = sid"
    using assms(2) by (rule find_case_sid)
  let ?act = "if resolution = ''noc'' then ''resolve'' else ''auto_resolve''"
  have own: "resolution = ''noc'' \<longrightarrow> owns c who admin"
    using assms(3) by (auto simp: resolve_case_def Let_def split: if_splits)
  obtain to where to: "transition ?act (c_status c) None = Inr to"
    using assms(3) own by (auto simp: resolve_case_def Let_def split: sum.splits)
  have cause: "cause \<in> fst ` set CAUSES"
    using assms(3) own to by (auto simp: resolve_case_def Let_def split: if_splits)
  have full: "resolution = ''noc'' \<longrightarrow> missing (\<lparr>view_text = (c_text c)(''cause'' \<mapsto> cause, ''solution'' \<mapsto> solution),
      view_next_update = c_next_update c\<rparr>) ''resolved'' now = []"
    using assms(3) own to by (simp add: resolve_case_def Let_def split: if_splits)
  let ?d = "noc_cycle_withdrawn sid now (if c_status c = ''working'' then noc_cycle_left sid now (noc_cycle_documented sid now db) else db)"
  obtain b where db': "db' = case_event sid b now who
      (noc_case_resolve sid now (ac_ref who) resolution cause (strip solution) verified ?d)"
    using assms(3) own to cause full by (auto simp: resolve_case_def Let_def sid split: if_splits)
  have reach: "noc_reach db'"
    by (rule noc_reach.step [OF assms(1) noc_step.resolved [OF assms(2,3)]])
  have "sig sid db' = Some (''resolved'', c_owner c \<noteq> None)"
    using assms(2) by (simp add: db' noc_frame) (simp add: sig_def)
  then obtain c' where c': "find_case sid db' = Some c'" "c_status c' = ''resolved''"
    by (auto simp: sig_def)
  note at = inv_at [OF reach_inv [OF reach, THEN conjunct1] c'(1)]
  have "clocks_ok c'"
    using at(2) c'(1) by (simp add: clocks_inv_def)
  then have "c_restored_at c' \<noteq> None"
    using c'(2) by (simp add: clocks_ok_def)
  moreover have "count_cycles sid untaken db' = 0" "count_cycles sid being_worked db' = 0"
    using at(6,7) c'(2) by simp_all
  moreover have "(\<forall>name \<in> {''title'', ''description'', ''executive_summary'', ''current_analysis''}.
      \<exists>x. c_text c name = Some x \<and> strip x \<noteq> []) \<and> strip solution \<noteq> []" if "resolution = ''noc''"
    using missing_resolved [OF full [rule_format, OF that]] by (simp add: FOR_RESOLVED_def)
  ultimately show ?thesis
    using own cause c' by (simp add: owns_def)
qed

lemma one_taken: "\<exists>db c. noc_reach db \<and> find_case 7 db = Some c \<and> c_status c = ''working'' \<and> c_owner c = Some (''system'', ''NetCoreNOC'', ''system'')"
proof -
  obtain c where c: "find_case 7 one_queued = Some c" "c_status c = ''queue''"
    using one_queued_case by blast
  have sid: "c_sid c = 7"
    using c(1) by (rule find_case_sid)
  obtain b where t: "take_case c SYSTEM 20 one_queued = Inr (case_event 7 b 20 SYSTEM (noc_cycle_taken 7 20 ''system''
      (noc_case_move 7 ''working'' 20 ''system'' (Some (''system'', ''NetCoreNOC'', ''system'')) True one_queued)))"
    by (simp add: take_case_def Let_def c(2) sid transition_def act_defs SYSTEM_def UNOWNED_def)
  obtain c' where "find_case 7 (noc_case_move 7 ''working'' 20 ''system'' (Some (''system'', ''NetCoreNOC'', ''system'')) True one_queued) = Some c'"
      "c_status c' = ''working''" "c_owner c' = Some (''system'', ''NetCoreNOC'', ''system'')"
    using moved_row [OF c(1)] by fastforce
  then have "find_case 7 (case_event 7 b 20 SYSTEM (noc_cycle_taken 7 20 ''system''
      (noc_case_move 7 ''working'' 20 ''system'' (Some (''system'', ''NetCoreNOC'', ''system'')) True one_queued))) = Some c'"
      "c_status c' = ''working''" "c_owner c' = Some (''system'', ''NetCoreNOC'', ''system'')"
    by (simp_all add: noc_frame)
  with noc_reach.step [OF one_queued_reach noc_step.taken [OF c(1) t]] show ?thesis
    by blast
qed

definition full_update :: case_fields where
  "full_update = \<lparr>f_text = map (\<lambda>k. (k, ''x'')) [''title'', ''description'', ''executive_summary'', ''current_analysis'',
     ''noc_next_step'', ''customer_next_step''], f_priority = None, f_next_update = Some (Some 100)\<rparr>"

lemma one_written:
  "\<exists>db c. noc_reach db \<and> find_case 7 db = Some c \<and> c_status c = ''working'' \<and> c_owner c = Some (''system'', ''NetCoreNOC'', ''system'')
     \<and> c_next_update c = Some 100 \<and> (\<forall>name \<in> set FOR_PENDING - {''next_update_at''}. c_text c name = Some ''x'')"
proof -
  obtain db c where c: "noc_reach db" "find_case 7 db = Some c" "c_status c = ''working''"
      "c_owner c = Some (''system'', ''NetCoreNOC'', ''system'')"
    using one_taken by blast
  have sid: "c_sid c = 7"
    using c(2) by (rule find_case_sid)
  have short: "\<not> list_ex over_limit (f_text full_update)"
    by (simp add: full_update_def over_limit_def FIELD_LIMITS_def)
  have plain: "f_priority full_update = None" "f_next_update full_update = Some (Some 100)"
    by (simp_all add: full_update_def)
  obtain v b dc where u: "update_customer c SYSTEM 30 full_update [] {} db = Inr (v, case_event 7 b 30 SYSTEM
      (if dc then noc_cycle_documented 7 30 (noc_case_set_fields 7 full_update 30 ''system'' db)
       else noc_case_set_fields 7 full_update 30 ''system'' db))"
    using short by (simp add: update_customer_def Let_def c(3) sid plain SYSTEM_def)
  have reach: "noc_reach (case_event 7 b 30 SYSTEM (if dc then noc_cycle_documented 7 30 (noc_case_set_fields 7 full_update 30 ''system'' db)
       else noc_case_set_fields 7 full_update 30 ''system'' db))"
    by (rule noc_reach.step [OF c(1) noc_step.updated [OF c(2) u]])
  have texts: "filter (\<lambda>(name, _). name \<in> set EDITABLE) (f_text full_update) = f_text full_update"
    by (simp add: full_update_def EDITABLE_def)
  have "f_text full_update \<noteq> []"
    by (simp add: full_update_def)
  then obtain c' where c': "find_case 7 (noc_case_set_fields 7 full_update 30 ''system'' db) = Some c'" "c_status c' = c_status c"
      "c_owner c' = c_owner c" "c_next_update c' = Some 100" "c_text c' = c_text c ++ map_of (rev (f_text full_update))"
    using c(2) by (simp add: noc_case_set_fields_def Let_def texts plain noc_frame)
  have "\<forall>name \<in> set FOR_PENDING - {''next_update_at''}. c_text c' name = Some ''x''"
    by (auto simp: c'(5) FOR_PENDING_def full_update_def map_add_def)
  moreover have "find_case 7 (case_event 7 b 30 SYSTEM (if dc then noc_cycle_documented 7 30 (noc_case_set_fields 7 full_update 30 ''system'' db)
       else noc_case_set_fields 7 full_update 30 ''system'' db)) = Some c'"
    by (simp add: noc_frame c'(1))
  ultimately show ?thesis
    using reach c'(2-4) unfolding c(3,4) by blast
qed


theorem resolved_stops_clocks_witness:
  "\<exists>c db'. resolve_case c SYSTEM 20 ''other'' ''rebooted'' False True ''automation'' one_queued = Inr db'
     \<and> count_cycles 7 untaken db' = 0 \<and> count_cycles 7 being_worked db' = 0"
proof -
  obtain c where c: "find_case 7 one_queued = Some c" "c_status c = ''queue''"
    using one_queued_case by blast
  have "transition ''auto_resolve'' ''queue'' None = Inr (Some ''resolved'')"
    by (simp add: transition_def act_defs)
  moreover have "''other'' \<in> fst ` set CAUSES"
    by (simp add: CAUSES_def)
  ultimately obtain db' where r: "resolve_case c SYSTEM 20 ''other'' ''rebooted'' False True ''automation'' one_queued = Inr db'"
    by (simp add: resolve_case_def Let_def c(2))
  from r resolved_stops_clocks [OF one_queued_reach c(1) r, THEN conjunct2, THEN conjunct2, THEN conjunct2] show ?thesis
    by blast
qed

end
