(* ===== verification/Noc_Live.thy ===== *)
theory Noc_Live
  imports Noc_System
begin

text \<open>
  What the loops get done, and what they do on lists that went out of date: a due case is back in
  the queue after the pass, a priority only rises, and two things the agent loop does not re-read
  under the lock.
\<close>

section \<open>Priorities only rise\<close>

lemma rank_priority: "p \<in> fst ` set PRIORITIES \<longleftrightarrow> rank p \<noteq> None"
  by (auto simp: PRIORITIES_def rank_def)

lemma rank_priority_of: "rank (priority_of s) \<noteq> None"
  by (simp add: rank_def priority_of_def split: option.split)

text \<open>A priority that nobody set follows the Broker upwards and nothing else moves it. After
  \<open>reprioritize\<close> the case keeps a priority a person or an agent set; otherwise its rank is the worse
  of its own and the one derived from what the Broker shows, and the call reports a new priority
  exactly when it rose.\<close>

theorem priority_only_rises:
  assumes "find_case sid db = Some c" and "c_priority c \<in> fst ` set PRIORITIES"
  shows "\<exists>c'. find_case sid (snd (reprioritize sid now db)) = Some c' \<and> c_status c' = c_status c
     \<and> (c_priority_by c \<noteq> None \<longrightarrow> c' = c)
     \<and> (c_priority_by c = None \<longrightarrow> the (rank (c_priority c')) = min (the (rank (c_priority c))) (the (rank (priority_of (n_severity db sid)))))
     \<and> fst (reprioritize sid now db) = (if c_priority c' = c_priority c then None else Some (c_priority c'))"
proof -
  let ?p = "priority_of (n_severity db sid)"
  show ?thesis
  proof (cases "c_priority_by c \<noteq> None \<or> the (rank (c_priority c)) \<le> the (rank ?p)")
    case True
    then have "reprioritize sid now db = (None, db)"
      using assms(1) by (auto simp: reprioritize_def Let_def)
    with True assms(1) show ?thesis
      by auto
  next
    case False
    then have r: "fst (reprioritize sid now db) = Some ?p"
        "find_case sid (snd (reprioritize sid now db)) = Some (touch now ''system'' (c\<lparr>c_priority := ?p\<rparr>))"
      using assms(1) by (auto simp: reprioritize_def Let_def noc_frame noc_case_raise_priority_def status_triggers_def touch_def)
    have "c_priority c \<noteq> ?p"
      using False by auto
    with False show ?thesis
      unfolding r by (auto simp: touch_def)
  qed
qed

theorem priority_only_rises_witness:
  "\<exists>c'. find_case 7 (snd (reprioritize 7 10 ((open_case 7 None 0 noc_empty)\<lparr>n_severity := [7 \<mapsto> ''major'']\<rparr>))) = Some c'
     \<and> the (rank (c_priority c')) = 1"
proof -
  let ?db = "(open_case 7 None 0 noc_empty)\<lparr>n_severity := [7 \<mapsto> ''major'']\<rparr>"
  obtain c where c: "find_case 7 ?db = Some c" "c_priority c = ''minor''" "c_priority_by c = None"
    by (simp add: find_case_def open_case_def noc_empty_def priority_of_def)
  have known: "c_priority c \<in> fst ` set PRIORITIES"
    by (simp add: c(2) PRIORITIES_def)
  from priority_only_rises [OF c(1) known, of 10] obtain c' where
    c': "find_case 7 (snd (reprioritize 7 10 ?db)) = Some c'" and
    "c_priority_by c = None \<longrightarrow> the (rank (c_priority c')) = min (the (rank (c_priority c))) (the (rank (priority_of (n_severity ?db 7))))"
    by (elim exE conjE) (rule that)
  then have "the (rank (c_priority c')) = min (the (rank ''minor'')) (the (rank (priority_of (Some ''major''))))"
    by (simp add: c(2,3))
  then show ?thesis
    using c' by (simp add: rank_def priority_of_def)
qed

section \<open>A due case returns to the queue\<close>

definition due_or_queued :: "int \<Rightarrow> seconds \<Rightarrow> noc_db \<Rightarrow> bool" where
  "due_or_queued sid now db \<longleftrightarrow> (\<exists>c. find_case sid db = Some c
     \<and> (c_status c = ''queue'' \<or> c_status c \<in> PENDING \<and> (\<exists>t. c_next_update c = Some t \<and> t \<le> now)))"

definition is_queued :: "int \<Rightarrow> noc_db \<Rightarrow> bool" where
  "is_queued sid db \<longleftrightarrow> (\<exists>c. find_case sid db = Some c \<and> c_status c = ''queue'')"

text \<open>An act on a case leaves the others alone.\<close>

lemma others_kept:
  assumes "s \<noteq> sid"
  shows "find_case s (dispatch sid now au db) = find_case s db" "find_case s (validate_case sid now t db) = find_case s db"
    "find_case s (auto_resolve sid now res t db) = find_case s db" "find_case s (close_case sid now db) = find_case s db"
    "find_case s (snd (hearing_apply sid found now db)) = find_case s db"
proof -
  have move: "find_case s (noc_case_move sid st now a ow keep d) = find_case s d" for st now a ow keep d
    using assms by (simp add: noc_case_move_def noc_frame)
  have res: "find_case s (noc_case_resolve sid now a r ca so cl d) = find_case s d" for now a r ca so cl d
    using assms by (simp add: noc_case_resolve_def noc_frame)
  have enq: "find_case s (snd (noc_case_enqueue sid r now d)) = find_case s d" for r now d
    using assms by (simp add: enqueue_writes)
  show "find_case s (dispatch sid now au db) = find_case s db"
    by (simp only: dispatch_def Let_def case_prod_beta event_writes move enq reprioritize_other [OF assms] split: if_split) simp
  show "find_case s (validate_case sid now t db) = find_case s db"
    by (simp only: validate_case_def event_writes move find_case_cycles)
  show "find_case s (auto_resolve sid now res t db) = find_case s db"
    by (simp only: auto_resolve_def Let_def event_writes res find_case_cycles)
  show "find_case s (close_case sid now db) = find_case s db"
    by (simp only: close_case_def event_writes move)
  show "find_case s (snd (hearing_apply sid found now db)) = find_case s db"
    using assms by (simp add: hearing_apply_def Let_def event_writes hear_row requeue_other split: option.split)
qed

lemma reprioritize_row:
  assumes "find_case sid db = Some c"
  shows "\<exists>c'. find_case sid (snd (reprioritize sid now db)) = Some c' \<and> c_status c' = c_status c \<and> c_next_update c' = c_next_update c"
  using assms by (auto simp: reprioritize_def Let_def noc_frame noc_case_raise_priority_def)

lemma requeue_row:
  assumes "find_case sid db = Some c"
  shows "is_queued sid (requeue sid r now t db)"
proof -
  obtain c1 where c1: "find_case sid (snd (reprioritize sid now db)) = Some c1"
    using reprioritize_row [OF assms] by blast
  then have "sig sid (snd (noc_case_enqueue sid r now (snd (reprioritize sid now db)))) = Some (''queue'', False)"
    by (simp add: enqueue_sig) (simp add: sig_def)
  then have "sig sid (requeue sid r now t db) = Some (''queue'', False)"
    by (simp only: requeue_def Let_def case_prod_beta sig_same back_to_agent_writes)
  then show ?thesis
    by (auto simp: is_queued_def sig_def)
qed

lemma queued_due: "is_queued sid db \<Longrightarrow> due_or_queued sid now db"
  by (auto simp: is_queued_def due_or_queued_def)

lemma due_cong: "find_case sid db' = find_case sid db \<Longrightarrow> due_or_queued sid now db' = due_or_queued sid now db"
  "find_case sid db' = find_case sid db \<Longrightarrow> is_queued sid db' = is_queued sid db"
  by (simp_all add: due_or_queued_def is_queued_def)

lemma fold_reaches:
  assumes "a \<in> set xs" and "P s" and "\<And>x s. P s \<Longrightarrow> P (f x s)" and "\<And>s. P s \<Longrightarrow> Q (f a s)" and "\<And>x s. Q s \<Longrightarrow> Q (f x s)"
  shows "Q (fold f xs s)"
  using assms(1,2)
proof (induction xs arbitrary: s)
  case (Cons x xs)
  show ?case
  proof (cases "x = a")
    case True
    then show ?thesis
      using fold_keeps [where P = Q, OF assms(5)] assms(4) [OF Cons.prems(2)] by simp
  next
    case False
    with Cons assms(3) show ?thesis
      by simp
  qed
qed simp

lemma fold_keeps_in: "(\<And>x s. x \<in> set xs \<Longrightarrow> P s \<Longrightarrow> P (f x s)) \<Longrightarrow> P s \<Longrightarrow> P (fold f xs s)"
  by (induction xs arbitrary: s) auto

lemma due_not_new: "due_or_queued sid now db \<Longrightarrow> find_case sid db = Some c \<Longrightarrow> c_status c \<noteq> ''new''"
  using not_PENDING(1) by (auto simp: due_or_queued_def)

lemma hearing_due:
  assumes "due_or_queued sid now db"
  shows "due_or_queued sid now (snd (hearing_apply x found at_time db))"
proof (cases "x = sid")
  case True
  obtain c where c: "find_case sid db = Some c"
    using assms by (auto simp: due_or_queued_def)
  have same: "find_case sid (case_event sid b at_time w (noc_case_hear sid m db)) = find_case sid db" for b w m
    by (simp add: event_writes hear_row)
  have back_in: "is_queued sid (requeue sid r at_time t (case_event sid b at_time w (noc_case_hear sid m db)))" for r t b w m
    by (rule requeue_row) (simp add: same c)
  show ?thesis
    unfolding True hearing_apply_def Let_def c option.case
    by (simp add: assms due_cong(1) [OF same] due_cong(1) [OF hear_row] queued_due [OF back_in])
next
  case False
  then show ?thesis
    using due_cong(1) [OF others_kept(5) [of sid x]] assms by simp
qed

lemma tick_due_kept:
  assumes "due_or_queued sid now (snd s)"
  shows "due_or_queued sid now (snd (tick_rising at_time x s))" "due_or_queued sid now (snd (tick_news at_time item s))"
    "due_or_queued sid now (snd (tick_fresh automation at_time x s))"
proof -
  obtain n db where s: "s = (n, db)"
    by (cases s)
  have due: "due_or_queued sid now db"
    using assms by (simp add: s)
  have rise: "due_or_queued sid now (snd (reprioritize x at_time db))"
  proof (cases "x = sid")
    case True
    obtain c where "find_case sid db = Some c" "c_status c = ''queue'' \<or> c_status c \<in> PENDING \<and> (\<exists>t. c_next_update c = Some t \<and> t \<le> now)"
      using due unfolding due_or_queued_def by (elim exE conjE) (rule that)
    with reprioritize_row [of sid db c at_time] True show ?thesis
      unfolding due_or_queued_def by (metis (no_types))
  next
    case False
    then show ?thesis
      using due_cong(1) [OF reprioritize_other [of sid x]] due by simp
  qed
  then show "due_or_queued sid now (snd (tick_rising at_time x s))"
    by (simp add: s tick_rising_def Let_def case_prod_beta)
  show "due_or_queued sid now (snd (tick_news at_time item s))"
    using hearing_due [OF due] by (cases item) (simp add: s tick_news_def Let_def case_prod_beta)
  have "due_or_queued sid now (dispatch x at_time au db)" if "find_case x db = Some c" "c_status c = ''new''" for au c
  proof -
    have "sid \<noteq> x"
      using that due_not_new [OF due] by auto
    then show ?thesis
      using due_cong(1) [OF others_kept(1) [of sid x]] due by simp
  qed
  then show "due_or_queued sid now (snd (tick_fresh automation at_time x s))"
    using due by (simp add: s tick_fresh_def split: option.split)
qed

lemma tick_due_queues:
  assumes "due_or_queued sid now (snd s)"
  shows "is_queued sid (snd (tick_due now sid s))" "due_or_queued sid now (snd (tick_due now x s))"
proof -
  obtain n db where s: "s = (n, db)"
    by (cases s)
  have due: "due_or_queued sid now db"
    using assms by (simp add: s)
  obtain c where c: "find_case sid db = Some c" and st: "c_status c = ''queue'' \<or> c_status c \<in> PENDING \<and> (\<exists>t. c_next_update c = Some t \<and> t \<le> now)"
    using due unfolding due_or_queued_def by (elim exE conjE) (rule that)
  have "is_queued sid db" if "c_status c \<notin> PENDING \<or> (case c_next_update c of None \<Rightarrow> True | Some t \<Rightarrow> t > now)"
    using st that c by (auto simp: is_queued_def)
  then show q: "is_queued sid (snd (tick_due now sid s))"
    using requeue_row [OF c] by (simp add: s tick_due_def c)
  show "due_or_queued sid now (snd (tick_due now x s))"
  proof (cases "x = sid")
    case False
    then have "find_case sid (requeue x r now t db) = find_case sid db" for r t
      by (intro requeue_other) simp
    note same = due_cong(1) [OF this]
    show ?thesis
      by (simp add: s tick_due_def same due split: option.split)
  qed (use q queued_due in simp)
qed

lemma tick_queued_kept:
  assumes "is_queued sid (snd s)"
  shows "is_queued sid (snd (tick_due now x s))" "fst row \<noteq> sid \<Longrightarrow> is_queued sid (snd (tick_orphaned now row s))"
    "is_queued sid (snd (tick_stale now x s))"
proof -
  obtain n db where s: "s = (n, db)"
    by (cases s)
  obtain c where c: "find_case sid db = Some c" "c_status c = ''queue''"
    using assms by (auto simp: s is_queued_def)
  have q: "is_queued sid db"
    using c by (simp add: is_queued_def)
  show "is_queued sid (snd (tick_due now x s))"
  proof (cases "x = sid")
    case False
    then have "find_case sid (requeue x r now t db) = find_case sid db" for r t
      by (intro requeue_other) simp
    note same = due_cong(2) [OF this]
    show ?thesis
      by (simp add: s tick_due_def same q split: option.split)
  qed (simp add: s tick_due_def c q)
  show "is_queued sid (snd (tick_orphaned now row s))" if "fst row \<noteq> sid"
  proof (cases row)
    case (Pair x res)
    with that have "sid \<noteq> x"
      by simp
    note kept = others_kept [OF this]
    show ?thesis
      by (simp add: s Pair tick_orphaned_def Let_def q due_cong(2) [OF kept(2)] due_cong(2) [OF kept(3)] split: option.split)
  qed
  show "is_queued sid (snd (tick_stale now x s))"
  proof (cases "x = sid")
    case False
    then have "sid \<noteq> x"
      by simp
    from due_cong(2) [OF others_kept(4) [OF this]] q show ?thesis
      by (simp add: s tick_stale_def split: option.split)
  qed (simp add: s tick_stale_def c q)
qed

text \<open>C24: a case whose next update has come is back in the queue after the pass that read it as due, provided
  its situation is not among those that left: whatever else the pass does, and however far its lists
  are out of date, it ends queued.\<close>

theorem due_case_returns_to_queue:
  assumes "find_case sid db = Some c" and "c_status c \<in> PENDING" and "c_next_update c = Some t" and "t \<le> now"
    and "sid \<in> set (tr_due reads)" and "sid \<notin> fst ` set (tr_orphaned reads)"
  shows "\<exists>c'. find_case sid (snd (tick_locked automation read_at now reads db)) = Some c' \<and> c_status c' = ''queue''"
proof -
  have start: "due_or_queued sid now (snd (no_counts, db))"
    using assms(1-4) by (auto simp: due_or_queued_def)
  have "is_queued sid (snd (tick_locked automation read_at now reads db))"
    unfolding tick_locked_def Let_def
  proof (rule fold_keeps [where P = "\<lambda>s. is_queued sid (snd s)"])
    show "is_queued sid (snd (fold (tick_orphaned now) (tr_orphaned reads) (fold (tick_due now) (tr_due reads)
        (fold (tick_fresh automation now) (tr_fresh reads) (fold (tick_news now) (hearing_plan (tr_states reads) (tr_heard reads) read_at)
        (fold (tick_rising now) (filter (\<lambda>sid. sid \<notin> set (tr_fresh reads)) (tr_rising reads)) (no_counts, db)))))))"
    proof (rule fold_keeps_in [where P = "\<lambda>s. is_queued sid (snd s)"])
      show "is_queued sid (snd (fold (tick_due now) (tr_due reads) (fold (tick_fresh automation now) (tr_fresh reads)
          (fold (tick_news now) (hearing_plan (tr_states reads) (tr_heard reads) read_at)
          (fold (tick_rising now) (filter (\<lambda>sid. sid \<notin> set (tr_fresh reads)) (tr_rising reads)) (no_counts, db))))))"
        by (rule fold_reaches [where P = "\<lambda>s. due_or_queued sid now (snd s)" and Q = "\<lambda>s. is_queued sid (snd s)", OF assms(5)])
          (intro fold_keeps [where P = "\<lambda>s. due_or_queued sid now (snd s)"] tick_due_kept tick_due_queues tick_queued_kept start; assumption)+
      show "is_queued sid (snd (tick_orphaned now row s))" if "row \<in> set (tr_orphaned reads)" "is_queued sid (snd s)" for row s
        using that assms(6) by (intro tick_queued_kept(2)) auto
    qed
  qed (rule tick_queued_kept(3))
  then show ?thesis
    by (simp add: is_queued_def)
qed

definition one_pending :: noc_db where
  "one_pending = noc_case_move 7 ''pending_vendor'' 10 ''user:1'' None True
     (noc_case_set_fields 7 \<lparr>f_text = [], f_priority = None, f_next_update = Some (Some 50)\<rparr> 5 ''user:1'' (open_case 7 None 0 noc_empty))"

theorem due_case_returns_to_queue_witness:
  "\<exists>c'. find_case 7 (snd (tick_locked (\<lambda>_ _. True) 60 60 ((only_fresh [])\<lparr>tr_due := [7]\<rparr>) one_pending)) = Some c' \<and> c_status c' = ''queue''"
proof -
  let ?fs = "\<lparr>f_text = [], f_priority = None, f_next_update = Some (Some 50)\<rparr>"
  obtain c where c: "find_case 7 (open_case 7 None 0 noc_empty) = Some c"
    by (simp add: find_case_def open_case_def noc_empty_def)
  then obtain c1 where c1: "find_case 7 (noc_case_set_fields 7 ?fs 5 ''user:1'' (open_case 7 None 0 noc_empty)) = Some c1"
      "c_next_update c1 = Some 50"
    by (simp add: noc_case_set_fields_def noc_frame)
  obtain c2 where c2: "find_case 7 one_pending = Some c2" "c_status c2 = ''pending_vendor''" "c_next_update c2 = Some 50"
    using moved_row [OF c1(1), of "''pending_vendor''" 10 "''user:1''" None] c1(2) unfolding one_pending_def by fastforce
  show ?thesis
    by (rule due_case_returns_to_queue [OF c2(1) _ c2(3)]) (simp_all add: c2(2) PENDING_members only_fresh_def)
qed

section \<open>What the agent loop does not re-read\<close>

text \<open>The pass decides who climbs without the lock and checks under it only that the case still has the
  same agent and is not with the people. A case resolved in between makes \<open>assign\<close> raise, which ends
  the pass; one a person took in between climbs although a case a person took is not to.\<close>

lemma stale_climb_aborts_pass:
  assumes "find_case (c_sid row) db = Some c" and "c_agent_id c = c_agent_id row" and "\<not> c_with_people c"
    and "c_status c = ''resolved''" and "climb everyone (case c_agent_id c of None \<Rightarrow> None | Some a \<Rightarrow> manager_of everyone a) = Some (Some m)"
  shows "climb_one everyone now (row, why) db = Some (Inl (CaseError 409))"
  using assms by (simp add: climb_one_def escalate_def assign_def)

lemma stale_climb_takes_a_persons_case:
  assumes "find_case (c_sid row) db = Some c" and "c_agent_id c = c_agent_id row" and "\<not> c_with_people c"
    and "c_status c = ''working''" and "c_owner c = Some (''user:1'', n, ''person'')"
    and "climb everyone (case c_agent_id c of None \<Rightarrow> None | Some a \<Rightarrow> manager_of everyone a) = Some (Some m)" and "ag_status m \<in> WORKING_AGENT"
  shows "climb_reason c everyone now = None"
    and "\<exists>db' c'. climb_one everyone now (row, why) db = Some (Inr db') \<and> find_case (c_sid row) db' = Some c'
       \<and> c_agent_id c' = Some (ag_id m) \<and> c_escalated_at c' = Some now"
proof -
  have sid: "c_sid c = c_sid row"
    using assms(1) by (rule find_case_sid)
  show "climb_reason c everyone now = None"
    by (simp add: climb_reason_def assms(5))
  have routed: "\<exists>db'. assign c m SYSTEM now ''escalation'' tier True why db = Inr db'
      \<and> find_case (c_sid row) db' = find_case (c_sid row) (noc_case_assign (c_sid row) (Some (ag_id m)) now (Some l) True False db)"
    if "l = max (if c_tier c = 0 then 1 else c_tier c) (case tier of None \<Rightarrow> ag_tier m | Some t \<Rightarrow> if t = 0 then ag_tier m else t)" for l tier
    using assms(4,7) unfolding assign_def Let_def sid that [symmetric] by (simp add: event_writes side_writes)
  have row: "\<exists>c'. find_case (c_sid row) (noc_case_assign (c_sid row) (Some (ag_id m)) now (Some l) True False db) = Some c'
      \<and> c_agent_id c' = Some (ag_id m) \<and> c_escalated_at c' = Some now" for l
    using assms(1) by (simp add: noc_case_assign_def find_case_update status_triggers_def)
  obtain tier where "climb_one everyone now (row, why) db = map_option (map_sum id snd)
      (Some (case assign c m SYSTEM now ''escalation'' tier True why db of Inl e \<Rightarrow> Inl e | Inr db \<Rightarrow> Inr (ag_name m, db)))"
    using assms(1-3,6) by (simp add: climb_one_def escalate_def Let_def)
  with routed [OF refl, of tier] row show "\<exists>db' c'. climb_one everyone now (row, why) db = Some (Inr db') \<and> find_case (c_sid row) db' = Some c'
       \<and> c_agent_id c' = Some (ag_id m) \<and> c_escalated_at c' = Some now"
    by fastforce
qed

text \<open>\<open>start_ready\<close> starts what it read as ready: a run that ended before it took the lock runs again.\<close>

lemma ended_run_is_restarted:
  assumes "find_run (run_id r) db = Some x" and "run_status x = ''cancelled''"
    and "map_of everyone (run_agent r) = Some ag" and "run_id r \<notin> running" and "ag_adapter ag = ''webhook''"
  shows "\<exists>y. find_run (run_id r) (snd (start_run av everyone running now r db)) = Some y \<and> run_status y = ''running''"
proof -
  have find_map: "find (\<lambda>x. run_id x = i) (map (\<lambda>x. if run_id x = i then f x else x) rs) = map_option f (find (\<lambda>x. run_id x = i) rs)"
    if "\<And>x. run_id (f x) = run_id x" for i rs and f :: "noc_run \<Rightarrow> noc_run"
    using that by (induction rs) auto
  have agent: "find_run i (update_agent a f d) = find_run i d" for i a f d
    by (simp add: find_run_def update_agent_def)
  have step: "find_run i (noc_agent_run_step i ''wake'' n ok d now db) = find_run i db" for i n ok d now db
    by (simp add: find_run_def noc_agent_run_step_def)
  have "find_run (run_id r) (update_run (run_id r) (\<lambda>x. x\<lparr>run_status := ''running'', run_started_at := Some now\<rparr>) db)
      = Some (x\<lparr>run_status := ''running'', run_started_at := Some now\<rparr>)"
    using assms(1) by (simp add: find_run_def update_run_def find_map)
  then show ?thesis
    using assms by (simp add: start_run_def IN_PROCESS_def step noc_agent_run_start_def agent agent_started_def)
qed

text \<open>A wake-up that could not be delivered puts its agent in \<open>error\<close>, which takes cases, even when a
  person paused or retired the agent while it was being delivered.\<close>

lemma failed_delivery_unpauses:
  assumes "map_of (n_agents db) (ag_id ag) = Some x" and "ag_status x = ''paused''"
  shows "\<exists>y. map_of (n_agents (end_webhook now r ag False detail db)) (ag_id ag) = Some y \<and> ag_status y \<in> WORKING_AGENT"
proof -
  have upd: "map_of (n_agents (update_agent a f d)) k = (if k = a then map_option f (map_of (n_agents d) k) else map_of (n_agents d) k)" for a f d k
  proof -
    have "map_of (map (\<lambda>(k, ag). (k, if k = a then f ag else ag)) xs) k
        = (if k = a then map_option f (map_of xs k) else map_of xs k)" for xs
      by (induction xs) auto
    then show ?thesis
      by (simp add: update_agent_def)
  qed
  have run: "n_agents (update_run i f d) = n_agents d" "n_agents (noc_agent_run_step i ''wake'' n ok t now d) = n_agents d" for i f d n ok t
    by (simp_all add: update_run_def noc_agent_run_step_def)
  define d where "d = snd (noc_agent_run_finish (run_id r) ''failed'' now [] detail (0, 0, 0)
      (noc_agent_run_step (run_id r) ''wake'' ''webhook'' False detail now db))"
  have "map_of (n_agents d) (ag_id ag) \<noteq> None"
    using assms(1) unfolding d_def noc_agent_run_finish_def by (auto simp: run upd split: option.split)
  moreover have "end_webhook now r ag False detail db = noc_set_agent_status (ag_id ag) ''error'' (Some (''wake-up failed: '' @ detail)) d"
    by (simp add: end_webhook_def Let_def d_def)
  ultimately show ?thesis
    by (auto simp: noc_set_agent_status_def upd WORKING_AGENT_def)
qed

end
