(* ===== verification/Noc_Feed.thy ===== *)
theory Noc_Feed
  imports Noc_Loop
begin

text \<open>
  \<open>engine/noc/feed.py\<close> and the posting route of \<open>api/routes/case_feed.py\<close>: who reads a
  post, who may write one, and the customer update as one post. The date of the next update is
  formatted by an argument. The ellipsis of the code is one character, written \<open>~\<close> and the dash of the head \<open>-\<close>, so that
  lengths are the code's. The masking of addresses in the text is left out.
\<close>

definition VISIBILITIES :: "string list" where
  "VISIBILITIES = [''internal'', ''specified'', ''all'']"

definition MAX_BODY :: nat where
  "MAX_BODY = 8000"

definition MAX_READERS :: nat where
  "MAX_READERS = 20"

record Reader =
  rd_ref :: "string option"
  rd_user :: "int option"
  rd_role :: string
  rd_works :: bool
  rd_admin :: bool

definition visible :: "noc_post_row \<Rightarrow> Reader \<Rightarrow> bool" where
  "visible post reader =
     (if po_visibility post = ''all'' then True
      else if po_visibility post = ''internal'' then rd_works reader
      else rd_admin reader
        \<or> (case rd_ref reader of None \<Rightarrow> False | Some ref \<Rightarrow> au_ref (po_author post) = ref)
        \<or> (case rd_user reader of None \<Rightarrow> False | Some u \<Rightarrow> u \<in> set (po_readers post)))"

definition author_label :: "string \<Rightarrow> string option \<Rightarrow> string" where
  "author_label kind role =
     (if kind = ''system'' then ''NetCoreNOC''
      else if kind = ''agent'' then ''NOC agent''
      else if role \<in> {Some ''editor'', Some ''admin''} then ''NOC engineer'' else ''Operator'')"

definition unknown_readers :: "int list \<Rightarrow> int list \<Rightarrow> int list" where
  "unknown_readers readers known = sorted_list_of_set (set readers - set known)"

text \<open>The route. The people are read before the write transaction.\<close>

definition post_to_case ::
  "int list \<Rightarrow> Reader \<Rightarrow> actor \<Rightarrow> int \<Rightarrow> string \<Rightarrow> int list \<Rightarrow> string \<Rightarrow> seconds \<Rightarrow> noc_db \<Rightarrow> case_error + noc_db" where
  "post_to_case people reader who sid visibility named body now db =
     (if visibility = ''internal'' \<and> \<not> rd_works reader then Inl (CaseError 403)
      else if visibility = ''specified'' \<and> named = [] then Inl (CaseError 400)
      else
        let readers = (if visibility = ''specified'' then named else [])
        in if readers \<noteq> [] \<and> unknown_readers readers people \<noteq> [] then Inl (CaseError 400)
           else
             case find_case sid db of
               None \<Rightarrow> Inl (CaseError 404)
             | Some c \<Rightarrow> Inr (post_on_case readers c who visibility body now db))"

section \<open>The customer update\<close>

definition CU_ORDER :: "string list" where
  "CU_ORDER = [''description'', ''executive_summary'', ''current_analysis'', ''noc_next_step'', ''customer_next_step'']"

type_synonym parts = "(string \<times> string) list"

definition excess_of :: "parts \<Rightarrow> int \<Rightarrow> int" where
  "excess_of parts room = (\<Sum>(_, v)\<leftarrow>parts. int (length v)) - room"

definition cut_part :: "string \<Rightarrow> nat \<Rightarrow> parts \<Rightarrow> parts" where
  "cut_part name off parts = map (\<lambda>(k, v). (k, if k = name then take (length v - off) v @ ''~'' else v)) parts"

fun cut_parts :: "string list \<Rightarrow> parts \<Rightarrow> int \<Rightarrow> parts" where
  "cut_parts [] parts excess = parts"
| "cut_parts (name # names) parts excess =
     (if excess \<le> 0 then parts
      else
        let off = min (nat excess + 1) (length (the (map_of parts name)))
        in cut_parts names (cut_part name off parts) (excess - (int off - 1)))"

definition longest_first :: "parts \<Rightarrow> string list" where
  "longest_first parts = sort_key (\<lambda>k. - int (length (the (map_of parts k)))) (map fst parts)"

fun paragraphs :: "string list \<Rightarrow> string" where
  "paragraphs [] = []"
| "paragraphs [x] = x"
| "paragraphs (x # y # xs) = x @ [CHR 0x0A, CHR 0x0A] @ paragraphs (y # xs)"

definition fitted_parts :: "(string \<Rightarrow> string) \<Rightarrow> nat \<Rightarrow> parts" where
  "fitted_parts text frame =
     (let parts = map (\<lambda>k. (k, strip (text k))) CU_ORDER
      in cut_parts (longest_first parts) parts (excess_of parts (int MAX_BODY - int frame - 200)))"

definition customer_update :: "(seconds \<Rightarrow> string) \<Rightarrow> noc_case \<Rightarrow> string" where
  "customer_update stamp c =
     (let text = (\<lambda>k. case c_text c k of None \<Rightarrow> [] | Some v \<Rightarrow> v);
          head = ''Customer update - '' @ strip (case c_text c ''title'' of None \<Rightarrow> ''None'' | Some v \<Rightarrow> v);
          tail = ''Next update: '' @ stamp (the (c_next_update c)) @ '' UTC'';
          body = concat (map (\<lambda>(k, v). if v = [] then []
                    else [fst (the (map_of FIELD_LIMITS k)) @ '':'' @ [CHR 0x0A] @ v])
                  (fitted_parts text (length head + length tail)))
      in take MAX_BODY (paragraphs ([head] @ body @ [tail])))"

section \<open>The customer update fits one post\<close>

lemma excess_cut:
  assumes "distinct (map fst parts)" and "map_of parts name = Some v" and "off \<le> length v"
  shows "excess_of (cut_part name off parts) room = excess_of parts room - (int off - 1)"
proof -
  have "(\<Sum>(_, w)\<leftarrow>cut_part name off parts. int (length w)) = (\<Sum>(_, w)\<leftarrow>parts. int (length w)) - (int off - 1)"
    using assms
  proof (induction parts)
    case (Cons p parts)
    obtain k w where p: "p = (k, w)"
      by (cases p)
    show ?case
    proof (cases "k = name")
      case True
      have "cut_part name off parts = parts"
        unfolding cut_part_def by (rule map_idI) (use Cons.prems(1) True p in \<open>auto simp: image_iff\<close>)
      moreover have "w = v"
        using Cons.prems(2) True p by simp
      ultimately show ?thesis
        using Cons.prems(3) True p by (simp add: cut_part_def)
    next
      case False
      with Cons p show ?thesis
        by (simp add: cut_part_def)
    qed
  qed simp
  then show ?thesis
    by (simp add: excess_of_def)
qed

lemma cut_part_keys [simp]: "map fst (cut_part name off parts) = map fst parts"
  by (simp add: cut_part_def comp_def case_prod_beta)

lemma cut_parts_done: "excess \<le> 0 \<Longrightarrow> cut_parts names parts excess = parts"
  by (cases names) simp_all

lemma cut_part_lookup: "map_of (cut_part name off parts) k =
    map_option (\<lambda>v. if k = name then take (length v - off) v @ ''~'' else v) (map_of parts k)"
  by (induction parts) (auto simp: cut_part_def)

lemma short_parts:
  assumes "\<forall>(k, v) \<in> set parts. length v \<le> 1"
  shows "(\<Sum>(_, v)\<leftarrow>parts. int (length v)) \<le> int (length parts)"
  using assms by (induction parts) auto

lemma cut_parts_fits:
  assumes "distinct (map fst parts)" and "set names \<subseteq> fst ` set parts" and "int (length parts) \<le> room"
    and "\<forall>k v. map_of parts k = Some v \<longrightarrow> k \<notin> set names \<longrightarrow> length v \<le> 1"
  shows "excess_of (cut_parts names parts (excess_of parts room)) room \<le> 0
    \<and> map fst (cut_parts names parts (excess_of parts room)) = map fst parts"
  using assms
proof (induction names arbitrary: parts)
  case Nil
  then have "(\<Sum>(_, v)\<leftarrow>parts. int (length v)) \<le> int (length parts)"
    by (intro short_parts) auto
  with Nil.prems(3) show ?case
    by (simp add: excess_of_def)
next
  case (Cons name names)
  obtain v where v: "map_of parts name = Some v"
    using Cons.prems(2) by (cases "map_of parts name") (auto simp: map_of_eq_None_iff)
  let ?e = "excess_of parts room"
  let ?off = "min (nat ?e + 1) (length v)"
  show ?case
  proof (cases "?e \<le> 0")
    case True
    then show ?thesis by simp
  next
    case False
    have e: "excess_of (cut_part name ?off parts) room = ?e - (int ?off - 1)"
      by (rule excess_cut [OF Cons.prems(1) v]) simp
    have unfold: "cut_parts (name # names) parts ?e
        = cut_parts names (cut_part name ?off parts) (excess_of (cut_part name ?off parts) room)"
      by (simp only: cut_parts.simps Let_def v option.sel e False if_False)
    show ?thesis
    proof (cases "excess_of (cut_part name ?off parts) room \<le> 0")
      case True
      then show ?thesis
        unfolding unfold by (simp add: cut_parts_done)
    next
      case more: False
      then have off: "?off = length v"
        using False unfolding e by linarith
      have "length w \<le> 1" if "map_of (cut_part name ?off parts) k = Some w" "k \<notin> set names" for k w
        using that Cons.prems(4) v unfolding off by (cases "k = name") (auto simp: cut_part_lookup)
      moreover have "fst ` set (cut_part name ?off parts) = fst ` set parts"
        by (metis cut_part_keys set_map)
      moreover have "length (cut_part name ?off parts) = length parts"
        by (simp add: cut_part_def)
      ultimately show ?thesis
        unfolding unfold using Cons.IH [of "cut_part name ?off parts"] Cons.prems(1-3) by simp
    qed
  qed
qed

lemma length_paragraphs: "xs \<noteq> [] \<Longrightarrow> length (paragraphs xs) = (\<Sum>x\<leftarrow>xs. length x) + 2 * (length xs - 1)"
  by (induction xs rule: paragraphs.induct) auto

lemma paragraphs_snoc: "xs \<noteq> [] \<Longrightarrow> paragraphs (xs @ [x]) = paragraphs xs @ [CHR 0x0A, CHR 0x0A] @ x"
  by (induction xs rule: paragraphs.induct) auto

definition cu_body :: "parts \<Rightarrow> string list" where
  "cu_body parts = concat (map (\<lambda>(k, v). if v = [] then []
     else [fst (the (map_of FIELD_LIMITS k)) @ '':'' @ [CHR 0x0A] @ v]) parts)"

lemma cu_body_length:
  assumes "map fst parts = CU_ORDER"
  shows "int ((\<Sum>x\<leftarrow>cu_body parts. length x) + 2 * length (cu_body parts)) \<le> 95 + (\<Sum>(_, v)\<leftarrow>parts. int (length v))"
proof -
  obtain a b c d e where p: "parts = [(''description'', a), (''executive_summary'', b), (''current_analysis'', c),
      (''noc_next_step'', d), (''customer_next_step'', e)]"
    using assms unfolding CU_ORDER_def by (auto simp: map_eq_Cons_conv)
  have labels: "fst (the (map_of FIELD_LIMITS ''description'')) = ''Description''"
    "fst (the (map_of FIELD_LIMITS ''executive_summary'')) = ''Executive summary''"
    "fst (the (map_of FIELD_LIMITS ''current_analysis'')) = ''Current analysis''"
    "fst (the (map_of FIELD_LIMITS ''noc_next_step'')) = ''NOC next step''"
    "fst (the (map_of FIELD_LIMITS ''customer_next_step'')) = ''Customer next step''"
    by (simp_all add: FIELD_LIMITS_def)
  show ?thesis
    unfolding p cu_body_def by (cases "a = []"; cases "b = []"; cases "c = []"; cases "d = []"; cases "e = []") (simp_all add: labels)
qed

lemma fitted:
  assumes "frame \<le> 7000"
  shows "map fst (fitted_parts tx frame) = CU_ORDER"
    and "(\<Sum>(_, v)\<leftarrow>fitted_parts tx frame. int (length v)) \<le> 8000 - int frame - 200"
proof -
  let ?p = "map (\<lambda>k. (k, strip (tx k))) CU_ORDER"
  have keys: "map fst ?p = CU_ORDER"
    by (simp add: comp_def)
  have "distinct (map fst ?p)"
    unfolding keys by (simp add: CU_ORDER_def)
  moreover have "set (longest_first ?p) = fst ` set ?p"
    by (simp add: longest_first_def image_image)
  moreover have "int (length ?p) \<le> int MAX_BODY - int frame - 200"
    using assms by (simp add: CU_ORDER_def MAX_BODY_def)
  moreover have "\<forall>k v. map_of ?p k = Some v \<longrightarrow> k \<notin> set (longest_first ?p) \<longrightarrow> length v \<le> 1"
    by (auto simp: longest_first_def dest!: map_of_SomeD)
  ultimately have "excess_of (fitted_parts tx frame) (int MAX_BODY - int frame - 200) \<le> 0
      \<and> map fst (fitted_parts tx frame) = map fst ?p"
    unfolding fitted_parts_def Let_def by (intro cut_parts_fits) simp_all
  then show "map fst (fitted_parts tx frame) = CU_ORDER"
    "(\<Sum>(_, v)\<leftarrow>fitted_parts tx frame. int (length v)) \<le> 8000 - int frame - 200"
    unfolding keys by (simp_all add: excess_of_def MAX_BODY_def)
qed

lemma cu_frame:
  assumes "frame = length head + length tail" and "frame \<le> 7000"
  shows "length (paragraphs ([head] @ cu_body (fitted_parts tx frame) @ [tail])) \<le> MAX_BODY"
proof -
  let ?b = "cu_body (fitted_parts tx frame)"
  have "length (paragraphs ([head] @ ?b @ [tail])) = length head + length tail + (\<Sum>x\<leftarrow>?b. length x) + 2 * length ?b + 2"
    by (subst length_paragraphs) simp_all
  then have "int (length (paragraphs ([head] @ ?b @ [tail]))) = int frame + int ((\<Sum>x\<leftarrow>?b. length x) + 2 * length ?b) + 2"
    using assms(1) by simp
  moreover have "int ((\<Sum>x\<leftarrow>?b. length x) + 2 * length ?b) \<le> 95 + (8000 - int frame - 200)"
    using cu_body_length [OF fitted(1) [OF assms(2)], of tx] fitted(2) [OF assms(2), of tx] by linarith
  ultimately show ?thesis
    by (simp add: MAX_BODY_def)
qed

text \<open>A sent customer update is never cut short. For a title and a formatted date within their limits
  and fields of any length, the post fits the limit of one post, begins with the title and ends with
  the line that says when the NOC updates next: only the fields are cut, the longest first.\<close>

theorem customer_update_fits:
  assumes "c_text c ''title'' = Some title" and "length (strip title) \<le> 120"
    and "c_next_update c = Some t" and "length (stamp t) \<le> 16"
  shows "length (customer_update stamp c) \<le> MAX_BODY
    \<and> prefix (''Customer update - '' @ strip title) (customer_update stamp c)
    \<and> (\<exists>body. customer_update stamp c = body @ ''Next update: '' @ stamp t @ '' UTC'')"
proof -
  define head where "head = ''Customer update - '' @ strip title"
  define tail where "tail = ''Next update: '' @ stamp t @ '' UTC''"
  define tx where "tx = (\<lambda>k. case c_text c k of None \<Rightarrow> [] | Some v \<Rightarrow> v)"
  let ?b = "cu_body (fitted_parts tx (length head + length tail))"
  have "length head + length tail \<le> 7000"
    using assms(2,4) by (simp add: head_def tail_def)
  then have fits: "length (paragraphs ([head] @ ?b @ [tail])) \<le> MAX_BODY"
    by (rule cu_frame [OF refl])
  have "customer_update stamp c = take MAX_BODY (paragraphs ([head] @ ?b @ [tail]))"
    by (simp only: customer_update_def Let_def assms(1,3) option.case option.sel cu_body_def head_def tail_def tx_def)
  then have whole: "customer_update stamp c = paragraphs ([head] @ ?b @ [tail])"
    using fits by simp
  have front: "prefix head (paragraphs (head # xs))" for xs
    by (cases xs) simp_all
  have last: "paragraphs ([head] @ ?b @ [tail]) = (paragraphs ([head] @ ?b) @ [CHR 0x0A, CHR 0x0A]) @ tail"
    using paragraphs_snoc [of "[head] @ ?b" tail] by simp
  show ?thesis
    using fits front whole last unfolding whole by (auto simp: head_def tail_def)
qed

theorem customer_update_fits_witness:
  "\<exists>c. length (customer_update (\<lambda>_. ''2026-01-02 03:04'') c) \<le> MAX_BODY \<and> c_next_update c = Some 100"
proof -
  obtain c :: noc_case where c: "c_text c ''title'' = Some ''link down''" "c_next_update c = Some 100"
    using that [of "(hd (n_cases (open_case 1 None 0 noc_empty)))\<lparr>c_text := [''title'' \<mapsto> ''link down''], c_next_update := Some 100\<rparr>"]
    by simp
  have "length (strip ''link down'') \<le> 120" "length ((\<lambda>_. ''2026-01-02 03:04'') (100 :: seconds)) \<le> 16"
    by (simp_all add: strip_def is_space_def)
  from customer_update_fits [OF c(1) this(1) c(2) this(2)] c(2) show ?thesis
    by blast
qed

section \<open>Who reads a post\<close>

lemma posts_same:
  "n_posts (update_case sid f db) = n_posts db" "n_posts (cycle_priority sid p db) = n_posts db"
  "n_posts (noc_case_assign sid ag now ti es wp db) = n_posts db" "n_posts (noc_case_raise_priority sid p now db) = n_posts db"
  "n_posts (snd (noc_case_enqueue sid r now db)) = n_posts db" "n_posts (noc_wake a tr si by_ref now db) = n_posts db"
  by (simp_all add: update_case_def cycle_priority_def noc_case_assign_def noc_case_raise_priority_def noc_case_enqueue_def
      noc_wake_def Let_def split: option.splits)

lemma posts_grow:
  "set (n_posts db) \<subseteq> set (n_posts (case_event sid b now w db))"
  "set (n_posts db) \<subseteq> set (n_posts (snd (reprioritize sid now db)))"
  "n_posts (snd (back_to_agent sid now db)) = n_posts db"
  by (auto simp: case_event_def noc_post_def reprioritize_def back_to_agent_def Let_def posts_same split: option.splits)

lemma requeue_posts: "set (n_posts db) \<subseteq> set (n_posts (requeue sid r now t db))"
proof -
  have "set (n_posts db) \<subseteq> set (n_posts (snd (reprioritize sid now db)))"
    by (rule posts_grow)
  also have "\<dots> = set (n_posts (snd (back_to_agent sid now (snd (noc_case_enqueue sid r now (snd (reprioritize sid now db)))))))"
    by (simp only: posts_grow(3) posts_same)
  also have "\<dots> \<subseteq> set (n_posts (requeue sid r now t db))"
    unfolding requeue_def Let_def case_prod_beta by (rule posts_grow)
  finally show ?thesis .
qed

text \<open>Who reads what was posted. When a post is accepted, an internal one came from someone who works
  cases and a specified one names at least one person, all of them known; the row it leaves is read by
  everyone when it is to all, by the NOC alone when it is internal, and otherwise by its author, the
  administrators and the people it names, whatever else the case did because of the post.\<close>

theorem posts_reach_their_readers:
  assumes "post_to_case people reader who sid visibility named body now db = Inr db'" and "visibility \<in> set VISIBILITIES"
  shows "(visibility = ''internal'' \<longrightarrow> rd_works reader)
    \<and> (visibility = ''specified'' \<longrightarrow> named \<noteq> [] \<and> set named \<subseteq> set people)
    \<and> (\<exists>p \<in> set (n_posts db'). po_sid p = sid \<and> po_author p = actor_author who \<and> po_id p = n_next_post db
         \<and> (\<forall>r. visible p r \<longleftrightarrow>
              visibility = ''all'' \<or> visibility = ''internal'' \<and> rd_works r
              \<or> visibility = ''specified'' \<and> (rd_admin r \<or> rd_ref r = Some (ac_ref who) \<or> (\<exists>u \<in> set named. rd_user r = Some u))))"
proof -
  let ?readers = "if visibility = ''specified'' then named else []"
  obtain c where c: "find_case sid db = Some c" and db': "db' = post_on_case ?readers c who visibility body now db"
      and works: "visibility = ''internal'' \<longrightarrow> rd_works reader" and some: "visibility = ''specified'' \<longrightarrow> named \<noteq> []"
      and known: "?readers \<noteq> [] \<longrightarrow> unknown_readers ?readers people = []"
    using assms(1) by (auto simp: post_to_case_def Let_def split: if_splits option.splits)
  have sid: "c_sid c = sid"
    using c by (auto simp: find_case_def find_Some_iff)
  have subset: "set named \<subseteq> set people" if "visibility = ''specified''"
    using known some that by (auto simp: unknown_readers_def sorted_list_of_set_eq_Nil_iff)
  define p where "p = \<lparr>po_id = n_next_post db, po_sid = sid, po_author = actor_author who, po_visibility = visibility,
      po_kind = ''post'', po_body = (if strip body = [] then body else strip body), po_at = now, po_readers = sort (remdups ?readers)\<rparr>"
  have "p \<in> set (n_posts (noc_post ?readers sid (actor_author who) visibility ''post'' (if strip body = [] then body else strip body) now db))"
    by (simp add: noc_post_def p_def)
  then have "p \<in> set (n_posts db')"
    unfolding db' post_on_case_def Let_def sid by (auto split: if_split intro: subsetD [OF requeue_posts])
  moreover have "visible p r \<longleftrightarrow>
              visibility = ''all'' \<or> visibility = ''internal'' \<and> rd_works r
              \<or> visibility = ''specified'' \<and> (rd_admin r \<or> rd_ref r = Some (ac_ref who) \<or> (\<exists>u \<in> set named. rd_user r = Some u))" for r
  proof -
    consider "visibility = ''all''" | "visibility = ''internal''" | "visibility = ''specified''"
      using assms(2) by (auto simp: VISIBILITIES_def)
    then show ?thesis
      by cases (auto simp: visible_def p_def actor_author_def split: option.split)
  qed
  moreover have "po_sid p = sid \<and> po_author p = actor_author who \<and> po_id p = n_next_post db"
    by (simp add: p_def)
  ultimately show ?thesis
    using works some subset by (intro conjI impI bexI [of _ p] allI) simp_all
qed

theorem posts_reach_their_readers_witness:
  "\<exists>db'. post_to_case [] \<lparr>rd_ref = None, rd_user = None, rd_role = ''viewer'', rd_works = False, rd_admin = False\<rparr> SYSTEM 1 ''all'' [] ''hi'' 5
      (open_case 1 None 0 noc_empty) = Inr db' \<and> (\<exists>p \<in> set (n_posts db'). po_sid p = 1)"
proof -
  have "\<exists>db'. post_to_case [] \<lparr>rd_ref = None, rd_user = None, rd_role = ''viewer'', rd_works = False, rd_admin = False\<rparr> SYSTEM 1 ''all'' [] ''hi'' 5
      (open_case 1 None 0 noc_empty) = Inr db'"
    by (simp add: post_to_case_def Let_def open_case_def find_case_def noc_empty_def)
  then obtain db' where p: "post_to_case [] \<lparr>rd_ref = None, rd_user = None, rd_role = ''viewer'', rd_works = False, rd_admin = False\<rparr> SYSTEM 1 ''all'' [] ''hi'' 5
      (open_case 1 None 0 noc_empty) = Inr db'"
    by blast
  from posts_reach_their_readers [OF p] p show ?thesis
    by (auto simp: VISIBILITIES_def)
qed

end
