(* ===== verification/Noc_Kpi.thy ===== *)
theory Noc_Kpi
  imports Noc_Invariant
begin

text \<open>
  \<open>engine/noc/kpi.py\<close>: the clocks of a cycle and of a case. Times are reals; \<open>round\<close> is
  Python's, half to even, on the exact value. With the triggers of \<open>Noc_Store\<close>, the restore clock is
  shown to charge exactly the time the case was not pending.
\<close>

section \<open>Targets\<close>

definition TAKE_TARGET_S :: "(string \<times> seconds) list" where
  "TAKE_TARGET_S = [(''critical'', 25 * 60), (''major'', 60 * 60), (''minor'', 120 * 60)]"

definition DOCUMENT_TARGET_S :: seconds where
  "DOCUMENT_TARGET_S = 30 * 60"

definition RESTORE_TARGET_S :: "(string \<times> seconds) list" where
  "RESTORE_TARGET_S = [(''critical'', 4 * 3600), (''major'', 24 * 3600), (''minor'', 72 * 3600)]"

definition UPDATE_CADENCE_S :: "(string \<times> (string \<times> seconds) list) list" where
  "UPDATE_CADENCE_S =
    [(''working'', [(''critical'', 30 * 60), (''major'', 2 * 3600), (''minor'', 6 * 3600)]),
     (''pending'', [(''critical'', 3600), (''major'', 3 * 3600), (''minor'', 6 * 3600)])]"

text \<open>\<open>d[k]\<close> on a key that is not there raises; the priorities of the table are a \<open>CHECK\<close> of
  its schema.\<close>

definition target_of :: "(string \<times> seconds) list \<Rightarrow> string \<Rightarrow> seconds" where
  "target_of table p = the (map_of table p)"

section \<open>Clocks\<close>

definition round_even :: "real \<Rightarrow> int" where
  "round_even x =
     (let f = \<lfloor>x\<rfloor>; d = x - of_int f
      in if d < 1 / 2 then f else if 1 / 2 < d then f + 1 else if even f then f else f + 1)"

definition round_to :: "nat \<Rightarrow> real \<Rightarrow> real" where
  "round_to n x = of_int (round_even (x * 10 ^ n)) / 10 ^ n"

datatype clock_state = Running | Late | Met | Missed | Withdrawn | Paused

record clock =
  ck_target :: seconds
  ck_due_at :: seconds
  ck_elapsed :: seconds
  ck_overrun :: seconds
  ck_state :: clock_state

definition clock_of :: "seconds \<Rightarrow> seconds option \<Rightarrow> seconds \<Rightarrow> seconds \<Rightarrow> clock" where
  "clock_of start stop now target =
     (let elapsed = (case stop of None \<Rightarrow> now | Some t \<Rightarrow> t) - start
      in \<lparr>ck_target = target, ck_due_at = start + target, ck_elapsed = round_to 3 (max 0 elapsed),
          ck_overrun = round_to 3 (max 0 (elapsed - target)),
          ck_state = (case stop of None \<Rightarrow> if elapsed > target then Late else Running
                      | Some _ \<Rightarrow> if elapsed \<le> target then Met else Missed)\<rparr>)"

definition take_clock :: "noc_cycle \<Rightarrow> seconds \<Rightarrow> clock" where
  "take_clock y now =
     (let target = target_of TAKE_TARGET_S (y_priority y)
      in if taken_at y = None \<and> ended_at y \<noteq> None
         then (clock_of (entered_at y) (ended_at y) now target)\<lparr>ck_overrun := 0, ck_state := Withdrawn\<rparr>
         else clock_of (entered_at y) (taken_at y) now target)"

definition document_clock :: "noc_cycle \<Rightarrow> seconds \<Rightarrow> clock option" where
  "document_clock y now =
     (case taken_at y of
        None \<Rightarrow> None
      | Some taken \<Rightarrow>
          let out = clock_of taken (case documented_at y of None \<Rightarrow> left_at y | Some t \<Rightarrow> Some t) now DOCUMENT_TARGET_S
          in Some (if documented_at y = None \<and> left_at y \<noteq> None then out\<lparr>ck_state := Missed\<rparr> else out))"

definition ongoing_pause :: "noc_case \<Rightarrow> seconds \<Rightarrow> seconds option" where
  "ongoing_pause c now =
     (case c_paused_at c of
        None \<Rightarrow> None
      | Some since \<Rightarrow> if c_restored_at c = None then Some (max 0 (now - since)) else None)"

definition restore_paused :: "noc_case \<Rightarrow> seconds \<Rightarrow> seconds" where
  "restore_paused c now = c_paused_s c + (case ongoing_pause c now of None \<Rightarrow> 0 | Some p \<Rightarrow> p)"

text \<open>The clock and the \<open>paused_s\<close> beside it.\<close>

definition restore_clock_of :: "noc_case \<Rightarrow> seconds \<Rightarrow> clock \<times> seconds" where
  "restore_clock_of c now =
     (let target = target_of RESTORE_TARGET_S (c_priority c);
          paused = restore_paused c now;
          out = clock_of (c_opened_at c + paused) (c_restored_at c) now target
      in (if ongoing_pause c now \<noteq> None then out\<lparr>ck_state := Paused\<rparr> else out, round_to 3 paused))"

record cadence_view =
  cv_next_update :: seconds
  cv_overdue :: bool
  cv_cadence :: seconds
  cv_beyond :: bool

definition cadence :: "noc_case \<Rightarrow> seconds \<Rightarrow> cadence_view option" where
  "cadence c now =
     (let phase = (if c_status c \<in> PENDING then Some ''pending'' else if c_status c = ''working'' then Some ''working'' else None)
      in case (phase, c_next_update c) of
           (Some p, Some t) \<Rightarrow>
             let limit = target_of (the (map_of UPDATE_CADENCE_S p)) (c_priority c)
             in Some \<lparr>cv_next_update = t, cv_overdue = t \<le> now, cv_cadence = limit, cv_beyond = t - now > limit\<rparr>
         | _ \<Rightarrow> None)"

definition next_update_due :: "noc_case \<Rightarrow> seconds \<Rightarrow> string \<Rightarrow> seconds" where
  "next_update_due c now phase = now + target_of (the (map_of UPDATE_CADENCE_S phase)) (c_priority c)"

section \<open>The summary of a window\<close>

definition rate :: "nat \<Rightarrow> nat \<Rightarrow> real option" where
  "rate hits judged = (if judged = 0 then None else Some (round_to 1 (100 * real hits / real judged)))"

definition median :: "real list \<Rightarrow> real option" where
  "median xs =
     (let s = sort xs; n = length xs
      in if n = 0 then None
         else if odd n then Some (s ! (n div 2)) else Some ((s ! (n div 2 - 1) + s ! (n div 2)) / 2))"

record kpi_acc =
  k_count :: nat
  k_takes :: "clock_state \<Rightarrow> nat"
  k_docs :: "clock_state \<Rightarrow> nat"
  k_take_s :: "real list"
  k_doc_s :: "real list"
  k_overrun :: real
  k_met :: "string \<Rightarrow> nat"
  k_missed :: "string \<Rightarrow> nat"
  k_open :: "string \<Rightarrow> nat"

definition kpi_start :: kpi_acc where
  "kpi_start = \<lparr>k_count = 0, k_takes = (\<lambda>_. 0), k_docs = (\<lambda>_. 0), k_take_s = [], k_doc_s = [], k_overrun = 0,
     k_met = (\<lambda>_. 0), k_missed = (\<lambda>_. 0), k_open = (\<lambda>_. 0)\<rparr>"

definition bump :: "'a \<Rightarrow> ('a \<Rightarrow> nat) \<Rightarrow> 'a \<Rightarrow> nat" where
  "bump a f = f(a := f a + 1)"

definition kpi_step :: "seconds \<Rightarrow> noc_cycle \<Rightarrow> kpi_acc \<Rightarrow> kpi_acc" where
  "kpi_step now y k =
     (let t = take_clock y now; st = ck_state t; p = y_priority y;
          k = k\<lparr>k_count := k_count k + 1, k_takes := bump st (k_takes k), k_overrun := k_overrun k + ck_overrun t\<rparr>;
          k = (if st = Met then k\<lparr>k_take_s := k_take_s k @ [ck_elapsed t], k_met := bump p (k_met k)\<rparr>
               else if st = Missed then k\<lparr>k_take_s := k_take_s k @ [ck_elapsed t], k_missed := bump p (k_missed k)\<rparr>
               else if st \<noteq> Withdrawn then k\<lparr>k_open := bump p (k_open k)\<rparr> else k)
      in case document_clock y now of
           None \<Rightarrow> k
         | Some d \<Rightarrow>
             let k = k\<lparr>k_docs := bump (ck_state d) (k_docs k)\<rparr>
             in if ck_state d \<in> {Met, Missed} \<and> documented_at y \<noteq> None then k\<lparr>k_doc_s := k_doc_s k @ [ck_elapsed d]\<rparr> else k)"

record kpi_summary =
  s_cycles :: nat
  s_takes :: "clock_state \<Rightarrow> nat"
  s_take_pct :: "real option"
  s_take_median :: "real option"
  s_overrun :: real
  s_docs :: "clock_state \<Rightarrow> nat"
  s_doc_pct :: "real option"
  s_doc_median :: "real option"
  s_by_priority :: "(string \<times> nat \<times> nat \<times> nat) list"

definition kpi_summary_of :: "noc_cycle list \<Rightarrow> seconds \<Rightarrow> kpi_summary" where
  "kpi_summary_of cycles now =
     (let k = fold (kpi_step now) cycles kpi_start;
          judged = k_takes k Met + k_takes k Missed + k_takes k Late;
          doc_judged = k_docs k Met + k_docs k Missed + k_docs k Late
      in \<lparr>s_cycles = k_count k, s_takes = k_takes k, s_take_pct = rate (k_takes k Met) judged,
          s_take_median = map_option (round_to 1) (median (k_take_s k)), s_overrun = round_to 1 (k_overrun k),
          s_docs = k_docs k, s_doc_pct = rate (k_docs k Met) doc_judged,
          s_doc_median = map_option (round_to 1) (median (k_doc_s k)),
          s_by_priority = map (\<lambda>(p, _). (p, k_met k p, k_missed k p, k_open k p)) TAKE_TARGET_S\<rparr>)"

section \<open>The restore clock charges the time nobody waited for\<close>

definition move_status :: "string \<times> seconds \<Rightarrow> noc_case \<Rightarrow> noc_case" where
  "move_status m c = status_triggers c (c\<lparr>c_status := fst m, c_status_at := snd m\<rparr>)"

fun pending_time :: "string \<Rightarrow> seconds \<Rightarrow> (string \<times> seconds) list \<Rightarrow> seconds \<Rightarrow> seconds" where
  "pending_time st since [] now = (if st \<in> PENDING then now - since else 0)"
| "pending_time st since ((st', t) # h) now = (if st \<in> PENDING then t - since else 0) + pending_time st' t h now"

fun in_order :: "seconds \<Rightarrow> (string \<times> seconds) list \<Rightarrow> seconds \<Rightarrow> bool" where
  "in_order since [] now \<longleftrightarrow> since \<le> now"
| "in_order since ((st, t) # h) now \<longleftrightarrow> since \<le> t \<and> in_order t h now"

lemma rate_bounds:
  assumes "hits \<le> n" and "rate hits n = Some r"
  shows "0 \<le> r \<and> r \<le> 100"
proof -
  have r: "r = of_int (round_even (1000 * real hits / real n)) / 10" and pos: "0 < n"
    using assms(2) by (auto simp: rate_def round_to_def split: if_splits)
  have up: "round_even x \<le> 1000" if "x \<le> 1000" for x :: real
  proof -
    have f: "\<lfloor>x\<rfloor> \<le> 1000"
      using that by (simp add: floor_le_iff)
    have whole: "x = 1000" if "\<lfloor>x\<rfloor> = 1000"
      using \<open>x \<le> 1000\<close> that of_int_floor_le [of x] by simp
    have "round_even x \<le> \<lfloor>x\<rfloor> + 1"
      by (simp add: round_even_def Let_def)
    then show ?thesis
      using f whole by (cases "\<lfloor>x\<rfloor> = 1000") (simp_all add: round_even_def, linarith)
  qed
  have down: "0 \<le> round_even x" if "0 \<le> x" for x :: real
    using that by (auto simp: round_even_def Let_def)
  have "1000 * real hits / real n \<le> 1000"
    using assms(1) pos by (simp add: field_simps)
  from up [OF this] down [of "1000 * real hits / real n"] show ?thesis
    unfolding r by simp
qed

definition waited :: "noc_case \<Rightarrow> seconds \<Rightarrow> seconds" where
  "waited c now = c_paused_s c + (case c_paused_at c of None \<Rightarrow> 0 | Some since \<Rightarrow> now - since)"

definition waits_since :: "noc_case \<Rightarrow> seconds \<Rightarrow> bool" where
  "waits_since c now \<longleftrightarrow> clocks_ok c \<and> (\<forall>t. c_paused_at c = Some t \<longrightarrow> t \<le> now)"

lemma move_status_status [simp]: "c_status (move_status m c) = fst m" "c_opened_at (move_status m c) = c_opened_at c"
  by (simp_all add: move_status_def)

lemma move_waits:
  assumes "waits_since c since" and "since \<le> t" and "st \<in> statuses"
  shows "waits_since (move_status (st, t) c) t" "waited (move_status (st, t) c) t = waited c t"
proof -
  have ok: "clocks_ok c" and le: "\<And>p. c_paused_at c = Some p \<Longrightarrow> p \<le> t"
    using assms(1,2) by (auto simp: waits_since_def)
  have "clocks_ok (move_status (st, t) c)"
    using trigger_clocks [OF ok] assms(3) by (simp add: move_status_def)
  moreover have at: "c_paused_at (move_status (st, t) c) =
      (if c_status c = st then c_paused_at c else if prefix ''pending_'' st then Some t else None)"
    and s: "c_paused_s (move_status (st, t) c) =
      (if c_status c = st then c_paused_s c else c_paused_s c + (case c_paused_at c of None \<Rightarrow> 0 | Some p \<Rightarrow> max 0 (t - p)))"
    by (auto simp: move_status_def status_triggers_def pause_clock_def restore_clock_def Let_def split: option.splits)
  ultimately show "waits_since (move_status (st, t) c) t"
    using le by (auto simp: waits_since_def split: if_splits)
  show "waited (move_status (st, t) c) t = waited c t"
    unfolding waited_def at s using le by (auto split: option.split)
qed

lemma waited_grows:
  assumes "waits_since c since"
  shows "waited c now = waited c since + (if c_status c \<in> PENDING then now - since else 0)"
  using assms by (auto simp: waits_since_def clocks_ok_def waited_def split: option.split)

lemma waited_history:
  assumes "waits_since c since" and "in_order since h now" and "fst ` set h \<subseteq> statuses"
  shows "waits_since (fold move_status h c) now \<and>
    waited (fold move_status h c) now = waited c since + pending_time (c_status c) since h now"
  using assms
proof (induction h arbitrary: c since)
  case Nil
  then have "waits_since c now"
    by (auto simp: waits_since_def)
  then show ?case
    using waited_grows [OF Nil.prems(1), of now] by simp
next
  case (Cons m h)
  obtain st t where m: "m = (st, t)"
    by (cases m)
  have step: "waits_since (move_status m c) t" "waited (move_status m c) t = waited c t"
    using move_waits [OF Cons.prems(1), of t st] Cons.prems(2,3) by (simp_all add: m)
  show ?case
    using Cons.IH [OF step(1)] Cons.prems(2,3) step(2) waited_grows [OF Cons.prems(1), of t] by (simp add: m)
qed

text \<open>C26: waiting is not charged. Take a new case through any moves between its statuses, in the order of
  their times: what the triggers keep as the paused time is exactly the time spent in the pending
  statuses, the restore clock counts the time since the opening (until it stopped) less that, and it
  reads \<open>paused\<close> exactly while the case is pending.\<close>

theorem restore_excludes_waiting:
  assumes "in_order opened h now" and "fst ` set h \<subseteq> statuses"
    and "c_status c = ''new''" "c_opened_at c = opened" "c_paused_s c = 0" "c_paused_at c = None" "c_restored_at c = None"
  shows "restore_paused (fold move_status h c) now = pending_time ''new'' opened h now
    \<and> ck_elapsed (fst (restore_clock_of (fold move_status h c) now)) = round_to 3 (max 0
        ((case c_restored_at (fold move_status h c) of None \<Rightarrow> now | Some t \<Rightarrow> t) - opened - pending_time ''new'' opened h now))
    \<and> (ck_state (fst (restore_clock_of (fold move_status h c) now)) = Paused \<longleftrightarrow> c_status (fold move_status h c) \<in> PENDING)"
proof -
  let ?c = "fold move_status h c"
  have "waits_since c opened"
    using assms(3-) by (simp add: waits_since_def clocks_ok_def)
  from waited_history [OF this assms(1,2)] assms(3,5,6)
  have w: "waits_since ?c now" "waited ?c now = pending_time ''new'' opened h now"
    by (simp_all add: waited_def)
  have ok: "clocks_ok ?c"
    using w(1) by (simp add: waits_since_def)
  have over: "c_restored_at ?c = None" if "c_paused_at ?c \<noteq> None"
    using ok that not_PENDING by (auto simp: clocks_ok_def)
  have ongoing: "ongoing_pause ?c now = map_option (\<lambda>s. now - s) (c_paused_at ?c)"
    using w(1) over by (auto simp: ongoing_pause_def waits_since_def split: option.split)
  then have paused: "restore_paused ?c now = waited ?c now"
    by (simp add: restore_paused_def waited_def split: option.split)
  have opened: "c_opened_at ?c = opened"
    using assms(4) by (induction h arbitrary: c) auto
  have state: "ck_state (clock_of a s n t) \<noteq> Paused" for a s n t
    by (simp add: clock_of_def Let_def split: option.split)
  have elapsed: "ck_elapsed (clock_of a s n t) = round_to 3 (max 0 ((case s of None \<Rightarrow> n | Some u \<Rightarrow> u) - a))" for a s n t
    by (simp add: clock_of_def Let_def)
  have "ck_state (fst (restore_clock_of ?c now)) = Paused \<longleftrightarrow> c_paused_at ?c \<noteq> None"
    by (simp add: restore_clock_of_def Let_def ongoing state)
  moreover have "ck_elapsed (fst (restore_clock_of ?c now)) = round_to 3 (max 0
        ((case c_restored_at ?c of None \<Rightarrow> now | Some t \<Rightarrow> t) - (opened + waited ?c now)))"
    by (simp add: restore_clock_of_def Let_def elapsed opened paused)
  ultimately show ?thesis
    using ok w(2) paused by (simp add: clocks_ok_def algebra_simps)
qed

theorem restore_excludes_waiting_witness:
  "\<exists>c. restore_paused (fold move_status [(''queue'', 10), (''working'', 20), (''pending_vendor'', 30), (''queue'', 50)] c) 60 = 20"
proof -
  obtain c :: noc_case where c: "c_status c = ''new''" "c_opened_at c = 0" "c_paused_s c = 0" "c_paused_at c = None" "c_restored_at c = None"
    using that [of "hd (n_cases (open_case 1 None 0 noc_empty))"] by (simp add: open_case_def find_case_def noc_empty_def)
  have "restore_paused (fold move_status [(''queue'', 10), (''working'', 20), (''pending_vendor'', 30), (''queue'', 50)] c) 60
      = pending_time ''new'' 0 [(''queue'', 10), (''working'', 20), (''pending_vendor'', 30), (''queue'', 50)] 60"
    by (rule restore_excludes_waiting [OF _ _ c, THEN conjunct1]) (simp_all add: PENDING_members)
  then show ?thesis
    by (intro exI [of _ c]) (simp add: PENDING_members)
qed

section \<open>The summary counts every cycle once\<close>

lemma take_clock_states:
  "ck_state (take_clock y now) =
    (case taken_at y of
       Some t \<Rightarrow> if t - entered_at y \<le> target_of TAKE_TARGET_S (y_priority y) then Met else Missed
     | None \<Rightarrow> if ended_at y \<noteq> None then Withdrawn
               else if now - entered_at y > target_of TAKE_TARGET_S (y_priority y) then Late else Running)"
  by (simp add: take_clock_def clock_of_def Let_def split: option.split)

lemma kpi_fold:
  "k_count (fold (kpi_step now) ys k) = k_count k + length ys"
  "k_takes (fold (kpi_step now) ys k) st = k_takes k st + length (filter (\<lambda>y. ck_state (take_clock y now) = st) ys)"
  "k_met (fold (kpi_step now) ys k) p = k_met k p + length (filter (\<lambda>y. y_priority y = p \<and> ck_state (take_clock y now) = Met) ys)"
  "k_missed (fold (kpi_step now) ys k) p = k_missed k p + length (filter (\<lambda>y. y_priority y = p \<and> ck_state (take_clock y now) = Missed) ys)"
  "k_open (fold (kpi_step now) ys k) p = k_open k p
     + length (filter (\<lambda>y. y_priority y = p \<and> ck_state (take_clock y now) \<in> {Running, Late}) ys)"
proof -
  have one: "k_count (kpi_step now y k) = k_count k + 1"
    "k_takes (kpi_step now y k) st = k_takes k st + (if ck_state (take_clock y now) = st then 1 else 0)"
    "k_met (kpi_step now y k) p = k_met k p + (if y_priority y = p \<and> ck_state (take_clock y now) = Met then 1 else 0)"
    "k_missed (kpi_step now y k) p = k_missed k p + (if y_priority y = p \<and> ck_state (take_clock y now) = Missed then 1 else 0)"
    "k_open (kpi_step now y k) p = k_open k p
       + (if y_priority y = p \<and> ck_state (take_clock y now) \<in> {Running, Late} then 1 else 0)" for y k
  proof -
    have "ck_state (take_clock y now) \<noteq> Paused"
      by (simp add: take_clock_states split: option.split)
    then show "k_count (kpi_step now y k) = k_count k + 1"
      "k_takes (kpi_step now y k) st = k_takes k st + (if ck_state (take_clock y now) = st then 1 else 0)"
      "k_met (kpi_step now y k) p = k_met k p + (if y_priority y = p \<and> ck_state (take_clock y now) = Met then 1 else 0)"
      "k_missed (kpi_step now y k) p = k_missed k p + (if y_priority y = p \<and> ck_state (take_clock y now) = Missed then 1 else 0)"
      "k_open (kpi_step now y k) p = k_open k p
         + (if y_priority y = p \<and> ck_state (take_clock y now) \<in> {Running, Late} then 1 else 0)"
      by (cases "ck_state (take_clock y now)"; simp add: kpi_step_def Let_def bump_def split: option.split)+
  qed
  show "k_count (fold (kpi_step now) ys k) = k_count k + length ys"
    by (induction ys arbitrary: k) (simp_all add: one)
  show "k_takes (fold (kpi_step now) ys k) st = k_takes k st + length (filter (\<lambda>y. ck_state (take_clock y now) = st) ys)"
    by (induction ys arbitrary: k) (simp_all add: one)
  show "k_met (fold (kpi_step now) ys k) p = k_met k p + length (filter (\<lambda>y. y_priority y = p \<and> ck_state (take_clock y now) = Met) ys)"
    by (induction ys arbitrary: k) (simp_all add: one)
  show "k_missed (fold (kpi_step now) ys k) p = k_missed k p + length (filter (\<lambda>y. y_priority y = p \<and> ck_state (take_clock y now) = Missed) ys)"
    by (induction ys arbitrary: k) (simp_all add: one)
  show "k_open (fold (kpi_step now) ys k) p = k_open k p
     + length (filter (\<lambda>y. y_priority y = p \<and> ck_state (take_clock y now) \<in> {Running, Late}) ys)"
    by (induction ys arbitrary: k) (simp_all add: one)
qed

text \<open>The summary of a window counts every cycle once. The states of the take clock partition the cycles;
  a cycle is met exactly when it was taken within its priority's target and withdrawn exactly when it
  ended untaken; per priority the met, missed and open columns with the withdrawn cycles add up; and
  a rate, when there is one, lies between 0 and 100.\<close>

theorem summary_counts_once:
  "let s = kpi_summary_of ys now in
     s_cycles s = length ys
     \<and> s_cycles s = s_takes s Met + s_takes s Missed + s_takes s Running + s_takes s Late + s_takes s Withdrawn
     \<and> s_takes s Met = length (filter (\<lambda>y. \<exists>t. taken_at y = Some t \<and> t - entered_at y \<le> target_of TAKE_TARGET_S (y_priority y)) ys)
     \<and> s_takes s Withdrawn = length (filter (\<lambda>y. taken_at y = None \<and> ended_at y \<noteq> None) ys)
     \<and> list_all (\<lambda>(p, met, missed, op). met + missed + op
          + length (filter (\<lambda>y. y_priority y = p \<and> taken_at y = None \<and> ended_at y \<noteq> None) ys)
          = length (filter (\<lambda>y. y_priority y = p) ys)) (s_by_priority s)
     \<and> (case s_take_pct s of None \<Rightarrow> True | Some r \<Rightarrow> 0 \<le> r \<and> r \<le> 100)"
proof -
  have takes: "s_takes (kpi_summary_of ys now) st = length (filter (\<lambda>y. ck_state (take_clock y now) = st) ys)" for st
    by (simp add: kpi_summary_of_def Let_def kpi_fold) (simp add: kpi_start_def)
  have count: "s_cycles (kpi_summary_of ys now) = length ys"
    by (simp add: kpi_summary_of_def Let_def kpi_fold) (simp add: kpi_start_def)
  have partition: "length (filter Q ys) = length (filter (\<lambda>y. Q y \<and> ck_state (take_clock y now) = Met) ys)
      + length (filter (\<lambda>y. Q y \<and> ck_state (take_clock y now) = Missed) ys)
      + length (filter (\<lambda>y. Q y \<and> ck_state (take_clock y now) \<in> {Running, Late}) ys)
      + length (filter (\<lambda>y. Q y \<and> ck_state (take_clock y now) = Withdrawn) ys)" for Q
  proof (induction ys)
    case (Cons y ys)
    have "ck_state (take_clock y now) \<noteq> Paused"
      by (simp add: take_clock_states split: option.split)
    then show ?case
      using Cons by (cases "ck_state (take_clock y now)") auto
  qed simp
  have open_split: "length (filter (\<lambda>y. ck_state (take_clock y now) \<in> {Running, Late}) ys)
      = length (filter (\<lambda>y. ck_state (take_clock y now) = Running) ys) + length (filter (\<lambda>y. ck_state (take_clock y now) = Late) ys)"
    by (induction ys) auto
  have met: "ck_state (take_clock y now) = Met \<longleftrightarrow>
      (\<exists>t. taken_at y = Some t \<and> t - entered_at y \<le> target_of TAKE_TARGET_S (y_priority y))" for y
    by (simp add: take_clock_states split: option.split)
  have withdrawn: "ck_state (take_clock y now) = Withdrawn \<longleftrightarrow> taken_at y = None \<and> ended_at y \<noteq> None" for y
    by (simp add: take_clock_states split: option.split)
  have by_priority: "s_by_priority (kpi_summary_of ys now) = map (\<lambda>(p, _).
      (p, length (filter (\<lambda>y. y_priority y = p \<and> ck_state (take_clock y now) = Met) ys),
       length (filter (\<lambda>y. y_priority y = p \<and> ck_state (take_clock y now) = Missed) ys),
       length (filter (\<lambda>y. y_priority y = p \<and> ck_state (take_clock y now) \<in> {Running, Late}) ys))) TAKE_TARGET_S"
    by (simp add: kpi_summary_of_def Let_def kpi_fold) (simp add: kpi_start_def)
  have each: "length (filter (\<lambda>y. y_priority y = p \<and> ck_state (take_clock y now) = Met) ys)
      + length (filter (\<lambda>y. y_priority y = p \<and> ck_state (take_clock y now) = Missed) ys)
      + length (filter (\<lambda>y. y_priority y = p \<and> ck_state (take_clock y now) \<in> {Running, Late}) ys)
      + length (filter (\<lambda>y. y_priority y = p \<and> taken_at y = None \<and> ended_at y \<noteq> None) ys)
      = length (filter (\<lambda>y. y_priority y = p) ys)" for p
    using partition [of "\<lambda>y. y_priority y = p"] by (simp only: withdrawn)
  have pct: "s_take_pct (kpi_summary_of ys now) = rate (s_takes (kpi_summary_of ys now) Met)
      (s_takes (kpi_summary_of ys now) Met + s_takes (kpi_summary_of ys now) Missed + s_takes (kpi_summary_of ys now) Late)"
    by (simp add: kpi_summary_of_def Let_def)
  show ?thesis
    unfolding Let_def
  proof (intro conjI)
    show "s_cycles (kpi_summary_of ys now) = s_takes (kpi_summary_of ys now) Met + s_takes (kpi_summary_of ys now) Missed
        + s_takes (kpi_summary_of ys now) Running + s_takes (kpi_summary_of ys now) Late + s_takes (kpi_summary_of ys now) Withdrawn"
      using partition [of "\<lambda>_. True"] open_split by (simp add: takes count)
    show "list_all (\<lambda>(p, met, missed, op). met + missed + op
          + length (filter (\<lambda>y. y_priority y = p \<and> taken_at y = None \<and> ended_at y \<noteq> None) ys)
          = length (filter (\<lambda>y. y_priority y = p) ys)) (s_by_priority (kpi_summary_of ys now))"
      unfolding by_priority by (simp only: list.pred_map comp_def case_prod_beta fst_conv snd_conv each simp_thms list.pred_True)
    have "0 \<le> r \<and> r \<le> 100" if "s_take_pct (kpi_summary_of ys now) = Some r" for r
      by (rule rate_bounds [OF _ that [unfolded pct]]) simp
    then show "case s_take_pct (kpi_summary_of ys now) of None \<Rightarrow> True | Some r \<Rightarrow> 0 \<le> r \<and> r \<le> 100"
      by (simp split: option.split)
  qed (simp_all add: takes count met withdrawn)
qed

end
