(* ===== verification/Throttle.thy ===== *)
theory Throttle
  imports Prelude Complex_Main "HOL-Library.AList"
begin

text \<open>
  The sign-in throttle of \<open>crosscutting/auth.py\<close>: failures counted per username and per address, a
  lock that doubles from the fifth one on, and tables bounded by forgetting the harmless entries first.
  A dictionary is an association list in insertion order. \<open>_delay\<close> multiplies a float by an integer
  power, which raises \<open>OverflowError\<close> when the power is no float: from \<open>2 ** 1024\<close> on.
\<close>

definition LOCKOUT_THRESHOLD :: nat where "LOCKOUT_THRESHOLD = 5"
definition LOCKOUT_BASE_S :: real where "LOCKOUT_BASE_S = 1"
definition LOCKOUT_MAX_S :: real where "LOCKOUT_MAX_S = 900"
definition THROTTLE_KEYS :: nat where "THROTTLE_KEYS = 4096"

datatype overflow_error = Power_Overflow

record attempts =
  fails :: nat
  locked_until :: real

type_synonym attempt_table = "(string \<times> attempts) list"

record login_throttle =
  by_user :: attempt_table
  by_ip :: attempt_table

definition new_attempts :: attempts where
  "new_attempts = \<lparr>fails = 0, locked_until = 0\<rparr>"

definition new_throttle :: login_throttle where
  "new_throttle = \<lparr>by_user = [], by_ip = []\<rparr>"

definition delay :: "nat \<Rightarrow> overflow_error + real" where
  "delay n =
     (if n < LOCKOUT_THRESHOLD then Inr 0
      else if 1024 \<le> n - LOCKOUT_THRESHOLD then Inl Power_Overflow
      else Inr (min (LOCKOUT_BASE_S * 2 ^ (n - LOCKOUT_THRESHOLD)) LOCKOUT_MAX_S))"

text \<open>The lock an entry has left, as far as it is known.\<close>

definition left_of :: "attempt_table \<Rightarrow> string \<Rightarrow> real \<Rightarrow> real \<Rightarrow> real" where
  "left_of table key now remaining =
     (case map_of table key of None \<Rightarrow> remaining | Some st \<Rightarrow> max remaining (locked_until st - now))"

definition locked_for :: "login_throttle \<Rightarrow> string \<Rightarrow> string \<Rightarrow> real \<Rightarrow> real" where
  "locked_for th username source_ip now =
     max 0 (left_of (by_ip th) source_ip now (left_of (by_user th) username now 0))"

text \<open>One table's part of \<open>record_failure\<close>: the count is raised before the delay is computed.\<close>

definition fail_entry :: "attempt_table \<Rightarrow> string \<Rightarrow> real \<Rightarrow> attempt_table \<times> overflow_error option" where
  "fail_entry table key now =
     (let st = (case map_of table key of None \<Rightarrow> new_attempts | Some st \<Rightarrow> st);
          n = Suc (fails st)
      in case delay n of
           Inl e \<Rightarrow> (AList.update key (st\<lparr>fails := n\<rparr>) table, Some e)
         | Inr d \<Rightarrow> (AList.update key (if 0 < d then \<lparr>fails = n, locked_until = now + d\<rparr> else st\<lparr>fails := n\<rparr>) table, None))"

definition harmless :: "real \<Rightarrow> attempts \<Rightarrow> bool" where
  "harmless now st \<longleftrightarrow> fails st < LOCKOUT_THRESHOLD \<or> locked_until st < now - LOCKOUT_MAX_S"

definition bound_table :: "real \<Rightarrow> attempt_table \<Rightarrow> attempt_table" where
  "bound_table now table =
     (if length table \<le> THROTTLE_KEYS then table
      else (let kept = filter (\<lambda>(k, st). \<not> harmless now st) table
            in if THROTTLE_KEYS < length kept
               then drop (length kept - THROTTLE_KEYS) (sort_key (\<lambda>(k, st). locked_until st) kept)
               else kept))"

definition record_failure :: "login_throttle \<Rightarrow> string \<Rightarrow> string \<Rightarrow> real \<Rightarrow> login_throttle \<times> overflow_error option" where
  "record_failure th username source_ip now =
     (case fail_entry (by_user th) username now of
        (users, Some e) \<Rightarrow> (th\<lparr>by_user := users\<rparr>, Some e)
      | (users, None) \<Rightarrow>
          (case fail_entry (by_ip th) source_ip now of
             (addresses, Some e) \<Rightarrow> (\<lparr>by_user = users, by_ip = addresses\<rparr>, Some e)
           | (addresses, None) \<Rightarrow> (\<lparr>by_user = bound_table now users, by_ip = bound_table now addresses\<rparr>, None)))"

definition record_success :: "login_throttle \<Rightarrow> string \<Rightarrow> string \<Rightarrow> login_throttle" where
  "record_success th username source_ip =
     \<lparr>by_user = AList.delete username (by_user th), by_ip = AList.delete source_ip (by_ip th)\<rparr>"

section \<open>Memory\<close>

lemma fail_entry_keys: "distinct (map fst table) \<Longrightarrow> distinct (map fst (fst (fail_entry table key now)))"
  by (simp add: fail_entry_def Let_def distinct_update split: sum.split)

lemma bound_table_length: "length (bound_table now table) \<le> THROTTLE_KEYS"
  by (simp add: bound_table_def Let_def)

lemma bound_table_subset: "set (bound_table now table) \<subseteq> set table"
  by (auto simp: bound_table_def Let_def dest: in_set_dropD)

lemma bound_table_keys: "distinct (map fst table) \<Longrightarrow> distinct (map fst (bound_table now table))"
proof -
  assume d: "distinct (map fst table)"
  have "distinct (map fst (sort_key f xs))" if "distinct (map fst xs)" for f :: "string \<times> attempts \<Rightarrow> real" and xs
    using that by (simp add: distinct_map inj_on_def)
  with d show ?thesis
    by (simp add: bound_table_def Let_def distinct_map_filter drop_map [symmetric])
qed

text \<open>Whom a full table forgets: the harmless entries, then those whose lock ends soonest.\<close>

lemma forgotten_last:
  assumes "(k, st) \<in> set table" and "(k, st) \<notin> set (bound_table now table)" and "(j, st') \<in> set (bound_table now table)"
  shows "harmless now st \<or> locked_until st \<le> locked_until st'"
proof (cases "harmless now st")
  case False
  let ?kept = "filter (\<lambda>(k, st). \<not> harmless now st) table"
  let ?s = "sort_key (\<lambda>(k, st). locked_until st) ?kept" and ?n = "length ?kept - THROTTLE_KEYS"
  have long: "THROTTLE_KEYS < length ?kept" "THROTTLE_KEYS < length table"
    using assms(1,2) False by (auto simp: bound_table_def Let_def split: if_splits)
  then have b: "bound_table now table = drop ?n ?s"
    by (simp add: bound_table_def Let_def)
  have "(k, st) \<in> set ?s"
    using assms(1) False by simp
  then have "(k, st) \<in> set (take ?n ?s)"
    using assms(2) unfolding b by (metis append_take_drop_id Un_iff set_append)
  moreover have "sorted (map (\<lambda>(k, st). locked_until st) (take ?n ?s @ drop ?n ?s))"
    by simp
  ultimately show ?thesis
    using assms(3) unfolding b map_append sorted_append by force
qed simp

end
