(* ===== verification/Audit_Log.thy ===== *)
theory Audit_Log
  imports Records
begin

text \<open>
  The audit log: \<open>crosscutting/audit.py\<close>, \<open>crosscutting/audit_noc.py\<close>,
  \<open>store/audit_log.py\<close> and \<open>Vault.index\<close>. The table is the list of its rows in the
  order of insertion; a row's \<open>details\<close> is the JSON text the column holds, and reading it raises
  when it is not one. The digests and the texts of floats are the fields of an \<open>audit_env\<close>:
  \<open>hashlib.sha256\<close> and \<open>hmac.new(key, message, sha256)\<close> are functions to 256-bit words,
  of which the program uses the 64 hexadecimal digits.
\<close>

record audit_env =
  float_repr :: "real \<Rightarrow> string"
  float_read :: "string \<Rightarrow> pyfloat"
  sha256 :: "bytes \<Rightarrow> 256 word"
  hmac_sha256 :: "bytes \<Rightarrow> bytes \<Rightarrow> 256 word"

datatype audit_error =
    Assertion_Error string
  | Vault_Error string
  | Json_Error
  | Type_Error string
  | Integrity_Error
  | Restrict_Violation

section \<open>Tables\<close>

definition GENESIS_HASH :: string where
  "GENESIS_HASH = replicate 64 CHR ''0''"

definition MAC_PLACE :: string where
  "MAC_PLACE = ''audit_log.mac''"

definition CANONICAL_KEYS :: "string list" where
  "CANONICAL_KEYS = [''id'', ''ts'', ''actor'', ''role'', ''source_ip'', ''action'', ''object_type'', ''object_id'', ''outcome'', ''details'']"

definition NOC_ACTIONS :: "string list" where
  "NOC_ACTIONS = [
    ''noc.secret.create'', ''noc.secret.update'', ''noc.secret.delete'', ''noc.secret.reveal'',
    ''noc.secret.read'', ''noc.secret.agents'', ''noc.grant.change'', ''noc.lease.issue'',
    ''noc.lease.use'', ''noc.lease.revoke'', ''noc.case.take'', ''noc.case.release'', ''noc.case.update'',
    ''noc.case.status'', ''noc.case.resolve'', ''noc.case.post'', ''noc.case.send_update'', ''noc.exec'',
    ''noc.playbook.create'', ''noc.playbook.update'', ''noc.playbook.run'', ''noc.agent.create'',
    ''noc.agent.update'', ''noc.agent.invoke'', ''noc.agent.pause'', ''noc.agent.resume'',
    ''noc.agent.terminate'', ''noc.agent.rotate'', ''noc.run.finish'', ''noc.case.assign'',
    ''noc.case.escalate'', ''noc.secret.use'', ''noc.customer.update'', ''noc.customer.memory'',
    ''noc.contact.create'', ''noc.contact.update'', ''noc.contact.delete'', ''noc.doc.upload'',
    ''noc.doc.delete'', ''noc.circuit.create'', ''noc.circuit.update'', ''noc.circuit.notes'',
    ''noc.circuit.delete'', ''noc.circuit.import'', ''noc.customer.end'']"

definition ACTIONS :: "string list" where
  "ACTIONS = [
    ''login.ok'', ''login.fail'', ''login.lockout'', ''logout'', ''password.change'',
    ''password.reset.request'', ''password.reset'', ''profile.update'', ''user.create'', ''user.update'',
    ''user.delete'', ''role.change'', ''token.create'', ''token.revoke'', ''config.change'',
    ''snmp.config.change'', ''email.config.change'', ''email.test'', ''db.import'', ''feedback'',
    ''label.set'', ''label.clear'', ''situation.close'', ''situation.move'', ''situation.merge'',
    ''situation.split'', ''situation.name'', ''alarm.clear'', ''alarm.clear_all'', ''situation.promote'',
    ''prune.manual'', ''quarantine.read'', ''audit.read'', ''audit.export'', ''entity.promote'',
    ''entity.reset'', ''profile.reset'', ''severity.confirm'', ''ingest.gap'', ''scorer.config.update'',
    ''scorer.preview'', ''scorer.fallback'', ''rbac.policy.update'', ''scope.policy.update'',
    ''retention.preview'', ''retention.change'', ''governance.fallback'', ''promotion.applied'',
    ''promotion.refused'', ''seal.construct'', ''seal.spend'', ''maintenance.window.create'',
    ''maintenance.window.update'', ''maintenance.window.confirm'', ''maintenance.window.cancel'',
    ''maintenance.window.extend'', ''maintenance.window.end'', ''maintenance.window.read'',
    ''notice.snooze'', ''notice.unsnooze'', ''alarm.outlived.ack'', ''catalogue.rule.set'',
    ''catalogue.rule.delete'', ''catalogue.import'', ''decider.set'', ''search.start'', ''search.stop'',
    ''autonomy.set'', ''autonomy.stop'', ''autonomy.suspend'', ''autonomy.grouping'', ''autonomy.naming'',
    ''autonomy.closing'', ''autonomy.severity'', ''situation.severity'', ''situation.proposal'',
    ''situation.proposal.accept'', ''situation.proposal.reject'', ''league.decide''] @ NOC_ACTIONS"

definition OUTCOMES :: "string list" where
  "OUTCOMES = [''ok'', ''denied'', ''error'']"

definition FORBIDDEN_DETAIL_KEYS :: "string list" where
  "FORBIDDEN_DETAIL_KEYS = [
    ''password'', ''new_password'', ''old_password'', ''session'', ''session_id'', ''token'',
    ''token_value'', ''secret'', ''community'', ''authorization'', ''cookie'', ''lease'', ''private_key'',
    ''passphrase'']"


section \<open>Texts and digests\<close>

text \<open>\<open>str.encode("utf-8")\<close> and \<open>str.lower\<close>, for the code points of the model (below 256).\<close>

definition utf8_char :: "char \<Rightarrow> bytes" where
  "utf8_char c =
     (if code c < 128 then [word_of_nat (code c)]
      else [word_of_nat (192 + code c div 64), word_of_nat (128 + code c mod 64)])"

definition utf8_bytes :: "string \<Rightarrow> bytes" where
  "utf8_bytes s = concat (map utf8_char s)"

definition lower_char :: "char \<Rightarrow> char" where
  "lower_char c =
     (let n = code c in
      if 65 \<le> n \<and> n \<le> 90 \<or> 192 \<le> n \<and> n \<le> 222 \<and> n \<noteq> 215 then char_of (n + 32) else c)"

definition lower :: "string \<Rightarrow> string" where
  "lower s = map lower_char s"

fun hex_text :: "nat \<Rightarrow> nat \<Rightarrow> string" where
  "hex_text 0 n = []"
| "hex_text (Suc k) n = hex_text k (n div 16) @ [hex_digit (n mod 16)]"

definition hexdigest :: "256 word \<Rightarrow> string" where
  "hexdigest d = hex_text 64 (unat d)"

section \<open>Entries and rows\<close>

record audit_entry =
  en_id :: int
  en_ts :: pyfloat
  en_actor :: string
  en_role :: "string option"
  en_source_ip :: "string option"
  en_action :: string
  en_object_type :: "string option"
  en_object_id :: "string option"
  en_outcome :: string
  en_details :: json

record audit_row =
  rw_id :: int
  rw_ts :: pyfloat
  rw_actor :: string
  rw_role :: "string option"
  rw_source_ip :: "string option"
  rw_action :: string
  rw_object_type :: "string option"
  rw_object_id :: "string option"
  rw_outcome :: string
  rw_details :: string
  rw_prev_hash :: string
  rw_entry_hash :: string
  rw_mac :: "string option"

type_synonym audit_log = "audit_row list"

definition redact_details :: "(string \<times> json) list option \<Rightarrow> (string \<times> json) list" where
  "redact_details details =
     (case details of
        None \<Rightarrow> []
      | Some kvs \<Rightarrow> filter (\<lambda>(k, v). lower k \<notin> set FORBIDDEN_DETAIL_KEYS) kvs)"

fun text_or_null :: "string option \<Rightarrow> json" where
  "text_or_null None = JNull"
| "text_or_null (Some s) = JStr s"

definition entry_dict :: "audit_entry \<Rightarrow> (string \<times> json) list" where
  "entry_dict e =
     [(''id'', JInt (en_id e)), (''ts'', JFloat (en_ts e)), (''actor'', JStr (en_actor e)), (''role'', text_or_null (en_role e)),
      (''source_ip'', text_or_null (en_source_ip e)), (''action'', JStr (en_action e)),
      (''object_type'', text_or_null (en_object_type e)), (''object_id'', text_or_null (en_object_id e)),
      (''outcome'', JStr (en_outcome e)), (''details'', en_details e)]"

definition dict_get :: "(string \<times> json) list \<Rightarrow> string \<Rightarrow> json" where
  "dict_get d k = (case map_of d k of Some v \<Rightarrow> v | None \<Rightarrow> JNull)"

definition canonical :: "(real \<Rightarrow> string) \<Rightarrow> audit_entry \<Rightarrow> string" where
  "canonical frepr e = dumps frepr (sort_keys (JObj (map (\<lambda>k. (k, dict_get (entry_dict e) k)) CANONICAL_KEYS)))"

definition compute_hash :: "(bytes \<Rightarrow> 256 word) \<Rightarrow> string \<Rightarrow> string \<Rightarrow> string" where
  "compute_hash sha prev_hash canonical_str = hexdigest (sha (utf8_bytes (prev_hash @ canonical_str)))"

section \<open>The vault's keyed digest\<close>

text \<open>The part of a \<open>Vault\<close> the log uses; \<open>None\<close> is a process that has configured none.\<close>

record vault =
  index_key :: bytes
  pepper_key :: bytes

definition current :: "vault option \<Rightarrow> audit_error + vault" where
  "current cur = (case cur of None \<Rightarrow> Inl (Vault_Error ''no secret key is loaded'') | Some v \<Rightarrow> Inr v)"

definition vault_index :: "(bytes \<Rightarrow> bytes \<Rightarrow> 256 word) \<Rightarrow> vault \<Rightarrow> string \<Rightarrow> string \<Rightarrow> string" where
  "vault_index hmac v place value = hexdigest (hmac (index_key v) (utf8_bytes place @ 0 # utf8_bytes value))"

definition entry_mac :: "(bytes \<Rightarrow> bytes \<Rightarrow> 256 word) \<Rightarrow> vault option \<Rightarrow> string \<Rightarrow> audit_error + string" where
  "entry_mac hmac cur entry_hash =
     (case current cur of Inl e \<Rightarrow> Inl e | Inr v \<Rightarrow> Inr (vault_index hmac v MAC_PLACE entry_hash))"

section \<open>The table\<close>

text \<open>\<open>SELECT ... ORDER BY id\<close>, the newest row, the next id, an insert under the primary key.\<close>

definition audit_all :: "audit_log \<Rightarrow> audit_row list" where
  "audit_all t = sort_key rw_id t"

definition audit_last_hash :: "audit_log \<Rightarrow> string" where
  "audit_last_hash t = (case rev (audit_all t) of [] \<Rightarrow> GENESIS_HASH | r # _ \<Rightarrow> rw_entry_hash r)"

definition audit_next_id :: "audit_log \<Rightarrow> int" where
  "audit_next_id t = (if t = [] then 0 else Max (set (map rw_id t))) + 1"

definition audit_insert :: "audit_env \<Rightarrow> audit_log \<Rightarrow> audit_entry \<Rightarrow> string \<Rightarrow> string \<Rightarrow> string option \<Rightarrow> audit_error + audit_log" where
  "audit_insert env t e prev_hash entry_hash mac =
     (if en_id e \<in> set (map rw_id t) then Inl Integrity_Error
      else Inr (t @ [\<lparr>rw_id = en_id e, rw_ts = en_ts e, rw_actor = en_actor e, rw_role = en_role e,
          rw_source_ip = en_source_ip e, rw_action = en_action e, rw_object_type = en_object_type e,
          rw_object_id = en_object_id e, rw_outcome = en_outcome e,
          rw_details = dumps (float_repr env) (sort_keys (en_details e)),
          rw_prev_hash = prev_hash, rw_entry_hash = entry_hash, rw_mac = mac\<rparr>]))"

definition audit_tail :: "audit_log \<Rightarrow> int \<times> string" where
  "audit_tail t = (case rev (audit_all t) of [] \<Rightarrow> (0, GENESIS_HASH) | r # _ \<Rightarrow> (rw_id r, rw_entry_hash r))"

definition audit_page :: "audit_log \<Rightarrow> int \<Rightarrow> int \<Rightarrow> nat \<Rightarrow> audit_row list" where
  "audit_page t after newest limit = take limit (filter (\<lambda>r. after < rw_id r \<and> rw_id r \<le> newest) (audit_all t))"

definition list_audit :: "audit_log \<Rightarrow> nat \<Rightarrow> audit_row list" where
  "list_audit t limit = take limit (rev (audit_all t))"


text \<open>\<open>prune_audit_log\<close> (\<open>migrations/0032_hardening.sql\<close>): the rows before the cutoff, which may
  not be less than a day old. \<open>now\<close> is the database's clock. A time that is not a number is after
  every other.\<close>

fun before :: "pyfloat \<Rightarrow> real \<Rightarrow> bool" where
  "before (Finite x) cutoff = (x < cutoff)"
| "before Neg_Infinity cutoff = True"
| "before Infinity cutoff = False"
| "before Not_A_Number cutoff = False"

definition prune_audit :: "audit_log \<Rightarrow> real \<Rightarrow> real \<Rightarrow> audit_error + (audit_log \<times> nat)" where
  "prune_audit t now cutoff =
     (if now - 86400 < cutoff then Inl Restrict_Violation
      else Inr (filter (\<lambda>r. \<not> before (rw_ts r) cutoff) t, length (filter (\<lambda>r. before (rw_ts r) cutoff) t)))"

section \<open>Writing\<close>

text \<open>The arguments of \<open>write_event\<close>.\<close>

record audit_event =
  ae_ts :: pyfloat
  ae_actor :: string
  ae_role :: "string option"
  ae_source_ip :: "string option"
  ae_action :: string
  ae_outcome :: string
  ae_object_type :: "string option"
  ae_object_id :: "string option"
  ae_details :: "(string \<times> json) list option"

definition event_entry :: "audit_event \<Rightarrow> int \<Rightarrow> audit_entry" where
  "event_entry ev next_id =
     \<lparr>en_id = next_id, en_ts = ae_ts ev, en_actor = ae_actor ev, en_role = ae_role ev, en_source_ip = ae_source_ip ev,
      en_action = ae_action ev, en_object_type = ae_object_type ev, en_object_id = ae_object_id ev,
      en_outcome = ae_outcome ev, en_details = JObj (redact_details (ae_details ev))\<rparr>"

definition write_event :: "audit_env \<Rightarrow> vault option \<Rightarrow> audit_log \<Rightarrow> audit_event \<Rightarrow> audit_error + (audit_log \<times> string)" where
  "write_event env cur t ev =
     (if ae_action ev \<notin> set ACTIONS then Inl (Assertion_Error ''unknown audit action'')
      else if ae_outcome ev \<notin> set OUTCOMES then Inl (Assertion_Error ''unknown audit outcome'')
      else
        (let prev_hash = audit_last_hash t; entry = event_entry ev (audit_next_id t);
             entry_hash = compute_hash (sha256 env) prev_hash (canonical (float_repr env) entry)
         in case entry_mac (hmac_sha256 env) cur entry_hash of
              Inl e \<Rightarrow> Inl e
            | Inr mac \<Rightarrow>
                (case audit_insert env t entry prev_hash entry_hash (Some mac) of
                   Inl e \<Rightarrow> Inl e
                 | Inr t' \<Rightarrow> Inr (t', entry_hash))))"

section \<open>Verifying\<close>

record verify_result =
  vr_ok :: bool
  vr_checked :: nat
  vr_first_broken_id :: "int option"
  vr_reason :: "string option"
  vr_final_hash :: string

definition broken :: "nat \<Rightarrow> int \<Rightarrow> string \<Rightarrow> string \<Rightarrow> verify_result" where
  "broken checked rid reason final_hash =
     \<lparr>vr_ok = False, vr_checked = checked, vr_first_broken_id = Some rid, vr_reason = Some reason, vr_final_hash = final_hash\<rparr>"

definition row_entry :: "audit_env \<Rightarrow> audit_row \<Rightarrow> audit_error + audit_entry" where
  "row_entry env r =
     (case loads (float_read env) (rw_details r) of
        None \<Rightarrow> Inl Json_Error
      | Some details \<Rightarrow>
          Inr \<lparr>en_id = rw_id r, en_ts = rw_ts r, en_actor = rw_actor r, en_role = rw_role r,
            en_source_ip = rw_source_ip r, en_action = rw_action r, en_object_type = rw_object_type r,
            en_object_id = rw_object_id r, en_outcome = rw_outcome r, en_details = details\<rparr>)"

text \<open>\<open>hmac.compare_digest\<close> of two texts raises on one that is not ASCII.\<close>

definition compare_digest :: "string \<Rightarrow> string \<Rightarrow> audit_error + bool" where
  "compare_digest a b =
     (if list_all (\<lambda>c. code c < 128) (a @ b) then Inr (a = b) else Inl (Type_Error ''non-ASCII''))"

text \<open>The seal of one row: whether it had to be checked, and what the check answered. A missing seal
  is wrong before the key is asked for.\<close>

definition seal_due :: "bool \<Rightarrow> int option \<Rightarrow> audit_row \<Rightarrow> bool" where
  "seal_due sealed sealed_from r \<longleftrightarrow>
     rw_mac r \<noteq> None \<or> sealed \<or> (case sealed_from of None \<Rightarrow> False | Some n \<Rightarrow> n \<le> rw_id r)"

definition seal_right :: "audit_env \<Rightarrow> vault option \<Rightarrow> audit_row \<Rightarrow> audit_error + bool" where
  "seal_right env cur r =
     (case rw_mac r of
        None \<Rightarrow> Inr False
      | Some mac \<Rightarrow>
          (case entry_mac (hmac_sha256 env) cur (rw_entry_hash r) of
             Inl e \<Rightarrow> Inl e
           | Inr m \<Rightarrow> compare_digest mac m))"

fun verify_from :: "audit_env \<Rightarrow> vault option \<Rightarrow> int option \<Rightarrow> nat \<Rightarrow> string \<Rightarrow> string \<Rightarrow> bool \<Rightarrow> audit_row list \<Rightarrow>
    audit_error + verify_result" where
  "verify_from env cur sealed_from checked prev_hash final_hash sealed [] =
     Inr \<lparr>vr_ok = True, vr_checked = checked, vr_first_broken_id = None, vr_reason = None, vr_final_hash = final_hash\<rparr>"
| "verify_from env cur sealed_from checked prev_hash final_hash sealed (r # rows) =
     (case row_entry env r of
        Inl e \<Rightarrow> Inl e
      | Inr entry \<Rightarrow>
          if checked = 0 \<and> rw_id r = 1 \<and> rw_prev_hash r \<noteq> GENESIS_HASH
          then Inr (broken checked (rw_id r) ''genesis prev_hash not zero'' final_hash)
          else if checked \<noteq> 0 \<and> rw_prev_hash r \<noteq> prev_hash
          then Inr (broken checked (rw_id r) ''prev_hash does not match previous entry_hash'' final_hash)
          else if compute_hash (sha256 env) (rw_prev_hash r) (canonical (float_repr env) entry) \<noteq> rw_entry_hash r
          then Inr (broken checked (rw_id r) ''entry_hash mismatch (row tampered)'' final_hash)
          else if seal_due sealed sealed_from r then
            (case seal_right env cur r of
               Inl e \<Rightarrow> Inl e
             | Inr False \<Rightarrow> Inr (broken checked (rw_id r) ''seal missing or wrong (row written without the secret key)'' final_hash)
             | Inr True \<Rightarrow>
                 verify_from env cur sealed_from (Suc checked) (rw_entry_hash r) (rw_entry_hash r) True rows)
          else verify_from env cur sealed_from (Suc checked) (rw_entry_hash r) (rw_entry_hash r) sealed rows)"

definition verify_rows :: "audit_env \<Rightarrow> vault option \<Rightarrow> int option \<Rightarrow> audit_row list \<Rightarrow> audit_error + verify_result" where
  "verify_rows env cur sealed_from rows = verify_from env cur sealed_from 0 GENESIS_HASH GENESIS_HASH False rows"

text \<open>The whole check; what \<open>audit_sealed_from\<close> answered is an argument.\<close>

definition verify_chain :: "audit_env \<Rightarrow> vault option \<Rightarrow> string + int option \<Rightarrow> audit_log \<Rightarrow> audit_error + verify_result" where
  "verify_chain env cur sealed_from t =
     (case sealed_from of
        Inl exc \<Rightarrow> Inr \<lparr>vr_ok = False, vr_checked = 0, vr_first_broken_id = None,
            vr_reason = Some (''the audit anchor: '' @ exc), vr_final_hash = GENESIS_HASH\<rparr>
      | Inr n \<Rightarrow> verify_rows env cur n (audit_all t))"

section \<open>Exporting\<close>

definition row_dict :: "audit_row \<Rightarrow> (string \<times> json) list" where
  "row_dict r =
     [(''id'', JInt (rw_id r)), (''ts'', JFloat (rw_ts r)), (''actor'', JStr (rw_actor r)), (''role'', text_or_null (rw_role r)),
      (''source_ip'', text_or_null (rw_source_ip r)), (''action'', JStr (rw_action r)),
      (''object_type'', text_or_null (rw_object_type r)), (''object_id'', text_or_null (rw_object_id r)),
      (''outcome'', JStr (rw_outcome r)), (''details'', JStr (rw_details r)), (''prev_hash'', JStr (rw_prev_hash r)),
      (''entry_hash'', JStr (rw_entry_hash r)), (''mac'', text_or_null (rw_mac r))]"

definition export_line :: "(real \<Rightarrow> string) \<Rightarrow> audit_row \<Rightarrow> string" where
  "export_line frepr r = dumps frepr (sort_keys (JObj (filter (\<lambda>(k, v). k \<noteq> ''mac'') (row_dict r))))"

definition export_ndjson :: "(real \<Rightarrow> string) \<Rightarrow> audit_log \<Rightarrow> string list \<times> string" where
  "export_ndjson frepr t =
     (let rows = audit_all t in (map (export_line frepr) rows, if rows = [] then GENESIS_HASH else rw_entry_hash (last rows)))"


section \<open>Texts determine what was written\<close>

lemma utf8_char_back: "utf8_text (utf8_char c @ bs) = map_option (Cons c) (utf8_text bs)"
proof (cases "code c < 128")
  case True
  then have "unat (word_of_nat (code c) :: byte) = code c"
    by (simp add: unat_of_nat)
  with True show ?thesis
    by (simp add: utf8_char_def)
next
  case False
  have n: "code c < 256" "code c div 64 < 4" "2 \<le> code c div 64"
    using False code_less [of c] by (simp_all add: less_mult_imp_div_less div_le_mono [of 128 "code c" 64, simplified])
  have w: "unat (word_of_nat (192 + code c div 64) :: byte) = 192 + code c div 64"
    "unat (word_of_nat (128 + code c mod 64) :: byte) = 128 + code c mod 64"
    using n by (simp_all add: unat_of_nat del: of_nat_add)
  have "code c div 64 = 2 \<or> code c div 64 = 3" "code c div 64 * 64 + code c mod 64 = code c"
    using n by auto
  with False show ?thesis
    by (auto simp: utf8_char_def w simp del: of_nat_add)
qed

lemma utf8_back: "utf8_text (utf8_bytes s) = Some s"
  by (induction s) (simp_all add: utf8_bytes_def utf8_char_back)

lemma utf8_inject: "utf8_bytes s = utf8_bytes t \<Longrightarrow> s = t"
  by (metis utf8_back option.inject)

lemma hex_digit_inject: "a < 16 \<Longrightarrow> b < 16 \<Longrightarrow> hex_digit a = hex_digit b \<Longrightarrow> a = b"
  by (metis unhex_hex_digit option.inject)

lemma hex_text_inject: "m < 16 ^ k \<Longrightarrow> n < 16 ^ k \<Longrightarrow> hex_text k m = hex_text k n \<Longrightarrow> m = n"
proof (induction k arbitrary: m n)
  case (Suc k)
  then have "m div 16 = n div 16" "m mod 16 = n mod 16"
    by (auto intro!: Suc.IH hex_digit_inject simp: div_less_iff_less_mult mult.commute)
  then show ?case
    by (metis mult_div_mod_eq)
qed simp

lemma length_hex_text [simp]: "length (hex_text k n) = k"
  by (induction k arbitrary: n) auto

lemma hex_text_ascii: "c \<in> set (hex_text k n) \<Longrightarrow> code c < 128"
  by (induction k arbitrary: n) (auto simp: hex_digit_def)

lemma length_hexdigest [simp]: "length (hexdigest d) = 64"
  by (simp add: hexdigest_def)

lemma hexdigest_inject:
  assumes "hexdigest a = hexdigest b"
  shows "a = b"
proof -
  have "unat a < 16 ^ 64" "unat b < 16 ^ 64"
    using unsigned_less [of a] unsigned_less [of b] by simp_all
  with assms have "unat a = unat b"
    unfolding hexdigest_def by (intro hex_text_inject)
  then show ?thesis
    by (simp add: word_unat_eq_iff)
qed

lemma hexdigest_ascii: "list_all (\<lambda>c. code c < 128) (hexdigest d)"
  by (auto simp: hexdigest_def list_all_iff hex_text_ascii)

text \<open>The payload of an entry in the order of its sorted keys.\<close>

lemma sorted_payload:
  "sort_keys (JObj (map (\<lambda>k. (k, dict_get (entry_dict e) k)) CANONICAL_KEYS)) =
     JObj [(''action'', JStr (en_action e)), (''actor'', JStr (en_actor e)), (''details'', sort_keys (en_details e)),
       (''id'', JInt (en_id e)), (''object_id'', text_or_null (en_object_id e)), (''object_type'', text_or_null (en_object_type e)),
       (''outcome'', JStr (en_outcome e)), (''role'', text_or_null (en_role e)), (''source_ip'', text_or_null (en_source_ip e)),
       (''ts'', JFloat (en_ts e))]"
proof -
  have "sort_keys (text_or_null s) = text_or_null s" for s
    by (cases s) auto
  then show ?thesis
    by (simp add: CANONICAL_KEYS_def dict_get_def entry_dict_def key_codes_def code_def)
qed


text \<open>An entry whose canonical text determines it: a readable id, time and details.\<close>

definition writable :: "audit_env \<Rightarrow> audit_entry \<Rightarrow> bool" where
  "writable env e \<longleftrightarrow>
     readable (float_repr env) (float_read env) (JInt (en_id e)) \<and>
     readable (float_repr env) (float_read env) (JFloat (en_ts e)) \<and>
     readable (float_repr env) (float_read env) (en_details e)"

definition sorted_entry :: "audit_entry \<Rightarrow> audit_entry" where
  "sorted_entry e = e\<lparr>en_details := sort_keys (en_details e)\<rparr>"

lemma readable_text_or_null [simp]: "readable frepr fread (text_or_null s)"
  by (cases s) auto

lemma text_or_null_inject [simp]: "text_or_null s = text_or_null t \<longleftrightarrow> s = t"
  by (cases s; cases t) auto

lemma canonical_inject:
  assumes "writable env e" and "writable env e'" and "canonical (float_repr env) e = canonical (float_repr env) e'"
  shows "sorted_entry e = sorted_entry e'"
proof -
  have r: "readable (float_repr env) (float_read env) (sort_keys (JObj (map (\<lambda>k. (k, dict_get (entry_dict e) k)) CANONICAL_KEYS)))"
    if "writable env e" for e
    using that unfolding sorted_payload by (simp add: writable_def readable_sort_keys)
  show ?thesis
    using dumps_inject [OF r r, OF assms(1,2)] assms(3)
    unfolding canonical_def sorted_payload sorted_entry_def by simp
qed

lemma canonical_sorted: "canonical frepr (sorted_entry e) = canonical frepr e"
  unfolding canonical_def sorted_payload by (simp add: sorted_entry_def sort_keys_idem)

section \<open>Linked rows\<close>

text \<open>A row whose hash is that of its fields, rows each chained to the one before, and rows that carry
  the seals they must carry.\<close>

definition hash_right :: "audit_env \<Rightarrow> audit_row \<Rightarrow> bool" where
  "hash_right env r =
     (case row_entry env r of
        Inl _ \<Rightarrow> False
      | Inr e \<Rightarrow> compute_hash (sha256 env) (rw_prev_hash r) (canonical (float_repr env) e) = rw_entry_hash r)"

fun rows_linked :: "audit_env \<Rightarrow> string \<Rightarrow> audit_row list \<Rightarrow> bool" where
  "rows_linked env prev [] = True"
| "rows_linked env prev (r # rs) = (rw_prev_hash r = prev \<and> hash_right env r \<and> rows_linked env (rw_entry_hash r) rs)"

fun seals_right :: "audit_env \<Rightarrow> vault option \<Rightarrow> int option \<Rightarrow> bool \<Rightarrow> audit_row list \<Rightarrow> bool" where
  "seals_right env cur sf sealed [] = True"
| "seals_right env cur sf sealed (r # rs) =
     (if seal_due sealed sf r then seal_right env cur r = Inr True \<and> seals_right env cur sf True rs
      else seals_right env cur sf sealed rs)"

fun final_hash :: "string \<Rightarrow> audit_row list \<Rightarrow> string" where
  "final_hash prev [] = prev"
| "final_hash prev (r # rs) = final_hash (rw_entry_hash r) rs"

definition first_prev :: "audit_row list \<Rightarrow> string" where
  "first_prev rows = (case rows of [] \<Rightarrow> GENESIS_HASH | r # _ \<Rightarrow> rw_prev_hash r)"

definition genesis_right :: "audit_row list \<Rightarrow> bool" where
  "genesis_right rows = (case rows of [] \<Rightarrow> True | r # _ \<Rightarrow> rw_id r = 1 \<longrightarrow> rw_prev_hash r = GENESIS_HASH)"

definition all_right :: "nat \<Rightarrow> string \<Rightarrow> verify_result" where
  "all_right n h = \<lparr>vr_ok = True, vr_checked = n, vr_first_broken_id = None, vr_reason = None, vr_final_hash = h\<rparr>"

lemma final_hash_append [simp]: "final_hash prev (xs @ [r]) = rw_entry_hash r"
  by (induction xs arbitrary: prev) auto

lemma linked_append: "rows_linked env prev (xs @ ys) \<longleftrightarrow> rows_linked env prev xs \<and> rows_linked env (final_hash prev xs) ys"
  by (induction xs arbitrary: prev) auto

lemma seals_right_all:
  "(\<forall>r \<in> set rs. seal_right env cur r = Inr True) \<Longrightarrow> seals_right env cur sf sealed rs"
  by (induction rs arbitrary: sealed) auto

lemma broken_not_ok [simp]: "\<not> vr_ok (broken n i reason h)"
  by (simp add: broken_def)

lemma all_right_ok [simp]: "vr_ok (all_right n h)" "vr_final_hash (all_right n h) = h"
  by (simp_all add: all_right_def)

lemma verify_from_later:
  "verify_from env cur sf (Suc n) prev h sealed rows = Inr v \<and> vr_ok v \<longleftrightarrow>
     rows_linked env prev rows \<and> seals_right env cur sf sealed rows \<and> v = all_right (Suc n + length rows) (final_hash h rows)"
proof (induction rows arbitrary: n prev h sealed)
  case Nil
  then show ?case
    by (auto simp: all_right_def)
next
  case (Cons r rows)
  show ?case
  proof (cases "hash_right env r \<and> rw_prev_hash r = prev")
    case True
    then obtain e where e: "row_entry env r = Inr e"
      "compute_hash (sha256 env) (rw_prev_hash r) (canonical (float_repr env) e) = rw_entry_hash r"
      by (auto simp: hash_right_def split: sum.splits)
    show ?thesis
      using Cons.IH True e by (auto split: sum.splits bool.splits)
  next
    case False
    then show ?thesis
      by (auto simp: hash_right_def split: sum.splits if_splits)
  qed
qed

lemma verify_rows_ok:
  "verify_rows env cur sf rows = Inr v \<and> vr_ok v \<longleftrightarrow>
     genesis_right rows \<and> rows_linked env (first_prev rows) rows \<and> seals_right env cur sf False rows \<and>
     v = all_right (length rows) (final_hash GENESIS_HASH rows)"
proof (cases rows)
  case Nil
  then show ?thesis
    by (auto simp: verify_rows_def all_right_def genesis_right_def)
next
  case (Cons r rs)
  show ?thesis
  proof (cases "hash_right env r \<and> genesis_right (r # rs)")
    case True
    then obtain e where e: "row_entry env r = Inr e"
      "compute_hash (sha256 env) (rw_prev_hash r) (canonical (float_repr env) e) = rw_entry_hash r"
      by (auto simp: hash_right_def split: sum.splits)
    show ?thesis
      using True e verify_from_later [of env cur sf 0]
      by (auto simp: verify_rows_def Cons genesis_right_def first_prev_def split: sum.splits bool.splits)
  next
    case False
    then show ?thesis
      by (auto simp: verify_rows_def Cons hash_right_def genesis_right_def first_prev_def split: sum.splits if_splits)
  qed
qed


text \<open>The export of \<open>api/routes/audit.py\<close>: pages of rows up to the newest one of the moment the
  export was recorded, each read by itself. \<open>ts i\<close> is the table when page \<open>i\<close> is read.\<close>

definition EXPORT_PAGE :: nat where
  "EXPORT_PAGE = 2000"

definition page_text :: "(real \<Rightarrow> string) \<Rightarrow> audit_row list \<Rightarrow> string" where
  "page_text frepr page = concat (map (\<lambda>r. export_line frepr r @ [char_of (10::nat)]) page)"

lemma last_page_after: "audit_page t after newest n = r # rs \<Longrightarrow> after < rw_id (last (r # rs))"
proof -
  assume p: "audit_page t after newest n = r # rs"
  then have "last (r # rs) \<in> set (audit_page t after newest n)"
    using last_in_set [of "r # rs"] by simp
  then show ?thesis
    by (auto simp: audit_page_def dest: in_set_takeD)
qed

function export_lines :: "(real \<Rightarrow> string) \<Rightarrow> (nat \<Rightarrow> audit_log) \<Rightarrow> nat \<Rightarrow> int \<Rightarrow> int \<Rightarrow> string" where
  "export_lines frepr ts i after newest =
     (if after < newest then
        (case audit_page (ts i) after newest EXPORT_PAGE of
           [] \<Rightarrow> []
         | r # rs \<Rightarrow> page_text frepr (r # rs) @ export_lines frepr ts (Suc i) (rw_id (last (r # rs))) newest)
      else [])"
  by pat_completeness auto
termination
  by (relation "measure (\<lambda>(_, _, _, after, newest). nat (newest - after))") (auto dest: last_page_after)

declare export_lines.simps [simp del]


lemma next_id_above: "r \<in> set t \<Longrightarrow> rw_id r < audit_next_id t"
  by (auto simp: audit_next_id_def zle_add1_eq_le intro: Max_ge)

lemma next_id_new: "audit_next_id t \<notin> rw_id ` set t"
  using next_id_above [of _ t] by fastforce

end
