(* ===== verification/Rbac.thy ===== *)
theory Rbac
  imports Json "HOL-Library.List_Lexorder" "HOL-Library.Char_ord"
begin

text \<open>
  Who may do what: \<open>crosscutting/rbac/\<close>. The compiled tables are lists in the order of the
  source; a stored policy is a JSON document that can only narrow them. Reading a document that is
  nested too deeply for the interpreter raises \<open>RecursionError\<close>, which no reader of a policy
  catches; which documents those are is the argument \<open>too_deep\<close>.
\<close>

section \<open>Tables\<close>

type_synonym capability = string
type_synonym role = string
type_synonym route = "string \<times> string"

definition ROLE_RANK :: "(role \<times> nat) list" where
  "ROLE_RANK = [(''viewer'', 0), (''editor'', 1), (''admin'', 2)]"

definition PERMISSIONS :: "(capability \<times> role) list" where
  "PERMISSIONS = [
    (''self.read'', ''viewer''), (''stats.read'', ''viewer''), (''graph.read'', ''viewer''),
    (''classes.read'', ''viewer''), (''situations.read'', ''viewer''), (''timeline.read'', ''viewer''),
    (''events.stream'', ''viewer''), (''entities.read'', ''viewer''), (''scorer.read'', ''viewer''),
    (''correlation.read'', ''viewer''), (''model.read'', ''viewer''), (''model.register'', ''admin''),
    (''decider.write'', ''admin''), (''autonomy.write'', ''admin''), (''autonomy.audit'', ''admin''),
    (''autonomy.stop'', ''editor''), (''search.write'', ''admin''), (''situation.severity'', ''editor''),
    (''feedback.write'', ''editor''), (''label.write'', ''editor''), (''situation.close'', ''editor''),
    (''situation.move'', ''editor''), (''situation.merge'', ''editor''), (''situation.split'', ''editor''),
    (''alarm.clear'', ''editor''), (''situation.promote'', ''editor''), (''users.manage'', ''admin''),
    (''entity.reset'', ''admin''), (''profile.reset'', ''admin''), (''tokens.manage'', ''admin''),
    (''config.read'', ''admin''), (''config.write'', ''admin''), (''quarantine.read'', ''admin''),
    (''audit.read'', ''admin''), (''audit.export'', ''admin''), (''audit.prune'', ''admin''),
    (''scorer.preview'', ''admin''), (''scorer.write'', ''admin''), (''promotion.read'', ''viewer''),
    (''promotion.write'', ''admin''), (''rbac.read'', ''admin''), (''rbac.write'', ''admin''),
    (''scope.read'', ''admin''), (''scope.write'', ''admin''), (''mw.read'', ''viewer''),
    (''mw.write'', ''editor''), (''mw.confirm'', ''editor''), (''mw.ledger'', ''admin''),
    (''organizations.read'', ''viewer''), (''organizations.write'', ''admin''),
    (''timezones.read'', ''viewer''), (''notice.snooze'', ''viewer''), (''alarm.acknowledge'', ''editor''),
    (''catalogue.write'', ''editor''), (''catalogue.import'', ''editor''), (''secrets.read'', ''editor''),
    (''secrets.write'', ''editor''), (''secrets.reveal'', ''editor''), (''secrets.lease'', ''viewer''),
    (''secrets.grants'', ''admin''), (''cases.read'', ''viewer''), (''cases.post'', ''viewer''),
    (''cases.work'', ''editor''), (''cases.manage'', ''admin''), (''playbooks.read'', ''editor''),
    (''playbooks.write'', ''editor''), (''agents.read'', ''editor''), (''agents.run'', ''editor''),
    (''agents.manage'', ''admin''), (''mcp.use'', ''viewer'')]"

definition AUDITED_DENIED_PERMISSIONS :: "capability list" where
  "AUDITED_DENIED_PERMISSIONS = [
    ''quarantine.read'', ''audit.read'', ''audit.export'', ''audit.prune'', ''users.manage'', ''tokens.manage'',
    ''config.read'', ''config.write'', ''scorer.preview'', ''scorer.write'', ''rbac.read'', ''rbac.write'',
    ''scope.read'', ''scope.write'', ''secrets.read'', ''secrets.write'', ''secrets.reveal'',
    ''secrets.grants'', ''agents.manage'']"

definition FIXED_ROLES :: "role list" where
  "FIXED_ROLES = [''admin'']"

definition rank_at_least :: "role \<Rightarrow> role \<Rightarrow> bool" where
  "rank_at_least role minimum =
     (case (map_of ROLE_RANK role, map_of ROLE_RANK minimum) of (Some a, Some b) \<Rightarrow> b \<le> a | _ \<Rightarrow> False)"

definition CEILINGS :: "(role \<times> capability set) list" where
  "CEILINGS = map (\<lambda>(role, _). (role, set (map fst (filter (\<lambda>(_, minimum). rank_at_least role minimum) PERMISSIONS)))) ROLE_RANK"

definition NOC_ROUTE_PERMISSIONS :: "(route \<times> capability) list" where
  "NOC_ROUTE_PERMISSIONS = [
    ((''GET'', ''/api/noc/secrets''), ''secrets.read''), ((''POST'', ''/api/noc/secrets''), ''secrets.write''),
    ((''GET'', ''/api/noc/secrets/{secret_id}''), ''secrets.read''),
    ((''POST'', ''/api/noc/secrets/{secret_id}''), ''secrets.write''),
    ((''POST'', ''/api/noc/secrets/{secret_id}/delete''), ''secrets.write''),
    ((''POST'', ''/api/noc/secrets/{secret_id}/reveal''), ''secrets.reveal''),
    ((''POST'', ''/api/noc/secrets/{secret_id}/agents''), ''secrets.write''),
    ((''POST'', ''/api/noc/secrets/{secret_id}/check''), ''secrets.read''),
    ((''POST'', ''/api/noc/secrets/{secret_id}/models''), ''secrets.read''),
    ((''GET'', ''/api/noc/grants''), ''secrets.grants''), ((''GET'', ''/api/noc/access''), ''cases.read''),
    ((''POST'', ''/api/noc/grants''), ''secrets.grants''), ((''GET'', ''/api/noc/agent''), ''secrets.lease''),
    ((''POST'', ''/api/noc/secrets/{secret_id}/lease''), ''secrets.lease''),
    ((''POST'', ''/api/noc/leases/introspect''), ''secrets.lease''),
    ((''POST'', ''/api/noc/leases/{lease_id}/revoke''), ''secrets.lease''),
    ((''GET'', ''/api/noc/cases''), ''cases.read''), ((''GET'', ''/api/noc/cases/kpis''), ''cases.read''),
    ((''GET'', ''/api/noc/overview''), ''cases.read''), ((''GET'', ''/api/noc/cases/{sid}''), ''cases.read''),
    ((''POST'', ''/api/noc/cases/{sid}''), ''cases.work''),
    ((''POST'', ''/api/noc/cases/{sid}/take''), ''cases.work''),
    ((''POST'', ''/api/noc/cases/{sid}/release''), ''cases.work''),
    ((''POST'', ''/api/noc/cases/{sid}/status''), ''cases.work''),
    ((''POST'', ''/api/noc/cases/{sid}/resolve''), ''cases.work''),
    ((''GET'', ''/api/noc/cases/{sid}/feed''), ''cases.read''),
    ((''POST'', ''/api/noc/cases/{sid}/feed''), ''cases.post''),
    ((''POST'', ''/api/noc/cases/{sid}/customer-update''), ''cases.work''),
    ((''GET'', ''/api/noc/people''), ''cases.work''), ((''POST'', ''/api/noc/exec''), ''secrets.lease''),
    ((''POST'', ''/api/noc/secrets/{secret_id}/hostkey''), ''secrets.write''),
    ((''GET'', ''/api/noc/playbooks''), ''playbooks.read''),
    ((''POST'', ''/api/noc/playbooks''), ''playbooks.write''),
    ((''GET'', ''/api/noc/playbooks/{playbook_id}''), ''playbooks.read''),
    ((''POST'', ''/api/noc/playbooks/{playbook_id}''), ''playbooks.write''),
    ((''POST'', ''/api/noc/playbooks/{playbook_id}/enabled''), ''playbooks.write''),
    ((''GET'', ''/api/noc/agents''), ''agents.read''), ((''POST'', ''/api/noc/agents''), ''agents.manage''),
    ((''GET'', ''/api/noc/agents/me''), ''agents.read''),
    ((''GET'', ''/api/noc/agents/{agent_id}''), ''agents.read''),
    ((''POST'', ''/api/noc/agents/{agent_id}''), ''agents.manage''),
    ((''POST'', ''/api/noc/agents/{agent_id}/invoke''), ''agents.run''),
    ((''POST'', ''/api/noc/agents/{agent_id}/pause''), ''agents.run''),
    ((''POST'', ''/api/noc/agents/{agent_id}/resume''), ''agents.run''),
    ((''POST'', ''/api/noc/agents/{agent_id}/terminate''), ''agents.manage''),
    ((''POST'', ''/api/noc/agents/{agent_id}/key''), ''agents.manage''),
    ((''GET'', ''/api/noc/runs/{run_id}''), ''agents.read''),
    ((''POST'', ''/api/noc/runs/{run_id}/finish''), ''agents.run''),
    ((''POST'', ''/api/noc/cases/{sid}/assign''), ''cases.work''),
    ((''POST'', ''/api/noc/cases/{sid}/escalate''), ''cases.work''),
    ((''GET'', ''/api/noc/customers''), ''cases.read''),
    ((''GET'', ''/api/noc/customers/{customer_id}''), ''cases.read''),
    ((''POST'', ''/api/noc/customers/{customer_id}''), ''cases.work''),
    ((''POST'', ''/api/noc/customers/{customer_id}/memory''), ''cases.work''),
    ((''POST'', ''/api/noc/customers/{customer_id}/contacts''), ''cases.work''),
    ((''POST'', ''/api/noc/customers/{customer_id}/contacts/{contact_id}''), ''cases.work''),
    ((''POST'', ''/api/noc/customers/{customer_id}/contacts/{contact_id}/delete''), ''cases.work''),
    ((''POST'', ''/api/noc/customers/{customer_id}/end''), ''organizations.write''),
    ((''POST'', ''/api/noc/customers/{customer_id}/docs''), ''cases.work''),
    ((''GET'', ''/api/noc/customers/{customer_id}/docs/{doc_id}''), ''cases.read''),
    ((''GET'', ''/api/noc/customers/{customer_id}/docs/{doc_id}/file''), ''cases.read''),
    ((''POST'', ''/api/noc/customers/{customer_id}/docs/{doc_id}/delete''), ''cases.work''),
    ((''GET'', ''/api/noc/circuits''), ''cases.read''),
    ((''GET'', ''/api/noc/customers/{customer_id}/circuits''), ''cases.read''),
    ((''POST'', ''/api/noc/customers/{customer_id}/circuits/import''), ''cases.work''),
    ((''POST'', ''/api/noc/customers/{customer_id}/circuits''), ''cases.work''),
    ((''GET'', ''/api/noc/customers/{customer_id}/circuits/{circuit_id}''), ''cases.read''),
    ((''POST'', ''/api/noc/customers/{customer_id}/circuits/{circuit_id}''), ''cases.work''),
    ((''POST'', ''/api/noc/customers/{customer_id}/circuits/{circuit_id}/notes''), ''cases.work''),
    ((''POST'', ''/api/noc/customers/{customer_id}/circuits/{circuit_id}/delete''), ''cases.work''),
    ((''POST'', ''/api/mcp''), ''mcp.use'')]"

definition ROUTE_PERMISSIONS :: "(route \<times> capability) list" where
  "ROUTE_PERMISSIONS = [
    ((''POST'', ''/api/logout''), ''self.read''), ((''GET'', ''/api/me''), ''self.read''),
    ((''POST'', ''/api/password''), ''self.read''), ((''GET'', ''/api/avatars/{uid}''), ''self.read''),
    ((''POST'', ''/api/me/avatar''), ''self.read''), ((''DELETE'', ''/api/me/avatar''), ''self.read''),
    ((''POST'', ''/api/me/profile''), ''self.read''), ((''GET'', ''/api/stats''), ''stats.read''),
    ((''GET'', ''/api/graph''), ''graph.read''), ((''GET'', ''/api/classes''), ''classes.read''),
    ((''GET'', ''/api/situations''), ''situations.read''),
    ((''GET'', ''/api/situations/{sid}''), ''situations.read''),
    ((''GET'', ''/api/timeline''), ''timeline.read''), ((''GET'', ''/api/events''), ''events.stream''),
    ((''GET'', ''/api/entities''), ''entities.read''),
    ((''GET'', ''/api/entities/{ne_id}''), ''entities.read''),
    ((''GET'', ''/api/state-clears''), ''entities.read''),
    ((''POST'', ''/api/entities/{ne_id}/reset''), ''entity.reset''),
    ((''POST'', ''/api/profiles/{ne_id}/reset''), ''profile.reset''),
    ((''POST'', ''/api/situations/{sid}/feedback''), ''feedback.write''),
    ((''POST'', ''/api/labels''), ''label.write''),
    ((''DELETE'', ''/api/labels/{kind}/{target_id}''), ''label.write''),
    ((''POST'', ''/api/situations/{sid}/close''), ''situation.close''),
    ((''POST'', ''/api/situations/{sid}/move''), ''situation.move''),
    ((''POST'', ''/api/situations/{sid}/merge''), ''situation.merge''),
    ((''POST'', ''/api/situations/{sid}/proposal''), ''situation.merge''),
    ((''POST'', ''/api/situations/{sid}/split''), ''situation.split''),
    ((''POST'', ''/api/situations/{sid}/name''), ''label.write''),
    ((''POST'', ''/api/alarms/{aid}/clear''), ''alarm.clear''),
    ((''POST'', ''/api/alarms/clear''), ''alarm.clear''),
    ((''POST'', ''/api/situations/{sid}/promote''), ''situation.promote''),
    ((''GET'', ''/api/users''), ''users.manage''), ((''POST'', ''/api/users''), ''users.manage''),
    ((''DELETE'', ''/api/users/{uid}''), ''users.manage''),
    ((''POST'', ''/api/users/{uid}/role''), ''users.manage''),
    ((''POST'', ''/api/users/{uid}/profile''), ''users.manage''),
    ((''POST'', ''/api/users/{uid}/password-reset''), ''users.manage''),
    ((''POST'', ''/api/users/{uid}/avatar''), ''users.manage''),
    ((''DELETE'', ''/api/users/{uid}/avatar''), ''users.manage''),
    ((''GET'', ''/api/tokens''), ''tokens.manage''), ((''POST'', ''/api/tokens''), ''tokens.manage''),
    ((''DELETE'', ''/api/tokens/{tid}''), ''tokens.manage''), ((''GET'', ''/api/config''), ''config.read''),
    ((''POST'', ''/api/config''), ''config.write''), ((''GET'', ''/api/dataset/retention''), ''config.read''),
    ((''POST'', ''/api/dataset/retention''), ''config.write''), ((''GET'', ''/api/scorer''), ''scorer.read''),
    ((''GET'', ''/api/correlation''), ''correlation.read''), ((''GET'', ''/api/models''), ''model.read''),
    ((''POST'', ''/api/models/register''), ''model.register''),
    ((''POST'', ''/api/scorer/preview''), ''scorer.preview''), ((''POST'', ''/api/scorer''), ''scorer.write''),
    ((''POST'', ''/api/scorer/rollback''), ''scorer.write''),
    ((''GET'', ''/api/promotion''), ''promotion.read''), ((''POST'', ''/api/promotion''), ''promotion.write''),
    ((''GET'', ''/api/rbac''), ''rbac.read''), ((''POST'', ''/api/rbac''), ''rbac.write''),
    ((''POST'', ''/api/rbac/subject''), ''rbac.write''), ((''GET'', ''/api/scope''), ''scope.read''),
    ((''POST'', ''/api/scope''), ''scope.write''), ((''GET'', ''/api/quarantine''), ''quarantine.read''),
    ((''GET'', ''/api/audit''), ''audit.read''), ((''GET'', ''/api/audit/export''), ''audit.export''),
    ((''POST'', ''/api/audit/prune''), ''audit.prune''), ((''GET'', ''/api/maintenance-windows''), ''mw.read''),
    ((''POST'', ''/api/maintenance-windows/preview''), ''mw.read''),
    ((''POST'', ''/api/maintenance-windows''), ''mw.write''),
    ((''GET'', ''/api/maintenance-windows/{wid}''), ''mw.read''),
    ((''POST'', ''/api/maintenance-windows/{wid}''), ''mw.write''),
    ((''POST'', ''/api/maintenance-windows/{wid}/confirm''), ''mw.confirm''),
    ((''POST'', ''/api/maintenance-windows/{wid}/cancel''), ''mw.write''),
    ((''POST'', ''/api/maintenance-windows/{wid}/end''), ''mw.write''),
    ((''POST'', ''/api/maintenance-windows/{wid}/extend''), ''mw.write''),
    ((''GET'', ''/api/organizations''), ''organizations.read''),
    ((''POST'', ''/api/organizations''), ''organizations.write''),
    ((''POST'', ''/api/entities/{ne_id}/organization''), ''organizations.write''),
    ((''GET'', ''/api/timezones''), ''timezones.read''), ((''GET'', ''/api/resources''), ''stats.read''),
    ((''GET'', ''/api/activity/severity''), ''timeline.read''),
    ((''GET'', ''/api/activity/lanes''), ''timeline.read''),
    ((''GET'', ''/api/activity/groups''), ''timeline.read''),
    ((''GET'', ''/api/activity/active''), ''timeline.read''),
    ((''GET'', ''/api/activity/top''), ''timeline.read''), ((''GET'', ''/api/inventory''), ''entities.read''),
    ((''GET'', ''/api/elements/{ne_id}/components''), ''entities.read''),
    ((''GET'', ''/api/elements/{ne_id}''), ''entities.read''), ((''GET'', ''/api/notices''), ''stats.read''),
    ((''POST'', ''/api/notices/snooze''), ''notice.snooze''),
    ((''DELETE'', ''/api/notices/snooze/{digest}''), ''notice.snooze''),
    ((''POST'', ''/api/alarms/{aid}/outlived/ack''), ''alarm.acknowledge''),
    ((''GET'', ''/api/catalogue''), ''classes.read''), ((''GET'', ''/api/catalogue/tree''), ''classes.read''),
    ((''GET'', ''/api/catalogue/rules''), ''classes.read''),
    ((''POST'', ''/api/catalogue/rules''), ''catalogue.write''),
    ((''DELETE'', ''/api/catalogue/rules/{rule_id}''), ''catalogue.write''),
    ((''POST'', ''/api/catalogue/import''), ''catalogue.import''),
    ((''DELETE'', ''/api/catalogue/imported''), ''catalogue.import''),
    ((''GET'', ''/api/decider''), ''scorer.read''), ((''POST'', ''/api/decider''), ''decider.write''),
    ((''GET'', ''/api/autonomy''), ''scorer.read''),
    ((''GET'', ''/api/autonomy/decisions''), ''autonomy.audit''),
    ((''POST'', ''/api/autonomy''), ''autonomy.write''),
    ((''POST'', ''/api/autonomy/stop''), ''autonomy.stop''),
    ((''POST'', ''/api/situations/{sid}/severity''), ''situation.severity''),
    ((''GET'', ''/api/search''), ''model.read''), ((''POST'', ''/api/search''), ''search.write''),
    ((''POST'', ''/api/search/stop''), ''search.write''), ((''GET'', ''/api/judge''), ''model.read''),
    ((''GET'', ''/api/reference''), ''tokens.manage''), ((''GET'', ''/api/snmp''), ''config.read''),
    ((''POST'', ''/api/snmp''), ''config.write''), ((''GET'', ''/api/email''), ''config.read''),
    ((''POST'', ''/api/email''), ''config.write''), ((''POST'', ''/api/email/test''), ''config.write'')] @ NOC_ROUTE_PERMISSIONS"

definition PUBLIC_ROUTES :: "route list" where
  "PUBLIC_ROUTES = [(''POST'', ''/api/login''), (''GET'', ''/api/login/options''), (''POST'', ''/api/password-reset''), (''POST'', ''/api/password-reset/confirm'')]"


section \<open>The compiled ceiling\<close>

definition ceiling_of :: "role \<Rightarrow> capability set" where
  "ceiling_of role = (case map_of CEILINGS role of Some c \<Rightarrow> c | None \<Rightarrow> {})"

definition role_allows :: "role \<Rightarrow> capability \<Rightarrow> bool" where
  "role_allows role permission \<longleftrightarrow> permission \<in> ceiling_of role"

definition permission_for :: "string \<Rightarrow> string \<Rightarrow> capability option" where
  "permission_for meth path = map_of ROUTE_PERMISSIONS (meth, path)"

section \<open>Stored documents\<close>

text \<open>What is wrong with a document: the texts of the source, with the values they print.\<close>

datatype policy_reason = Not_Json | Not_An_Object | Unsupported_Version json | Wrong_Subjects

datatype reader_error = Recursion_Error

definition json_loads :: "(string \<Rightarrow> bool) \<Rightarrow> (string \<Rightarrow> pyfloat) \<Rightarrow> string \<Rightarrow> reader_error + json option" where
  "json_loads too_deep fread document = (if too_deep document then Inl Recursion_Error else Inr (loads fread document))"

text \<open>\<open>document.get(key)\<close>, with \<open>None\<close> for a key that is missing or null; and \<open>== 1\<close>, which
  also holds of \<open>True\<close> and of \<open>1.0\<close>.\<close>

definition json_get :: "(string \<times> json) list \<Rightarrow> string \<Rightarrow> json \<Rightarrow> json" where
  "json_get d k absent = (case map_of d k of Some v \<Rightarrow> v | None \<Rightarrow> absent)"

fun equals_one :: "json \<Rightarrow> bool" where
  "equals_one (JInt i) = (i = 1)"
| "equals_one (JBool b) = b"
| "equals_one (JFloat (Finite x)) = (x = 1)"
| "equals_one _ = False"

fun text_of :: "json \<Rightarrow> string option" where
  "text_of (JStr s) = Some s"
| "text_of _ = None"

fun texts_of :: "json list \<Rightarrow> string list option" where
  "texts_of [] = Some []"
| "texts_of (j # js) = (case (text_of j, texts_of js) of (Some s, Some ss) \<Rightarrow> Some (s # ss) | _ \<Rightarrow> None)"

fun subject_lists :: "(string \<times> json) list \<Rightarrow> (string \<times> string list) list option" where
  "subject_lists [] = Some []"
| "subject_lists ((subject, JArr xs) # kvs) =
     (case (texts_of xs, subject_lists kvs) of (Some ss, Some r) \<Rightarrow> Some ((subject, ss) # r) | _ \<Rightarrow> None)"
| "subject_lists ((subject, _) # kvs) = None"

text \<open>\<open>_subject_sets\<close> and \<open>_selector_lists\<close>: the subjects of a document with their lists of
  strings, of which one keeps the sets and the other the tuples.\<close>

definition subjects_of :: "json \<Rightarrow> (string \<times> string list) list option" where
  "subjects_of raw = (case raw of JNull \<Rightarrow> Some [] | JObj kvs \<Rightarrow> subject_lists kvs | _ \<Rightarrow> None)"

definition subject_sets :: "json \<Rightarrow> (string \<times> string set) list option" where
  "subject_sets raw = map_option (map (apsnd set)) (subjects_of raw)"

record capability_policy =
  cp_roles :: "(role \<times> capability set) list"
  cp_principals :: "(string \<times> capability set) list"
  cp_malformed :: bool
  cp_reason :: "policy_reason option"

definition malformed_capability :: "policy_reason \<Rightarrow> capability_policy" where
  "malformed_capability r = \<lparr>cp_roles = [], cp_principals = [], cp_malformed = True, cp_reason = Some r\<rparr>"

definition parse_capability_policy :: "(string \<Rightarrow> bool) \<Rightarrow> (string \<Rightarrow> pyfloat) \<Rightarrow> string \<Rightarrow> reader_error + capability_policy" where
  "parse_capability_policy too_deep fread document =
     (case json_loads too_deep fread document of
        Inl e \<Rightarrow> Inl e
      | Inr None \<Rightarrow> Inr (malformed_capability Not_Json)
      | Inr (Some (JObj d)) \<Rightarrow>
          Inr (if \<not> equals_one (json_get d ''version'' (JInt 1))
               then malformed_capability (Unsupported_Version (json_get d ''version'' (JInt 1)))
               else (case (subject_sets (json_get d ''roles'' JNull), subject_sets (json_get d ''principals'' JNull)) of
                       (Some roles, Some principals) \<Rightarrow>
                         \<lparr>cp_roles = roles, cp_principals = principals, cp_malformed = False, cp_reason = None\<rparr>
                     | _ \<Rightarrow> malformed_capability Wrong_Subjects))
      | Inr (Some _) \<Rightarrow> Inr (malformed_capability Not_An_Object))"

section \<open>The decision\<close>

definition starts_with :: "string \<Rightarrow> string \<Rightarrow> bool" where
  "starts_with p s \<longleftrightarrow> take (length p) s = p"

definition is_token :: "string option \<Rightarrow> bool" where
  "is_token principal_ref = (case principal_ref of None \<Rightarrow> False | Some r \<Rightarrow> starts_with ''token:'' r)"

definition narrowed :: "capability set \<Rightarrow> capability set option \<Rightarrow> capability set" where
  "narrowed c granted = (case granted of None \<Rightarrow> c | Some g \<Rightarrow> c \<inter> g)"

definition resolve_capabilities :: "role \<Rightarrow> string option \<Rightarrow> capability_policy option \<Rightarrow> capability set" where
  "resolve_capabilities role principal_ref policy =
     (case policy of
        None \<Rightarrow> ceiling_of role
      | Some p \<Rightarrow>
          if cp_malformed p \<or> role \<in> set FIXED_ROLES \<and> \<not> is_token principal_ref then ceiling_of role
          else
            (let capabilities = narrowed (ceiling_of role) (if role \<in> set FIXED_ROLES then None else map_of (cp_roles p) role)
             in case principal_ref of
                  None \<Rightarrow> capabilities
                | Some ref \<Rightarrow> narrowed capabilities (map_of (cp_principals p) ref)))"

text \<open>What an administrator is told of a policy: the sentences of the source, with what they name.\<close>

datatype policy_problem =
    Malformed_Policy "policy_reason option"
  | Unknown_Role role
  | Fixed_Role_Refusal
  | Unknown_Role_Capability capability role
  | Above_Ceiling capability role role
  | Bad_Principal string
  | Unknown_Principal_Capability capability string

definition role_problems :: "role \<times> capability set \<Rightarrow> policy_problem list" where
  "role_problems rc =
     (case rc of (role, capabilities) \<Rightarrow>
        if map_of ROLE_RANK role = None then [Unknown_Role role]
        else if role \<in> set FIXED_ROLES then [Fixed_Role_Refusal]
        else concat (map (\<lambda>capability.
               case map_of PERMISSIONS capability of
                 None \<Rightarrow> [Unknown_Role_Capability capability role]
               | Some minimum \<Rightarrow> if capability \<notin> ceiling_of role then [Above_Ceiling capability role minimum] else [])
             (sorted_list_of_set capabilities)))"

definition principal_problems :: "string \<times> capability set \<Rightarrow> policy_problem list" where
  "principal_problems pc =
     (case pc of (subject, capabilities) \<Rightarrow>
        (if starts_with ''user:'' subject \<or> starts_with ''token:'' subject then [] else [Bad_Principal subject]) @
        concat (map (\<lambda>capability. if map_of PERMISSIONS capability = None then [Unknown_Principal_Capability capability subject] else [])
             (sorted_list_of_set capabilities)))"

definition capability_policy_errors :: "capability_policy \<Rightarrow> policy_problem list" where
  "capability_policy_errors p =
     (if cp_malformed p then [Malformed_Policy (cp_reason p)]
      else concat (map role_problems (cp_roles p)) @ concat (map principal_problems (cp_principals p)))"

section \<open>What holds\<close>

lemma ceiling_role:
  "ceiling_of role = (if map_of ROLE_RANK role = None then {} else set (map fst (filter (\<lambda>(_, minimum). rank_at_least role minimum) PERMISSIONS)))"
proof -
  have "map_of (map (\<lambda>(role, _). (role, f role)) rs) role = map_option (\<lambda>_. f role) (map_of rs role)" for f :: "role \<Rightarrow> capability set" and rs :: "(role \<times> nat) list"
    by (induction rs) auto
  then show ?thesis
    by (simp add: ceiling_of_def CEILINGS_def split: option.split)
qed

lemma map_of_known: "(k, v) \<in> set kvs \<Longrightarrow> map_of kvs k \<noteq> None"
  by (metis map_of_eq_None_iff fst_conv image_eqI)

lemma ceiling_known: "capability \<in> ceiling_of role \<Longrightarrow> map_of PERMISSIONS capability \<noteq> None"
  by (auto simp: ceiling_role split: if_splits dest: map_of_known)

lemma narrowed_within: "narrowed c g \<subseteq> c"
  by (simp add: narrowed_def split: option.split)

lemma narrowed_mono: "c \<subseteq> d \<Longrightarrow> narrowed c g \<subseteq> d"
  using narrowed_within by blast

lemma resolve_within: "resolve_capabilities role ref policy \<subseteq> ceiling_of role"
  by (simp add: resolve_capabilities_def Let_def narrowed_within narrowed_mono split: option.split)

lemma rank_trans: "rank_at_least a b \<Longrightarrow> rank_at_least b c \<Longrightarrow> rank_at_least a c"
  by (auto simp: rank_at_least_def split: option.splits)

lemma ceiling_mono: "rank_at_least a b \<Longrightarrow> ceiling_of b \<subseteq> ceiling_of a"
  by (auto simp: ceiling_role rank_trans) (auto simp: rank_at_least_def split: option.splits)

lemma roles_ranked: "rank_at_least ''admin'' ''editor''" "rank_at_least ''editor'' ''viewer''"
  by (simp_all add: rank_at_least_def ROLE_RANK_def)

lemma in_ceiling: "(capability, minimum) \<in> set PERMISSIONS \<Longrightarrow> rank_at_least role minimum \<Longrightarrow> capability \<in> ceiling_of role"
  by (force simp: ceiling_role rank_at_least_def split: option.splits)

lemma role_known: "map_of ROLE_RANK role = None \<longleftrightarrow> role \<notin> {''viewer'', ''editor'', ''admin''}"
  by (simp add: ROLE_RANK_def)

lemma self_read_everywhere: "map_of ROLE_RANK role \<noteq> None \<Longrightarrow> ''self.read'' \<in> ceiling_of role"
proof (rule in_ceiling)
  show "(''self.read'', ''viewer'') \<in> set PERMISSIONS"
    by (simp add: PERMISSIONS_def)
  assume "map_of ROLE_RANK role \<noteq> None"
  then show "rank_at_least role ''viewer''"
    by (auto simp: rank_at_least_def ROLE_RANK_def split: if_splits)
qed

lemma ceiling_empty: "ceiling_of role = {} \<longleftrightarrow> role \<notin> {''viewer'', ''editor'', ''admin''}"
  using self_read_everywhere [of role] ceiling_role [of role] unfolding role_known by auto

text \<open>C6: Whatever policy is stored, however it came to be stored, a principal holds only capabilities of
  its role's compiled ceiling - a role that is not one of the three holds none - and the ceilings grow
  from viewer to editor to administrator.\<close>

theorem no_policy_escalates:
  "resolve_capabilities role ref policy \<subseteq> ceiling_of role \<and>
   ceiling_of ''viewer'' \<subseteq> ceiling_of ''editor'' \<and> ceiling_of ''editor'' \<subseteq> ceiling_of ''admin'' \<and>
   (ceiling_of role = {}) = (role \<notin> {''viewer'', ''editor'', ''admin''})"
  using resolve_within ceiling_mono roles_ranked ceiling_empty by blast

lemma repair_capabilities: "{''users.manage'', ''rbac.write'', ''scope.write''} \<subseteq> ceiling_of ''admin''"
proof -
  have "(''users.manage'', ''admin'') \<in> set PERMISSIONS" "(''rbac.write'', ''admin'') \<in> set PERMISSIONS"
    "(''scope.write'', ''admin'') \<in> set PERMISSIONS"
    by (simp_all add: PERMISSIONS_def)
  moreover have "rank_at_least ''admin'' ''admin''"
    by (simp add: rank_at_least_def ROLE_RANK_def)
  ultimately show ?thesis
    using in_ceiling by blast
qed

text \<open>A person with the administrator role holds the whole ceiling whatever is stored, the
  capabilities that repair a policy among them; only a service token can be narrowed.\<close>

theorem admin_person_never_narrowed:
  "(if is_token ref then {} else {''users.manage'', ''rbac.write'', ''scope.write''}) \<subseteq> resolve_capabilities ''admin'' ref policy \<and>
   (is_token ref \<or> resolve_capabilities ''admin'' ref policy = ceiling_of ''admin'')"
  using repair_capabilities by (simp add: resolve_capabilities_def FIXED_ROLES_def split: option.split)


section \<open>What an administrator is told\<close>

lemma concat_map_Nil: "concat (map f xs) = [] \<longleftrightarrow> (\<forall>x \<in> set xs. f x = [])"
  by (induction xs) auto

lemma no_role_problems:
  assumes "role_problems (role, cs) = []" and "finite cs"
  shows "role \<notin> set FIXED_ROLES \<and> cs \<subseteq> ceiling_of role"
proof -
  have "capability \<in> ceiling_of role" if "capability \<in> cs" for capability
    using assms that by (force simp: role_problems_def concat_map_Nil split: if_splits option.splits)
  with assms show ?thesis
    by (auto simp: role_problems_def split: if_splits)
qed

lemma parsed_finite:
  assumes "parse_capability_policy too_deep fread document = Inr p" and "(role, cs) \<in> set (cp_roles p)"
  shows "finite cs"
proof -
  have sets: "finite cs" if "subject_sets j = Some kvs" "(role, cs) \<in> set kvs" for j kvs
    using that by (auto simp: subject_sets_def)
  show ?thesis
    using assms by (auto simp: parse_capability_policy_def malformed_capability_def Let_def elim: sets
        split: sum.splits option.splits json.splits if_splits)
qed


text \<open>A policy that leaves editors one capability.\<close>

definition readers_document :: string where
  "readers_document = dumps (\<lambda>_. []) (JObj [(''roles'', JObj [(''editor'', JArr [JStr ''cases.read''])])])"

lemma readers_parsed:
  "parse_capability_policy (\<lambda>_. False) (\<lambda>_. Not_A_Number) readers_document =
     Inr \<lparr>cp_roles = [(''editor'', {''cases.read''})], cp_principals = [], cp_malformed = False, cp_reason = None\<rparr>"
proof -
  have "loads (\<lambda>_. Not_A_Number) readers_document = Some (JObj [(''roles'', JObj [(''editor'', JArr [JStr ''cases.read''])])])"
    unfolding readers_document_def by (rule loads_dumps) simp
  then show ?thesis
    by (simp add: parse_capability_policy_def json_loads_def json_get_def subject_sets_def subjects_of_def)
qed

end
