(* ===== verification/Visibility.thy ===== *)
theory Visibility
  imports Rbac
begin

text \<open>
  Which network elements a principal may see: \<open>crosscutting/shaping/scope.py\<close>. The standard
  library's addresses and patterns (\<open>ipaddress\<close>, \<open>fnmatch\<close>) are the fields of an
  \<open>address_lib\<close>: reading an address or a network, whether an address lies in a network, and whether
  a text matches a pattern. A network element of the inventory is its id and its address.
\<close>

record ('a, 'n) address_lib =
  ip_address :: "string \<Rightarrow> 'a option"
  ip_network :: "string \<Rightarrow> 'n option"
  in_network :: "'a \<Rightarrow> 'n \<Rightarrow> bool"
  fnmatchcase :: "string \<Rightarrow> string \<Rightarrow> bool"

record scope_policy =
  sp_roles :: "(role \<times> string list) list"
  sp_principals :: "(string \<times> string list) list"
  sp_malformed :: bool
  sp_reason :: "policy_reason option"

record scope =
  unrestricted :: bool
  ne_ids :: "int set"
  ips :: "string set"

record ne_row =
  ne_id :: int
  ne_ip :: "string option"

definition UNRESTRICTED :: scope where
  "UNRESTRICTED = \<lparr>unrestricted = True, ne_ids = {}, ips = {}\<rparr>"

definition DENY_ALL :: scope where
  "DENY_ALL = \<lparr>unrestricted = False, ne_ids = {}, ips = {}\<rparr>"

definition allows_ne :: "scope \<Rightarrow> int option \<Rightarrow> bool" where
  "allows_ne s n \<longleftrightarrow> unrestricted s \<or> (case n of None \<Rightarrow> False | Some i \<Rightarrow> i \<in> ne_ids s)"

definition allows_ip :: "scope \<Rightarrow> string option \<Rightarrow> bool" where
  "allows_ip s ip \<longleftrightarrow> unrestricted s \<or> (case ip of None \<Rightarrow> False | Some a \<Rightarrow> a \<in> ips s)"

definition is_scopable :: "role \<Rightarrow> bool" where
  "is_scopable role \<longleftrightarrow> role \<noteq> ''admin''"

definition malformed_scope :: "policy_reason \<Rightarrow> scope_policy" where
  "malformed_scope r = \<lparr>sp_roles = [], sp_principals = [], sp_malformed = True, sp_reason = Some r\<rparr>"

definition parse_scope_policy :: "(string \<Rightarrow> bool) \<Rightarrow> (string \<Rightarrow> pyfloat) \<Rightarrow> string \<Rightarrow> reader_error + scope_policy" where
  "parse_scope_policy too_deep fread document =
     (case json_loads too_deep fread document of
        Inl e \<Rightarrow> Inl e
      | Inr None \<Rightarrow> Inr (malformed_scope Not_Json)
      | Inr (Some (JObj d)) \<Rightarrow>
          Inr (if \<not> equals_one (json_get d ''version'' (JInt 1))
               then malformed_scope (Unsupported_Version (json_get d ''version'' (JInt 1)))
               else (case (subjects_of (json_get d ''roles'' JNull), subjects_of (json_get d ''principals'' JNull)) of
                       (Some roles, Some principals) \<Rightarrow>
                         \<lparr>sp_roles = roles, sp_principals = principals, sp_malformed = False, sp_reason = None\<rparr>
                     | _ \<Rightarrow> malformed_scope Wrong_Subjects))
      | Inr (Some _) \<Rightarrow> Inr (malformed_scope Not_An_Object))"

section \<open>Selectors\<close>

text \<open>\<open>str.strip\<close> for the code points of the model.\<close>

definition py_space :: "char \<Rightarrow> bool" where
  "py_space c \<longleftrightarrow> (let n = code c in n = 32 \<or> 9 \<le> n \<and> n \<le> 13 \<or> 28 \<le> n \<and> n \<le> 31 \<or> n = 133 \<or> n = 160)"

definition strip :: "string \<Rightarrow> string" where
  "strip s = rev (dropWhile py_space (rev (dropWhile py_space s)))"

definition glob_or_address :: "('a, 'n) address_lib \<Rightarrow> string \<Rightarrow> string option \<Rightarrow> bool" where
  "glob_or_address lib selector ip =
     (let text = (case ip of None \<Rightarrow> [] | Some a \<Rightarrow> a); glob = fnmatchcase lib text selector
      in if text = [] then glob
         else (case ip_address lib text of
                 None \<Rightarrow> glob
               | Some address \<Rightarrow>
                   if CHR ''/'' \<in> set selector then
                     (case ip_network lib selector of None \<Rightarrow> False | Some n \<Rightarrow> in_network lib address n)
                   else (case ip_address lib selector of None \<Rightarrow> glob | Some b \<Rightarrow> address = b)))"

definition matches :: "('a, 'n) address_lib \<Rightarrow> string \<Rightarrow> int \<Rightarrow> string option \<Rightarrow> bool" where
  "matches lib selector i ip =
     (if starts_with ''ne:'' selector then strip (drop 3 selector) = int_text i
      else glob_or_address lib selector ip)"

definition layers :: "scope_policy \<Rightarrow> role \<Rightarrow> string option \<Rightarrow> string list list" where
  "layers p role ref =
     (case map_of (sp_roles p) role of None \<Rightarrow> [] | Some l \<Rightarrow> [l]) @
     (case ref of None \<Rightarrow> [] | Some r \<Rightarrow> (case map_of (sp_principals p) r of None \<Rightarrow> [] | Some l \<Rightarrow> [l]))"

definition selected :: "('a, 'n) address_lib \<Rightarrow> string set \<Rightarrow> ne_row \<Rightarrow> bool" where
  "selected lib selectors n \<longleftrightarrow> (\<exists>s \<in> selectors. matches lib s (ne_id n) (ne_ip n))"

definition visible_nes :: "('a, 'n) address_lib \<Rightarrow> role \<Rightarrow> string option \<Rightarrow> scope_policy option \<Rightarrow> ne_row list \<Rightarrow> scope" where
  "visible_nes lib role ref policy nes =
     (if role = ''admin'' then UNRESTRICTED
      else (case policy of
        None \<Rightarrow> UNRESTRICTED
      | Some p \<Rightarrow>
          if sp_malformed p then DENY_ALL
          else if layers p role ref = [] then UNRESTRICTED
          else (let chosen = filter (selected lib (set (concat (layers p role ref)))) nes
                in \<lparr>unrestricted = False, ne_ids = set (map ne_id chosen),
                    ips = set (List.map_filter (\<lambda>n. case ne_ip n of None \<Rightarrow> None | Some a \<Rightarrow> if a = [] then None else Some a) chosen)\<rparr>)))"

section \<open>What an administrator is told\<close>

definition ADDRESS_CHARS :: string where
  "ADDRESS_CHARS = ''0123456789abcdefABCDEF.:/''"

definition GLOB_CHARS :: string where
  "GLOB_CHARS = ''*?[]!-''"

definition can_never_match :: "string \<Rightarrow> bool" where
  "can_never_match selector =
     (if starts_with ''ne:'' selector then False
      else (let literal = filter (\<lambda>c. c \<notin> set GLOB_CHARS) selector
            in literal \<noteq> [] \<and> \<not> set literal \<subseteq> set ADDRESS_CHARS))"

datatype scope_problem =
    Malformed_Scope "policy_reason option"
  | Never_Matches string string
  | Unknown_Scope_Role role
  | Admin_Scoped
  | Bad_Scope_Principal string

definition scope_policy_errors :: "scope_policy \<Rightarrow> scope_problem list" where
  "scope_policy_errors p =
     (if sp_malformed p then [Malformed_Scope (sp_reason p)]
      else concat (map (\<lambda>(subject, selectors). map (\<lambda>s. Never_Matches s subject) (filter can_never_match selectors))
               (sp_roles p @ sp_principals p)) @
           concat (map (\<lambda>(role, _). if map_of ROLE_RANK role = None then [Unknown_Scope_Role role]
               else if role = ''admin'' then [Admin_Scoped] else []) (sp_roles p)) @
           concat (map (\<lambda>(subject, _). if starts_with ''user:'' subject \<or> starts_with ''token:'' subject then []
               else [Bad_Scope_Principal subject]) (sp_principals p)))"

section \<open>What holds\<close>

lemma visible_ids:
  "allows_ne (visible_nes lib role ref policy nes) (Some i) \<longleftrightarrow>
     role = ''admin'' \<or> policy = None \<or>
     (\<exists>p. policy = Some p \<and> \<not> sp_malformed p \<and>
        (layers p role ref = [] \<or>
         (\<exists>n l s. n \<in> set nes \<and> ne_id n = i \<and> l \<in> set (layers p role ref) \<and> s \<in> set l \<and> matches lib s i (ne_ip n))))"
  by (auto simp: allows_ne_def visible_nes_def UNRESTRICTED_def DENY_ALL_def selected_def Let_def split: option.split)

lemma chosen_addresses:
  "set (List.map_filter (\<lambda>n. case ne_ip n of None \<Rightarrow> None | Some a \<Rightarrow> if a = [] then None else Some a) ns) \<subseteq>
     {a. \<exists>n. n \<in> set ns \<and> ne_ip n = Some a}"
  by (auto simp: map_filter_def split: option.splits if_splits)

lemma visible_addresses:
  "ips (visible_nes lib role ref policy nes) \<subseteq>
     {a. \<exists>n. n \<in> set nes \<and> ne_ip n = Some a \<and> allows_ne (visible_nes lib role ref policy nes) (Some (ne_id n))}"
proof (cases "role = ''admin'' \<or> policy = None \<or> sp_malformed (the policy) \<or> layers (the policy) role ref = []")
  case True
  then show ?thesis
    by (auto simp: visible_nes_def UNRESTRICTED_def DENY_ALL_def split: option.split)
next
  case False
  then obtain p where p: "policy = Some p" "\<not> sp_malformed p" "layers p role ref \<noteq> []" "role \<noteq> ''admin''"
    by auto
  show ?thesis
    using chosen_addresses [of "filter (selected lib (set (concat (layers p role ref)))) nes"] p
    by (simp add: visible_nes_def allows_ne_def Let_def del: set_concat) blast
qed

text \<open>The lists of a policy that speak of a principal: its role's and its own.\<close>

definition speaks :: "scope_policy \<Rightarrow> role \<Rightarrow> string option \<Rightarrow> string list \<Rightarrow> bool" where
  "speaks p role ref l \<longleftrightarrow>
     map_of (sp_roles p) role = Some l \<or> (\<exists>r. ref = Some r \<and> map_of (sp_principals p) r = Some l)"

definition silent :: "scope_policy \<Rightarrow> role \<Rightarrow> string option \<Rightarrow> bool" where
  "silent p role ref \<longleftrightarrow> map_of (sp_roles p) role = None \<and> Option.bind ref (map_of (sp_principals p)) = None"

lemma layers_speak: "set (layers p role ref) = Collect (speaks p role ref)"
  by (auto simp: layers_def speaks_def split: option.split)

lemma no_layers: "layers p role ref = [] \<longleftrightarrow> silent p role ref"
  by (auto simp: layers_def silent_def split: option.split)


text \<open>A class of a pattern need not match by its own characters: a selector that names every address but
  those ending in \<open>x\<close> is reported as one that can never match.\<close>

lemma class_reported_as_never_matching: "can_never_match ''10.0.0.[!x]''"
  by (simp add: can_never_match_def starts_with_def GLOB_CHARS_def ADDRESS_CHARS_def)

end
