(* ===== verification/Password.thy ===== *)
theory Password
  imports Audit_Log Known_Oids Visibility
begin

text \<open>
  Passwords: \<open>hash_password\<close>, \<open>verify_password\<close> and the policy of \<open>crosscutting/auth.py\<close>, with
  \<open>Vault.pepper\<close>. The derivation (\<open>hashlib.scrypt\<close> at a fixed memory bound, \<open>None\<close> where it
  refuses its parameters) and the keyed digest are arguments; the stored text, its base64 fields and
  Python's reading of integers are written out.
\<close>

definition SCRYPT_N :: int where "SCRYPT_N = 131072"
definition SCRYPT_R :: int where "SCRYPT_R = 8"
definition SCRYPT_P :: int where "SCRYPT_P = 1"
definition SCRYPT_DKLEN :: nat where "SCRYPT_DKLEN = 32"
definition MIN_PASSWORD :: nat where "MIN_PASSWORD = 12"
definition MAX_PASSWORD :: nat where "MAX_PASSWORD = 128"
definition SCHEME :: string where "SCHEME = ''scrypt-p1''"
definition LEGACY_SCHEME :: string where "LEGACY_SCHEME = ''scrypt''"

record crypt_lib =
  cr_hmac :: "bytes \<Rightarrow> bytes \<Rightarrow> 256 word"
  cr_scrypt :: "bytes \<Rightarrow> bytes \<Rightarrow> int \<Rightarrow> int \<Rightarrow> int \<Rightarrow> nat \<Rightarrow> bytes option"

datatype crypt_error = No_Secret_Key | Scrypt_Refused

section \<open>Texts\<close>

text \<open>\<open>base64.b64decode\<close> without validation: characters outside the alphabet are skipped, padding
  ends the text once the last group of four is complete. The first argument counts the padding, the
  second holds the values of an incomplete group.\<close>

definition group_bytes :: "nat list \<Rightarrow> bytes" where
  "group_bytes vs =
     (case vs of
        [x, y] \<Rightarrow> [byte_of (4 * x + y div 16)]
      | [x, y, z] \<Rightarrow> [byte_of (4 * x + y div 16), byte_of (y mod 16 * 16 + z div 4)]
      | [x, y, z, w] \<Rightarrow> [byte_of (4 * x + y div 16), byte_of (y mod 16 * 16 + z div 4), byte_of (z mod 4 * 64 + w)]
      | _ \<Rightarrow> [])"

fun b64decode_lax :: "nat \<Rightarrow> nat list \<Rightarrow> string \<Rightarrow> bytes option" where
  "b64decode_lax pads vs [] = (if vs = [] then Some [] else None)"
| "b64decode_lax pads vs (c # s) =
     (if c = CHR ''='' then
        (if 2 \<le> length vs \<and> 4 \<le> length vs + Suc pads then Some (group_bytes vs)
         else b64decode_lax (if 2 \<le> length vs then Suc pads else pads) vs s)
      else (case b64_value c of
        None \<Rightarrow> b64decode_lax pads vs s
      | Some v \<Rightarrow>
          if length vs = 3 then map_option ((@) (group_bytes (vs @ [v]))) (b64decode_lax 0 [] s)
          else b64decode_lax 0 (vs @ [v]) s))"

text \<open>\<open>int(text)\<close>: spaces around, a sign, digits with single underscores between them.\<close>

fun digits_of :: "string \<Rightarrow> string option" where
  "digits_of [] = None"
| "digits_of [c] = (if is_digit c then Some [c] else None)"
| "digits_of (c # d # s) =
     (if \<not> is_digit c then None
      else if d = CHR ''_'' then map_option (Cons c) (digits_of s)
      else map_option (Cons c) (digits_of (d # s)))"

definition py_int :: "string \<Rightarrow> int option" where
  "py_int s =
     (let t = strip s; sign = (if take 1 t = ''-'' then - 1 else 1 :: int);
          body = (if take 1 t = ''-'' \<or> take 1 t = ''+'' then drop 1 t else t)
      in case digits_of body of
           None \<Rightarrow> None
         | Some ds \<Rightarrow> if length ds \<le> MAX_STR_DIGITS then Some (sign * int (dec_val ds)) else None)"

definition digest_bytes :: "256 word \<Rightarrow> bytes" where
  "digest_bytes d = map (\<lambda>i. byte_of (unat d div 256 ^ (31 - i))) [0..<32]"

section \<open>Hashing\<close>

definition pepper :: "crypt_lib \<Rightarrow> vault \<Rightarrow> string \<Rightarrow> bytes" where
  "pepper lib v password = digest_bytes (cr_hmac lib (pepper_key v) (utf8_bytes password))"

definition scrypt_input :: "crypt_lib \<Rightarrow> vault option \<Rightarrow> string \<Rightarrow> string \<Rightarrow> crypt_error + bytes" where
  "scrypt_input lib cur password scheme =
     (if scheme = SCHEME then (case cur of None \<Rightarrow> Inl No_Secret_Key | Some v \<Rightarrow> Inr (pepper lib v password))
      else Inr (utf8_bytes password))"

definition hash_text :: "bytes \<Rightarrow> bytes \<Rightarrow> string" where
  "hash_text salt derived =
     SCHEME @ CHR ''$'' # int_text SCRYPT_N @ CHR ''$'' # int_text SCRYPT_R @ CHR ''$'' # int_text SCRYPT_P @
     CHR ''$'' # b64encode salt @ CHR ''$'' # b64encode derived"

text \<open>The salt, 16 random bytes, is an argument.\<close>

definition hash_password :: "crypt_lib \<Rightarrow> vault option \<Rightarrow> bytes \<Rightarrow> string \<Rightarrow> crypt_error + string" where
  "hash_password lib cur salt password =
     (case scrypt_input lib cur password SCHEME of
        Inl e \<Rightarrow> Inl e
      | Inr inp \<Rightarrow>
          (case cr_scrypt lib inp salt SCRYPT_N SCRYPT_R SCRYPT_P SCRYPT_DKLEN of
             None \<Rightarrow> Inl Scrypt_Refused
           | Some derived \<Rightarrow> Inr (hash_text salt derived)))"

text \<open>The fields of a stored hash; \<open>None\<close> is a \<open>ValueError\<close> or an unknown scheme.\<close>

definition stored_fields :: "string \<Rightarrow> (string \<times> int \<times> int \<times> int \<times> bytes \<times> bytes) option" where
  "stored_fields stored =
     (case split_on (CHR ''$'') stored of
        [scheme, n_s, r_s, p_s, salt_b64, hash_b64] \<Rightarrow>
          (if scheme \<noteq> SCHEME \<and> scheme \<noteq> LEGACY_SCHEME then None
           else (case (py_int n_s, py_int r_s, py_int p_s, b64decode_lax 0 [] salt_b64, b64decode_lax 0 [] hash_b64) of
                   (Some n, Some r, Some p, Some salt, Some expected) \<Rightarrow> Some (scheme, n, r, p, salt, expected)
                 | _ \<Rightarrow> None))
      | _ \<Rightarrow> None)"

definition verify_password :: "crypt_lib \<Rightarrow> vault option \<Rightarrow> string \<Rightarrow> string \<Rightarrow> crypt_error + bool" where
  "verify_password lib cur password stored =
     (case stored_fields stored of
        None \<Rightarrow> Inr False
      | Some (scheme, n, r, p, salt, expected) \<Rightarrow>
          (case scrypt_input lib cur password scheme of
             Inl e \<Rightarrow> Inl e
           | Inr inp \<Rightarrow>
               (case cr_scrypt lib inp salt n r p (length expected) of
                  None \<Rightarrow> Inl Scrypt_Refused
                | Some derived \<Rightarrow> Inr (derived = expected))))"

definition needs_rehash :: "string \<Rightarrow> bool" where
  "needs_rehash stored \<longleftrightarrow> \<not> starts_with (SCHEME @ ''$'') stored"

definition validate_password :: "string \<Rightarrow> string option" where
  "validate_password password =
     (if length password < MIN_PASSWORD then Some ''password must be at least 12 characters''
      else if MAX_PASSWORD < length password then Some ''password must be at most 128 characters''
      else None)"

section \<open>A stored hash is read back\<close>

lemma b64_group:
  "x < 64 \<Longrightarrow> y < 64 \<Longrightarrow> z < 64 \<Longrightarrow> w < 64 \<Longrightarrow>
   b64decode_lax 0 [] (b64_char x # b64_char y # b64_char z # b64_char w # s) =
     map_option ((@) (group_bytes [x, y, z, w])) (b64decode_lax 0 [] s)"
  "x < 64 \<Longrightarrow> y < 64 \<Longrightarrow> b64decode_lax 0 [] [b64_char x, b64_char y, CHR ''='', CHR ''=''] = Some (group_bytes [x, y])"
  "x < 64 \<Longrightarrow> y < 64 \<Longrightarrow> z < 64 \<Longrightarrow> b64decode_lax 0 [] [b64_char x, b64_char y, b64_char z, CHR ''=''] = Some (group_bytes [x, y, z])"
  by simp_all

lemma unat_mod_64 [simp]: "unat (a :: byte) mod 64 < 64" "unat (a :: byte) mod 4 * 16 < 64" "unat (a :: byte) mod 16 * 4 < 64"
  using mod_less_divisor [of 4 "unat a"] mod_less_divisor [of 16 "unat a"] mod_less_divisor [of 64 "unat a"] by linarith+

lemma b64_lax_round [simp]: "b64decode_lax 0 [] (b64encode bs) = Some bs"
proof (induction bs rule: b64encode.induct)
  case (2 a)
  then show ?case
    by (simp add: b64_group(2) group_bytes_def del: b64decode_lax.simps)
next
  case (3 a b)
  then show ?case
    by (simp add: b64_group(3) group_bytes_def six_bits del: b64decode_lax.simps)
next
  case (4 a b c r)
  have "unat b mod 16 * 4 + unat c div 64 < 64" "unat a mod 4 * 16 + unat b div 16 < 64"
    by (simp_all add: six_bits)
  moreover have "unat c div 64 mod 4 * 64 + unat c mod 64 = unat c"
    using unat_byte(2) [of c] by simp
  ultimately show ?case
    using 4 by (simp add: b64_group(1) group_bytes_def six_bits del: b64decode_lax.simps)
qed simp

lemma split_sep: "d \<notin> set s \<Longrightarrow> split_on d (s @ d # t) = s # split_on d t"
  by (induction s) auto

lemma dollar_no_value: "b64_value CHR ''$'' = None"
  by (simp add: b64_value_def code_def)

lemma b64_no_dollar: "CHR ''$'' \<notin> set (b64encode bs)"
proof -
  have "n < 64 \<Longrightarrow> CHR ''$'' \<noteq> b64_char n" for n
    using b64_value_char [of n] by (metis dollar_no_value option.distinct(1))
  then show ?thesis
    by (induction bs rule: b64encode.induct) (auto simp: six_bits)
qed

lemma int_no_dollar: "CHR ''$'' \<notin> set (int_text i)"
  using int_text_start(2) [of i] by (auto simp: list_all_iff number_char_def is_digit_def)

lemma digits_of_digits: "list_all is_digit s \<Longrightarrow> s \<noteq> [] \<Longrightarrow> digits_of s = Some s"
proof (induction s rule: digits_of.induct)
  case (3 c d s)
  then have "d \<noteq> CHR ''_''"
    by (auto simp: is_digit_def)
  with 3 show ?case
    by simp
qed simp_all

lemma digit_no_space: "is_digit c \<Longrightarrow> \<not> py_space c"
  by (auto simp: is_digit_def py_space_def code_def Let_def)

lemma strip_digits: "list_all is_digit s \<Longrightarrow> strip s = s"
proof -
  assume d: "list_all is_digit s"
  have "dropWhile py_space t = t" if "list_all is_digit t" for t
    using that by (cases t) (auto simp: digit_no_space)
  with d show ?thesis
    by (simp add: strip_def)
qed

lemma py_int_nat_text: "length (nat_text n) \<le> MAX_STR_DIGITS \<Longrightarrow> py_int (nat_text n) = Some (int n)"
proof -
  assume l: "length (nat_text n) \<le> MAX_STR_DIGITS"
  have "\<not> is_digit CHR ''-''" "\<not> is_digit CHR ''+''"
    by (simp_all add: is_digit_def)
  then have "take 1 (nat_text n) \<noteq> ''-''" "take 1 (nat_text n) \<noteq> ''+''"
    using nat_text_digits [of n] by (cases "nat_text n"; auto)+
  with l show ?thesis
    by (simp add: py_int_def strip_digits digits_of_digits)
qed

lemma py_int_params:
  "py_int (int_text SCRYPT_N) = Some SCRYPT_N" "py_int (int_text SCRYPT_R) = Some SCRYPT_R" "py_int (int_text SCRYPT_P) = Some SCRYPT_P"
proof -
  have "py_int (int_text (int n)) = Some (int n)" if "n < 10 ^ 6" for n
    using that nat_text_shortest [of n 6] by (simp add: int_text_def py_int_nat_text MAX_STR_DIGITS_def)
  from this [of 131072] this [of 8] this [of 1] show
    "py_int (int_text SCRYPT_N) = Some SCRYPT_N" "py_int (int_text SCRYPT_R) = Some SCRYPT_R" "py_int (int_text SCRYPT_P) = Some SCRYPT_P"
    by (simp_all add: SCRYPT_N_def SCRYPT_R_def SCRYPT_P_def)
qed

lemma stored_hash_fields: "stored_fields (hash_text salt derived) = Some (SCHEME, SCRYPT_N, SCRYPT_R, SCRYPT_P, salt, derived)"
proof -
  have "CHR ''$'' \<notin> set SCHEME"
    by (simp add: SCHEME_def)
  then have "split_on (CHR ''$'') (hash_text salt derived) =
      [SCHEME, int_text SCRYPT_N, int_text SCRYPT_R, int_text SCRYPT_P, b64encode salt, b64encode derived]"
    by (simp only: hash_text_def split_sep int_no_dollar b64_no_dollar split_no_sep not_False_eq_True)
  then show ?thesis
    by (simp add: stored_fields_def py_int_params)
qed

text \<open>C39: A password is accepted against the hash made of it, and another one exactly when the derivation
  takes the same value on both; the hash is in the current scheme, so it is not made again.\<close>

theorem password_roundtrip:
  assumes "hash_password lib (Some v) salt password = Inr stored"
    and "\<forall>inp. case cr_scrypt lib inp salt SCRYPT_N SCRYPT_R SCRYPT_P SCRYPT_DKLEN of None \<Rightarrow> True | Some d \<Rightarrow> length d = SCRYPT_DKLEN"
  shows "verify_password lib (Some v) password stored = Inr True \<and> \<not> needs_rehash stored \<and>
    (verify_password lib (Some v) other stored = Inr True \<longleftrightarrow>
      cr_scrypt lib (pepper lib v other) salt SCRYPT_N SCRYPT_R SCRYPT_P SCRYPT_DKLEN =
      cr_scrypt lib (pepper lib v password) salt SCRYPT_N SCRYPT_R SCRYPT_P SCRYPT_DKLEN)"
proof -
  obtain derived where d: "cr_scrypt lib (pepper lib v password) salt SCRYPT_N SCRYPT_R SCRYPT_P SCRYPT_DKLEN = Some derived"
    and s: "stored = hash_text salt derived"
    using assms(1) by (auto simp: hash_password_def scrypt_input_def split: option.splits)
  have "length derived = SCRYPT_DKLEN"
    using spec [OF assms(2), of "pepper lib v password"] by (simp add: d)
  then have v: "verify_password lib (Some v) q stored =
      (case cr_scrypt lib (pepper lib v q) salt SCRYPT_N SCRYPT_R SCRYPT_P SCRYPT_DKLEN of
         None \<Rightarrow> Inl Scrypt_Refused | Some x \<Rightarrow> Inr (x = derived))" for q
    by (simp add: verify_password_def s stored_hash_fields scrypt_input_def split: option.split)
  moreover have "\<not> needs_rehash stored"
    by (simp add: needs_rehash_def s hash_text_def starts_with_def)
  ultimately show ?thesis
    using d by (auto split: option.split)
qed

lemma password_roundtrip_witness:
  "verify_password \<lparr>cr_hmac = (\<lambda>k m. word_of_nat (length m)), cr_scrypt = (\<lambda>inp salt n r p k. Some (take k (inp @ replicate k 0)))\<rparr>
     (Some \<lparr>index_key = [], pepper_key = []\<rparr>) ''correct horse'' (hash_text [7] (digest_bytes 13)) = Inr True"
proof -
  let ?lib = "\<lparr>cr_hmac = (\<lambda>k m. word_of_nat (length m)), cr_scrypt = (\<lambda>inp salt n r p k. Some (take k (inp @ replicate k 0)))\<rparr>"
  let ?v = "\<lparr>index_key = [], pepper_key = []\<rparr>"
  have "length (utf8_bytes ''correct horse'') = 13"
    by (simp add: utf8_bytes_def utf8_char_def code_def)
  then have "hash_password ?lib (Some ?v) [7] ''correct horse'' = Inr (hash_text [7] (digest_bytes 13))"
    by (simp add: hash_password_def scrypt_input_def pepper_def digest_bytes_def SCRYPT_DKLEN_def)
  moreover have "\<forall>inp. case cr_scrypt ?lib inp [7] SCRYPT_N SCRYPT_R SCRYPT_P SCRYPT_DKLEN of None \<Rightarrow> True | Some d \<Rightarrow> length d = SCRYPT_DKLEN"
    by auto
  ultimately show ?thesis
    by (rule password_roundtrip [THEN conjunct1])
qed
end
