(* ===== verification/Login.thy ===== *)
theory Login
  imports Throttle Password
begin

text \<open>
  Signing in and staying signed in: sessions, service tokens, \<open>perform_login\<close> of
  \<open>crosscutting/auth.py\<close> and the step-up of \<open>crosscutting/stepup.py\<close>, over the rows of
  \<open>store/auth.py\<close>. Random values (salts, session tokens) are arguments of the step that draws
  them. A request that raises leaves the database as it was, its transaction being rolled back; the
  throttle is the process's memory and keeps what it had recorded.
\<close>

definition IDLE_TIMEOUT_S :: real where "IDLE_TIMEOUT_S = 1800"
definition TOUCH_EVERY_S :: real where "TOUCH_EVERY_S = 30"
definition ABSOLUTE_TIMEOUT_S :: real where "ABSOLUTE_TIMEOUT_S = 43200"

record user_row =
  us_id :: nat
  us_name :: string
  us_hash :: string
  us_role :: role
  us_must_change :: bool
  us_disabled :: bool

record session_row =
  ss_hash :: string
  ss_user :: nat
  ss_created :: real
  ss_last_seen :: real
  ss_idle :: real
  ss_absolute :: real
  ss_ip :: "string option"

record token_row =
  tk_id :: nat
  tk_hash :: string
  tk_name :: string
  tk_role :: role
  tk_revoked :: bool
  tk_last_used :: "real option"

text \<open>The tables; \<open>as_paused\<close> holds the token ids of the paused agents.\<close>

record auth_store =
  as_users :: "user_row list"
  as_sessions :: "session_row list"
  as_tokens :: "token_row list"
  as_paused :: "nat list"

datatype principal_kind = Session_Principal | Token_Principal

record principal =
  pn_actor :: string
  pn_role :: role
  pn_kind :: principal_kind
  pn_user_id :: "nat option"
  pn_must_change :: bool
  pn_token_id :: "nat option"

definition principal_ref :: "principal \<Rightarrow> string option" where
  "principal_ref p =
     (case pn_user_id p of
        Some i \<Rightarrow> Some (''user:'' @ nat_text i)
      | None \<Rightarrow> (case pn_token_id p of Some i \<Rightarrow> Some (''token:'' @ nat_text i) | None \<Rightarrow> None))"

definition principal_is_token :: "principal \<Rightarrow> bool" where
  "principal_is_token p \<longleftrightarrow> pn_kind p = Token_Principal"

definition hash_token :: "(bytes \<Rightarrow> 256 word) \<Rightarrow> string \<Rightarrow> string" where
  "hash_token sha token = hexdigest (sha (utf8_bytes token))"

section \<open>Rows\<close>

definition get_user_by_name :: "auth_store \<Rightarrow> string \<Rightarrow> user_row option" where
  "get_user_by_name st username = find (\<lambda>u. us_name u = username) (as_users st)"

definition get_user :: "auth_store \<Rightarrow> nat \<Rightarrow> user_row option" where
  "get_user st user_id = find (\<lambda>u. us_id u = user_id) (as_users st)"

definition set_hash :: "auth_store \<Rightarrow> nat \<Rightarrow> (user_row \<Rightarrow> user_row) \<Rightarrow> auth_store" where
  "set_hash st user_id f = st\<lparr>as_users := map (\<lambda>u. if us_id u = user_id then f u else u) (as_users st)\<rparr>"

definition rehash_password :: "auth_store \<Rightarrow> nat \<Rightarrow> string \<Rightarrow> auth_store" where
  "rehash_password st user_id h = set_hash st user_id (\<lambda>u. u\<lparr>us_hash := h\<rparr>)"

definition update_user_password :: "auth_store \<Rightarrow> nat \<Rightarrow> string \<Rightarrow> auth_store" where
  "update_user_password st user_id h = set_hash st user_id (\<lambda>u. u\<lparr>us_hash := h, us_must_change := False\<rparr>)"

definition create_session :: "auth_store \<Rightarrow> session_row \<Rightarrow> auth_store" where
  "create_session st s = st\<lparr>as_sessions := as_sessions st @ [s]\<rparr>"

definition get_session :: "auth_store \<Rightarrow> string \<Rightarrow> (session_row \<times> user_row) option" where
  "get_session st h =
     (case find (\<lambda>s. ss_hash s = h) (as_sessions st) of
        None \<Rightarrow> None
      | Some s \<Rightarrow> map_option (Pair s) (get_user st (ss_user s)))"

definition touch_session :: "auth_store \<Rightarrow> string \<Rightarrow> real \<Rightarrow> real \<Rightarrow> auth_store" where
  "touch_session st h last_seen idle =
     st\<lparr>as_sessions := map (\<lambda>s. if ss_hash s = h then s\<lparr>ss_last_seen := last_seen, ss_idle := idle\<rparr> else s) (as_sessions st)\<rparr>"

definition delete_session :: "auth_store \<Rightarrow> string \<Rightarrow> auth_store" where
  "delete_session st h = st\<lparr>as_sessions := filter (\<lambda>s. ss_hash s \<noteq> h) (as_sessions st)\<rparr>"

definition revoke_user_sessions :: "auth_store \<Rightarrow> nat \<Rightarrow> auth_store" where
  "revoke_user_sessions st user_id = st\<lparr>as_sessions := filter (\<lambda>s. ss_user s \<noteq> user_id) (as_sessions st)\<rparr>"

definition purge_expired_sessions :: "auth_store \<Rightarrow> real \<Rightarrow> auth_store" where
  "purge_expired_sessions st now =
     st\<lparr>as_sessions := filter (\<lambda>s. \<not> (ss_absolute s < now \<or> ss_idle s < now)) (as_sessions st)\<rparr>"

definition get_token :: "auth_store \<Rightarrow> string \<Rightarrow> token_row option" where
  "get_token st h = find (\<lambda>t. tk_hash t = h \<and> tk_id t \<notin> set (as_paused st)) (as_tokens st)"

definition touch_token_used :: "auth_store \<Rightarrow> string \<Rightarrow> real \<Rightarrow> auth_store" where
  "touch_token_used st h now =
     st\<lparr>as_tokens := map (\<lambda>t. if tk_hash t = h then t\<lparr>tk_last_used := Some now\<rparr> else t) (as_tokens st)\<rparr>"

section \<open>Identity\<close>

definition open_session :: "(bytes \<Rightarrow> 256 word) \<Rightarrow> auth_store \<Rightarrow> nat \<Rightarrow> string option \<Rightarrow> real \<Rightarrow> string \<Rightarrow> auth_store" where
  "open_session sha st user_id source_ip now token =
     create_session st \<lparr>ss_hash = hash_token sha token, ss_user = user_id, ss_created = now, ss_last_seen = now,
       ss_idle = now + IDLE_TIMEOUT_S, ss_absolute = now + ABSOLUTE_TIMEOUT_S, ss_ip = source_ip\<rparr>"

definition session_principal :: "user_row \<Rightarrow> principal" where
  "session_principal u =
     \<lparr>pn_actor = us_name u, pn_role = us_role u, pn_kind = Session_Principal, pn_user_id = Some (us_id u),
      pn_must_change = us_must_change u, pn_token_id = None\<rparr>"

definition resolve_session :: "(bytes \<Rightarrow> 256 word) \<Rightarrow> auth_store \<Rightarrow> string \<Rightarrow> real \<Rightarrow> bool \<Rightarrow> auth_store \<times> principal option" where
  "resolve_session sha st token now touch =
     (case get_session st (hash_token sha token) of
        None \<Rightarrow> (st, None)
      | Some (s, u) \<Rightarrow>
          if us_disabled u then (st, None)
          else if ss_absolute s < now \<or> ss_idle s < now then
            (if touch then delete_session st (ss_hash s) else st, None)
          else
            (if touch \<and> TOUCH_EVERY_S \<le> now - (ss_idle s - IDLE_TIMEOUT_S)
             then touch_session st (ss_hash s) now (now + IDLE_TIMEOUT_S) else st,
             Some (session_principal u)))"

definition resolve_bearer :: "(bytes \<Rightarrow> 256 word) \<Rightarrow> auth_store \<Rightarrow> string \<Rightarrow> real \<Rightarrow> bool \<Rightarrow> auth_store \<times> principal option" where
  "resolve_bearer sha st token now touch =
     (case get_token st (hash_token sha token) of
        None \<Rightarrow> (st, None)
      | Some t \<Rightarrow>
          if tk_revoked t then (st, None)
          else
            (if touch \<and> (case tk_last_used t of None \<Rightarrow> True | Some l \<Rightarrow> TOUCH_EVERY_S \<le> now - l)
             then touch_token_used st (tk_hash t) now else st,
             Some \<lparr>pn_actor = tk_name t, pn_role = tk_role t, pn_kind = Token_Principal, pn_user_id = None,
               pn_must_change = False, pn_token_id = Some (tk_id t)\<rparr>))"

section \<open>Signing in\<close>

datatype login_status = Login_Ok | Login_Fail | Login_Locked | Login_Must_Change | Login_Policy

record login_outcome =
  lo_status :: login_status
  lo_principal :: "principal option"
  lo_session_token :: "string option"
  lo_message :: "string option"

datatype login_error = Login_Overflow | Login_Crypt crypt_error

record login_request =
  lr_username :: string
  lr_password :: string
  lr_new_password :: "string option"
  lr_source_ip :: string
  lr_now :: real
  lr_salt :: bytes
  lr_new_salt :: bytes
  lr_token :: string

definition refused :: "login_status \<Rightarrow> string \<Rightarrow> login_outcome" where
  "refused status message =
     \<lparr>lo_status = status, lo_principal = None, lo_session_token = None, lo_message = Some message\<rparr>"

definition login_failed :: "auth_store \<Rightarrow> login_throttle \<Rightarrow> login_request \<Rightarrow>
    login_throttle \<times> (login_error + (auth_store \<times> login_outcome))" where
  "login_failed st th rq =
     (case record_failure th (lr_username rq) (lr_source_ip rq) (lr_now rq) of
        (th', Some _) \<Rightarrow> (th', Inl Login_Overflow)
      | (th', None) \<Rightarrow> (th', Inr (st, refused Login_Fail ''invalid username or password'')))"

text \<open>After the right password: the hash made anew in the current scheme, a password that had to be
  changed, and the session.\<close>

definition rehashed :: "crypt_lib \<Rightarrow> vault option \<Rightarrow> auth_store \<Rightarrow> user_row \<Rightarrow> login_request \<Rightarrow> login_error + auth_store" where
  "rehashed lib cur st u rq =
     (if \<not> us_must_change u \<and> needs_rehash (us_hash u) then
        (case hash_password lib cur (lr_salt rq) (lr_password rq) of
           Inl e \<Rightarrow> Inl (Login_Crypt e)
         | Inr h \<Rightarrow> Inr (rehash_password st (us_id u) h))
      else Inr st)"

definition signed_in :: "(bytes \<Rightarrow> 256 word) \<Rightarrow> auth_store \<Rightarrow> user_row \<Rightarrow> login_request \<Rightarrow> auth_store \<times> login_outcome" where
  "signed_in sha st u rq =
     (open_session sha st (us_id u) (Some (lr_source_ip rq)) (lr_now rq) (lr_token rq),
      \<lparr>lo_status = Login_Ok,
       lo_principal = Some \<lparr>pn_actor = lr_username rq, pn_role = us_role u, pn_kind = Session_Principal,
         pn_user_id = Some (us_id u), pn_must_change = False, pn_token_id = None\<rparr>,
       lo_session_token = Some (lr_token rq), lo_message = None\<rparr>)"

definition complete_login :: "(bytes \<Rightarrow> 256 word) \<Rightarrow> crypt_lib \<Rightarrow> vault option \<Rightarrow> auth_store \<Rightarrow> user_row \<Rightarrow> login_request \<Rightarrow>
    login_error + (auth_store \<times> login_outcome)" where
  "complete_login sha lib cur st u rq =
     (case rehashed lib cur st u rq of
        Inl e \<Rightarrow> Inl e
      | Inr st1 \<Rightarrow>
          if \<not> us_must_change u then Inr (signed_in sha st1 u rq)
          else (case lr_new_password rq of
             None \<Rightarrow> Inr (st1, refused Login_Must_Change ''password change required'')
           | Some new \<Rightarrow>
               if new = [] then Inr (st1, refused Login_Must_Change ''password change required'')
               else (case validate_password new of
                  Some message \<Rightarrow> Inr (st1, refused Login_Policy message)
                | None \<Rightarrow>
                    (case hash_password lib cur (lr_new_salt rq) new of
                       Inl e \<Rightarrow> Inl (Login_Crypt e)
                     | Inr h \<Rightarrow>
                         Inr (signed_in sha (revoke_user_sessions (update_user_password st1 (us_id u) h) (us_id u)) u rq)))))"

definition perform_login :: "(bytes \<Rightarrow> 256 word) \<Rightarrow> crypt_lib \<Rightarrow> vault option \<Rightarrow> auth_store \<Rightarrow> login_throttle \<Rightarrow> login_request \<Rightarrow>
    login_throttle \<times> (login_error + (auth_store \<times> login_outcome))" where
  "perform_login sha lib cur st th rq =
     (if 0 < locked_for th (lr_username rq) (lr_source_ip rq) (lr_now rq)
      then (th, Inr (st, refused Login_Locked ''too many attempts; try again later''))
      else (case get_user_by_name st (lr_username rq) of
        None \<Rightarrow> login_failed st th rq
      | Some u \<Rightarrow>
          if us_disabled u then login_failed st th rq
          else (case verify_password lib cur (lr_password rq) (us_hash u) of
             Inl e \<Rightarrow> (th, Inl (Login_Crypt e))
           | Inr False \<Rightarrow> login_failed st th rq
           | Inr True \<Rightarrow>
               (record_success th (lr_username rq) (lr_source_ip rq), complete_login sha lib cur st u rq))))"

section \<open>Step-up\<close>

datatype step_up_reason = Step_Token | Step_Locked | Step_Mismatch | Step_Password | Step_Second_Factor

datatype factor = Verified | Not_Enrolled | Failed

record step_up_outcome =
  su_ok :: bool
  su_second_factor :: factor
  su_reason :: "step_up_reason option"

definition second_factor :: "user_row \<Rightarrow> string option \<Rightarrow> factor" where
  "second_factor u given = Not_Enrolled"

definition step_refused :: "factor \<Rightarrow> step_up_reason \<Rightarrow> step_up_outcome" where
  "step_refused f r = \<lparr>su_ok = False, su_second_factor = f, su_reason = Some r\<rparr>"

definition step_failed :: "login_throttle \<Rightarrow> string \<Rightarrow> string \<Rightarrow> real \<Rightarrow> step_up_outcome \<Rightarrow>
    login_throttle \<times> (login_error + step_up_outcome)" where
  "step_failed th actor source_ip now outcome =
     (case record_failure th actor source_ip now of (th', Some _) \<Rightarrow> (th', Inl Login_Overflow) | (th', None) \<Rightarrow> (th', Inr outcome))"

definition confirm :: "crypt_lib \<Rightarrow> vault option \<Rightarrow> auth_store \<Rightarrow> login_throttle \<Rightarrow> principal \<Rightarrow> string \<Rightarrow> string \<Rightarrow> string option \<Rightarrow>
    string \<Rightarrow> real \<Rightarrow> login_throttle \<times> (login_error + step_up_outcome)" where
  "confirm lib cur st th p username password factor_code source_ip now =
     (if principal_is_token p \<or> pn_user_id p = None then (th, Inr (step_refused Not_Enrolled Step_Token))
      else if 0 < locked_for th (pn_actor p) source_ip now then (th, Inr (step_refused Not_Enrolled Step_Locked))
      else (case get_user st (the (pn_user_id p)) of
        None \<Rightarrow> step_failed th (pn_actor p) source_ip now (step_refused Not_Enrolled Step_Mismatch)
      | Some u \<Rightarrow>
          if us_disabled u \<or> us_name u \<noteq> username
          then step_failed th (pn_actor p) source_ip now (step_refused Not_Enrolled Step_Mismatch)
          else (case verify_password lib cur password (us_hash u) of
             Inl e \<Rightarrow> (th, Inl (Login_Crypt e))
           | Inr False \<Rightarrow> step_failed th (pn_actor p) source_ip now (step_refused Not_Enrolled Step_Password)
           | Inr True \<Rightarrow>
               (let f = second_factor u factor_code
                in if f = Failed then step_failed th (pn_actor p) source_ip now (step_refused f Step_Second_Factor)
                   else (record_success th (pn_actor p) source_ip, Inr \<lparr>su_ok = True, su_second_factor = f, su_reason = None\<rparr>)))))"

section \<open>Lockout\<close>

text \<open>A run of sign-ins from an empty throttle, with what each was answered.\<close>

fun login_run :: "(bytes \<Rightarrow> 256 word) \<Rightarrow> crypt_lib \<Rightarrow> vault option \<Rightarrow> auth_store \<Rightarrow> login_throttle \<Rightarrow> login_request list \<Rightarrow>
    auth_store \<times> login_throttle \<times> (login_request \<times> login_status option) list" where
  "login_run sha lib cur st th [] = (st, th, [])"
| "login_run sha lib cur st th (rq # rqs) =
     (let (th', r) = perform_login sha lib cur st th rq;
          st' = (case r of Inl _ \<Rightarrow> st | Inr (s, _) \<Rightarrow> s);
          answer = (case r of Inl _ \<Rightarrow> None | Inr (_, out) \<Rightarrow> Some (lo_status out));
          (st'', th'', trail) = login_run sha lib cur st' th' rqs
      in (st'', th'', (rq, answer) # trail))"

text \<open>The failures of a username since it last gave the right password, and when the last one was.\<close>

fun recent_failures :: "string \<Rightarrow> nat \<times> real \<Rightarrow> (login_request \<times> login_status option) list \<Rightarrow> nat \<times> real" where
  "recent_failures u kt [] = kt"
| "recent_failures u kt ((rq, answer) # trail) =
     recent_failures u
       (if lr_username rq \<noteq> u \<or> answer = Some Login_Locked \<or> answer = None then kt
        else if answer = Some Login_Fail then (Suc (fst kt), lr_now rq)
        else (0, snd kt)) trail"

definition lock_length :: "nat \<Rightarrow> real" where
  "lock_length k = min (2 ^ (k - 5)) 900"

definition lock_entry :: "nat \<times> real \<Rightarrow> attempts option" where
  "lock_entry kt =
     (if fst kt = 0 then None
      else Some \<lparr>fails = fst kt, locked_until = (if fst kt < 5 then 0 else snd kt + lock_length (fst kt))\<rparr>)"

lemma delay_small: "k < 1029 \<Longrightarrow> delay k = Inr (if k < 5 then 0 else lock_length k)"
  by (auto simp: delay_def lock_length_def LOCKOUT_THRESHOLD_def LOCKOUT_BASE_S_def LOCKOUT_MAX_S_def)

lemma lock_length_pos: "0 < lock_length k"
  by (simp add: lock_length_def)

lemma fail_entry_counts:
  assumes "map_of table u = lock_entry (k, t)" and "k < 1028"
  shows "snd (fail_entry table u now) = None \<and> map_of (fst (fail_entry table u now)) u = lock_entry (Suc k, now)"
  using assms(2) lock_length_pos [of "Suc k"]
  by (cases "k = 0") (auto simp: fail_entry_def Let_def assms(1) lock_entry_def new_attempts_def delay_small update_conv split: if_splits)

lemma fail_entry_other: "x \<noteq> u \<Longrightarrow> map_of (fst (fail_entry table x now)) u = map_of table u"
  by (simp add: fail_entry_def Let_def update_conv split: sum.split)

lemma fail_entry_fst: "fst ` set (fst (fail_entry table u now)) = insert u (fst ` set table)"
  by (simp add: fail_entry_def Let_def dom_update split: sum.split)

text \<open>What the throttle knows of a username, when no table has to forget.\<close>

definition knows :: "string set \<Rightarrow> login_throttle \<Rightarrow> string \<Rightarrow> nat \<times> real \<Rightarrow> bool" where
  "knows known th u kt \<longleftrightarrow>
     map_of (by_user th) u = lock_entry kt \<and> distinct (map fst (by_user th)) \<and> fst ` set (by_user th) \<subseteq> known"

lemma few_keys:
  assumes "distinct (map fst table)" and "fst ` set table \<subseteq> known" and "finite known" and "card known \<le> THROTTLE_KEYS"
  shows "bound_table now table = table"
proof -
  have "length table = card (fst ` set table)"
    using assms(1) by (metis distinct_card length_map list.set_map)
  also have "\<dots> \<le> THROTTLE_KEYS"
    using card_mono [OF assms(3,2)] assms(4) by simp
  finally show ?thesis
    by (simp add: bound_table_def)
qed

lemma failure_known:
  assumes k: "knows known th u kt" and known: "finite known" "card known \<le> THROTTLE_KEYS" "x \<in> known"
    and r: "record_failure th x ip now = (th', None)"
    and few: "x = u \<longrightarrow> fst kt < 1028"
  shows "knows known th' u (if x = u then (Suc (fst kt), now) else kt)"
proof -
  obtain users where users: "fail_entry (by_user th) x now = (users, None)"
    and th': "by_user th' = bound_table now users"
    using r by (auto simp: record_failure_def split: prod.splits option.splits)
  have d: "distinct (map fst users)" "fst ` set users \<subseteq> known"
    using k known(3) fail_entry_keys [of "by_user th" x now] fail_entry_fst [of "by_user th" x now]
    by (auto simp: knows_def users)
  have "map_of users u = lock_entry (if x = u then (Suc (fst kt), now) else kt)"
    using k few users fail_entry_counts [of "by_user th" u "fst kt" "snd kt" now] fail_entry_other [of x u "by_user th" now]
    by (cases "x = u") (auto simp: knows_def)
  with d show ?thesis
    by (simp add: knows_def th' few_keys [OF d known(1,2)])
qed

lemma success_known:
  assumes "knows known th u kt"
  shows "knows known (record_success th x ip) u (if x = u then (0, snd kt) else kt)"
proof -
  have "fst ` set (AList.delete x (by_user th)) \<subseteq> known"
    using dom_delete_subset [of x "by_user th"] assms unfolding knows_def by blast
  then show ?thesis
    using assms by (simp add: knows_def record_success_def lock_entry_def delete_conv' distinct_delete)
qed

lemma login_failed_known:
  assumes "knows known th u kt" and "finite known" and "card known \<le> THROTTLE_KEYS" and "lr_username rq \<in> known"
    and "login_failed st th rq = (th', Inr (st', out))" and "lr_username rq = u \<longrightarrow> fst kt < 1028"
  shows "lo_status out = Login_Fail \<and> knows known th' u (if lr_username rq = u then (Suc (fst kt), lr_now rq) else kt)"
  using assms failure_known [of known th u kt "lr_username rq" "lr_source_ip rq" "lr_now rq" th']
  by (auto simp: login_failed_def refused_def split: prod.splits option.splits)

lemma complete_status: "complete_login sha lib cur st u rq = Inr (st', out) \<Longrightarrow> lo_status out \<noteq> Login_Fail \<and> lo_status out \<noteq> Login_Locked"
  by (auto simp: complete_login_def signed_in_def refused_def split: sum.splits option.splits if_splits)

lemma perform_login_known:
  assumes "knows known th u kt" and "finite known" and "card known \<le> THROTTLE_KEYS" and "lr_username rq \<in> known"
    and p: "perform_login sha lib cur st th rq = (th', Inr (st', out))" and "lr_username rq = u \<longrightarrow> fst kt < 1028"
  shows "knows known th' u (recent_failures u kt [(rq, Some (lo_status out))])"
proof (cases "0 < locked_for th (lr_username rq) (lr_source_ip rq) (lr_now rq)")
  case True
  with p assms(1) show ?thesis
    by (auto simp: perform_login_def refused_def)
next
  case False
  show ?thesis
  proof (cases "\<exists>w. get_user_by_name st (lr_username rq) = Some w \<and> \<not> us_disabled w \<and> verify_password lib cur (lr_password rq) (us_hash w) \<noteq> Inr False")
    case True
    then obtain w where w: "get_user_by_name st (lr_username rq) = Some w" "\<not> us_disabled w"
      "verify_password lib cur (lr_password rq) (us_hash w) \<noteq> Inr False"
      by blast
    with p False have "th' = record_success th (lr_username rq) (lr_source_ip rq)" "complete_login sha lib cur st w rq = Inr (st', out)"
      by (auto simp: perform_login_def split: sum.splits bool.splits)
    then show ?thesis
      using success_known [OF assms(1), of "lr_username rq"] complete_status by auto
  next
    case no: False
    with p False have "login_failed st th rq = (th', Inr (st', out))"
      by (auto simp: perform_login_def split: option.splits if_splits sum.splits bool.splits)
    then show ?thesis
      using login_failed_known [OF assms(1-4) _ assms(6)] by auto
  qed
qed

lemma recent_failures_append: "recent_failures u kt (xs @ ys) = recent_failures u (recent_failures u kt xs) ys"
  by (induction u kt xs rule: recent_failures.induct) auto

text \<open>The number of failures only matters while it stays below the point where the delay overflows.\<close>

fun few_failures :: "string \<Rightarrow> nat \<times> real \<Rightarrow> (login_request \<times> login_status option) list \<Rightarrow> bool" where
  "few_failures u kt [] = True"
| "few_failures u kt (x # xs) = (fst kt < 1028 \<and> few_failures u (recent_failures u kt [x]) xs)"

lemma login_run_known:
  assumes "knows known th u kt" and "finite known" and "card known \<le> THROTTLE_KEYS" and "lr_username ` set rqs \<subseteq> known"
    and "login_run sha lib cur st th rqs = (st', th', trail)" and "None \<notin> snd ` set trail" and "few_failures u kt trail"
  shows "knows known th' u (recent_failures u kt trail)"
  using assms
proof (induction rqs arbitrary: st th kt st' th' trail)
  case (Cons rq rqs)
  obtain th1 r where p: "perform_login sha lib cur st th rq = (th1, r)"
    by (cases "perform_login sha lib cur st th rq") auto
  show ?case
  proof (cases r)
    case (Inl e)
    then show ?thesis
      using Cons.prems(5,6) p by (auto simp: Let_def split: prod.splits)
  next
    case (Inr so)
    then obtain st1 out where r: "r = Inr (st1, out)"
      by (cases so) auto
    obtain st2 th2 rest where run: "login_run sha lib cur st1 th1 rqs = (st2, th2, rest)"
      by (cases "login_run sha lib cur st1 th1 rqs") auto
    have eq: "th' = th2" "trail = (rq, Some (lo_status out)) # rest"
      using Cons.prems(5) by (simp_all add: p r run)
    have "knows known th1 u (recent_failures u kt [(rq, Some (lo_status out))])"
      using Cons.prems p r eq by (intro perform_login_known) auto
    then have "knows known th2 u (recent_failures u (recent_failures u kt [(rq, Some (lo_status out))]) rest)"
      using Cons.prems eq by (intro Cons.IH [OF _ _ _ _ run]) auto
    then show ?thesis
      unfolding eq by (simp only: recent_failures_append [of u kt "[(rq, Some (lo_status out))]" rest, symmetric] append.simps)
  qed
qed simp


text \<open>A username whose lock is over and whose next failure raises.\<close>

definition given_out :: "login_throttle \<Rightarrow> string \<Rightarrow> real \<Rightarrow> bool" where
  "given_out th u now \<longleftrightarrow> (case map_of (by_user th) u of None \<Rightarrow> False | Some e \<Rightarrow> 1028 \<le> fails e \<and> locked_until e \<le> now)"

text \<open>The throttle gives out: once a username has failed 1028 times and its lock has run out, the
  next wrong password raises instead of extending the lock, so the username is never locked again and
  every further guess is checked at once, while the address that guesses is not even counted.\<close>

theorem throttle_gives_out:
  assumes "given_out th (lr_username rq) (lr_now rq)" and "left_of (by_ip th) (lr_source_ip rq) (lr_now rq) 0 \<le> 0"
    and "get_user_by_name st (lr_username rq) = Some u" and "\<not> us_disabled u"
    and "verify_password lib cur (lr_password rq) (us_hash u) = Inr False"
  shows "\<exists>th'. perform_login sha lib cur st th rq = (th', Inl Login_Overflow) \<and> by_ip th' = by_ip th \<and>
    given_out th' (lr_username rq) (lr_now rq)"
proof -
  obtain e where e: "map_of (by_user th) (lr_username rq) = Some e" "1028 \<le> fails e" "locked_until e \<le> lr_now rq"
    using assms(1) by (auto simp: given_out_def split: option.splits)
  have "left_of (by_user th) (lr_username rq) (lr_now rq) 0 = 0"
    using e by (simp add: left_of_def)
  then have "locked_for th (lr_username rq) (lr_source_ip rq) (lr_now rq) = 0"
    using assms(2) by (simp add: locked_for_def max_def)
  moreover have "delay (Suc (fails e)) = Inl Power_Overflow"
    using e(2) by (simp add: delay_def LOCKOUT_THRESHOLD_def)
  ultimately show ?thesis
    using assms(3-5) e
    by (simp add: perform_login_def login_failed_def record_failure_def fail_entry_def Let_def given_out_def update_conv)
qed

section \<open>Sessions\<close>

text \<open>Uses of a session one after the other.\<close>

definition use_session :: "(bytes \<Rightarrow> 256 word) \<Rightarrow> string \<Rightarrow> auth_store \<Rightarrow> real \<Rightarrow> auth_store" where
  "use_session sha token st now = fst (resolve_session sha st token now True)"

text \<open>The session's own row: its owner an enabled user, its idle expiry half an hour after a use that is
  less than half a minute before \<open>used\<close>.\<close>

definition session_since :: "(bytes \<Rightarrow> 256 word) \<Rightarrow> string \<Rightarrow> auth_store \<Rightarrow> real \<Rightarrow> real \<Rightarrow> user_row \<Rightarrow> bool" where
  "session_since sha token st opened used u \<longleftrightarrow>
     (case get_session st (hash_token sha token) of
        None \<Rightarrow> False
      | Some (s, w) \<Rightarrow> w = u \<and> \<not> us_disabled w \<and> ss_hash s = hash_token sha token \<and> ss_absolute s = opened + ABSOLUTE_TIMEOUT_S \<and>
          ss_idle s - IDLE_TIMEOUT_S \<le> used \<and> used - (ss_idle s - IDLE_TIMEOUT_S) < TOUCH_EVERY_S)"

lemma get_after_touch:
  "get_session (touch_session st h l i) h = map_option (apfst (\<lambda>s. s\<lparr>ss_last_seen := l, ss_idle := i\<rparr>)) (get_session st h)"
proof -
  have "find (\<lambda>s. ss_hash s = h) (map (\<lambda>s. if ss_hash s = h then s\<lparr>ss_last_seen := l, ss_idle := i\<rparr> else s) xs) =
      map_option (\<lambda>s. s\<lparr>ss_last_seen := l, ss_idle := i\<rparr>) (find (\<lambda>s. ss_hash s = h) xs)" for xs :: "session_row list"
    by (induction xs) auto
  then show ?thesis
    by (simp add: get_session_def touch_session_def get_user_def option.map_comp comp_def split: option.split)
qed

lemma get_after_delete: "get_session (delete_session st h) h = None"
proof -
  have "find (\<lambda>s. ss_hash s = h) (filter (\<lambda>s. ss_hash s \<noteq> h) xs) = None" for xs :: "session_row list"
    by (induction xs) auto
  then show ?thesis
    by (simp add: get_session_def delete_session_def)
qed

lemma opened_session:
  assumes "get_session st (hash_token sha token) = None" and "find (\<lambda>s. ss_hash s = hash_token sha token) (as_sessions st) = None"
    and "get_user st uid = Some u" and "\<not> us_disabled u"
  shows "session_since sha token (open_session sha st uid ip now token) now now u"
proof -
  have "find P (xs @ [x]) = (case find P xs of None \<Rightarrow> if P x then Some x else None | Some y \<Rightarrow> Some y)" for P and xs :: "session_row list" and x
    by (induction xs) auto
  then show ?thesis
    using assms by (simp add: session_since_def get_session_def open_session_def create_session_def get_user_def TOUCH_EVERY_S_def)
qed

text \<open>One use: it answers up to the two expiries, and then the session is the same, used now.\<close>

lemma use_answers:
  assumes "session_since sha token st opened used u"
  shows "snd (resolve_session sha st token now True) =
    (if now \<le> opened + ABSOLUTE_TIMEOUT_S \<and> now \<le> ss_idle (fst (the (get_session st (hash_token sha token)))) then Some (session_principal u) else None)"
  using assms by (auto simp: session_since_def resolve_session_def split: option.splits prod.splits)

lemma use_keeps:
  assumes "session_since sha token st opened used u" and "used \<le> now" and "snd (resolve_session sha st token now True) \<noteq> None"
  shows "session_since sha token (use_session sha token st now) opened now u"
  using assms get_after_touch [of st "hash_token sha token" now "now + IDLE_TIMEOUT_S"]
  by (auto simp: session_since_def use_session_def resolve_session_def TOUCH_EVERY_S_def split: option.splits prod.splits if_splits)

lemma use_ends:
  assumes "session_since sha token st opened used u" and "snd (resolve_session sha st token now True) = None"
  shows "get_session (use_session sha token st now) (hash_token sha token) = None"
  using assms get_after_delete by (auto simp: session_since_def use_session_def resolve_session_def split: option.splits prod.splits if_splits)

lemma ended_stays:
  "get_session st (hash_token sha token) = None \<Longrightarrow>
     snd (resolve_session sha (foldl (use_session sha token) st ts) token now True) = None"
proof (induction ts arbitrary: st)
  case (Cons t ts)
  then show ?case
    by (simp add: use_session_def resolve_session_def)
qed (simp add: resolve_session_def)

lemma session_run:
  assumes "session_since sha token st opened used u" and "sorted (used # ts @ [now])"
  shows "(snd (resolve_session sha (foldl (use_session sha token) st ts) token now True) \<in>
      {None, Some (session_principal u)}) \<and>
    (snd (resolve_session sha (foldl (use_session sha token) st ts) token now True) \<noteq> None \<longrightarrow>
      now \<le> opened + ABSOLUTE_TIMEOUT_S \<and> now \<le> last (used # ts) + IDLE_TIMEOUT_S) \<and>
    (now \<le> opened + ABSOLUTE_TIMEOUT_S \<and> (\<forall>i < Suc (length ts). (ts @ [now]) ! i \<le> (used # ts) ! i + IDLE_TIMEOUT_S - TOUCH_EVERY_S) \<longrightarrow>
      snd (resolve_session sha (foldl (use_session sha token) st ts) token now True) = Some (session_principal u))"
  using assms
proof (induction ts arbitrary: st used)
  case Nil
  then show ?case
    using use_answers [OF Nil.prems(1), of now] by (auto simp: session_since_def split: option.splits prod.splits if_splits)
next
  case (Cons t ts)
  show ?case
  proof (cases "snd (resolve_session sha st token t True)")
    case None
    have "(t \<le> opened + ABSOLUTE_TIMEOUT_S \<and> t \<le> used + IDLE_TIMEOUT_S - TOUCH_EVERY_S) = False"
      using None use_answers [OF Cons.prems(1), of t] Cons.prems(1) by (auto simp: session_since_def split: option.splits prod.splits if_splits)
    moreover have "t \<le> now"
      using Cons.prems(2) by (cases ts) auto
    moreover have "snd (resolve_session sha (foldl (use_session sha token) st (t # ts)) token now True) = None"
      using ended_stays [OF use_ends [OF Cons.prems(1) None]] by simp
    ultimately show ?thesis
      by auto
  next
    case (Some p)
    then have "session_since sha token (use_session sha token st t) opened t u"
      using Cons.prems by (intro use_keeps) auto
    then show ?thesis
      using Cons.IH [of "use_session sha token st t" t] Cons.prems(2) by (auto simp: All_less_Suc2)
  qed
qed


text \<open>C38: A session answers for its person, or nobody: never later than half an hour after its last use
  nor twelve hours after it was opened, and always, inside those twelve hours, if no two uses are more
  than half an hour less half a minute apart - an expiry is written only every half minute, so it may
  come that much early and never late.\<close>

theorem session_lifetime:
  assumes "find (\<lambda>s. ss_hash s = hash_token sha token) (as_sessions st) = None"
    and "get_user st uid = Some u" and "\<not> us_disabled u" and "sorted (opened # ts @ [now])"
    and "answer = snd (resolve_session sha (foldl (use_session sha token) (open_session sha st uid ip opened token) ts) token now True)"
  shows "answer \<in> {None, Some (session_principal u)} \<and>
    (answer \<noteq> None \<longrightarrow> now \<le> opened + ABSOLUTE_TIMEOUT_S \<and> now \<le> last (opened # ts) + IDLE_TIMEOUT_S) \<and>
    (now \<le> opened + ABSOLUTE_TIMEOUT_S \<and> (\<forall>i < Suc (length ts). (ts @ [now]) ! i \<le> (opened # ts) ! i + IDLE_TIMEOUT_S - TOUCH_EVERY_S) \<longrightarrow>
      answer = Some (session_principal u))"
proof -
  have "get_session st (hash_token sha token) = None"
    using assms(1) by (simp add: get_session_def)
  from opened_session [OF this assms(1-3)] show ?thesis
    unfolding assms(5) using assms(4) by (rule session_run)
qed

section \<open>Only the person steps up\<close>

text \<open>A step-up succeeds exactly when a person's session asks it, nothing locks the account or the
  address, the account exists and is enabled, the name typed is the session's own account's and the
  password is right; and it clears the failures counted so far.\<close>

theorem step_up_needs_the_person:
  "(\<exists>th' out. confirm lib cur st th p username password factor_code source_ip now = (th', Inr out) \<and> su_ok out) \<longleftrightarrow>
     confirm lib cur st th p username password factor_code source_ip now =
       (record_success th (pn_actor p) source_ip, Inr \<lparr>su_ok = True, su_second_factor = Not_Enrolled, su_reason = None\<rparr>) \<and>
     pn_kind p = Session_Principal \<and> \<not> 0 < locked_for th (pn_actor p) source_ip now \<and>
     (\<exists>i u. pn_user_id p = Some i \<and> get_user st i = Some u \<and> \<not> us_disabled u \<and> us_name u = username \<and>
       verify_password lib cur password (us_hash u) = Inr True)"
proof -
  have "pn_kind p = Session_Principal \<or> principal_is_token p"
    by (cases "pn_kind p") (simp_all add: principal_is_token_def)
  then show ?thesis
    by (auto simp: confirm_def step_failed_def step_refused_def second_factor_def Let_def principal_is_token_def
        split: option.splits sum.splits bool.splits prod.splits if_splits)
qed

section \<open>Concrete sign-ins\<close>

definition toy_crypt :: crypt_lib where
  "toy_crypt = \<lparr>cr_hmac = (\<lambda>k m. word_of_nat (length m)), cr_scrypt = (\<lambda>inp salt n r p k. Some (replicate k 0))\<rparr>"

definition toy_store :: "user_row list \<Rightarrow> auth_store" where
  "toy_store us = \<lparr>as_users = us, as_sessions = [], as_tokens = [], as_paused = []\<rparr>"

definition toy_request :: "string \<Rightarrow> real \<Rightarrow> login_request" where
  "toy_request u now = \<lparr>lr_username = u, lr_password = [], lr_new_password = None, lr_source_ip = ''ip'', lr_now = now,
     lr_salt = [], lr_new_salt = [], lr_token = []\<rparr>"

definition root_user :: user_row where
  "root_user = \<lparr>us_id = 1, us_name = ''root'', us_hash = [], us_role = ''admin'', us_must_change = False, us_disabled = False\<rparr>"

lemma toy_fails:
  assumes "by_user th = (if n = 0 then [] else [(''eve'', \<lparr>fails = n, locked_until = 0\<rparr>)])" and "by_ip th = (if n = 0 then [] else [(''ip'', \<lparr>fails = n, locked_until = 0\<rparr>)])" and "n < 5"
  shows "perform_login sha lib cur (toy_store []) th (toy_request ''eve'' 0) =
    (let e = \<lparr>fails = Suc n, locked_until = (if n = 4 then 1 else 0)\<rparr> in \<lparr>by_user = [(''eve'', e)], by_ip = [(''ip'', e)]\<rparr>,
     Inr (toy_store [], refused Login_Fail ''invalid username or password''))"
proof (cases "n = 0")
  case True
  with assms show ?thesis
    by (cases th) (simp add: perform_login_def toy_request_def toy_store_def locked_for_def left_of_def get_user_by_name_def login_failed_def
        record_failure_def fail_entry_def new_attempts_def delay_def LOCKOUT_THRESHOLD_def bound_table_def THROTTLE_KEYS_def Let_def)
next
  case False
  have "n < 4 \<or> n = 4"
    using assms(3) by linarith
  with False assms show ?thesis
    by (cases th) (auto simp: perform_login_def toy_request_def toy_store_def locked_for_def left_of_def get_user_by_name_def login_failed_def
        record_failure_def fail_entry_def delay_def LOCKOUT_THRESHOLD_def LOCKOUT_BASE_S_def LOCKOUT_MAX_S_def bound_table_def THROTTLE_KEYS_def Let_def)
qed

lemma toy_run:
  "login_run sha lib cur (toy_store []) new_throttle (replicate 5 (toy_request ''eve'' 0)) =
     (toy_store [], \<lparr>by_user = [(''eve'', \<lparr>fails = 5, locked_until = 1\<rparr>)], by_ip = [(''ip'', \<lparr>fails = 5, locked_until = 1\<rparr>)]\<rparr>,
      replicate 5 (toy_request ''eve'' 0, Some Login_Fail))"
  by (simp add: new_throttle_def numeral_eq_Suc toy_fails [where n = 0] toy_fails [where n = "Suc 0"] toy_fails [where n = "Suc (Suc 0)"]
      toy_fails [where n = "Suc (Suc (Suc 0))"] toy_fails [where n = "Suc (Suc (Suc (Suc 0)))"] Let_def refused_def)


lemma throttle_gives_out_witness:
  "\<exists>th'. perform_login (\<lambda>_. 0) toy_crypt None (toy_store [root_user])
      \<lparr>by_user = [(''root'', \<lparr>fails = 1028, locked_until = 0\<rparr>)], by_ip = []\<rparr> (toy_request ''root'' 1) = (th', Inl Login_Overflow) \<and>
    given_out th' ''root'' 1"
proof -
  have "verify_password toy_crypt None [] [] = Inr False"
    by (simp add: verify_password_def stored_fields_def)
  with throttle_gives_out [of "\<lparr>by_user = [(''root'', \<lparr>fails = 1028, locked_until = 0\<rparr>)], by_ip = []\<rparr>" "toy_request ''root'' 1"
      "toy_store [root_user]" root_user toy_crypt None "\<lambda>_. 0"] show ?thesis
    by (simp add: given_out_def toy_request_def toy_store_def root_user_def get_user_by_name_def left_of_def) blast
qed

lemma session_lifetime_witness:
  "snd (resolve_session (\<lambda>_. 0) (foldl (use_session (\<lambda>_. 0) ''t'') (open_session (\<lambda>_. 0) (toy_store [root_user]) 1 None 0 ''t'') [1000, 2000]) ''t'' 3000 True) =
   Some (session_principal root_user)"
proof -
  have "3000 \<le> 0 + ABSOLUTE_TIMEOUT_S \<and> (\<forall>i < Suc (length [1000, 2000]). ([1000, 2000] @ [3000]) ! i \<le> (0 # [1000, 2000]) ! i + IDLE_TIMEOUT_S - TOUCH_EVERY_S)"
    by (simp add: All_less_Suc2 ABSOLUTE_TIMEOUT_S_def IDLE_TIMEOUT_S_def TOUCH_EVERY_S_def)
  with session_lifetime [of "\<lambda>_. 0" "''t''" "toy_store [root_user]" 1 root_user 0 "[1000, 2000]" 3000 _ None, OF _ _ _ _ refl] show ?thesis
    by (simp add: toy_store_def root_user_def get_user_def)
qed

end
