(* ===== verification/Governance.thy ===== *)
theory Governance
  imports Visibility
begin

text \<open>
  The stored policies and the cache the perimeter reads them through: \<open>store/governance.py\<close> and
  \<open>api/governance_cache.py\<close>. Policies are appended and never changed; a pointer per kind says which
  one is active. The cache parses a document again only when the pointer's id is another than the one
  it holds, and it takes the id before it parses: a parse that raises leaves the new id with the old
  policy.
\<close>

datatype kind = Rbac_Kind | Scope_Kind

record policy_row =
  pr_kind :: kind
  pr_document :: string

record governance_store =
  gs_policies :: "policy_row list"
  gs_active :: "kind \<Rightarrow> nat option"

text \<open>The id of a policy is its position in the history, from 1.\<close>

definition get_governance_policy :: "governance_store \<Rightarrow> nat \<Rightarrow> policy_row option" where
  "get_governance_policy st i = (if 0 < i \<and> i \<le> length (gs_policies st) then Some (gs_policies st ! (i - 1)) else None)"

definition insert_governance_policy :: "governance_store \<Rightarrow> kind \<Rightarrow> string \<Rightarrow> governance_store \<times> nat" where
  "insert_governance_policy st k document =
     (st\<lparr>gs_policies := gs_policies st @ [\<lparr>pr_kind = k, pr_document = document\<rparr>]\<rparr>, length (gs_policies st) + 1)"

definition set_active_governance_policy :: "governance_store \<Rightarrow> kind \<Rightarrow> nat \<Rightarrow> governance_store \<times> bool" where
  "set_active_governance_policy st k i =
     (case get_governance_policy st i of
        Some row \<Rightarrow> if pr_kind row = k then (st\<lparr>gs_active := (gs_active st)(k := Some i)\<rparr>, True) else (st, False)
      | None \<Rightarrow> (st, False))"

definition clear_active_governance_policy :: "governance_store \<Rightarrow> kind \<Rightarrow> governance_store \<times> bool" where
  "clear_active_governance_policy st k = (st\<lparr>gs_active := (gs_active st)(k := None)\<rparr>, gs_active st k \<noteq> None)"

section \<open>The cache\<close>

record governance =
  gv_capability_id :: "nat option"
  gv_capability :: "capability_policy option"
  gv_scope_id :: "nat option"
  gv_scope :: "scope_policy option"
  gv_pending :: "(kind \<times> policy_reason option) list"

definition no_governance :: governance where
  "no_governance = \<lparr>gv_capability_id = None, gv_capability = None, gv_scope_id = None, gv_scope = None, gv_pending = []\<rparr>"

definition document_of :: "governance_store \<Rightarrow> nat option \<Rightarrow> string" where
  "document_of st policy_id =
     (case policy_id of
        None \<Rightarrow> []
      | Some i \<Rightarrow> (case get_governance_policy st i of Some row \<Rightarrow> pr_document row | None \<Rightarrow> ''<missing>''))"

text \<open>\<open>parse(document) if policy_id else None\<close>: an id of zero reads as none.\<close>

definition parse_if :: "(string \<Rightarrow> reader_error + 'p) \<Rightarrow> nat option \<Rightarrow> string \<Rightarrow> reader_error + 'p option" where
  "parse_if reader policy_id document =
     (if policy_id = None \<or> policy_id = Some 0 then Inr None else map_sum id Some (reader document))"

definition queue_fallback :: "kind \<Rightarrow> bool \<Rightarrow> policy_reason option \<Rightarrow> governance \<Rightarrow> governance" where
  "queue_fallback k malformed reason g = (if malformed then g\<lparr>gv_pending := gv_pending g @ [(k, reason)]\<rparr> else g)"

definition load_kind :: "(string \<Rightarrow> bool) \<Rightarrow> (string \<Rightarrow> pyfloat) \<Rightarrow> governance_store \<Rightarrow> kind \<Rightarrow> nat option \<Rightarrow> governance \<Rightarrow>
    governance \<times> reader_error option" where
  "load_kind too_deep fread st k policy_id g =
     (case k of
        Rbac_Kind \<Rightarrow>
          if policy_id = gv_capability_id g then (g, None)
          else (let g1 = g\<lparr>gv_capability_id := policy_id\<rparr>
                in case parse_if (parse_capability_policy too_deep fread) policy_id (document_of st policy_id) of
                     Inl e \<Rightarrow> (g1, Some e)
                   | Inr p \<Rightarrow>
                       (queue_fallback k (case p of None \<Rightarrow> False | Some q \<Rightarrow> cp_malformed q)
                          (case p of None \<Rightarrow> None | Some q \<Rightarrow> cp_reason q) (g1\<lparr>gv_capability := p\<rparr>), None))
      | Scope_Kind \<Rightarrow>
          if policy_id = gv_scope_id g then (g, None)
          else (let g1 = g\<lparr>gv_scope_id := policy_id\<rparr>
                in case parse_if (parse_scope_policy too_deep fread) policy_id (document_of st policy_id) of
                     Inl e \<Rightarrow> (g1, Some e)
                   | Inr p \<Rightarrow>
                       (queue_fallback k (case p of None \<Rightarrow> False | Some q \<Rightarrow> sp_malformed q)
                          (case p of None \<Rightarrow> None | Some q \<Rightarrow> sp_reason q) (g1\<lparr>gv_scope := p\<rparr>), None)))"

definition load_governance :: "(string \<Rightarrow> bool) \<Rightarrow> (string \<Rightarrow> pyfloat) \<Rightarrow> governance_store \<Rightarrow> governance \<Rightarrow>
    governance \<times> reader_error option" where
  "load_governance too_deep fread st g =
     (case load_kind too_deep fread st Rbac_Kind (gs_active st Rbac_Kind) g of
        (g1, Some e) \<Rightarrow> (g1, Some e)
      | (g1, None) \<Rightarrow> load_kind too_deep fread st Scope_Kind (gs_active st Scope_Kind) g1)"

section \<open>The policy in force\<close>

text \<open>What a reader with no memory would answer: the parse of the document the pointer names.\<close>

definition capability_in_force :: "(string \<Rightarrow> bool) \<Rightarrow> (string \<Rightarrow> pyfloat) \<Rightarrow> governance_store \<Rightarrow> reader_error + capability_policy option" where
  "capability_in_force too_deep fread st =
     parse_if (parse_capability_policy too_deep fread) (gs_active st Rbac_Kind) (document_of st (gs_active st Rbac_Kind))"

definition scope_in_force :: "(string \<Rightarrow> bool) \<Rightarrow> (string \<Rightarrow> pyfloat) \<Rightarrow> governance_store \<Rightarrow> reader_error + scope_policy option" where
  "scope_in_force too_deep fread st =
     parse_if (parse_scope_policy too_deep fread) (gs_active st Scope_Kind) (document_of st (gs_active st Scope_Kind))"

text \<open>The writes of the administrator's routes and the reads of requests, in any order.\<close>

datatype governance_op = Insert kind string | Activate kind nat | Clear kind | Load

fun governance_do :: "(string \<Rightarrow> bool) \<Rightarrow> (string \<Rightarrow> pyfloat) \<Rightarrow> governance_store \<times> governance \<Rightarrow> governance_op \<Rightarrow>
    governance_store \<times> governance" where
  "governance_do too_deep fread (st, g) (Insert k document) = (fst (insert_governance_policy st k document), g)"
| "governance_do too_deep fread (st, g) (Activate k i) = (fst (set_active_governance_policy st k i), g)"
| "governance_do too_deep fread (st, g) (Clear k) = (fst (clear_active_governance_policy st k), g)"
| "governance_do too_deep fread (st, g) Load = (st, fst (load_governance too_deep fread st g))"

definition empty_store :: governance_store where
  "empty_store = \<lparr>gs_policies = [], gs_active = (\<lambda>_. None)\<rparr>"

definition governance_run :: "(string \<Rightarrow> bool) \<Rightarrow> (string \<Rightarrow> pyfloat) \<Rightarrow> governance_op list \<Rightarrow> governance_store \<times> governance" where
  "governance_run too_deep fread ops = foldl (governance_do too_deep fread) (empty_store, no_governance) ops"

text \<open>Each cached policy is the parse of a document of the history, and every pointer names one.\<close>

definition pointed :: "governance_store \<Rightarrow> nat option \<Rightarrow> bool" where
  "pointed st i = (case i of None \<Rightarrow> True | Some n \<Rightarrow> get_governance_policy st n \<noteq> None)"

definition cached :: "(string \<Rightarrow> bool) \<Rightarrow> (string \<Rightarrow> pyfloat) \<Rightarrow> governance_store \<Rightarrow> governance \<Rightarrow> bool" where
  "cached too_deep fread st g \<longleftrightarrow>
     pointed st (gs_active st Rbac_Kind) \<and> pointed st (gs_active st Scope_Kind) \<and>
     pointed st (gv_capability_id g) \<and> pointed st (gv_scope_id g) \<and>
     parse_if (parse_capability_policy too_deep fread) (gv_capability_id g) (document_of st (gv_capability_id g)) = Inr (gv_capability g) \<and>
     parse_if (parse_scope_policy too_deep fread) (gv_scope_id g) (document_of st (gv_scope_id g)) = Inr (gv_scope g)"

lemma pointed_simps [simp]: "pointed st None" "pointed st (Some n) = (get_governance_policy st n \<noteq> None)"
  by (simp_all add: pointed_def)

lemma get_after_insert:
  "get_governance_policy st i \<noteq> None \<Longrightarrow> get_governance_policy (fst (insert_governance_policy st k d)) i = get_governance_policy st i"
  by (auto simp: get_governance_policy_def insert_governance_policy_def nth_append split: if_splits)

lemma get_after_pointer [simp]: "get_governance_policy (st\<lparr>gs_active := a\<rparr>) i = get_governance_policy st i"
  by (simp add: get_governance_policy_def)

lemma insert_keeps_active [simp]: "gs_active (fst (insert_governance_policy st k d)) = gs_active st"
  by (simp add: insert_governance_policy_def)

lemma kept_by_insert:
  "pointed st i \<Longrightarrow> pointed (fst (insert_governance_policy st k d)) i \<and> document_of (fst (insert_governance_policy st k d)) i = document_of st i"
  by (cases i) (auto simp: pointed_def document_of_def get_after_insert)

lemma kept_by_pointer [simp]:
  "pointed (st\<lparr>gs_active := a\<rparr>) i = pointed st i" "document_of (st\<lparr>gs_active := a\<rparr>) i = document_of st i"
  by (simp_all add: pointed_def document_of_def split: option.split)

lemma parse_right:
  assumes "\<not> too_deep d"
  shows "\<exists>p. parse_if (parse_capability_policy too_deep fread) i d = Inr p" "\<exists>p. parse_if (parse_scope_policy too_deep fread) i d = Inr p"
  using assms by (auto simp: parse_if_def parse_capability_policy_def parse_scope_policy_def json_loads_def split: option.split json.split)

lemma load_kind_right:
  assumes "\<And>d. \<not> too_deep d" and c: "cached too_deep fread st g"
  shows "snd (load_kind too_deep fread st k (gs_active st k) g) = None \<and>
    cached too_deep fread st (fst (load_kind too_deep fread st k (gs_active st k) g)) \<and>
    (case k of
       Rbac_Kind \<Rightarrow> gv_capability_id (fst (load_kind too_deep fread st k (gs_active st k) g)) = gs_active st k
     | Scope_Kind \<Rightarrow> gv_scope_id (fst (load_kind too_deep fread st k (gs_active st k) g)) = gs_active st k \<and>
         gv_capability_id (fst (load_kind too_deep fread st k (gs_active st k) g)) = gv_capability_id g)"
proof (cases k)
  case Rbac_Kind
  obtain p where "parse_if (parse_capability_policy too_deep fread) (gs_active st k) (document_of st (gs_active st k)) = Inr p"
    using parse_right(1) assms(1) by metis
  with c show ?thesis
    by (auto simp: Rbac_Kind load_kind_def cached_def queue_fallback_def Let_def)
next
  case Scope_Kind
  obtain p where "parse_if (parse_scope_policy too_deep fread) (gs_active st k) (document_of st (gs_active st k)) = Inr p"
    using parse_right(2) assms(1) by metis
  with c show ?thesis
    by (auto simp: Scope_Kind load_kind_def cached_def queue_fallback_def Let_def)
qed

lemma load_right:
  assumes "\<And>d. \<not> too_deep d" and "cached too_deep fread st g"
  shows "snd (load_governance too_deep fread st g) = None \<and> cached too_deep fread st (fst (load_governance too_deep fread st g)) \<and>
    gv_capability_id (fst (load_governance too_deep fread st g)) = gs_active st Rbac_Kind \<and>
    gv_scope_id (fst (load_governance too_deep fread st g)) = gs_active st Scope_Kind"
proof -
  note r = load_kind_right [OF assms, of Rbac_Kind]
  obtain g1 where g1: "load_kind too_deep fread st Rbac_Kind (gs_active st Rbac_Kind) g = (g1, None)"
    using r by (metis prod.collapse)
  with r have "cached too_deep fread st g1" "gv_capability_id g1 = gs_active st Rbac_Kind"
    by simp_all
  then show ?thesis
    using load_kind_right [OF assms(1) \<open>cached too_deep fread st g1\<close>, of Scope_Kind] by (simp add: load_governance_def g1)
qed

lemma cached_step:
  assumes "\<And>d. \<not> too_deep d" and "cached too_deep fread st g"
  shows "case_prod (cached too_deep fread) (governance_do too_deep fread (st, g) x)"
proof (cases x)
  case (Insert k d)
  with assms(2) show ?thesis
    by (simp add: cached_def kept_by_insert)
next
  case (Activate k i)
  with assms(2) show ?thesis
    by (auto simp: cached_def set_active_governance_policy_def split: option.splits)
next
  case (Clear k)
  with assms(2) show ?thesis
    by (auto simp: cached_def clear_active_governance_policy_def)
next
  case Load
  then show ?thesis
    using load_right [OF assms] by simp
qed

lemma cached_run:
  assumes "\<And>d. \<not> too_deep d"
  shows "case_prod (cached too_deep fread) (governance_run too_deep fread ops)"
proof -
  have "case_prod (cached too_deep fread) s \<Longrightarrow> case_prod (cached too_deep fread) (foldl (governance_do too_deep fread) s ops)" for s
  proof (induction ops arbitrary: s)
    case (Cons x ops)
    then show ?case
      using cached_step [OF assms] by (cases s) (simp split: prod.splits)
  qed simp
  moreover have "cached too_deep fread empty_store no_governance"
    by (simp add: cached_def empty_store_def no_governance_def parse_if_def)
  ultimately show ?thesis
    by (simp add: governance_run_def)
qed



text \<open>A stored visibility policy nested too deeply to be parsed fails open: the request that meets it
  fails, and from the next one on no policy is in force and every viewer sees the whole estate, with
  no fallback recorded.\<close>

theorem deep_policy_fails_open:
  assumes "gs_active st Scope_Kind = Some (Suc i)" and "gs_active st Rbac_Kind = None"
    and "too_deep (document_of st (Some (Suc i)))"
  shows "\<exists>g. load_governance too_deep fread st no_governance = (g, Some Recursion_Error) \<and>
    load_governance too_deep fread st g = (g, None) \<and> gv_pending g = [] \<and>
    visible_nes lib ''viewer'' ref (gv_scope g) nes = UNRESTRICTED"
  using assms
  by (simp add: load_governance_def load_kind_def no_governance_def parse_if_def parse_scope_policy_def json_loads_def visible_nes_def Let_def)

lemma deep_policy_fails_open_witness:
  "\<exists>g. load_governance (\<lambda>d. d = ''deep'') (\<lambda>_. Not_A_Number) \<lparr>gs_policies = [\<lparr>pr_kind = Scope_Kind, pr_document = ''deep''\<rparr>],
        gs_active = (\<lambda>k. if k = Scope_Kind then Some 1 else None)\<rparr> no_governance = (g, Some Recursion_Error) \<and>
    visible_nes lib ''viewer'' ref (gv_scope g) nes = UNRESTRICTED"
  using deep_policy_fails_open [of "\<lparr>gs_policies = [\<lparr>pr_kind = Scope_Kind, pr_document = ''deep''\<rparr>],
        gs_active = (\<lambda>k. if k = Scope_Kind then Some 1 else None)\<rparr>" 0 "\<lambda>d. d = ''deep''" "\<lambda>_. Not_A_Number" lib ref nes]
  by (auto simp: document_of_def get_governance_policy_def)

end
