(* ===== verification/Rate_Limit.thy ===== *)
theory Rate_Limit
  imports Prelude Complex_Main "HOL-Library.AList"
begin

text \<open>
  The token bucket of \<open>api/perimeter.py\<close>: a bucket per client address, refilled with the time that
  passes; past 4096 clients the fullest buckets are forgotten first. A dictionary is an association
  list in insertion order, time the process's monotonic clock.
\<close>

record rate_limiter =
  rl_capacity :: real
  rl_refill :: real
  rl_buckets :: "(string \<times> real \<times> real) list"

definition RATE_CAPACITY :: real where "RATE_CAPACITY = 30"
definition RATE_REFILL :: real where "RATE_REFILL = 10"

definition new_limiter :: "real \<Rightarrow> real \<Rightarrow> rate_limiter" where
  "new_limiter capacity refill = \<lparr>rl_capacity = capacity, rl_refill = refill, rl_buckets = []\<rparr>"

definition refilled :: "rate_limiter \<Rightarrow> real \<times> real \<Rightarrow> real \<Rightarrow> real" where
  "refilled rl b now = (case b of (tokens, since) \<Rightarrow> min (rl_capacity rl) (tokens + (now - since) * rl_refill rl))"

definition bound_buckets :: "rate_limiter \<Rightarrow> real \<Rightarrow> rate_limiter" where
  "bound_buckets rl now =
     rl\<lparr>rl_buckets := take 2048 (sort_key (\<lambda>(k, b). refilled rl b now) (rl_buckets rl))\<rparr>"

definition allow :: "rate_limiter \<Rightarrow> string \<Rightarrow> real \<Rightarrow> rate_limiter \<times> bool" where
  "allow rl key now =
     (let tokens = refilled rl (case map_of (rl_buckets rl) key of Some b \<Rightarrow> b | None \<Rightarrow> (rl_capacity rl, now)) now;
          rl1 = (if 4096 < length (rl_buckets rl) then bound_buckets rl now else rl)
      in if tokens < 1 then (rl1\<lparr>rl_buckets := AList.update key (tokens, now) (rl_buckets rl1)\<rparr>, False)
         else (rl1\<lparr>rl_buckets := AList.update key (tokens - 1, now) (rl_buckets rl1)\<rparr>, True))"

text \<open>Requests one after the other, each a client and a time, and what each was answered.\<close>

fun allow_run :: "rate_limiter \<Rightarrow> (string \<times> real) list \<Rightarrow> rate_limiter \<times> bool list" where
  "allow_run rl [] = (rl, [])"
| "allow_run rl ((key, now) # rqs) =
     (let (rl1, ok) = allow rl key now; (rl2, oks) = allow_run rl1 rqs in (rl2, ok # oks))"

definition passed :: "string \<Rightarrow> (string \<times> real) list \<Rightarrow> bool list \<Rightarrow> nat" where
  "passed key rqs oks = length (filter (\<lambda>((k, _), ok). k = key \<and> ok) (zip rqs oks))"

section \<open>How many pass\<close>

text \<open>What a client may still spend at a time no earlier than its bucket's.\<close>

definition budget :: "rate_limiter \<Rightarrow> string \<Rightarrow> real \<Rightarrow> real" where
  "budget rl key now = (case map_of (rl_buckets rl) key of None \<Rightarrow> rl_capacity rl | Some b \<Rightarrow> refilled rl b now)"

definition sound_limiter :: "rate_limiter \<Rightarrow> real \<Rightarrow> bool" where
  "sound_limiter rl now \<longleftrightarrow>
     0 \<le> rl_refill rl \<and> 0 \<le> rl_capacity rl \<and> distinct (map fst (rl_buckets rl)) \<and>
     (\<forall>(k, tokens, since) \<in> set (rl_buckets rl). 0 \<le> tokens \<and> since \<le> now)"

lemma budget_bounds:
  assumes "sound_limiter rl t" and "t \<le> now"
  shows "0 \<le> budget rl key now \<and> budget rl key now \<le> rl_capacity rl"
proof (cases "map_of (rl_buckets rl) key")
  case None
  then show ?thesis
    using assms by (simp add: budget_def sound_limiter_def)
next
  case (Some b)
  obtain tokens since where b: "b = (tokens, since)"
    by (cases b)
  then have "0 \<le> tokens" "since \<le> now"
    using assms map_of_SomeD [OF Some] by (auto simp: sound_limiter_def)
  then show ?thesis
    using assms by (simp add: budget_def Some b refilled_def sound_limiter_def)
qed

lemma allow_sound:
  assumes s: "sound_limiter rl t" and t: "t \<le> now" and few: "length (rl_buckets rl) \<le> 4096"
    and a: "allow rl key now = (rl', ok)"
  shows "sound_limiter rl' now \<and> rl_capacity rl' = rl_capacity rl \<and> rl_refill rl' = rl_refill rl \<and>
    fst ` set (rl_buckets rl') = insert key (fst ` set (rl_buckets rl)) \<and>
    budget rl' key now = budget rl key now - (if ok then 1 else 0) \<and>
    (\<forall>k. k \<noteq> key \<longrightarrow> map_of (rl_buckets rl') k = map_of (rl_buckets rl) k)"
proof -
  have tok: "refilled rl (case map_of (rl_buckets rl) key of Some b \<Rightarrow> b | None \<Rightarrow> (rl_capacity rl, now)) now = budget rl key now"
    by (simp add: budget_def refilled_def split: option.split)
  define x where "x = budget rl key now - (if ok then 1 else 0)"
  have rl': "rl' = rl\<lparr>rl_buckets := AList.update key (x, now) (rl_buckets rl)\<rparr>" and ok: "ok = (1 \<le> budget rl key now)"
    using a few unfolding allow_def tok x_def by (auto simp: Let_def split: if_splits)
  have x: "0 \<le> x" "x \<le> rl_capacity rl"
    using budget_bounds [OF s t, of key] ok by (auto simp: x_def)
  have "set (AList.update key (x, now) bs) \<subseteq> insert (key, x, now) (set bs)" for bs :: "(string \<times> real \<times> real) list"
    by (induction bs) auto
  then have "\<forall>(k, tokens, since) \<in> set (AList.update key (x, now) (rl_buckets rl)). 0 \<le> tokens \<and> since \<le> now"
    using s t x by (fastforce simp: sound_limiter_def)
  then have "sound_limiter rl' now"
    using s by (simp add: sound_limiter_def rl' distinct_update)
  moreover have "budget rl' key now = x"
    using x by (simp add: budget_def rl' refilled_def update_conv)
  ultimately show ?thesis
    by (simp add: rl' dom_update x_def update_conv)
qed

lemma refilled_cong: "rl_capacity rl' = rl_capacity rl \<Longrightarrow> rl_refill rl' = rl_refill rl \<Longrightarrow> refilled rl' b now = refilled rl b now"
  by (cases b) (simp add: refilled_def)

lemma budget_later:
  assumes "sound_limiter rl t" and "t \<le> now" and "now \<le> later"
  shows "budget rl key later \<le> budget rl key now + (later - now) * rl_refill rl"
proof (cases "map_of (rl_buckets rl) key")
  case (Some b)
  have "0 \<le> (later - now) * rl_refill rl"
    using assms by (simp add: sound_limiter_def)
  then show ?thesis
    by (cases b) (simp add: budget_def Some refilled_def algebra_simps min_def)
qed (use assms in \<open>simp add: budget_def sound_limiter_def\<close>)

text \<open>What a client gets through, and what it has left, is paid for by what it had and by the refill.\<close>

lemma passed_bound:
  assumes "sound_limiter rl t" and "t \<le> now" and "sorted (now # map snd rqs @ [later])"
    and "card (fst ` set (rl_buckets rl) \<union> fst ` set rqs) \<le> 4096"
    and "allow_run rl rqs = (rl', oks)"
  shows "real (passed key rqs oks) + budget rl' key later \<le> budget rl key now + (later - now) * rl_refill rl \<and>
    sound_limiter rl' (last (t # map snd rqs)) \<and> rl_capacity rl' = rl_capacity rl \<and> rl_refill rl' = rl_refill rl \<and>
    fst ` set (rl_buckets rl') = fst ` set (rl_buckets rl) \<union> fst ` set rqs"
  using assms
proof (induction rqs arbitrary: rl t now oks)
  case Nil
  then show ?case
    using budget_later [OF Nil.prems(1,2)] by (simp add: passed_def)
next
  case (Cons rq rqs)
  obtain k time where rq: "rq = (k, time)"
    by (cases rq)
  obtain rl1 ok where a: "allow rl k time = (rl1, ok)"
    by (cases "allow rl k time")
  obtain oks' where run: "allow_run rl1 rqs = (rl', oks')" and oks: "oks = ok # oks'"
    using Cons.prems(5) by (auto simp: rq a Let_def split: prod.splits)
  have times: "now \<le> time" "t \<le> time" "time \<le> later" "sorted (time # map snd rqs @ [later])"
    using Cons.prems(2,3) by (auto simp: rq)
  have "length (rl_buckets rl) = card (fst ` set (rl_buckets rl))"
    using Cons.prems(1) by (metis distinct_card length_map list.set_map sound_limiter_def)
  also have "\<dots> \<le> card (fst ` set (rl_buckets rl) \<union> fst ` set (rq # rqs))"
    by (rule card_mono) auto
  finally have few: "length (rl_buckets rl) \<le> 4096"
    using Cons.prems(4) by simp
  note s = allow_sound [OF Cons.prems(1) times(2) few a]
  have same: "fst ` set (rl_buckets rl1) \<union> fst ` set rqs = fst ` set (rl_buckets rl) \<union> fst ` set (rq # rqs)"
    using s by (auto simp: rq)
  have ih: "real (passed key rqs oks') + budget rl' key later \<le> budget rl1 key time + (later - time) * rl_refill rl1 \<and>
      sound_limiter rl' (last (time # map snd rqs)) \<and> rl_capacity rl' = rl_capacity rl1 \<and> rl_refill rl' = rl_refill rl1 \<and>
      fst ` set (rl_buckets rl') = fst ` set (rl_buckets rl1) \<union> fst ` set rqs"
    using Cons.prems(4) times(4) s run unfolding same [symmetric] by (intro Cons.IH [of rl1 time time]) simp_all
  have "budget rl1 key time = budget rl key time - (if k = key \<and> ok then 1 else 0)"
  proof (cases "k = key")
    case False
    then have "map_of (rl_buckets rl1) key = map_of (rl_buckets rl) key"
      using s by simp
    with False s refilled_cong [of rl1 rl] show ?thesis
      by (simp add: budget_def split: option.split)
  qed (use s in simp)
  moreover have "real (passed key (rq # rqs) oks) = (if k = key \<and> ok then 1 else 0) + real (passed key rqs oks')"
    by (simp add: passed_def rq oks)
  moreover have "budget rl key time \<le> budget rl key now + (time - now) * rl_refill rl"
    using Cons.prems(1,2) times(1) by (rule budget_later)
  ultimately show ?case
    using ih s same by (simp add: rq algebra_simps)
qed




end
