(* ===== verification/Audit_Chain.thy ===== *)
theory Audit_Chain
  imports Audit_Log
begin

text \<open>
  What the audit chain promises: a log with a known final hash cannot be rewritten, whatever the
  program appends verifies, pruning from the oldest end keeps it verifiable, and an export read a
  page at a time is the log.
\<close>

section \<open>Tamper evidence\<close>

definition message :: "audit_env \<Rightarrow> audit_row \<Rightarrow> bytes" where
  "message env r =
     (case row_entry env r of
        Inl _ \<Rightarrow> []
      | Inr e \<Rightarrow> utf8_bytes (rw_prev_hash r @ canonical (float_repr env) e))"

text \<open>What a row says: its fields, the details as the value their text denotes, keys sorted.\<close>

definition says :: "audit_env \<Rightarrow> audit_row \<Rightarrow> audit_entry option" where
  "says env r = (case row_entry env r of Inl _ \<Rightarrow> None | Inr e \<Rightarrow> Some (sorted_entry e))"

text \<open>The values PostgreSQL's columns hold: a 64-bit id and a float whose text reads back.\<close>

definition stored_right :: "audit_env \<Rightarrow> audit_row \<Rightarrow> bool" where
  "stored_right env r \<longleftrightarrow>
     \<bar>rw_id r\<bar> \<le> 2 ^ 63 \<and> readable (float_repr env) (float_read env) (JFloat (rw_ts r))"

lemma id_readable:
  assumes "\<bar>i\<bar> \<le> 2 ^ 63"
  shows "length (nat_text (nat \<bar>i\<bar>)) \<le> MAX_STR_DIGITS"
proof -
  have "nat \<bar>i\<bar> < 10 ^ 20"
    using assms by simp
  then show ?thesis
    using nat_text_shortest [of "nat \<bar>i\<bar>" 20] by (simp add: MAX_STR_DIGITS_def)
qed

lemma row_entry_writable:
  assumes "exact_floats (float_repr env) (float_read env)" and "stored_right env r" and "row_entry env r = Inr e"
  shows "writable env e"
  using assms id_readable [of "rw_id r"] loads_readable [OF assms(1), of "rw_details r"]
  by (auto simp: row_entry_def stored_right_def writable_def split: option.splits)

lemma hash_rightD:
  assumes "hash_right env r"
  obtains e where "row_entry env r = Inr e" and "message env r = utf8_bytes (rw_prev_hash r @ canonical (float_repr env) e)"
    and "rw_entry_hash r = hexdigest (sha256 env (message env r))"
  using assms by (auto simp: hash_right_def message_def compute_hash_def split: sum.splits)

lemma sorted_entry_id: "en_id (sorted_entry e) = en_id e"
  by (simp add: sorted_entry_def)

lemma same_hash_same_row:
  assumes exact: "exact_floats (float_repr env) (float_read env)"
    and stored: "stored_right env r" "stored_right env r'"
    and right: "hash_right env r" "hash_right env r'"
    and len: "length (rw_prev_hash r) = length (rw_prev_hash r')"
    and inj: "inj_on (sha256 env) {message env r, message env r'}"
    and same: "rw_entry_hash r = rw_entry_hash r'"
  shows "rw_prev_hash r = rw_prev_hash r' \<and> says env r = says env r' \<and> rw_id r = rw_id r'"
proof -
  obtain e where e: "row_entry env r = Inr e" "message env r = utf8_bytes (rw_prev_hash r @ canonical (float_repr env) e)"
    "rw_entry_hash r = hexdigest (sha256 env (message env r))"
    using right(1) by (rule hash_rightD)
  obtain e' where e': "row_entry env r' = Inr e'" "message env r' = utf8_bytes (rw_prev_hash r' @ canonical (float_repr env) e')"
    "rw_entry_hash r' = hexdigest (sha256 env (message env r'))"
    using right(2) by (rule hash_rightD)
  have "hexdigest (sha256 env (message env r)) = hexdigest (sha256 env (message env r'))"
    using same [unfolded e(3) e'(3)] .
  then have "sha256 env (message env r) = sha256 env (message env r')"
    by (rule hexdigest_inject)
  then have "message env r = message env r'"
    by (rule inj_onD [OF inj]) simp_all
  then have "rw_prev_hash r @ canonical (float_repr env) e = rw_prev_hash r' @ canonical (float_repr env) e'"
    unfolding e(2) e'(2) by (rule utf8_inject)
  with len have prev: "rw_prev_hash r = rw_prev_hash r'" and canon: "canonical (float_repr env) e = canonical (float_repr env) e'"
    by simp_all
  have "sorted_entry e = sorted_entry e'"
    using row_entry_writable [OF exact stored(1) e(1)] row_entry_writable [OF exact stored(2) e'(1)] canon
    by (rule canonical_inject)
  moreover from arg_cong [OF this, of en_id] have "en_id e = en_id e'"
    unfolding sorted_entry_id .
  then have "rw_id r = rw_id r'"
    using e(1) e'(1) by (auto simp: row_entry_def split: option.splits)
  ultimately show ?thesis
    using prev e(1) e'(1) by (simp add: says_def)
qed

text \<open>Rows from the first of the log on: ids from 1 upwards, the first chained to the genesis hash.\<close>

definition from_genesis :: "audit_env \<Rightarrow> audit_row list \<Rightarrow> bool" where
  "from_genesis env rows \<longleftrightarrow>
     rows_linked env GENESIS_HASH rows \<and> sorted_wrt (<) (map rw_id rows) \<and> (rows \<noteq> [] \<longrightarrow> rw_id (hd rows) = 1) \<and>
     (\<forall>r \<in> set rows. stored_right env r)"

lemma from_genesis_snoc:
  "from_genesis env (rows @ [r]) \<longleftrightarrow>
     from_genesis env rows \<and> hash_right env r \<and> stored_right env r \<and> rw_prev_hash r = final_hash GENESIS_HASH rows \<and>
     (if rows = [] then rw_id r = 1 else \<forall>q \<in> set rows. rw_id q < rw_id r)"
  by (cases rows) (auto simp: from_genesis_def linked_append sorted_wrt_append)

lemma from_genesis_ids: "from_genesis env rows \<Longrightarrow> r \<in> set rows \<Longrightarrow> 1 \<le> rw_id r"
  by (cases rows) (auto simp: from_genesis_def)

lemma length_final_hash: "rows_linked env GENESIS_HASH rows \<Longrightarrow> length (final_hash GENESIS_HASH rows) = 64"
proof (cases rows rule: rev_cases)
  case (snoc ys r)
  assume "rows_linked env GENESIS_HASH rows"
  with snoc show ?thesis
    by (auto simp: linked_append elim!: hash_rightD)
qed (simp add: GENESIS_HASH_def)

lemma same_end_same_rows:
  assumes exact: "exact_floats (float_repr env) (float_read env)"
    and "from_genesis env rows" and "from_genesis env rows'"
    and "inj_on (sha256 env) (message env ` (set rows \<union> set rows'))"
    and "rows \<noteq> []" and "rows' \<noteq> []"
    and "final_hash GENESIS_HASH rows = final_hash GENESIS_HASH rows'"
  shows "map (says env) rows = map (says env) rows'"
  using assms(2-)
proof (induction rows arbitrary: rows' rule: rev_induct)
  case (snoc r rows)
  obtain qs q where rows': "rows' = qs @ [q]"
    using snoc.prems(5) by (cases rows' rule: rev_cases) auto
  note g = snoc.prems(1) [unfolded from_genesis_snoc] snoc.prems(2) [unfolded rows' from_genesis_snoc]
  have same: "rw_prev_hash r = rw_prev_hash q \<and> says env r = says env q \<and> rw_id r = rw_id q"
  proof (rule same_hash_same_row [OF exact])
    show "length (rw_prev_hash r) = length (rw_prev_hash q)"
      using g length_final_hash [of env rows] length_final_hash [of env qs] by (simp add: from_genesis_def)
    show "inj_on (sha256 env) {message env r, message env q}"
      by (rule inj_on_subset [OF snoc.prems(3)]) (simp add: rows')
    show "rw_entry_hash r = rw_entry_hash q"
      using snoc.prems(6) by (simp add: rows')
  qed (use g in auto)
  have one: "rows = [] \<longleftrightarrow> qs = []"
    using g same from_genesis_ids [of env rows "hd rows"] from_genesis_ids [of env qs "hd qs"]
    by (auto simp: split: if_splits) (metis hd_in_set not_less)+
  have "map (says env) rows = map (says env) qs"
  proof (cases "rows = []")
    case True
    with one show ?thesis
      by simp
  next
    case False
    show ?thesis
    proof (rule snoc.IH)
      show "inj_on (sha256 env) (message env ` (set rows \<union> set qs))"
        by (rule inj_on_subset [OF snoc.prems(3)]) (auto simp: rows')
      show "final_hash GENESIS_HASH rows = final_hash GENESIS_HASH qs"
        using g same by simp
    qed (use g False one in auto)
  qed
  with same show ?case
    by (simp add: rows')
qed simp

section \<open>Runs of writes and prunes\<close>

text \<open>An operation whose write raises leaves the table as it was: its transaction is rolled back. So
  does a prune the database refuses.\<close>

datatype audit_op = Write audit_event | Prune real real

fun audit_do :: "audit_env \<Rightarrow> vault option \<Rightarrow> audit_log \<Rightarrow> audit_op \<Rightarrow> audit_log" where
  "audit_do env cur t (Write ev) = (case write_event env cur t ev of Inl _ \<Rightarrow> t | Inr (t', _) \<Rightarrow> t')"
| "audit_do env cur t (Prune now cutoff) = (case prune_audit t now cutoff of Inl _ \<Rightarrow> t | Inr (t', _) \<Rightarrow> t')"

definition audit_run :: "audit_env \<Rightarrow> vault option \<Rightarrow> audit_op list \<Rightarrow> audit_log" where
  "audit_run env cur ops = foldl (audit_do env cur) [] ops"

fun not_later :: "pyfloat \<Rightarrow> pyfloat \<Rightarrow> bool" where
  "not_later (Finite x) (Finite y) = (x \<le> y)"
| "not_later _ _ = False"

fun events_written :: "audit_op list \<Rightarrow> audit_event list" where
  "events_written [] = []"
| "events_written (Write ev # ops) = ev # events_written ops"
| "events_written (Prune _ _ # ops) = events_written ops"

definition plain_details :: "audit_env \<Rightarrow> audit_event \<Rightarrow> bool" where
  "plain_details env ev =
     (case ae_details ev of None \<Rightarrow> True | Some kvs \<Rightarrow> readable (float_repr env) (float_read env) (JObj kvs))"

text \<open>A table of rows in the order of their ids, linked and sealed; and one whose times are in the order
  of the ids too.\<close>

definition chained_log :: "audit_env \<Rightarrow> vault \<Rightarrow> audit_log \<Rightarrow> bool" where
  "chained_log env v t \<longleftrightarrow>
     sorted_wrt (<) (map rw_id t) \<and> (\<forall>r \<in> set t. 1 \<le> rw_id r) \<and> rows_linked env (first_prev t) t \<and> genesis_right t \<and>
     (\<forall>r \<in> set t. seal_right env (Some v) r = Inr True)"

definition good_log :: "audit_env \<Rightarrow> vault \<Rightarrow> audit_log \<Rightarrow> bool" where
  "good_log env v t \<longleftrightarrow> chained_log env v t \<and> sorted_wrt not_later (map rw_ts t)"

lemma audit_all_sorted: "sorted_wrt (<) (map rw_id t) \<Longrightarrow> audit_all t = t"
  by (induction t) (auto simp: audit_all_def intro!: insort_is_Cons)

lemma final_hash_last: "audit_all t = t \<Longrightarrow> audit_last_hash t = final_hash GENESIS_HASH t"
  by (cases t rule: rev_cases) (auto simp: audit_last_hash_def)

lemma next_id_positive:
  assumes "\<forall>r \<in> set t. 1 \<le> rw_id r"
  shows "1 \<le> audit_next_id t"
proof (cases t)
  case (Cons r rs)
  then have "1 \<le> rw_id r" "rw_id r < audit_next_id t"
    using assms next_id_above [of r t] by simp_all
  then show ?thesis
    by simp
qed (simp add: audit_next_id_def)

lemma first_prev_Cons [simp]: "first_prev (r # rs) = rw_prev_hash r"
  by (simp add: first_prev_def)

lemma first_prev_append: "first_prev (xs @ ys) = (if xs = [] then first_prev ys else first_prev xs)"
  by (cases xs) (auto simp: first_prev_def)

lemma redacted_readable:
  "plain_details env ev \<Longrightarrow> readable (float_repr env) (float_read env) (JObj (redact_details (ae_details ev)))"
  by (cases "ae_details ev") (auto simp: plain_details_def redact_details_def list_all_iff intro: distinct_map_filter)

lemma write_event_row:
  assumes "write_event env (Some v) t ev = Inr (t', h)"
  obtains r where "t' = t @ [r]" and "rw_id r = audit_next_id t" and "rw_ts r = ae_ts ev" and "rw_prev_hash r = audit_last_hash t"
    and "rw_entry_hash r = h" and "h = compute_hash (sha256 env) (audit_last_hash t) (canonical (float_repr env) (event_entry ev (audit_next_id t)))"
    and "rw_mac r = Some (vault_index (hmac_sha256 env) v MAC_PLACE h)"
    and "rw_details r = dumps (float_repr env) (sort_keys (JObj (redact_details (ae_details ev))))"
    and "row_entry env r = map_sum id (\<lambda>d. (event_entry ev (audit_next_id t))\<lparr>en_details := d\<rparr>)
           (case loads (float_read env) (rw_details r) of None \<Rightarrow> Inl Json_Error | Some d \<Rightarrow> Inr d)"
proof -
  let ?e = "event_entry ev (audit_next_id t)"
  let ?h = "compute_hash (sha256 env) (audit_last_hash t) (canonical (float_repr env) ?e)"
  let ?r = "\<lparr>rw_id = en_id ?e, rw_ts = en_ts ?e, rw_actor = en_actor ?e, rw_role = en_role ?e,
      rw_source_ip = en_source_ip ?e, rw_action = en_action ?e, rw_object_type = en_object_type ?e,
      rw_object_id = en_object_id ?e, rw_outcome = en_outcome ?e,
      rw_details = dumps (float_repr env) (sort_keys (en_details ?e)), rw_prev_hash = audit_last_hash t,
      rw_entry_hash = ?h, rw_mac = Some (vault_index (hmac_sha256 env) v MAC_PLACE ?h)\<rparr>"
  have w: "t' = t @ [?r]" "h = ?h"
    using assms unfolding write_event_def audit_insert_def entry_mac_def current_def Let_def
    by (auto split: if_splits)
  show thesis
    by (rule that [of ?r]) (simp_all only: w, simp_all add: event_entry_def row_entry_def split: option.split)
qed

lemma seal_right_written: "rw_mac r = Some (vault_index (hmac_sha256 env) v MAC_PLACE (rw_entry_hash r)) \<Longrightarrow> seal_right env (Some v) r = Inr True"
  by (auto simp: seal_right_def entry_mac_def current_def compare_digest_def vault_index_def hexdigest_ascii)

lemma write_keeps_chained:
  assumes good: "chained_log env v t" and plain: "plain_details env ev"
    and w: "write_event env (Some v) t ev = Inr (t', h)"
  shows "chained_log env v t'"
proof -
  obtain r where t': "t' = t @ [r]" and id: "rw_id r = audit_next_id t" and ts: "rw_ts r = ae_ts ev"
    and prev: "rw_prev_hash r = audit_last_hash t" and h: "rw_entry_hash r = h"
    and hash: "h = compute_hash (sha256 env) (audit_last_hash t) (canonical (float_repr env) (event_entry ev (audit_next_id t)))"
    and mac: "rw_mac r = Some (vault_index (hmac_sha256 env) v MAC_PLACE h)"
    and details: "rw_details r = dumps (float_repr env) (sort_keys (JObj (redact_details (ae_details ev))))"
    and row: "row_entry env r = map_sum id (\<lambda>d. (event_entry ev (audit_next_id t))\<lparr>en_details := d\<rparr>)
           (case loads (float_read env) (rw_details r) of None \<Rightarrow> Inl Json_Error | Some d \<Rightarrow> Inr d)"
    using w by (rule write_event_row)
  let ?e = "event_entry ev (audit_next_id t)"
  have "loads (float_read env) (rw_details r) = Some (sort_keys (en_details ?e))"
    unfolding details event_entry_def
    using loads_dumps [OF readable_sort_keys [OF redacted_readable [OF plain]]] by simp
  then have "row_entry env r = Inr (sorted_entry ?e)"
    by (simp add: row sorted_entry_def)
  then have right: "hash_right env r"
    using hash by (simp add: hash_right_def canonical_sorted prev h)
  have all: "audit_all t = t"
    using good by (simp add: chained_log_def audit_all_sorted)
  have sealed: "seal_right env (Some v) r = Inr True"
    using mac by (intro seal_right_written) (simp add: h)
  have ids: "sorted_wrt (<) (map rw_id t')" "\<forall>q \<in> set t'. 1 \<le> rw_id q"
    using good next_id_above [of _ t] next_id_positive [of t] by (auto simp: chained_log_def t' id sorted_wrt_append)
  have "rows_linked env (first_prev t') t' \<and> genesis_right t'"
  proof (cases t)
    case Nil
    then show ?thesis
      using right prev by (simp add: t' first_prev_def genesis_right_def audit_last_hash_def audit_all_def)
  next
    case (Cons q qs)
    then have "final_hash (first_prev t) t = final_hash GENESIS_HASH t"
      by simp
    then show ?thesis
      using good right prev final_hash_last [OF all] Cons
      by (simp add: t' chained_log_def linked_append first_prev_append genesis_right_def)
  qed
  with ids sealed good show ?thesis
    by (auto simp: chained_log_def t')
qed

lemma write_keeps_good:
  assumes good: "good_log env v t" and plain: "plain_details env ev"
    and time: "\<forall>r \<in> set t. not_later (rw_ts r) (ae_ts ev)"
    and w: "write_event env (Some v) t ev = Inr (t', h)"
  shows "good_log env v t'"
proof -
  obtain r where "t' = t @ [r]" and "rw_ts r = ae_ts ev"
    using w by (rule write_event_row)
  then show ?thesis
    using good time write_keeps_chained [OF _ plain w] by (auto simp: good_log_def sorted_wrt_append)
qed


lemma before_first: "not_later x y \<Longrightarrow> before y c \<Longrightarrow> before x c"
  by (cases x; cases y) auto

text \<open>Among rows in the order of their times, the rows before a cutoff are the first ones.\<close>

lemma pruned_suffix:
  "sorted_wrt not_later (map rw_ts t) \<Longrightarrow> filter (\<lambda>r. \<not> before (rw_ts r) c) t = dropWhile (\<lambda>r. before (rw_ts r) c) t"
proof (induction t)
  case (Cons r rs)
  show ?case
  proof (cases "before (rw_ts r) c")
    case False
    then have "\<not> before (rw_ts q) c" if "q \<in> set rs" for q
      using Cons.prems that before_first [of "rw_ts r" "rw_ts q" c] by auto
    with False show ?thesis
      by (simp add: filter_id_conv)
  qed (use Cons in simp)
qed simp

lemma good_log_suffix:
  assumes "good_log env v (xs @ ys)"
  shows "good_log env v ys"
proof (cases "xs = [] \<or> ys = []")
  case True
  with assms show ?thesis
    by (auto simp: good_log_def chained_log_def genesis_right_def)
next
  case False
  then obtain x xs' y ys' where c: "xs = x # xs'" "ys = y # ys'"
    by (cases xs; cases ys) auto
  have "rw_id x < rw_id y" "1 \<le> rw_id x"
    using assms by (auto simp: good_log_def chained_log_def c sorted_wrt_append)
  moreover have "rows_linked env (final_hash (first_prev (xs @ ys)) xs) ys"
    using assms by (simp add: good_log_def chained_log_def linked_append)
  then have "rows_linked env (first_prev ys) ys"
    by (simp add: c)
  ultimately show ?thesis
    using assms by (auto simp: good_log_def chained_log_def c genesis_right_def sorted_wrt_append)
qed

lemma prune_keeps_good:
  assumes good: "good_log env v t" and p: "prune_audit t now cutoff = Inr (t', n)"
  shows "good_log env v t' \<and> set t' \<subseteq> set t"
proof -
  have t': "t' = dropWhile (\<lambda>r. before (rw_ts r) cutoff) t"
    using p good pruned_suffix by (auto simp: prune_audit_def good_log_def chained_log_def split: if_splits)
  have "good_log env v (takeWhile (\<lambda>r. before (rw_ts r) cutoff) t @ t')"
    using good by (simp add: t')
  then have "good_log env v t'"
    by (rule good_log_suffix)
  then show ?thesis
    by (auto simp: t' dest: set_dropWhileD)
qed

lemma audit_run_good:
  assumes "\<forall>ev \<in> set (events_written ops). plain_details env ev" and "sorted_wrt not_later (map ae_ts (events_written ops))"
    and "good_log env v t" and "\<forall>r \<in> set t. \<forall>ev \<in> set (events_written ops). not_later (rw_ts r) (ae_ts ev)"
  shows "good_log env v (foldl (audit_do env (Some v)) t ops)"
  using assms
proof (induction ops arbitrary: t)
  case (Cons x ops)
  show ?case
  proof (cases x)
    case (Write ev)
    show ?thesis
    proof (cases "write_event env (Some v) t ev")
      case (Inr th)
      then obtain t' h where w: "write_event env (Some v) t ev = Inr (t', h)"
        by (cases th) auto
      then obtain r where "t' = t @ [r]" "rw_ts r = ae_ts ev"
        by (rule write_event_row)
      moreover have "good_log env v t'"
        using Cons.prems Write w by (intro write_keeps_good [OF _ _ _ w]) simp_all
      ultimately have "good_log env v (foldl (audit_do env (Some v)) t' ops)"
        using Cons.prems Write by (intro Cons.IH) auto
      then show ?thesis
        by (simp add: Write w)
    qed (use Cons Write in simp)
  next
    case (Prune now cutoff)
    show ?thesis
    proof (cases "prune_audit t now cutoff")
      case (Inr tn)
      then obtain t' n where p: "prune_audit t now cutoff = Inr (t', n)"
        by (cases tn) auto
      then have "good_log env v t'" "set t' \<subseteq> set t"
        using prune_keeps_good Cons.prems(3) by blast+
      then have "good_log env v (foldl (audit_do env (Some v)) t' ops)"
        using Cons.prems Prune by (intro Cons.IH) auto
      then show ?thesis
        by (simp add: Prune p)
    qed (use Cons Prune in simp)
  qed
qed simp

lemma good_log_verifies:
  assumes "good_log env v t"
  shows "verify_rows env (Some v) sf (audit_all t) = Inr (all_right (length t) (audit_last_hash t))"
proof -
  have all: "audit_all t = t"
    using assms by (simp add: good_log_def chained_log_def audit_all_sorted)
  show ?thesis
    using assms verify_rows_ok [of env "Some v" sf t "all_right (length t) (final_hash GENESIS_HASH t)"]
    by (simp add: all final_hash_last [OF all] good_log_def chained_log_def seals_right_all)
qed

text \<open>C4: Whatever rows the appliance appends to its audit log, in the order of their times, and however
  often it prunes the old ones, the check walks every row that is left and answers OK with the newest
  row's hash, whatever the anchor of the seals.\<close>

theorem written_log_verifies:
  assumes "\<forall>ev \<in> set (events_written ops). plain_details env ev"
    and "sorted_wrt not_later (map ae_ts (events_written ops))"
  shows "verify_chain env (Some v) (Inr sealed_from) (audit_run env (Some v) ops) =
    Inr (all_right (length (audit_run env (Some v) ops)) (audit_last_hash (audit_run env (Some v) ops)))"
proof -
  have "good_log env v []"
    by (simp add: good_log_def chained_log_def genesis_right_def)
  then have "good_log env v (audit_run env (Some v) ops)"
    using assms unfolding audit_run_def by (intro audit_run_good) simp_all
  then show ?thesis
    by (simp add: verify_chain_def good_log_verifies)
qed


section \<open>What the check accepts\<close>

lemma linked_nth:
  "rows_linked env prev rows \<longleftrightarrow>
     (\<forall>r \<in> set rows. hash_right env r) \<and> (rows = [] \<or> rw_prev_hash (hd rows) = prev) \<and>
     (\<forall>i < length rows - 1. rw_prev_hash (rows ! Suc i) = rw_entry_hash (rows ! i))"
proof (induction rows arbitrary: prev)
  case (Cons r rows)
  show ?case
  proof (cases rows)
    case (Cons q qs)
    have "(\<forall>i < length (r # rows) - 1. rw_prev_hash ((r # rows) ! Suc i) = rw_entry_hash ((r # rows) ! i)) \<longleftrightarrow>
        rw_prev_hash q = rw_entry_hash r \<and> (\<forall>i < length rows - 1. rw_prev_hash (rows ! Suc i) = rw_entry_hash (rows ! i))"
      by (simp add: Cons All_less_Suc2)
    with Cons.IH [of "rw_entry_hash r"] show ?thesis
      by (auto simp: Cons)
  qed auto
qed simp

definition unsealed_allowed :: "int option \<Rightarrow> audit_row \<Rightarrow> bool" where
  "unsealed_allowed sealed_from r \<longleftrightarrow>
     rw_mac r = None \<and> (case sealed_from of None \<Rightarrow> True | Some n \<Rightarrow> rw_id r < n)"

lemma seals_right_sealed: "seals_right env cur sf True rows \<longleftrightarrow> (\<forall>r \<in> set rows. seal_right env cur r = Inr True)"
  by (induction rows) (auto simp: seal_due_def)

lemma seals_right_split:
  "seals_right env cur sf False rows \<longleftrightarrow>
     (\<exists>k \<le> length rows. (\<forall>r \<in> set (take k rows). unsealed_allowed sf r) \<and> (\<forall>r \<in> set (drop k rows). seal_right env cur r = Inr True))"
proof (induction rows)
  case (Cons r rows)
  show ?case
  proof (cases "seal_due False sf r")
    case True
    then have no: "\<not> unsealed_allowed sf r"
      by (auto simp: seal_due_def unsealed_allowed_def split: option.splits)
    have "(\<exists>k \<le> length (r # rows). (\<forall>q \<in> set (take k (r # rows)). unsealed_allowed sf q) \<and>
        (\<forall>q \<in> set (drop k (r # rows)). seal_right env cur q = Inr True)) \<longleftrightarrow> (\<forall>q \<in> set (r # rows). seal_right env cur q = Inr True)"
      (is "(\<exists>k \<le> _. ?P k) \<longleftrightarrow> ?Q")
    proof
      assume "\<exists>k \<le> length (r # rows). ?P k"
      then obtain k where "?P k" by blast
      with no show ?Q by (cases k) auto
    next
      assume ?Q
      then have "?P 0" by simp
      then show "\<exists>k \<le> length (r # rows). ?P k" by blast
    qed
    with True show ?thesis
      by (simp add: seals_right_sealed)
  next
    case False
    then have un: "unsealed_allowed sf r" "seal_right env cur r \<noteq> Inr True"
      by (auto simp: seal_due_def unsealed_allowed_def seal_right_def split: option.splits)
    have "(\<exists>k \<le> length (r # rows). (\<forall>q \<in> set (take k (r # rows)). unsealed_allowed sf q) \<and>
        (\<forall>q \<in> set (drop k (r # rows)). seal_right env cur q = Inr True)) \<longleftrightarrow>
        (\<exists>k \<le> length rows. (\<forall>q \<in> set (take k rows). unsealed_allowed sf q) \<and> (\<forall>q \<in> set (drop k rows). seal_right env cur q = Inr True))"
      (is "(\<exists>k \<le> _. ?P k) \<longleftrightarrow> (\<exists>k \<le> _. ?Q k)")
    proof
      assume "\<exists>k \<le> length (r # rows). ?P k"
      then obtain k where "k \<le> length (r # rows)" "?P k" by blast
      with un(2) obtain m where "k = Suc m" "m \<le> length rows" "?Q m"
        by (cases k) auto
      then show "\<exists>k \<le> length rows. ?Q k" by blast
    next
      assume "\<exists>k \<le> length rows. ?Q k"
      then obtain m where "m \<le> length rows" "?Q m" by blast
      with un(1) have "Suc m \<le> length (r # rows)" "?P (Suc m)" by auto
      then show "\<exists>k \<le> length (r # rows). ?P k" by blast
    qed
    with False Cons.IH show ?thesis
      by simp
  qed
qed simp

text \<open>C9: The check answers OK, with the newest row's hash, exactly on the logs whose every row carries
  the hash of its fields, whose neighbours are linked, whose first row, if it is row 1, is chained to
  the genesis hash, and which are unsealed only up to the anchor and correctly sealed from some row on
  to the end.\<close>

theorem verified_logs:
  "verify_rows env cur sealed_from rows = Inr (all_right (length rows) (final_hash GENESIS_HASH rows)) \<longleftrightarrow>
     (\<forall>r \<in> set rows. hash_right env r) \<and>
     (\<forall>i < length rows - 1. rw_prev_hash (rows ! Suc i) = rw_entry_hash (rows ! i)) \<and>
     genesis_right rows \<and>
     (\<exists>k \<le> length rows. (\<forall>r \<in> set (take k rows). unsealed_allowed sealed_from r) \<and>
        (\<forall>r \<in> set (drop k rows). seal_right env cur r = Inr True))"
proof -
  have "rows_linked env (first_prev rows) rows \<longleftrightarrow>
      (\<forall>r \<in> set rows. hash_right env r) \<and> (\<forall>i < length rows - 1. rw_prev_hash (rows ! Suc i) = rw_entry_hash (rows ! i))"
    unfolding linked_nth by (cases rows) auto
  then show ?thesis
    using verify_rows_ok [of env cur sealed_from rows "all_right (length rows) (final_hash GENESIS_HASH rows)"]
    by (auto simp: seals_right_split)
qed

section \<open>The final hash\<close>

definition whole_log :: "audit_env \<Rightarrow> audit_row list \<Rightarrow> bool" where
  "whole_log env rows \<longleftrightarrow>
     rows \<noteq> [] \<and> rw_id (hd rows) = 1 \<and> sorted_wrt (<) (map rw_id rows) \<and> (\<forall>r \<in> set rows. stored_right env r)"

lemma verified_from_genesis:
  assumes "whole_log env rows" and "verify_rows env cur sf rows = Inr v" and "vr_ok v"
  shows "from_genesis env rows \<and> v = all_right (length rows) (final_hash GENESIS_HASH rows)"
  using assms verify_rows_ok [of env cur sf rows v]
  by (cases rows) (auto simp: whole_log_def from_genesis_def genesis_right_def)

text \<open>C3: A known final hash pins the log: two logs that both verify from row 1 on and end in the same
  hash say the same, row by row - the same fields and the same details - unless SHA-256 takes the same
  value on two different messages hashed for their rows.\<close>

theorem final_hash_pins_the_log:
  assumes "exact_floats (float_repr env) (float_read env)"
    and "whole_log env rows" and "verify_rows env cur sf rows = Inr v" and "vr_ok v"
    and "whole_log env rows'" and "verify_rows env cur' sf' rows' = Inr v'" and "vr_ok v'"
    and "vr_final_hash v = vr_final_hash v'"
    and "inj_on (sha256 env) (message env ` (set rows \<union> set rows'))"
  shows "map (says env) rows = map (says env) rows'"
  using verified_from_genesis [OF assms(2-4)] verified_from_genesis [OF assms(5-7)] assms(8)
    same_end_same_rows [OF assms(1) _ _ assms(9)] assms(2,5)
  by (simp add: whole_log_def)


section \<open>Redaction\<close>

lemma redacted_keys: "(k, d) \<in> set (redact_details details) \<Longrightarrow> lower k \<notin> set FORBIDDEN_DETAIL_KEYS"
  by (auto simp: redact_details_def split: option.splits)

definition top_keys :: "json \<Rightarrow> string set" where
  "top_keys j = (case j of JObj kvs \<Rightarrow> fst ` set kvs | _ \<Rightarrow> {})"

lemma top_keys_sorted [simp]: "top_keys (sort_keys j) = top_keys j"
  by (cases j) (force simp: top_keys_def)+

definition forbidden_top :: "audit_env \<Rightarrow> audit_row \<Rightarrow> bool" where
  "forbidden_top env r \<longleftrightarrow>
     (case loads (float_read env) (rw_details r) of
        None \<Rightarrow> True
      | Some d \<Rightarrow> \<exists>k \<in> top_keys d. lower k \<in> set FORBIDDEN_DETAIL_KEYS)"

lemma written_not_forbidden:
  assumes "plain_details env ev" and "write_event env (Some v) t ev = Inr (t', h)"
  obtains r where "t' = t @ [r]" and "\<not> forbidden_top env r"
proof -
  obtain r where r: "t' = t @ [r]" "rw_details r = dumps (float_repr env) (sort_keys (JObj (redact_details (ae_details ev))))"
    using assms(2) by (rule write_event_row)
  have text_read: "loads (float_read env) (rw_details r) = Some (sort_keys (JObj (redact_details (ae_details ev))))"
    unfolding r(2) by (rule loads_dumps [OF readable_sort_keys [OF redacted_readable [OF assms(1)]]])
  have "\<forall>k \<in> top_keys (JObj (redact_details (ae_details ev))). lower k \<notin> set FORBIDDEN_DETAIL_KEYS"
    unfolding top_keys_def json.case by (auto dest: redacted_keys)
  then have "\<not> forbidden_top env r"
    unfolding forbidden_top_def text_read option.case top_keys_sorted by blast
  with r(1) show thesis
    by (rule that)
qed

lemma run_not_forbidden:
  assumes "\<forall>ev \<in> set (events_written ops). plain_details env ev" and "filter (forbidden_top env) t = []"
  shows "filter (forbidden_top env) (foldl (audit_do env (Some v)) t ops) = []"
  using assms
proof (induction ops arbitrary: t)
  case (Cons x ops)
  have "filter (forbidden_top env) (audit_do env (Some v) t x) = []"
  proof (cases x)
    case (Write ev)
    show ?thesis
    proof (cases "write_event env (Some v) t ev")
      case (Inr th)
      then obtain t' h where w: "write_event env (Some v) t ev = Inr (t', h)"
        by (cases th) auto
      have "plain_details env ev"
        using Cons.prems(1) Write by simp
      then obtain r where "t' = t @ [r]" "\<not> forbidden_top env r"
        using w by (rule written_not_forbidden)
      with Cons.prems(2) Write w show ?thesis
        by simp
    qed (use Cons.prems(2) Write in simp)
  next
    case (Prune now cutoff)
    then show ?thesis
      using Cons.prems(2) by (auto simp: prune_audit_def filter_empty_conv)
  qed
  moreover have "set (events_written ops) \<subseteq> set (events_written (x # ops))"
    by (cases x) auto
  ultimately show ?case
    using Cons by (simp add: subset_iff)
qed simp

text \<open>C36: Whatever a caller passes as details, no row of the log has a password, a session, a token, a
  community or another forbidden key among the keys of its details, in whatever case it was spelled;
  and every row's details read back.\<close>

theorem no_secret_key_in_the_log:
  assumes "\<forall>ev \<in> set (events_written ops). plain_details env ev"
  shows "filter (forbidden_top env) (audit_run env (Some v) ops) = []"
  unfolding audit_run_def using assms by (intro run_not_forbidden) simp_all

section \<open>Pruning out of order\<close>

lemma written_three:
  assumes "write_event env (Some v) [] a = Inr (t1, h1)" and "write_event env (Some v) t1 b = Inr (t2, h2)"
    and "write_event env (Some v) t2 c = Inr (t3, h3)"
    and "plain_details env a" and "plain_details env b" and "plain_details env c"
  obtains r s q where "t3 = [r, s, q]" and "chained_log env v [r, s, q]" and "rw_ts r = ae_ts a" and "rw_ts s = ae_ts b"
    and "rw_ts q = ae_ts c" and "rw_entry_hash r = h1" and "rw_entry_hash s = h2"
    and "rw_id r = 1" and "rw_id s = 2" and "rw_id q = 3"
proof -
  obtain r where r: "t1 = [r]" "rw_id r = 1" "rw_ts r = ae_ts a" "rw_entry_hash r = h1"
    using assms(1) by (rule write_event_row) (simp add: audit_next_id_def)
  obtain s where s: "t2 = [r, s]" "rw_id s = 2" "rw_ts s = ae_ts b" "rw_entry_hash s = h2"
    using assms(2) by (rule write_event_row) (simp add: r audit_next_id_def)
  obtain q where q: "t3 = [r, s, q]" "rw_id q = 3" "rw_ts q = ae_ts c"
    using assms(3) by (rule write_event_row) (simp add: r s audit_next_id_def)
  have "chained_log env v []"
    by (simp add: chained_log_def genesis_right_def)
  then have "chained_log env v [r, s, q]"
    using write_keeps_chained assms(1-6) unfolding r(1) s(1) q(1) by blast
  with r s q show thesis
    by (intro that) simp_all
qed

text \<open>Pruning deletes by time and not by position: when the second of three rows was stamped before
  the cutoff and the first was not, pruning removes the middle one, and the check then reports the
  untouched third row as broken - unless the first two rows share a hash.\<close>

theorem prune_can_break_the_chain:
  assumes "write_event env (Some v) [] a = Inr (t1, h1)" and "write_event env (Some v) t1 b = Inr (t2, h2)"
    and "write_event env (Some v) t2 c = Inr (t3, h3)"
    and "plain_details env a" and "plain_details env b" and "plain_details env c"
    and "\<not> before (ae_ts a) cutoff" and "before (ae_ts b) cutoff" and "\<not> before (ae_ts c) cutoff"
    and "cutoff \<le> now - 86400" and "h1 \<noteq> h2"
  shows "map_sum id (\<lambda>(t', n). (n, verify_rows env (Some v) sf (audit_all t'))) (prune_audit t3 now cutoff) =
    Inr (1, Inr (broken 1 3 ''prev_hash does not match previous entry_hash'' h1))"
proof -
  obtain r s q where t3: "t3 = [r, s, q]" and good: "chained_log env v [r, s, q]" and ts: "rw_ts r = ae_ts a" "rw_ts s = ae_ts b" "rw_ts q = ae_ts c"
    and h: "rw_entry_hash r = h1" "rw_entry_hash s = h2" and ids: "rw_id r = 1" "rw_id s = 2" "rw_id q = 3"
    using assms(1-6) by (rule written_three)
  have pruned: "prune_audit t3 now cutoff = Inr ([r, q], 1)"
    using assms(7-10) by (simp add: prune_audit_def t3 ts)
  have right: "hash_right env r" "hash_right env q" "rw_prev_hash q = h2" "rw_prev_hash r = GENESIS_HASH"
    "seal_right env (Some v) r = Inr True"
    using good by (simp_all add: chained_log_def genesis_right_def ids h)
  obtain e where e: "row_entry env r = Inr e" "compute_hash (sha256 env) (rw_prev_hash r) (canonical (float_repr env) e) = rw_entry_hash r"
    using right(1) by (auto simp: hash_right_def split: sum.splits)
  obtain e' where e': "row_entry env q = Inr e'"
    using right(2) by (auto simp: hash_right_def split: sum.splits)
  have "audit_all [r, q] = [r, q]"
    by (rule audit_all_sorted) (simp add: ids)
  moreover have "rw_prev_hash q \<noteq> rw_entry_hash r"
    using assms(11) by (simp add: right(3) h)
  ultimately have "verify_rows env (Some v) sf (audit_all [r, q]) =
      Inr (broken 1 3 ''prev_hash does not match previous entry_hash'' h1)"
    using e e' right(4,5) by (simp add: verify_rows_def ids h)
  then show ?thesis
    by (simp add: pruned)
qed

section \<open>The export\<close>

lemma after_the_page:
  "sorted_wrt (<) (map f xs) \<Longrightarrow> 0 < n \<Longrightarrow> xs \<noteq> [] \<Longrightarrow>
     filter (\<lambda>r. (f (last (take n xs)) :: int) < f r) xs = drop n xs"
proof -
  assume s: "sorted_wrt (<) (map f xs)" and n: "0 < n" and "xs \<noteq> []"
  then obtain ys y where y: "take n xs = ys @ [y]"
    by (cases "take n xs" rule: rev_cases) auto
  have xs: "xs = (ys @ [y]) @ drop n xs"
    using append_take_drop_id [of n xs] by (simp add: y)
  have "sorted_wrt (<) (map f ((ys @ [y]) @ drop n xs))"
    using s xs by simp
  then have below: "\<forall>q \<in> set (ys @ [y]). f q \<le> f y" and above: "\<forall>q \<in> set (drop n xs). f y < f q"
    by (auto simp: sorted_wrt_append less_imp_le)
  have "filter (\<lambda>r. f y < f r) (ys @ [y]) = []"
    using below by (fastforce simp: filter_empty_conv)
  moreover have "filter (\<lambda>r. f y < f r) (drop n xs) = drop n xs"
    using above by (simp add: filter_id_conv)
  ultimately have "filter (\<lambda>r. f y < f r) ((ys @ [y]) @ drop n xs) = drop n xs"
    by (simp only: filter_append append_Nil)
  then show ?thesis
    using xs y by (metis last_snoc)
qed

lemma sorted_wrt_filter_map: "sorted_wrt P (map f xs) \<Longrightarrow> sorted_wrt P (map f (filter Q xs))"
  by (induction xs) auto

lemma export_lines_all:
  assumes "sorted_wrt (<) (map rw_id rows)" and "\<And>i. filter (\<lambda>r. rw_id r \<le> newest) (audit_all (ts i)) = rows"
  shows "export_lines frepr ts i after newest = page_text frepr (filter (\<lambda>r. after < rw_id r) rows)"
  using assms(2)
proof (induction frepr ts i after newest rule: export_lines.induct)
  case (1 frepr ts i after newest)
  let ?xs = "filter (\<lambda>r. after < rw_id r) rows"
  have page: "audit_page (ts i) after newest EXPORT_PAGE = take EXPORT_PAGE ?xs"
    unfolding audit_page_def "1.prems" [of i, symmetric] filter_filter by (simp add: conj_commute)
  have bounded: "\<forall>r \<in> set rows. rw_id r \<le> newest"
    using "1.prems" [of 0] by auto
  show ?case
  proof (cases "after < newest \<and> ?xs \<noteq> []")
    case True
    then have xs: "?xs \<noteq> []" and less: "after < newest"
      by simp_all
    then obtain r rs where rs: "take EXPORT_PAGE ?xs = r # rs"
      by (cases "take EXPORT_PAGE ?xs") (auto simp: EXPORT_PAGE_def)
    have "after < rw_id (last (r # rs))"
      using last_page_after [OF page [unfolded rs]] .
    then have "filter (\<lambda>q. rw_id (last (r # rs)) < rw_id q) rows = filter (\<lambda>q. rw_id (last (r # rs)) < rw_id q) ?xs"
      by (auto intro!: filter_cong)
    also have "\<dots> = drop EXPORT_PAGE ?xs"
      unfolding rs [symmetric]
      by (rule after_the_page [OF sorted_wrt_filter_map [OF assms(1)] _ xs]) (simp add: EXPORT_PAGE_def)
    finally have later: "filter (\<lambda>q. rw_id (last (r # rs)) < rw_id q) rows = drop EXPORT_PAGE ?xs" .
    have "export_lines frepr ts i after newest = page_text frepr (take EXPORT_PAGE ?xs) @ page_text frepr (drop EXPORT_PAGE ?xs)"
      using "1.IH" [OF less page [unfolded rs] "1.prems"] less
      by (simp add: export_lines.simps [of frepr ts i after] page rs later del: last.simps)
    also have "\<dots> = page_text frepr ?xs"
      by (simp add: page_text_def flip: concat_append map_append)
    finally show ?thesis .
  next
    case False
    then have "?xs = []"
      using bounded by (auto simp: filter_empty_conv)
    then show ?thesis
      by (simp add: export_lines.simps [of frepr ts i after] page page_text_def)
  qed
qed

text \<open>The export, read a page at a time while newer rows are appended, is the newline-ended lines of
  the whole log as it stood when the export was recorded, the very bytes one read under the lock gives,
  and the final hash it is sent with is the newest exported row's.\<close>

theorem paged_export_is_the_log:
  assumes "\<forall>i. \<exists>newer. ts i = t @ newer \<and> sorted_wrt (<) (map rw_id (ts i)) \<and> (\<forall>r \<in> set (ts i). 0 < rw_id r)"
  shows "export_lines frepr ts 0 0 (fst (audit_tail t)) = concat (map (\<lambda>l. l @ [char_of (10::nat)]) (fst (export_ndjson frepr t))) \<and>
    snd (audit_tail t) = snd (export_ndjson frepr t)"
proof -
  let ?newest = "fst (audit_tail t)"
  have t: "sorted_wrt (<) (map rw_id t)" "\<forall>r \<in> set t. 0 < rw_id r"
    using assms [rule_format, of 0] by (auto simp: sorted_wrt_append)
  then have all: "audit_all t = t"
    by (simp add: audit_all_sorted)
  have newest: "?newest = (if t = [] then 0 else rw_id (last t))"
    using all by (cases t rule: rev_cases) (simp_all add: audit_tail_def)
  have rows: "filter (\<lambda>r. rw_id r \<le> ?newest) (audit_all (ts i)) = t" for i
  proof -
    obtain newer where n: "ts i = t @ newer" "sorted_wrt (<) (map rw_id (t @ newer))" "\<forall>r \<in> set newer. 0 < rw_id r"
      using assms [rule_format, of i] by auto
    have "\<forall>r \<in> set t. rw_id r \<le> ?newest"
      using t(1) newest by (cases t rule: rev_cases) (auto simp: sorted_wrt_append less_imp_le)
    moreover have "\<forall>r \<in> set newer. ?newest < rw_id r"
      using n(2,3) by (auto simp: newest sorted_wrt_append)
    ultimately have "filter (\<lambda>r. rw_id r \<le> ?newest) t = t" "filter (\<lambda>r. rw_id r \<le> ?newest) newer = []"
      by (auto simp: filter_id_conv filter_empty_conv)
    then show ?thesis
      by (simp add: n(1) audit_all_sorted [OF n(2)])
  qed
  have "export_lines frepr ts 0 0 ?newest = page_text frepr (filter (\<lambda>r. 0 < rw_id r) t)"
    by (rule export_lines_all [OF t(1)]) (rule rows)
  also have "filter (\<lambda>r. 0 < rw_id r) t = t"
    using t(2) by (simp add: filter_id_conv)
  finally show ?thesis
    using all by (cases t rule: rev_cases) (simp_all add: page_text_def export_ndjson_def Let_def audit_tail_def comp_def)
qed

section \<open>Concrete logs\<close>

text \<open>A runtime for the witnesses: one float text, digests that count the bytes.\<close>

definition counting_env :: audit_env where
  "counting_env = \<lparr>float_repr = (\<lambda>_. ''0.5''), float_read = (\<lambda>s. if s = ''0.5'' then Finite (1/2) else Not_A_Number),
     sha256 = (\<lambda>bs. word_of_nat (length bs)), hmac_sha256 = (\<lambda>k bs. word_of_nat (length bs))\<rparr>"

definition logout_event :: "(string \<times> json) list option \<Rightarrow> audit_event" where
  "logout_event details = \<lparr>ae_ts = Finite (1/2), ae_actor = ''admin'', ae_role = None, ae_source_ip = None, ae_action = ''logout'',
    ae_outcome = ''ok'', ae_object_type = None, ae_object_id = None, ae_details = details\<rparr>"

lemma half_reads: "readable (float_repr counting_env) (float_read counting_env) (JFloat (Finite (1/2)))"
  by (simp add: counting_env_def float_literal_def unsigned_def whole_literal_def is_digit_def number_char_def exponent_ok_def)

lemma counting_exact: "exact_floats (float_repr counting_env) (float_read counting_env)"
  using half_reads by (auto simp: exact_floats_def counting_env_def split: if_splits)

lemma logout_known: "''logout'' \<in> set ACTIONS" "''ok'' \<in> set OUTCOMES"
  by (simp_all add: ACTIONS_def OUTCOMES_def)

lemma write_logout: "\<exists>r h. write_event env (Some v) t (logout_event d) = Inr (t @ [r], h)"
  using logout_known next_id_new [of t]
  by (auto simp: write_event_def logout_event_def audit_insert_def entry_mac_def current_def Let_def event_entry_def)

lemma written_log_verifies_witness:
  "length (audit_run counting_env (Some \<lparr>index_key = [], pepper_key = []\<rparr>) [Write (logout_event None), Prune 86400 0, Write (logout_event (Some [(''token'', JNull), (''a'', JInt 7)]))]) = 2 \<and>
   verify_chain counting_env (Some \<lparr>index_key = [], pepper_key = []\<rparr>) (Inr (Some 1))
     (audit_run counting_env (Some \<lparr>index_key = [], pepper_key = []\<rparr>) [Write (logout_event None), Prune 86400 0, Write (logout_event (Some [(''token'', JNull), (''a'', JInt 7)]))]) =
   Inr (all_right (length (audit_run counting_env (Some \<lparr>index_key = [], pepper_key = []\<rparr>) [Write (logout_event None), Prune 86400 0, Write (logout_event (Some [(''token'', JNull), (''a'', JInt 7)]))]))
     (audit_last_hash (audit_run counting_env (Some \<lparr>index_key = [], pepper_key = []\<rparr>) [Write (logout_event None), Prune 86400 0, Write (logout_event (Some [(''token'', JNull), (''a'', JInt 7)]))])))"
proof
  let ?v = "Some \<lparr>index_key = [], pepper_key = []\<rparr>" and ?d = "Some [(''token'', JNull), (''a'', JInt 7)]"
  obtain r h where w: "write_event counting_env ?v [] (logout_event None) = Inr ([r], h)"
    using write_logout [of counting_env "\<lparr>index_key = [], pepper_key = []\<rparr>" "[]" None] by (elim exE) simp
  then have ts: "rw_ts r = Finite (1/2)"
    by (rule write_event_row) (simp add: logout_event_def)
  obtain q g where "write_event counting_env ?v [r] (logout_event ?d) = Inr ([r, q], g)"
    using write_logout [of counting_env "\<lparr>index_key = [], pepper_key = []\<rparr>" "[r]" ?d] by (elim exE) simp
  with w ts show "length (audit_run counting_env ?v [Write (logout_event None), Prune 86400 0, Write (logout_event ?d)]) = 2"
    by (simp add: audit_run_def prune_audit_def)
qed (rule written_log_verifies; simp add: plain_details_def logout_event_def MAX_STR_DIGITS_def nat_text_step)

text \<open>The first row of a log, its details written in two ways.\<close>

definition first_row :: "string \<Rightarrow> audit_row" where
  "first_row details =
     \<lparr>rw_id = 1, rw_ts = Finite (1/2), rw_actor = ''admin'', rw_role = None, rw_source_ip = None, rw_action = ''logout'',
      rw_object_type = None, rw_object_id = None, rw_outcome = ''ok'', rw_details = details, rw_prev_hash = GENESIS_HASH,
      rw_entry_hash = compute_hash (sha256 counting_env) GENESIS_HASH
        (canonical (float_repr counting_env) (event_entry (logout_event None) 1)), rw_mac = None\<rparr>"

lemma first_row_right: "loads (float_read counting_env) details = Some (JObj []) \<Longrightarrow> hash_right counting_env (first_row details)"
  by (simp add: hash_right_def row_entry_def first_row_def event_entry_def logout_event_def redact_details_def)

lemma first_row_texts: "loads fread ''{}'' = Some (JObj [])" "loads fread ''{ }'' = Some (JObj [])"
  by (simp_all add: loads_def skip_space_def is_space_def read_value.simps code_def)

lemma first_row_verified:
  assumes "loads (float_read counting_env) details = Some (JObj [])"
  shows "verify_rows counting_env None None [first_row details] = Inr (all_right 1 (rw_entry_hash (first_row ''{}'')))"
  using verify_rows_ok [of counting_env None None "[first_row details]" "all_right 1 (rw_entry_hash (first_row ''{}''))"]
    first_row_right [OF assms]
  by (auto simp: genesis_right_def seal_due_def first_row_def)

lemma verified_logs_witness:
  "verify_rows counting_env None (Some 2) [first_row ''{}''] = Inr (all_right 1 (rw_entry_hash (first_row ''{}'')))"
proof -
  have "unsealed_allowed (Some 2) (first_row ''{}'')"
    by (simp add: unsealed_allowed_def first_row_def)
  then have "verify_rows counting_env None (Some 2) [first_row ''{}''] =
      Inr (all_right (length [first_row ''{}'']) (final_hash GENESIS_HASH [first_row ''{}'']))"
    unfolding verified_logs using first_row_right [OF first_row_texts(1)]
    by (intro conjI exI [of _ "1::nat"]) (simp_all add: genesis_right_def first_row_def)
  then show ?thesis
    by simp
qed

lemma final_hash_pins_the_log_witness:
  "map (says counting_env) [first_row ''{}''] = map (says counting_env) [first_row ''{ }''] \<and> first_row ''{}'' \<noteq> first_row ''{ }''"
proof
  have stored: "whole_log counting_env [first_row d]" for d
    using half_reads by (simp add: whole_log_def stored_right_def first_row_def)
  have "message counting_env (first_row ''{}'') = message counting_env (first_row ''{ }'')"
    using first_row_texts by (simp add: message_def row_entry_def first_row_def)
  then have "inj_on (sha256 counting_env) (message counting_env ` (set [first_row ''{}''] \<union> set [first_row ''{ }'']))"
    by simp
  then show "map (says counting_env) [first_row ''{}''] = map (says counting_env) [first_row ''{ }'']"
    by (rule final_hash_pins_the_log [OF counting_exact stored first_row_verified [OF first_row_texts(1)] all_right_ok(1) stored
        first_row_verified [OF first_row_texts(2)] all_right_ok(1) refl])
qed (simp add: first_row_def)


lemma no_secret_key_in_the_log_witness:
  "filter (forbidden_top counting_env) (audit_run counting_env (Some \<lparr>index_key = [], pepper_key = []\<rparr>)
     [Write (logout_event (Some [(''Token'', JStr ''s3cret''), (''a'', JInt 7)]))]) = []"
  by (rule no_secret_key_in_the_log) (simp add: plain_details_def logout_event_def MAX_STR_DIGITS_def nat_text_step)

lemma paged_export_is_the_log_witness:
  "export_lines (float_repr counting_env) (\<lambda>i. [first_row ''{}''] @ (if i = 0 then [] else [(first_row ''{}'')\<lparr>rw_id := 2\<rparr>])) 0 0 1 =
     export_line (float_repr counting_env) (first_row ''{}'') @ [char_of (10::nat)]"
proof -
  let ?t = "[first_row ''{}'']"
  have "export_lines (float_repr counting_env) (\<lambda>i. ?t @ (if i = 0 then [] else [(first_row ''{}'')\<lparr>rw_id := 2\<rparr>])) 0 0 (fst (audit_tail ?t)) =
      concat (map (\<lambda>l. l @ [char_of (10::nat)]) (fst (export_ndjson (float_repr counting_env) ?t)))"
    by (rule conjunct1 [OF paged_export_is_the_log]) (auto simp: first_row_def)
  then show ?thesis
    by (simp add: audit_tail_def audit_all_def export_ndjson_def Let_def) (simp add: first_row_def)
qed


text \<open>A digest that tells the first of three rows from the others.\<close>

definition first_env :: audit_env where
  "first_env = counting_env\<lparr>sha256 := (\<lambda>bs. if bs = utf8_bytes (GENESIS_HASH @ canonical (\<lambda>_. ''0.5'') (event_entry (logout_event None) 1)) then 1 else 0)\<rparr>"

lemma hexdigest_one: "hexdigest 1 \<noteq> GENESIS_HASH"
proof
  have digits: "hex_text 64 1 = hex_text 63 0 @ [hex_digit 1]"
    using hex_text.simps(2) [of 63 1] by simp
  assume "hexdigest 1 = GENESIS_HASH"
  then have "last (hex_text 64 1) = CHR ''0''"
    by (simp add: hexdigest_def GENESIS_HASH_def)
  then have "code (hex_digit 1) = code CHR ''0''"
    unfolding digits by simp
  then show False
    by (simp add: hex_digit_def code_def)
qed

lemma prune_can_break_the_chain_witness:
  "\<exists>t3. t3 = audit_run first_env (Some \<lparr>index_key = [], pepper_key = []\<rparr>)
      [Write (logout_event None), Write ((logout_event None)\<lparr>ae_ts := Finite 0\<rparr>), Write (logout_event None)] \<and>
    map_sum id (\<lambda>(t', n). (n, verify_rows first_env (Some \<lparr>index_key = [], pepper_key = []\<rparr>) None (audit_all t'))) (prune_audit t3 86401 (1 / 4)) =
    Inr (1, Inr (broken 1 3 ''prev_hash does not match previous entry_hash'' (hexdigest 1)))"
proof -
  let ?v = "\<lparr>index_key = [], pepper_key = []\<rparr>" and ?a = "logout_event None" and ?b = "(logout_event None)\<lparr>ae_ts := Finite 0\<rparr>"
  have known: "ae_action ?b \<in> set ACTIONS" "ae_outcome ?b \<in> set OUTCOMES"
    using logout_known by (simp_all add: logout_event_def)
  obtain t1 h1 where w1: "write_event first_env (Some ?v) [] ?a = Inr (t1, h1)"
    using write_logout [of first_env ?v "[]" None] by (elim exE) simp
  obtain t2 h2 where w2: "write_event first_env (Some ?v) t1 ?b = Inr (t2, h2)"
    using known next_id_new [of t1]
    by (simp add: write_event_def audit_insert_def entry_mac_def current_def Let_def event_entry_def logout_event_def)
  obtain t3 h3 where w3: "write_event first_env (Some ?v) t2 ?a = Inr (t3, h3)"
    using write_logout [of first_env ?v t2 None] by (elim exE) simp
  have frepr: "float_repr first_env = (\<lambda>_. ''0.5'')"
    by (simp add: first_env_def counting_env_def)
  have h1: "h1 = hexdigest 1" and t1: "audit_last_hash t1 = h1"
    using w1 by (auto elim!: write_event_row simp: compute_hash_def first_env_def counting_env_def audit_last_hash_def audit_next_id_def audit_all_def)
  have "utf8_bytes (hexdigest 1 @ c) \<noteq> utf8_bytes (GENESIS_HASH @ d)" for c d
    using utf8_inject [of "hexdigest 1 @ c" "GENESIS_HASH @ d"] hexdigest_one by (auto simp: GENESIS_HASH_def)
  then have "h2 = hexdigest 0"
    using w2 by (auto elim!: write_event_row simp: compute_hash_def first_env_def t1 h1)
  then have "h1 \<noteq> h2"
    using hexdigest_inject [of 1 0] by (auto simp: h1)
  have plain: "plain_details first_env ?a" "plain_details first_env ?b"
    by (simp_all add: plain_details_def logout_event_def)
  have "map_sum id (\<lambda>(t', n). (n, verify_rows first_env (Some ?v) None (audit_all t'))) (prune_audit t3 86401 (1 / 4)) =
      Inr (1, Inr (broken 1 3 ''prev_hash does not match previous entry_hash'' h1))"
    by (rule prune_can_break_the_chain [OF w1 w2 w3 plain plain(1) _ _ _ _ \<open>h1 \<noteq> h2\<close>]) (simp_all add: logout_event_def)
  moreover have "t3 = audit_run first_env (Some ?v) [Write ?a, Write ?b, Write ?a]"
    by (simp add: audit_run_def w1 w2 w3)
  ultimately show ?thesis
    unfolding h1 by blast
qed

end
