(* ===== verification/Perimeter.thy ===== *)
theory Perimeter
  imports Login Governance Rate_Limit Audit_Chain
begin

text \<open>
  The HTTP security boundary, \<open>api/perimeter.py\<close>, over the parts it calls: the identity of
  \<open>Login\<close>, the limiter, the governance cache, the capability resolver and the audit log. A request
  is what the perimeter reads of it. The library's part is \<open>netloc\<close>, the network location of a URL
  (\<open>None\<close> where \<open>urlsplit\<close> raises), and the text of a policy's fault in an audit row,
  \<open>fault_text\<close>. What is refused is an HTTP status; what raises is an error of its own.
\<close>

definition MUTATING :: "string list" where
  "MUTATING = [''POST'', ''PUT'', ''PATCH'', ''DELETE'']"

definition BOOTSTRAP_ALLOWED :: "route list" where
  "BOOTSTRAP_ALLOWED = [(''POST'', ''/api/logout''), (''GET'', ''/api/me''), (''POST'', ''/api/password'')]"

definition DENIED_ACTION :: "(capability \<times> string) list" where
  "DENIED_ACTION = [
     (''quarantine.read'', ''quarantine.read''), (''audit.read'', ''audit.read''),
     (''audit.export'', ''audit.export''), (''audit.prune'', ''prune.manual''),
     (''users.manage'', ''user.update''), (''tokens.manage'', ''token.create''),
     (''config.read'', ''config.change''), (''config.write'', ''config.change''),
     (''scorer.preview'', ''scorer.preview''), (''scorer.write'', ''scorer.config.update''),
     (''rbac.read'', ''rbac.policy.update''), (''rbac.write'', ''rbac.policy.update''),
     (''scope.read'', ''scope.policy.update''), (''scope.write'', ''scope.policy.update''),
     (''secrets.read'', ''noc.secret.read''), (''secrets.write'', ''noc.secret.update''),
     (''secrets.reveal'', ''noc.secret.reveal''), (''secrets.grants'', ''noc.grant.change''),
     (''agents.manage'', ''noc.agent.update'')]"

record http_request =
  hq_method :: string
  hq_path :: string
  hq_cookie :: "string option"
  hq_authorization :: string
  hq_origin :: "string option"
  hq_referer :: "string option"
  hq_host :: "string option"
  hq_client :: "string option"
  hq_ip :: string
  hq_in_process :: bool
  hq_time :: real
  hq_monotonic :: real

record perimeter_lib =
  pl_env :: audit_env
  pl_vault :: "vault option"
  pl_too_deep :: "string \<Rightarrow> bool"
  pl_netloc :: "string \<Rightarrow> string option"
  pl_fault_text :: "policy_reason option \<Rightarrow> string"

record perimeter_state =
  pm_auth :: auth_store
  pm_limiter :: rate_limiter
  pm_policies :: governance_store
  pm_governance :: governance
  pm_audit :: audit_log

datatype perimeter_error = Http nat string | Policy_Raised reader_error | Audit_Raised audit_error | Url_Raised

text \<open>\<open>a or b\<close> on headers: an empty one counts as none.\<close>

fun or_header :: "string option \<Rightarrow> string option \<Rightarrow> string option" where
  "or_header (Some (c # s)) b = Some (c # s)"
| "or_header _ b = b"

definition csrf_ok :: "perimeter_lib \<Rightarrow> http_request \<Rightarrow> perimeter_error + bool" where
  "csrf_ok lib rq =
     (case or_header (hq_origin rq) (hq_referer rq) of
        None \<Rightarrow> Inr False
      | Some origin \<Rightarrow>
          if origin = [] then Inr False
          else (case pl_netloc lib origin of
             None \<Rightarrow> Inl Url_Raised
           | Some loc \<Rightarrow> Inr (hq_host rq = Some loc \<and> hq_client rq = Some ''ui'')))"

definition bearer_of :: "http_request \<Rightarrow> string" where
  "bearer_of rq = (if starts_with ''Bearer '' (hq_authorization rq) then strip (drop 7 (hq_authorization rq)) else [])"

definition resolve_identity :: "perimeter_lib \<Rightarrow> auth_store \<Rightarrow> http_request \<Rightarrow> bool \<Rightarrow> auth_store \<times> principal option" where
  "resolve_identity lib st rq touch =
     (if bearer_of rq \<noteq> [] then resolve_bearer (sha256 (pl_env lib)) st (bearer_of rq) (hq_time rq) touch
      else (case hq_cookie rq of
        None \<Rightarrow> (st, None)
      | Some cookie \<Rightarrow>
          if cookie = [] then (st, None) else resolve_session (sha256 (pl_env lib)) st cookie (hq_time rq) touch))"

definition audit_row_of :: "http_request \<Rightarrow> principal option \<Rightarrow> string \<Rightarrow> string \<Rightarrow> string option \<Rightarrow> string \<Rightarrow> string \<Rightarrow>
    (string \<times> json) list option \<Rightarrow> audit_event" where
  "audit_row_of rq p action outcome actor object_type object_id details =
     \<lparr>ae_ts = Finite (hq_time rq), ae_actor = (case actor of Some a \<Rightarrow> a | None \<Rightarrow> (case p of Some q \<Rightarrow> pn_actor q | None \<Rightarrow> ''-'')),
      ae_role = map_option pn_role p, ae_source_ip = Some (hq_ip rq), ae_action = action, ae_outcome = outcome,
      ae_object_type = Some object_type, ae_object_id = Some object_id, ae_details = details\<rparr>"

definition audited :: "perimeter_lib \<Rightarrow> audit_log \<Rightarrow> audit_event \<Rightarrow> perimeter_error + audit_log" where
  "audited lib t ev =
     (case write_event (pl_env lib) (pl_vault lib) t ev of Inl e \<Rightarrow> Inl (Audit_Raised e) | Inr (t', _) \<Rightarrow> Inr t')"

fun kind_text :: "kind \<Rightarrow> string" where
  "kind_text Rbac_Kind = ''rbac''"
| "kind_text Scope_Kind = ''scope''"

text \<open>Each fallback is taken off the list before its row is written.\<close>

fun flush_fallbacks :: "perimeter_lib \<Rightarrow> http_request \<Rightarrow> audit_log \<Rightarrow> (kind \<times> policy_reason option) list \<Rightarrow>
    audit_log \<times> (kind \<times> policy_reason option) list \<times> perimeter_error option" where
  "flush_fallbacks lib rq t [] = (t, [], None)"
| "flush_fallbacks lib rq t ((k, reason) # pending) =
     (case audited lib t (audit_row_of rq None ''governance.fallback'' ''error'' (Some ''system'') ''governance_policy'' (kind_text k)
             (Some [(''kind'', JStr (kind_text k)), (''reason'', JStr (pl_fault_text lib reason))])) of
        Inl e \<Rightarrow> (t, pending, Some e)
      | Inr t' \<Rightarrow> flush_fallbacks lib rq t' pending)"

definition cookie_mutation :: "http_request \<Rightarrow> bool" where
  "cookie_mutation rq \<longleftrightarrow>
     hq_method rq \<in> set MUTATING \<and> (case hq_cookie rq of None \<Rightarrow> False | Some c \<Rightarrow> c \<noteq> []) \<and>
     \<not> starts_with ''Bearer '' (hq_authorization rq)"

text \<open>The fifth step: the policies, the fallbacks, the capability, the audited denial.\<close>

definition denied :: "perimeter_lib \<Rightarrow> perimeter_state \<Rightarrow> http_request \<Rightarrow> principal \<Rightarrow> capability option \<Rightarrow> perimeter_state \<times> perimeter_error" where
  "denied lib s rq p permission =
     (case permission of
        None \<Rightarrow> (s, Http 403 ''insufficient role'')
      | Some capability \<Rightarrow>
          if capability \<in> set AUDITED_DENIED_PERMISSIONS then
            (case audited lib (pm_audit s) (audit_row_of rq (Some p) (case map_of DENIED_ACTION capability of Some a \<Rightarrow> a | None \<Rightarrow> [])
                    ''denied'' None ''route'' (hq_method rq @ CHR '' '' # hq_path rq) None) of
               Inl e \<Rightarrow> (s, e)
             | Inr t \<Rightarrow> (s\<lparr>pm_audit := t\<rparr>, Http 403 ''insufficient role''))
          else (s, Http 403 ''insufficient role''))"

definition authorize :: "perimeter_lib \<Rightarrow> perimeter_state \<Rightarrow> http_request \<Rightarrow> principal \<Rightarrow>
    perimeter_state \<times> (perimeter_error + (principal \<times> capability set))" where
  "authorize lib s rq p =
     (case load_governance (pl_too_deep lib) (float_read (pl_env lib)) (pm_policies s) (pm_governance s) of
        (g, Some e) \<Rightarrow> (s\<lparr>pm_governance := g\<rparr>, Inl (Policy_Raised e))
      | (g, None) \<Rightarrow>
          (case flush_fallbacks lib rq (pm_audit s) (gv_pending g) of
             (t, pending, Some e) \<Rightarrow> (s\<lparr>pm_governance := g\<lparr>gv_pending := pending\<rparr>, pm_audit := t\<rparr>, Inl e)
           | (t, pending, None) \<Rightarrow>
               (let s1 = s\<lparr>pm_governance := g\<lparr>gv_pending := pending\<rparr>, pm_audit := t\<rparr>;
                    capabilities = resolve_capabilities (pn_role p) (principal_ref p) (gv_capability g);
                    permission = permission_for (hq_method rq) (hq_path rq)
                in if (case permission of None \<Rightarrow> True | Some c \<Rightarrow> c \<notin> capabilities)
                   then (case denied lib s1 rq p permission of (s2, e) \<Rightarrow> (s2, Inl e))
                   else (s1, Inr (p, capabilities)))))"

definition security :: "perimeter_lib \<Rightarrow> perimeter_state \<Rightarrow> http_request \<Rightarrow>
    perimeter_state \<times> (perimeter_error + (principal \<times> capability set))" where
  "security lib s rq =
     (case (if cookie_mutation rq then csrf_ok lib rq else Inr True) of
        Inl e \<Rightarrow> (s, Inl e)
      | Inr False \<Rightarrow> (s, Inl (Http 403 ''CSRF check failed''))
      | Inr True \<Rightarrow>
          (case resolve_identity lib (pm_auth s) rq True of
             (auth, None) \<Rightarrow> (s\<lparr>pm_auth := auth\<rparr>, Inl (Http 401 ''authentication required''))
           | (auth, Some p) \<Rightarrow>
               (let s1 = s\<lparr>pm_auth := auth\<rparr>
                in if pn_must_change p \<and> (hq_method rq, hq_path rq) \<notin> set BOOTSTRAP_ALLOWED
                   then (s1, Inl (Http 403 ''password change required''))
                   else (let (limiter, ok) = (if hq_in_process rq then (pm_limiter s1, True) else allow (pm_limiter s1) (hq_ip rq) (hq_monotonic rq));
                             s2 = s1\<lparr>pm_limiter := limiter\<rparr>
                         in if \<not> ok then (s2, Inl (Http 429 ''rate limit exceeded''))
                            else authorize lib s2 rq p))))"

text \<open>The scope of a principal; \<open>nes\<close> is the inventory.\<close>

definition scope_for :: "('a, 'n) address_lib \<Rightarrow> perimeter_state \<Rightarrow> ne_row list \<Rightarrow> principal \<Rightarrow> scope" where
  "scope_for lib s nes p =
     (if \<not> is_scopable (pn_role p) \<or> gv_scope (pm_governance s) = None then UNRESTRICTED
      else if sp_malformed (the (gv_scope (pm_governance s))) then DENY_ALL
      else visible_nes lib (pn_role p) (principal_ref p) (gv_scope (pm_governance s)) nes)"

text \<open>The members of a situation are its alarms, each with the element it is on.\<close>

definition situation_in_scope :: "(int \<times> int option) list \<Rightarrow> scope \<Rightarrow> bool" where
  "situation_in_scope members s \<longleftrightarrow> unrestricted s \<or> (\<exists>m \<in> set members. allows_ne s (snd m))"

definition hidden_member_ids :: "(int \<times> int option) list \<Rightarrow> scope \<Rightarrow> int set" where
  "hidden_member_ids members s =
     (if unrestricted s then {} else set (map fst (filter (\<lambda>m. \<not> allows_ne s (snd m)) members)))"

section \<open>What passes\<close>

lemma authorize_passes:
  assumes "authorize lib s rq p = (s', Inr (q, capabilities))"
  shows "q = p \<and> pm_auth s' = pm_auth s \<and> capabilities = resolve_capabilities (pn_role p) (principal_ref p) (gv_capability (pm_governance s')) \<and>
    (\<exists>c. permission_for (hq_method rq) (hq_path rq) = Some c \<and> c \<in> capabilities)"
  using assms
  by (auto simp: authorize_def Let_def split: prod.splits option.splits if_splits)


section \<open>Denials\<close>

lemma denied_actions_known:
  assumes "c \<in> set AUDITED_DENIED_PERMISSIONS"
  obtains a where "map_of DENIED_ACTION c = Some a" and "a \<in> set ACTIONS"
proof -
  have "list_all (\<lambda>c. case map_of DENIED_ACTION c of None \<Rightarrow> False | Some a \<Rightarrow> a \<in> set ACTIONS) AUDITED_DENIED_PERMISSIONS"
    by (simp add: AUDITED_DENIED_PERMISSIONS_def DENIED_ACTION_def ACTIONS_def NOC_ACTIONS_def)
  with assms that show thesis
    by (auto simp: list_all_iff split: option.splits)
qed


text \<open>With a key loaded, an event of the catalogue is appended.\<close>

lemma audited_known:
  assumes "pl_vault lib = Some v" and "ae_action ev \<in> set ACTIONS" and "ae_outcome ev \<in> set OUTCOMES"
  obtains r where "audited lib t ev = Inr (t @ [r])" and "rw_action r = ae_action ev" and "rw_outcome r = ae_outcome ev"
    and "rw_actor r = ae_actor ev" and "rw_object_id r = ae_object_id ev"
  using assms(2,3) next_id_new [of t]
  by (simp add: audited_def assms(1) write_event_def audit_insert_def entry_mac_def current_def Let_def event_entry_def)

lemma authorize_denied:
  assumes v: "pl_vault lib = Some v"
    and a: "authorize lib s rq p = (s', Inl (Http 403 m))"
    and c: "permission_for (hq_method rq) (hq_path rq) = Some c" "c \<in> set AUDITED_DENIED_PERMISSIONS"
  shows "\<exists>t r. pm_audit s' = t @ [r] \<and> Some (rw_action r) = map_of DENIED_ACTION c \<and> rw_outcome r = ''denied'' \<and>
    rw_actor r = pn_actor p \<and> rw_object_id r = Some (hq_method rq @ CHR '' '' # hq_path rq)"
proof -
  obtain action where action: "map_of DENIED_ACTION c = Some action" "action \<in> set ACTIONS"
    using c(2) by (rule denied_actions_known)
  have flush: "flush_fallbacks lib rq t pending = (t', pending', Some (Http n m)) \<Longrightarrow> False" for t pending t' pending' n m
    by (induction lib rq t pending arbitrary: t' pending' rule: flush_fallbacks.induct)
      (auto simp: audited_def split: sum.splits)
  obtain s1 where s1: "denied lib s1 rq p (Some c) = (s', Http 403 m)"
    using a c(1) by (auto simp: authorize_def Let_def split: prod.splits option.splits if_splits dest: flush)
  let ?ev = "audit_row_of rq (Some p) action ''denied'' None ''route'' (hq_method rq @ CHR '' '' # hq_path rq) None"
  have "ae_action ?ev \<in> set ACTIONS" "ae_outcome ?ev \<in> set OUTCOMES"
    using action(2) by (simp_all add: audit_row_of_def OUTCOMES_def)
  then obtain r where r: "audited lib (pm_audit s1) ?ev = Inr (pm_audit s1 @ [r])" "rw_action r = action" "rw_outcome r = ''denied''"
    "rw_actor r = pn_actor p" "rw_object_id r = Some (hq_method rq @ CHR '' '' # hq_path rq)"
    using audited_known [OF v, of ?ev "pm_audit s1"] by (auto simp: audit_row_of_def)
  then have "pm_audit s' = pm_audit s1 @ [r]"
    using s1 c(2) action(1) by (auto simp: denied_def)
  with r action(1) show ?thesis
    by auto
qed

text \<open>A request refused with 403 after its rate was counted, for a capability whose denials are
  audited, has left a row in the log before the refusal goes out: the catalogue's action for the
  capability, the outcome denied, the caller's name and the route.\<close>

theorem sensitive_denial_is_audited:
  assumes "pl_vault lib = Some v"
    and "security lib s rq = (s', Inl (Http 403 ''insufficient role''))"
    and "permission_for (hq_method rq) (hq_path rq) = Some c" and "c \<in> set AUDITED_DENIED_PERMISSIONS"
  shows "\<exists>t r p auth. pm_audit s' = t @ [r] \<and> resolve_identity lib (pm_auth s) rq True = (auth, Some p) \<and>
    Some (rw_action r) = map_of DENIED_ACTION c \<and> rw_outcome r = ''denied'' \<and> rw_actor r = pn_actor p \<and>
    rw_object_id r = Some (hq_method rq @ CHR '' '' # hq_path rq)"
proof -
  obtain auth p s2 where "resolve_identity lib (pm_auth s) rq True = (auth, Some p)"
    and "authorize lib s2 rq p = (s', Inl (Http 403 ''insufficient role''))"
    using assms(2) by (fastforce simp: security_def csrf_ok_def Let_def split: sum.splits bool.splits prod.splits option.splits if_splits)
  with authorize_denied [OF assms(1) _ assms(3,4)] show ?thesis
    by fastforce
qed

section \<open>An empty bearer\<close>

text \<open>A mutation that the cookie authenticates escapes the CSRF check when it also carries a
  \<open>Bearer\<close> header with nothing but spaces after it: the check takes the header for a token, the
  identity takes it for none, and the request is authorized as the cookie's person without any origin.\<close>

theorem empty_bearer_skips_csrf:
  assumes "hq_method rq \<in> set MUTATING" and "csrf_ok lib rq = Inr False"
    and "starts_with ''Bearer '' (hq_authorization rq)" and "strip (drop 7 (hq_authorization rq)) = []"
    and "hq_cookie rq = Some cookie" and "cookie \<noteq> []"
    and "resolve_session (sha256 (pl_env lib)) (pm_auth s) cookie (hq_time rq) True = (auth, Some p)"
    and "\<not> pn_must_change p" and "allow (pm_limiter s) (hq_ip rq) (hq_monotonic rq) = (limiter, True)" and "\<not> hq_in_process rq"
  shows "security lib s rq = authorize lib (s\<lparr>pm_auth := auth, pm_limiter := limiter\<rparr>) rq p \<and>
    security lib s (rq\<lparr>hq_authorization := []\<rparr>) = (s, Inl (Http 403 ''CSRF check failed''))"
proof -
  have "csrf_ok lib (rq\<lparr>hq_authorization := []\<rparr>) = csrf_ok lib rq"
    by (simp add: csrf_ok_def split: option.split)
  then show ?thesis
    using assms by (simp add: security_def cookie_mutation_def resolve_identity_def bearer_of_def starts_with_def Let_def)
qed

section \<open>Scope\<close>

text \<open>The shortcuts of the scope decision are the decision.\<close>

lemma scope_for_is_visible_nes:
  "scope_for lib s nes p = visible_nes lib (pn_role p) (principal_ref p) (gv_scope (pm_governance s)) nes"
  by (auto simp: scope_for_def is_scopable_def visible_nes_def split: option.splits)

text \<open>Reading and writing agree on what a caller may touch: a situation is in scope exactly when not
  all of its alarms are hidden from the caller, and the hidden ones are those on elements its
  visibility policy does not show it.\<close>

theorem hidden_members_are_the_unseen:
  assumes "distinct (map fst members)" and "members \<noteq> []"
  shows "(situation_in_scope members (scope_for lib s nes p) \<longleftrightarrow> hidden_member_ids members (scope_for lib s nes p) \<noteq> set (map fst members)) \<and>
    hidden_member_ids members (scope_for lib s nes p) =
      {a. \<exists>n. (a, n) \<in> set members \<and>
        \<not> allows_ne (visible_nes lib (pn_role p) (principal_ref p) (gv_scope (pm_governance s)) nes) n}"
proof -
  let ?s = "visible_nes lib (pn_role p) (principal_ref p) (gv_scope (pm_governance s)) nes"
  have hidden: "hidden_member_ids members ?s = {a. \<exists>n. (a, n) \<in> set members \<and> \<not> allows_ne ?s n}"
    by (force simp: hidden_member_ids_def allows_ne_def)
  have "(\<exists>m \<in> set members. allows_ne ?s (snd m)) \<longleftrightarrow> {a. \<exists>n. (a, n) \<in> set members \<and> \<not> allows_ne ?s n} \<noteq> set (map fst members)"
  proof
    assume "\<exists>m \<in> set members. allows_ne ?s (snd m)"
    then obtain a n where m: "(a, n) \<in> set members" "allows_ne ?s n"
      by force
    then have "a \<notin> {a. \<exists>n. (a, n) \<in> set members \<and> \<not> allows_ne ?s n}"
      using eq_key_imp_eq_value [OF assms(1) m(1)] by blast
    with m(1) show "{a. \<exists>n. (a, n) \<in> set members \<and> \<not> allows_ne ?s n} \<noteq> set (map fst members)"
      by force
  next
    assume "{a. \<exists>n. (a, n) \<in> set members \<and> \<not> allows_ne ?s n} \<noteq> set (map fst members)"
    then show "\<exists>m \<in> set members. allows_ne ?s (snd m)"
      by force
  qed
  moreover have "unrestricted ?s \<Longrightarrow> \<exists>m \<in> set members. allows_ne ?s (snd m)"
    using assms(2) by (cases members) (auto simp: allows_ne_def)
  ultimately show ?thesis
    unfolding scope_for_is_visible_nes hidden situation_in_scope_def by blast
qed


section \<open>The trail of the perimeter\<close>

text \<open>A log whose rows are no newer than \<open>now\<close>.\<close>

definition trail_until :: "perimeter_lib \<Rightarrow> vault \<Rightarrow> real \<Rightarrow> audit_log \<Rightarrow> bool" where
  "trail_until lib v now t \<longleftrightarrow> good_log (pl_env lib) v t \<and> (\<forall>r \<in> set t. not_later (rw_ts r) (Finite now))"

lemma audited_trail:
  assumes "pl_vault lib = Some v" and "trail_until lib v now t" and "audited lib t ev = Inr t'" and "ae_ts ev = Finite now"
    and "plain_details (pl_env lib) ev"
  shows "trail_until lib v now t'"
proof -
  obtain h where w: "write_event (pl_env lib) (Some v) t ev = Inr (t', h)"
    using assms(1,3) by (auto simp: audited_def split: sum.splits)
  then obtain r where "t' = t @ [r]" "rw_ts r = ae_ts ev"
    by (rule write_event_row)
  then show ?thesis
    using assms(2,4,5) write_keeps_good [OF _ assms(5) _ w] by (auto simp: trail_until_def)
qed

lemma flush_trail:
  assumes "pl_vault lib = Some v" and "trail_until lib v (hq_time rq) t" and "flush_fallbacks lib rq t pending = (t', pending', e)"
  shows "trail_until lib v (hq_time rq) t'"
  using assms(2,3)
proof (induction pending arbitrary: t)
  case (Cons x pending)
  obtain k reason where x: "x = (k, reason)"
    by (cases x)
  let ?ev = "audit_row_of rq None ''governance.fallback'' ''error'' (Some ''system'') ''governance_policy'' (kind_text k)
      (Some [(''kind'', JStr (kind_text k)), (''reason'', JStr (pl_fault_text lib reason))])"
  have ev: "ae_ts ?ev = Finite (hq_time rq)" "plain_details (pl_env lib) ?ev"
    by (simp_all add: audit_row_of_def plain_details_def)
  show ?case
  proof (cases "audited lib t ?ev")
    case (Inl e)
    then show ?thesis
      using Cons.prems by (auto simp: x)
  next
    case (Inr t1)
    have "trail_until lib v (hq_time rq) t1"
      using audited_trail [OF assms(1) Cons.prems(1) Inr ev] .
    then show ?thesis
      using Cons.IH [of t1] Cons.prems(2) Inr by (simp add: x)
  qed
qed simp

lemma denied_trail:
  assumes "pl_vault lib = Some v" and "trail_until lib v (hq_time rq) (pm_audit s)"
  shows "trail_until lib v (hq_time rq) (pm_audit (fst (denied lib s rq p permission)))"
proof -
  have "ae_ts (audit_row_of rq (Some p) a ''denied'' None ''route'' b None) = Finite (hq_time rq)"
    "plain_details (pl_env lib) (audit_row_of rq (Some p) a ''denied'' None ''route'' b None)" for a b
    by (simp_all add: audit_row_of_def plain_details_def)
  then show ?thesis
    using assms audited_trail [OF assms] by (auto simp: denied_def split: option.split sum.split)
qed

lemma authorize_trail:
  assumes "pl_vault lib = Some v" and "trail_until lib v (hq_time rq) (pm_audit s)"
  shows "trail_until lib v (hq_time rq) (pm_audit (fst (authorize lib s rq p)))"
proof -
  obtain g e where g: "load_governance (pl_too_deep lib) (float_read (pl_env lib)) (pm_policies s) (pm_governance s) = (g, e)"
    by (cases "load_governance (pl_too_deep lib) (float_read (pl_env lib)) (pm_policies s) (pm_governance s)")
  obtain t pending e' where f: "flush_fallbacks lib rq (pm_audit s) (gv_pending g) = (t, pending, e')"
    by (cases "flush_fallbacks lib rq (pm_audit s) (gv_pending g)")
  have t: "trail_until lib v (hq_time rq) t"
    using flush_trail [OF assms f] .
  then have "trail_until lib v (hq_time rq) (pm_audit (fst (denied lib (s\<lparr>pm_governance := g\<lparr>gv_pending := pending\<rparr>, pm_audit := t\<rparr>) rq p permission)))" for permission
    by (intro denied_trail [OF assms(1)]) simp
  then show ?thesis
    using assms(2) t by (auto simp: authorize_def g f Let_def split: option.split prod.split) (metis fst_conv)+
qed

lemma security_trail:
  assumes "pl_vault lib = Some v" and "trail_until lib v (hq_time rq) (pm_audit s)"
  shows "trail_until lib v (hq_time rq) (pm_audit (fst (security lib s rq)))"
proof -
  have "trail_until lib v (hq_time rq) (pm_audit (fst (authorize lib (s\<lparr>pm_auth := auth, pm_limiter := l\<rparr>) rq p)))" for auth l p
    using assms by (intro authorize_trail) simp_all
  moreover have "s\<lparr>pm_auth := auth\<rparr> = s\<lparr>pm_auth := auth, pm_limiter := pm_limiter s\<rparr>" for auth
    by simp
  ultimately have a: "trail_until lib v (hq_time rq) (pm_audit (fst (authorize lib (s\<lparr>pm_auth := auth\<rparr>) rq p)))" for auth p
    by metis
  have b: "trail_until lib v (hq_time rq) (pm_audit (fst (authorize lib (s\<lparr>pm_auth := auth, pm_limiter := l\<rparr>) rq p)))" for auth l p
    using assms by (intro authorize_trail) simp_all
  show ?thesis
    using assms(2) a b by (auto simp: security_def Let_def split: sum.split bool.split prod.split option.split)
qed

lemma trail_later: "trail_until lib v now t \<Longrightarrow> now \<le> later \<Longrightarrow> trail_until lib v later t"
proof -
  have "not_later x (Finite now) \<Longrightarrow> now \<le> later \<Longrightarrow> not_later x (Finite later)" for x
    by (cases x) auto
  then show "trail_until lib v now t \<Longrightarrow> now \<le> later \<Longrightarrow> trail_until lib v later t"
    by (auto simp: trail_until_def)
qed

text \<open>However many requests the perimeter answers, whatever they carry, its trail of denials and
  fallbacks verifies from end to end, as long as the clock does not step back.\<close>

theorem perimeter_trail_verifies:
  assumes "pl_vault lib = Some v" and "pm_audit s = []" and "sorted (map hq_time rqs)"
  shows "verify_chain (pl_env lib) (Some v) (Inr sealed_from) (pm_audit (foldl (\<lambda>s rq. fst (security lib s rq)) s rqs)) =
    Inr (all_right (length (pm_audit (foldl (\<lambda>s rq. fst (security lib s rq)) s rqs)))
      (audit_last_hash (pm_audit (foldl (\<lambda>s rq. fst (security lib s rq)) s rqs))))"
proof -
  have run: "trail_until lib v now (pm_audit s) \<Longrightarrow> sorted (now # map hq_time rqs) \<Longrightarrow>
      good_log (pl_env lib) v (pm_audit (foldl (\<lambda>s rq. fst (security lib s rq)) s rqs))" for now s rqs
  proof (induction rqs arbitrary: now s)
    case Nil
    then show ?case
      by (simp add: trail_until_def)
  next
    case (Cons rq rqs)
    have "trail_until lib v (hq_time rq) (pm_audit s)"
      using Cons.prems by (auto intro: trail_later)
    then have "trail_until lib v (hq_time rq) (pm_audit (fst (security lib s rq)))"
      by (rule security_trail [OF assms(1)])
    with Cons.IH [of "hq_time rq"] Cons.prems(2) show ?case
      by simp
  qed
  have "trail_until lib v now []" for now
    by (simp add: trail_until_def good_log_def chained_log_def genesis_right_def)
  moreover have "sorted (hd (map hq_time rqs) # map hq_time rqs)"
    using assms(3) by (cases rqs) auto
  ultimately have "good_log (pl_env lib) v (pm_audit (foldl (\<lambda>s rq. fst (security lib s rq)) s rqs))"
    using assms(2) by (intro run [of "hd (map hq_time rqs)"]) simp_all
  then show ?thesis
    by (simp add: verify_chain_def good_log_verifies)
qed

section \<open>Concrete requests\<close>

definition plain_lib :: perimeter_lib where
  "plain_lib = \<lparr>pl_env = counting_env, pl_vault = Some \<lparr>index_key = [], pepper_key = []\<rparr>, pl_too_deep = (\<lambda>_. False),
     pl_netloc = Some, pl_fault_text = (\<lambda>_. [])\<rparr>"

definition plain_state :: perimeter_state where
  "plain_state = \<lparr>pm_auth = \<lparr>as_users = [root_user], as_sessions = [\<lparr>ss_hash = hash_token (sha256 counting_env) ''c'', ss_user = 1, ss_created = 0,
        ss_last_seen = 0, ss_idle = 1800, ss_absolute = 43200, ss_ip = None\<rparr>],
        as_tokens = [\<lparr>tk_id = 1, tk_hash = hash_token (sha256 counting_env) ''tt'', tk_name = ''bot'', tk_role = ''viewer'', tk_revoked = False, tk_last_used = Some 0\<rparr>],
        as_paused = []\<rparr>,
     pm_limiter = new_limiter 30 10, pm_policies = empty_store, pm_governance = no_governance, pm_audit = []\<rparr>"

definition plain_request :: "string \<Rightarrow> string \<Rightarrow> string \<Rightarrow> string option \<Rightarrow> http_request" where
  "plain_request meth path authorization cookie = \<lparr>hq_method = meth, hq_path = path, hq_cookie = cookie,
     hq_authorization = authorization, hq_origin = None, hq_referer = None, hq_host = None, hq_client = None, hq_ip = ''ip'',
     hq_in_process = False, hq_time = 0, hq_monotonic = 0\<rparr>"

lemma plain_load: "load_governance too_deep fread empty_store no_governance = (no_governance, None)"
  by (simp add: load_governance_def load_kind_def empty_store_def no_governance_def)

lemma plain_allow: "\<exists>rl. allow (new_limiter 30 10) ''ip'' 0 = (rl, True)"
  by (simp add: allow_def new_limiter_def refilled_def Let_def)

lemma bot_identity:
  "resolve_identity plain_lib (pm_auth plain_state) (plain_request m path ''Bearer tt'' None) True =
     (pm_auth plain_state, Some \<lparr>pn_actor = ''bot'', pn_role = ''viewer'', pn_kind = Token_Principal, pn_user_id = None,
        pn_must_change = False, pn_token_id = Some 1\<rparr>)"
  by (simp add: resolve_identity_def bearer_of_def plain_request_def starts_with_def strip_def py_space_def code_def Let_def
      resolve_bearer_def get_token_def plain_state_def plain_lib_def TOUCH_EVERY_S_def)

definition bot_principal :: principal where
  "bot_principal = \<lparr>pn_actor = ''bot'', pn_role = ''viewer'', pn_kind = Token_Principal, pn_user_id = None, pn_must_change = False, pn_token_id = Some 1\<rparr>"

lemma bot_security:
  "\<exists>rl. security plain_lib plain_state (plain_request ''GET'' path ''Bearer tt'' None) =
     authorize plain_lib (plain_state\<lparr>pm_limiter := rl\<rparr>) (plain_request ''GET'' path ''Bearer tt'' None) bot_principal"
proof -
  obtain rl where rl: "allow (new_limiter 30 10) ''ip'' 0 = (rl, True)"
    using plain_allow by blast
  have "\<not> cookie_mutation (plain_request ''GET'' path ''Bearer tt'' None)"
    by (simp add: cookie_mutation_def plain_request_def)
  moreover have "pm_limiter plain_state = new_limiter 30 10" "hq_ip (plain_request ''GET'' path ''Bearer tt'' None) = ''ip''"
    "hq_monotonic (plain_request ''GET'' path ''Bearer tt'' None) = 0" "\<not> hq_in_process (plain_request ''GET'' path ''Bearer tt'' None)"
    by (simp_all add: plain_state_def plain_request_def)
  moreover have "plain_state\<lparr>pm_auth := pm_auth plain_state\<rparr> = plain_state"
    by simp
  ultimately show ?thesis
    using rl bot_identity [of "''GET''" path] by (auto simp: security_def bot_principal_def)
qed

lemma bot_authorized:
  "authorize plain_lib (plain_state\<lparr>pm_limiter := rl\<rparr>) (plain_request ''GET'' path ''Bearer tt'' None) bot_principal =
     (case permission_for ''GET'' path of
        Some c \<Rightarrow> if c \<in> ceiling_of ''viewer'' then (plain_state\<lparr>pm_limiter := rl\<rparr>, Inr (bot_principal, ceiling_of ''viewer''))
          else apsnd Inl (denied plain_lib (plain_state\<lparr>pm_limiter := rl\<rparr>) (plain_request ''GET'' path ''Bearer tt'' None) bot_principal (Some c))
      | None \<Rightarrow> apsnd Inl (denied plain_lib (plain_state\<lparr>pm_limiter := rl\<rparr>) (plain_request ''GET'' path ''Bearer tt'' None) bot_principal None))"
proof -
  have same: "plain_state\<lparr>pm_limiter := rl, pm_governance := no_governance\<lparr>gv_pending := []\<rparr>, pm_audit := []\<rparr> = plain_state\<lparr>pm_limiter := rl\<rparr>"
    by (simp add: plain_state_def no_governance_def)
  have "pm_governance plain_state = no_governance" "pm_policies plain_state = empty_store" "pm_audit plain_state = []"
    by (simp_all add: plain_state_def)
  moreover have "gv_pending no_governance = []" "gv_capability no_governance = None"
    by (simp_all add: no_governance_def)
  moreover have "resolve_capabilities (pn_role bot_principal) (principal_ref bot_principal) None = ceiling_of ''viewer''"
    by (simp add: resolve_capabilities_def bot_principal_def)
  moreover have "hq_method (plain_request ''GET'' path ''Bearer tt'' None) = ''GET''" "hq_path (plain_request ''GET'' path ''Bearer tt'' None) = path"
    by (simp_all add: plain_request_def)
  ultimately show ?thesis
    by (cases "permission_for ''GET'' path") (auto simp: authorize_def plain_load same Let_def split: prod.split)
qed


lemma viewers_read_no_audit: "''audit.read'' \<notin> ceiling_of ''viewer''"
proof
  assume "''audit.read'' \<in> ceiling_of ''viewer''"
  then obtain m where m: "(''audit.read'', m) \<in> set PERMISSIONS" "rank_at_least ''viewer'' m"
    by (auto simp: ceiling_role split: if_splits)
  from m(1) have "m = ''admin''"
    by (simp add: PERMISSIONS_def)
  with m(2) show False
    by (simp add: rank_at_least_def ROLE_RANK_def)
qed


lemma sensitive_denial_is_audited_witness:
  "\<exists>s' t r. security plain_lib plain_state (plain_request ''GET'' ''/api/audit'' ''Bearer tt'' None) = (s', Inl (Http 403 ''insufficient role'')) \<and>
    pm_audit s' = t @ [r] \<and> Some (rw_action r) = map_of DENIED_ACTION ''audit.read'' \<and> rw_outcome r = ''denied''"
proof -
  let ?rq = "plain_request ''GET'' ''/api/audit'' ''Bearer tt'' None"
  obtain rl where rl: "security plain_lib plain_state ?rq = authorize plain_lib (plain_state\<lparr>pm_limiter := rl\<rparr>) ?rq bot_principal"
    using bot_security by blast
  have route: "permission_for ''GET'' ''/api/audit'' = Some ''audit.read''"
    by (simp add: permission_for_def ROUTE_PERMISSIONS_def)
  have sensitive: "''audit.read'' \<in> set AUDITED_DENIED_PERMISSIONS"
    by (simp add: AUDITED_DENIED_PERMISSIONS_def)
  have key: "pl_vault plain_lib = Some \<lparr>index_key = [], pepper_key = []\<rparr>"
    by (simp add: plain_lib_def)
  obtain action where action: "map_of DENIED_ACTION ''audit.read'' = Some action" "action \<in> set ACTIONS"
    using sensitive by (rule denied_actions_known)
  let ?ev = "audit_row_of ?rq (Some bot_principal) action ''denied'' None ''route'' (hq_method ?rq @ CHR '' '' # hq_path ?rq) None"
  have "ae_action ?ev \<in> set ACTIONS" "ae_outcome ?ev \<in> set OUTCOMES"
    using action(2) by (simp_all add: audit_row_of_def OUTCOMES_def)
  then obtain q where "audited plain_lib (pm_audit (plain_state\<lparr>pm_limiter := rl\<rparr>)) ?ev = Inr (pm_audit (plain_state\<lparr>pm_limiter := rl\<rparr>) @ [q])"
    using audited_known [OF key, of ?ev] by metis
  then have out: "security plain_lib plain_state ?rq =
      (plain_state\<lparr>pm_limiter := rl, pm_audit := pm_audit (plain_state\<lparr>pm_limiter := rl\<rparr>) @ [q]\<rparr>, Inl (Http 403 ''insufficient role''))"
    by (simp add: rl bot_authorized route viewers_read_no_audit denied_def sensitive action(1))
  have "permission_for (hq_method ?rq) (hq_path ?rq) = Some ''audit.read''"
    using route by (simp add: plain_request_def)
  from sensitive_denial_is_audited [OF key out this sensitive] out show ?thesis
    by blast
qed

lemma empty_bearer_skips_csrf_witness:
  "\<exists>s2. security plain_lib plain_state (plain_request ''POST'' ''/api/logout'' (''Bearer '' @ [char_of (160::nat)]) (Some ''c'')) =
     authorize plain_lib s2 (plain_request ''POST'' ''/api/logout'' (''Bearer '' @ [char_of (160::nat)]) (Some ''c'')) (session_principal root_user)"
proof -
  let ?rq = "plain_request ''POST'' ''/api/logout'' (''Bearer '' @ [char_of (160::nat)]) (Some ''c'')"
  obtain rl where rl: "allow (new_limiter 30 10) ''ip'' 0 = (rl, True)"
    using plain_allow by blast
  have "csrf_ok plain_lib ?rq = Inr False"
    by (simp add: csrf_ok_def plain_request_def)
  moreover have "strip (drop 7 (hq_authorization ?rq)) = []" "starts_with ''Bearer '' (hq_authorization ?rq)" "hq_method ?rq \<in> set MUTATING"
    by (simp_all add: plain_request_def strip_def py_space_def starts_with_def MUTATING_def)
  moreover have "resolve_session (sha256 (pl_env plain_lib)) (pm_auth plain_state) ''c'' (hq_time ?rq) True =
      (pm_auth plain_state, Some (session_principal root_user))"
    by (simp add: plain_lib_def plain_state_def plain_request_def resolve_session_def get_session_def get_user_def root_user_def
        IDLE_TIMEOUT_S_def TOUCH_EVERY_S_def)
  moreover have "allow (pm_limiter plain_state) (hq_ip ?rq) (hq_monotonic ?rq) = (rl, True)"
    using rl by (simp add: plain_state_def plain_request_def)
  moreover have "hq_cookie ?rq = Some ''c''" "\<not> hq_in_process ?rq" "\<not> pn_must_change (session_principal root_user)"
    by (simp_all add: plain_request_def session_principal_def root_user_def)
  ultimately show ?thesis
    using empty_bearer_skips_csrf [of ?rq plain_lib "''c''" plain_state "pm_auth plain_state" "session_principal root_user" rl] by blast
qed

lemma hidden_members_are_the_unseen_witness:
  "hidden_member_ids [(7, Some 1)] (scope_for \<lparr>ip_address = (\<lambda>_. None :: nat option), ip_network = (\<lambda>_. None :: nat option),
      in_network = (\<lambda>_ _. False), fnmatchcase = (\<lambda>_ _. False)\<rparr> plain_state [] bot_principal) = {}"
  using hidden_members_are_the_unseen [of "[(7, Some 1)]" "\<lparr>ip_address = (\<lambda>_. None :: nat option), ip_network = (\<lambda>_. None :: nat option),
      in_network = (\<lambda>_ _. False), fnmatchcase = (\<lambda>_ _. False)\<rparr>" plain_state "[]" bot_principal]
  by (simp add: plain_state_def no_governance_def visible_nes_def UNRESTRICTED_def allows_ne_def bot_principal_def)


lemma perimeter_trail_verifies_witness:
  "verify_chain counting_env (Some \<lparr>index_key = [], pepper_key = []\<rparr>) (Inr None)
     (pm_audit (fst (security plain_lib plain_state (plain_request ''GET'' ''/api/audit'' ''Bearer tt'' None)))) =
   Inr (all_right (length (pm_audit (fst (security plain_lib plain_state (plain_request ''GET'' ''/api/audit'' ''Bearer tt'' None)))))
     (audit_last_hash (pm_audit (fst (security plain_lib plain_state (plain_request ''GET'' ''/api/audit'' ''Bearer tt'' None))))))"
  using perimeter_trail_verifies [of plain_lib "\<lparr>index_key = [], pepper_key = []\<rparr>" plain_state
      "[plain_request ''GET'' ''/api/audit'' ''Bearer tt'' None]" None]
  by (simp add: plain_lib_def plain_state_def)
end
