(* ===== verification/Spec2Isabelle.thy ===== *)
theory Spec2Isabelle
  imports Ber Spool_Log Intake_Crash Mw_Sweep Alternation Corr_Window Noc_Live Noc_Feed Noc_Kpi Perimeter
begin

text \<open>Skeleton.\<close>

end
